(* ===== verification/Prelude.thy ===== *)
theory Prelude
  imports Main "HOL-Library.Word"
begin

text \<open>
  Shared vocabulary of the development: the machine integers of the 32-bit x86 target, the result
  type of kernel code, first-match scans of fixed tables, and little-endian access to byte memory.

  Kernel code returns an \<open>outcome\<close>.  \<open>Ret v s\<close> is a normal return of \<open>v\<close> in state \<open>s\<close>;
  \<open>Panic msg s\<close> is a call of \<open>panic(msg)\<close> (src/console.c), which never returns;
  \<open>Spin l s\<close> is a processor that spins in \<open>acquire\<close> on a lock that another processor holds;
  \<open>Sleep s\<close> is a process that has just given up the processor inside \<open>sleep\<close>
  (src/proc.c): \<open>s\<close> is the state at the context switch; \<open>Diverge s\<close> is a loop that never ends.
\<close>

type_synonym u8 = "8 word"
type_synonym u16 = "16 word"
type_synonym u32 = "32 word"
type_synonym i32 = "32 word" \<comment> \<open>C \<open>int\<close>: two's complement, compared with \<open><s\<close> and \<open>\<le>s\<close>\<close>

named_theorems outcome_simps \<open>evaluation and inversion of outcomes\<close>
named_theorems wf_intros \<open>preservation of well-formedness\<close>

subsection \<open>Outcomes\<close>

datatype ('a, 'l, 's) outcome =
    Ret 'a 's
  | Panic string 's
  | Spin 'l 's
  | Sleep 's
  | Diverge 's

primrec andthen ::
  "('a, 'l, 's) outcome \<Rightarrow> ('a \<Rightarrow> 's \<Rightarrow> ('b, 'l, 's) outcome) \<Rightarrow> ('b, 'l, 's) outcome" where
  "andthen (Ret v s) f = f v s"
| "andthen (Panic m s) f = Panic m s"
| "andthen (Spin l s) f = Spin l s"
| "andthen (Sleep s) f = Sleep s"
| "andthen (Diverge s) f = Diverge s"

lemma andthen_Ret_iff [outcome_simps]:
  "andthen m f = Ret v t \<longleftrightarrow> (\<exists>u s. m = Ret u s \<and> f u s = Ret v t)"
  by (cases m) auto

lemma andthen_Panic_iff [outcome_simps]:
  "andthen m f = Panic p t \<longleftrightarrow> m = Panic p t \<or> (\<exists>u s. m = Ret u s \<and> f u s = Panic p t)"
  by (cases m) auto

lemma andthen_Spin_iff [outcome_simps]:
  "andthen m f = Spin l t \<longleftrightarrow> m = Spin l t \<or> (\<exists>u s. m = Ret u s \<and> f u s = Spin l t)"
  by (cases m) auto

lemma andthen_Sleep_iff [outcome_simps]:
  "andthen m f = Sleep t \<longleftrightarrow> m = Sleep t \<or> (\<exists>u s. m = Ret u s \<and> f u s = Sleep t)"
  by (cases m) auto

lemma andthen_Diverge_iff [outcome_simps]:
  "andthen m f = Diverge t \<longleftrightarrow> m = Diverge t \<or> (\<exists>u s. m = Ret u s \<and> f u s = Diverge t)"
  by (cases m) auto

lemma andthen_assoc:
  "andthen (andthen m f) g = andthen m (\<lambda>v s. andthen (f v s) g)"
  by (cases m) auto

lemma andthen_cong [fundef_cong]:
  "m = m' \<Longrightarrow> (\<And>v s. m' = Ret v s \<Longrightarrow> f v s = f' v s) \<Longrightarrow> andthen m f = andthen m' f'"
  by (cases m') auto

text \<open>The state a computation ends in, whatever its outcome.\<close>

primrec end_state :: "('a, 'l, 's) outcome \<Rightarrow> 's" where
  "end_state (Ret v s) = s"
| "end_state (Panic m s) = s"
| "end_state (Spin l s) = s"
| "end_state (Sleep s) = s"
| "end_state (Diverge s) = s"

subsection \<open>First-match scans of a table\<close>

text \<open>
  \<open>for(p = tab; p < &tab[N]; p++) if(P(p)) goto found;\<close> finds the least index whose entry
  satisfies \<open>P\<close>.
\<close>

fun scan :: "('a \<Rightarrow> bool) \<Rightarrow> 'a list \<Rightarrow> nat option" where
  "scan P [] = None"
| "scan P (x # xs) = (if P x then Some 0 else map_option Suc (scan P xs))"

lemma scan_None_iff [simp]: "scan P xs = None \<longleftrightarrow> (\<forall>x \<in> set xs. \<not> P x)"
  by (induction xs) auto

lemma scan_Some_iff:
  "scan P xs = Some i \<longleftrightarrow> i < length xs \<and> P (xs ! i) \<and> (\<forall>j < i. \<not> P (xs ! j))"
proof (induction xs arbitrary: i)
  case Nil
  then show ?case by simp
next
  case (Cons x xs)
  show ?case
  proof (cases i)
    case 0
    then show ?thesis by auto
  next
    case (Suc k)
    then show ?thesis by (auto simp: Cons.IH All_less_Suc2)
  qed
qed

lemma scan_SomeD:
  assumes "scan P xs = Some i"
  shows "i < length xs" "P (xs ! i)" "j < i \<Longrightarrow> \<not> P (xs ! j)"
  using assms by (auto simp: scan_Some_iff)

lemma scan_cong:
  "(\<And>x. x \<in> set xs \<Longrightarrow> P x = Q x) \<Longrightarrow> scan P xs = scan Q xs"
  by (induction xs) auto

subsection \<open>Lists updated by index\<close>

lemma set_list_update_cases:
  "x \<in> set (xs[i := y]) \<Longrightarrow> x = y \<or> x \<in> set xs"
  by (meson insertE set_update_subset_insert subsetD)

lemma length_filter_list_update:
  "i < length xs \<Longrightarrow> P (xs ! i) = P y \<Longrightarrow> length (filter P (xs[i := y])) = length (filter P xs)"
  by (induction xs arbitrary: i) (auto split: nat.splits)

lemma length_filter_list_update_gain:
  "i < length xs \<Longrightarrow> \<not> P (xs ! i) \<Longrightarrow> P y \<Longrightarrow>
   length (filter P (xs[i := y])) = Suc (length (filter P xs))"
  by (induction xs arbitrary: i) (auto split: nat.splits)

lemma length_filter_list_update_loss:
  "i < length xs \<Longrightarrow> P (xs ! i) \<Longrightarrow> \<not> P y \<Longrightarrow>
   Suc (length (filter P (xs[i := y]))) = length (filter P xs)"
  by (induction xs arbitrary: i) (auto split: nat.splits)

lemma map_list_update_id:
  "f y = f (xs ! i) \<Longrightarrow> map f (xs[i := y]) = map f xs"
  by (metis list_update_beyond list_update_id map_update not_le)

subsection \<open>Signed comparison of C integers\<close>

lemma zero_sless_sint: "(0::i32) <s w \<longleftrightarrow> 0 < sint w"
  by (simp add: word_sless_alt)

lemma sint_nonneg_unat:
  assumes "0 \<le> sint (w :: i32)"
  shows "sint w = int (unat w)"
proof -
  have "sint w < 2 ^ 31"
    using sint_lt [of w] by simp
  then have "take_bit 32 (sint w) = sint w"
    using assms by (simp add: take_bit_int_eq_self)
  then show ?thesis
    using uint_sint [of w] assms by (simp add: unat_eq_nat_uint)
qed

lemma sint_small_unat:
  assumes "unat (w :: i32) < 2 ^ 31"
  shows "sint w = int (unat w)"
proof -
  have "int (unat w) < int (2 ^ 31)"
    using assms by (simp only: of_nat_less_iff)
  then have "uint w < 2 ^ 31"
    by simp
  moreover have "- (2 ^ 31) \<le> uint w"
    by (rule order_trans [of _ 0]) simp_all
  ultimately have "signed_take_bit 31 (uint w) = uint w"
    by (rule signed_take_bit_int_eq_self [rotated])
  then show ?thesis
    by (simp add: sint_uint)
qed

lemma sless_small:
  fixes a b :: i32
  assumes "unat a < 2 ^ 31" "unat b < 2 ^ 31"
  shows "a <s b \<longleftrightarrow> unat a < unat b"
proof -
  have "a <s b \<longleftrightarrow> int (unat a) < int (unat b)"
    using assms by (simp only: word_sless_alt sint_small_unat)
  then show ?thesis by (simp only: of_nat_less_iff)
qed

end
