(* ===== verification/Spinlock.thy ===== *)
theory Spinlock
  imports Prelude
begin

text \<open>
  Spin locks and interrupt nesting (src/spinlock.c, src/spinlock.h, and \<open>mycpu\<close>, \<open>cpuid\<close> of
  src/proc.c).  The first part is the code of one processor as functions on the machine state:
  \<open>c\<close> is the executing processor.  A processor that would spin because another one holds the lock
  ends in \<open>Spin\<close>.  The second part is the same code as small steps of many processors, each atomic
  access of the lock word being one step, and shows mutual exclusion.

  The recorded call stack (\<open>pcs\<close>) is debugging output and is not part of the model.
\<close>

subsection \<open>State\<close>

datatype lockid =
    Lk_ptable | Lk_perf | Lk_ticks | Lk_kmem | Lk_cons | Lk_ide | Lk_bcache
  | Lk_ftable | Lk_icache | Lk_log | Lk_pipe u32 | Lk_sleep nat

record spinlock =
  lk_locked :: u32
  lk_name :: string
  lk_cpu :: "nat option"

record cpu =
  apicid :: u8
  started :: u32
  ncli :: int
  intena :: bool
  cproc :: "nat option"
  ts_esp0 :: u32 \<comment> \<open>kernel stack pointer in this processor's task state segment\<close>
  cr3 :: u32 \<comment> \<open>page-table register\<close>
  if_flag :: bool \<comment> \<open>the interrupt flag FL_IF of this processor's EFLAGS register\<close>

record mach =
  cpus :: "cpu list"
  locks :: "lockid \<Rightarrow> spinlock"

definition upd_cpu :: "nat \<Rightarrow> (cpu \<Rightarrow> cpu) \<Rightarrow> 'a mach_scheme \<Rightarrow> 'a mach_scheme" where
  "upd_cpu c f s = s\<lparr>cpus := (cpus s)[c := f (cpus s ! c)]\<rparr>"

definition upd_lock :: "lockid \<Rightarrow> (spinlock \<Rightarrow> spinlock) \<Rightarrow> 'a mach_scheme \<Rightarrow> 'a mach_scheme" where
  "upd_lock l f s = s\<lparr>locks := (locks s)(l := f (locks s l))\<rparr>"

subsection \<open>Operations\<close>

definition cli :: "nat \<Rightarrow> 'a mach_scheme \<Rightarrow> 'a mach_scheme" where
  "cli c = upd_cpu c (\<lambda>k. k\<lparr>if_flag := False\<rparr>)"

definition sti :: "nat \<Rightarrow> 'a mach_scheme \<Rightarrow> 'a mach_scheme" where
  "sti c = upd_cpu c (\<lambda>k. k\<lparr>if_flag := True\<rparr>)"

definition lapicid :: "nat \<Rightarrow> 'a mach_scheme \<Rightarrow> u8" where
  "lapicid c s = apicid (cpus s ! c)"

definition mycpu :: "nat \<Rightarrow> 'a mach_scheme \<Rightarrow> (nat, lockid, 'a mach_scheme) outcome" where
  "mycpu c s =
     (if if_flag (cpus s ! c) then Panic ''mycpu called with interrupts enabled'' s
      else case scan (\<lambda>k. apicid k = lapicid c s) (cpus s) of
             Some i \<Rightarrow> Ret i s
           | None \<Rightarrow> Panic ''unknown apicid'' s)"

definition cpuid :: "nat \<Rightarrow> 'a mach_scheme \<Rightarrow> (nat, lockid, 'a mach_scheme) outcome" where
  "cpuid c s = mycpu c s"

definition pushcli :: "nat \<Rightarrow> 'a mach_scheme \<Rightarrow> (unit, lockid, 'a mach_scheme) outcome" where
  "pushcli c s =
     (let eflags = if_flag (cpus s ! c) in
      andthen (mycpu c (cli c s)) (\<lambda>i s.
        let s = (if ncli (cpus s ! i) = 0 then upd_cpu i (\<lambda>k. k\<lparr>intena := eflags\<rparr>) s else s)
        in Ret () (upd_cpu i (\<lambda>k. k\<lparr>ncli := ncli k + 1\<rparr>) s)))"

definition popcli :: "nat \<Rightarrow> 'a mach_scheme \<Rightarrow> (unit, lockid, 'a mach_scheme) outcome" where
  "popcli c s =
     (if if_flag (cpus s ! c) then Panic ''popcli - interruptible'' s
      else andthen (mycpu c s) (\<lambda>i s.
        let s = upd_cpu i (\<lambda>k. k\<lparr>ncli := ncli k - 1\<rparr>) s in
        if ncli (cpus s ! i) < 0 then Panic ''popcli'' s
        else if ncli (cpus s ! i) = 0 \<and> intena (cpus s ! i) then Ret () (sti c s)
        else Ret () s))"

definition initlock :: "lockid \<Rightarrow> string \<Rightarrow> 'a mach_scheme \<Rightarrow> 'a mach_scheme" where
  "initlock l nm = upd_lock l (\<lambda>_. \<lparr>lk_locked = 0, lk_name = nm, lk_cpu = None\<rparr>)"

definition holding :: "nat \<Rightarrow> lockid \<Rightarrow> 'a mach_scheme \<Rightarrow> (bool, lockid, 'a mach_scheme) outcome" where
  "holding c l s =
     andthen (pushcli c s) (\<lambda>_ s.
     andthen (mycpu c s) (\<lambda>i s.
       let r = (lk_locked (locks s l) \<noteq> 0 \<and> lk_cpu (locks s l) = Some i) in
       andthen (popcli c s) (\<lambda>_ s. Ret r s)))"

text \<open>The atomic exchange on the lock word: the old value and the new state.\<close>

definition xchg_lock :: "lockid \<Rightarrow> u32 \<Rightarrow> 'a mach_scheme \<Rightarrow> u32 \<times> 'a mach_scheme" where
  "xchg_lock l v s = (lk_locked (locks s l), upd_lock l (\<lambda>k. k\<lparr>lk_locked := v\<rparr>) s)"

definition acquire :: "nat \<Rightarrow> lockid \<Rightarrow> 'a mach_scheme \<Rightarrow> (unit, lockid, 'a mach_scheme) outcome" where
  "acquire c l s =
     andthen (pushcli c s) (\<lambda>_ s.
     andthen (holding c l s) (\<lambda>h s.
       if h then Panic ''acquire'' s
       else let (old, s) = xchg_lock l 1 s in
         if old \<noteq> 0 then Spin l s
         else andthen (mycpu c s) (\<lambda>i s.
           Ret () (upd_lock l (\<lambda>k. k\<lparr>lk_cpu := Some i\<rparr>) s))))"

definition release :: "nat \<Rightarrow> lockid \<Rightarrow> 'a mach_scheme \<Rightarrow> (unit, lockid, 'a mach_scheme) outcome" where
  "release c l s =
     andthen (holding c l s) (\<lambda>h s.
       if \<not> h then Panic ''release'' s
       else popcli c (upd_lock l (\<lambda>k. k\<lparr>lk_cpu := None, lk_locked := 0\<rparr>) s))"

subsection \<open>What the operations do on a well-formed machine\<close>

definition cli_ok :: "cpu \<Rightarrow> bool" where
  "cli_ok k \<longleftrightarrow> 0 \<le> ncli k \<and> (if_flag k \<longrightarrow> ncli k = 0)"

definition on_cpu :: "nat \<Rightarrow> 'a mach_scheme \<Rightarrow> bool" where
  "on_cpu c s \<longleftrightarrow> c < length (cpus s) \<and> distinct (map apicid (cpus s)) \<and> cli_ok (cpus s ! c)"

definition holds :: "nat \<Rightarrow> lockid \<Rightarrow> 'a mach_scheme \<Rightarrow> bool" where
  "holds c l s \<longleftrightarrow> lk_locked (locks s l) \<noteq> 0 \<and> lk_cpu (locks s l) = Some c"

definition pushed :: "cpu \<Rightarrow> cpu" where
  "pushed k = k\<lparr>if_flag := False, intena := (if ncli k = 0 then if_flag k else intena k),
                ncli := ncli k + 1\<rparr>"

definition popped :: "cpu \<Rightarrow> cpu" where
  "popped k = k\<lparr>if_flag := (ncli k = 1 \<and> intena k), ncli := ncli k - 1\<rparr>"

text \<open>A matched \<open>pushcli\<close>/\<open>popcli\<close> pair leaves only the remembered flag changed.\<close>

definition settled :: "cpu \<Rightarrow> cpu" where
  "settled k = k\<lparr>intena := (if ncli k = 0 then if_flag k else intena k)\<rparr>"

lemma popped_pushed: "cli_ok k \<Longrightarrow> popped (pushed k) = settled k"
  by (auto simp: popped_def pushed_def settled_def cli_ok_def)

lemma settled_idem [simp]: "settled (settled k) = settled k"
  by (simp add: settled_def)

lemma pushed_settled [simp]: "pushed (settled k) = pushed k"
  by (simp add: settled_def pushed_def)

lemma settled_pushed [simp]: "0 \<le> ncli k \<Longrightarrow> settled (pushed k) = pushed k"
  by (simp add: settled_def pushed_def)

lemma cpu_fields_pushed [simp]:
  "apicid (pushed k) = apicid k" "cproc (pushed k) = cproc k" "\<not> if_flag (pushed k)"
  "ncli (pushed k) = ncli k + 1" "started (pushed k) = started k"
  "ts_esp0 (pushed k) = ts_esp0 k" "cr3 (pushed k) = cr3 k"
  by (simp_all add: pushed_def)

lemma cpu_fields_settled [simp]:
  "apicid (settled k) = apicid k" "cproc (settled k) = cproc k" "if_flag (settled k) = if_flag k"
  "ncli (settled k) = ncli k" "started (settled k) = started k"
  "ts_esp0 (settled k) = ts_esp0 k" "cr3 (settled k) = cr3 k"
  by (simp_all add: settled_def)

lemma cpu_fields_popped [simp]:
  "apicid (popped k) = apicid k" "cproc (popped k) = cproc k"
  "ncli (popped k) = ncli k - 1" "started (popped k) = started k"
  "ts_esp0 (popped k) = ts_esp0 k" "cr3 (popped k) = cr3 k"
  by (simp_all add: popped_def)

lemma cli_ok_pushed [simp]: "cli_ok k \<Longrightarrow> cli_ok (pushed k)"
  by (simp add: cli_ok_def)

lemma cli_ok_settled [simp]: "cli_ok (settled k) = cli_ok k"
  by (simp add: cli_ok_def)

lemma upd_cpu_simps [simp]:
  "cpus (upd_cpu c f s) = (cpus s)[c := f (cpus s ! c)]"
  "locks (upd_cpu c f s) = locks s"
  by (simp_all add: upd_cpu_def)

lemma upd_lock_simps [simp]:
  "cpus (upd_lock l f s) = cpus s"
  "locks (upd_lock l f s) = (locks s)(l := f (locks s l))"
  by (simp_all add: upd_lock_def)

lemma upd_cpu_comp [simp]:
  "c < length (cpus s) \<Longrightarrow> upd_cpu c f (upd_cpu c g s) = upd_cpu c (\<lambda>k. f (g k)) s"
  by (simp add: upd_cpu_def)

lemma upd_lock_comp [simp]: "upd_lock l f (upd_lock l g s) = upd_lock l (\<lambda>k. f (g k)) s"
  by (simp add: upd_lock_def)

lemma upd_cpu_lock_comm: "upd_lock l f (upd_cpu c g s) = upd_cpu c g (upd_lock l f s)"
  by (simp add: upd_cpu_def upd_lock_def)

lemma mycpu_self:
  assumes "c < length (cpus s)" "distinct (map apicid (cpus s))" "\<not> if_flag (cpus s ! c)"
  shows "mycpu c s = Ret c s"
proof -
  have "scan (\<lambda>k. apicid k = lapicid c s) (cpus s) = Some c"
    using assms by (auto simp: scan_Some_iff lapicid_def distinct_conv_nth)
  then show ?thesis
    using assms(3) by (simp add: mycpu_def)
qed

lemma distinct_apicid_upd:
  "distinct (map apicid ks) \<Longrightarrow> apicid k' = apicid (ks ! c) \<Longrightarrow> distinct (map apicid (ks[c := k']))"
  by (simp add: map_list_update_id)

lemma upd_cpu_cong:
  "f (cpus s ! c) = g (cpus s ! c) \<Longrightarrow> upd_cpu c f s = upd_cpu c g s"
  by (simp add: upd_cpu_def)

lemma pushcli_eq:
  assumes "on_cpu c s"
  shows "pushcli c s = Ret () (upd_cpu c pushed s)"
proof -
  have "mycpu c (cli c s) = Ret c (cli c s)"
    using assms by (intro mycpu_self) (auto simp: on_cpu_def cli_def distinct_apicid_upd)
  then show ?thesis
    using assms
    by (auto simp: pushcli_def cli_def on_cpu_def pushed_def Let_def intro!: upd_cpu_cong)
qed

lemma popcli_eq:
  assumes "c < length (cpus s)" "distinct (map apicid (cpus s))"
    and "\<not> if_flag (cpus s ! c)" "1 \<le> ncli (cpus s ! c)"
  shows "popcli c s = Ret () (upd_cpu c popped s)"
  using assms mycpu_self [OF assms(1-3)]
  by (auto simp: popcli_def Let_def sti_def popped_def intro!: upd_cpu_cong)

lemma holding_eq:
  assumes "on_cpu c s"
  shows "holding c l s = Ret (holds c l s) (upd_cpu c settled s)"
proof -
  let ?t = "upd_cpu c pushed s"
  have c: "c < length (cpus s)" "cli_ok (cpus s ! c)"
    using assms by (auto simp: on_cpu_def)
  have t: "c < length (cpus ?t)" "distinct (map apicid (cpus ?t))" "\<not> if_flag (cpus ?t ! c)"
      "1 \<le> ncli (cpus ?t ! c)"
    using assms by (auto simp: on_cpu_def cli_ok_def distinct_apicid_upd)
  have "popcli c ?t = Ret () (upd_cpu c settled s)"
    using c popcli_eq [OF t] by (auto simp: popped_pushed intro!: upd_cpu_cong)
  then show ?thesis
    using assms mycpu_self [OF t(1-3)] by (simp add: holding_def pushcli_eq holds_def)
qed

text \<open>The state right after a successful \<open>acquire\<close>.\<close>

definition entered :: "nat \<Rightarrow> lockid \<Rightarrow> 'a mach_scheme \<Rightarrow> 'a mach_scheme" where
  "entered c l s = upd_lock l (\<lambda>k. k\<lparr>lk_locked := 1, lk_cpu := Some c\<rparr>) (upd_cpu c pushed s)"

text \<open>The state right after a successful \<open>release\<close>.\<close>

definition left :: "nat \<Rightarrow> lockid \<Rightarrow> 'a mach_scheme \<Rightarrow> 'a mach_scheme" where
  "left c l s = upd_lock l (\<lambda>k. k\<lparr>lk_cpu := None, lk_locked := 0\<rparr>) (upd_cpu c popped s)"

lemma on_cpu_pushed: "on_cpu c s \<Longrightarrow> on_cpu c (upd_cpu c pushed s)"
  by (auto simp: on_cpu_def distinct_apicid_upd)

lemma on_cpu_settled: "on_cpu c s \<Longrightarrow> on_cpu c (upd_cpu c settled s)"
  by (auto simp: on_cpu_def distinct_apicid_upd)

lemma holding_pushed:
  assumes "on_cpu c s"
  shows "holding c l (upd_cpu c pushed s) = Ret (holds c l s) (upd_cpu c pushed s)"
proof -
  have "c < length (cpus s)" "0 \<le> ncli (cpus s ! c)"
    using assms by (auto simp: on_cpu_def cli_ok_def)
  then have "upd_cpu c (\<lambda>k. settled (pushed k)) s = upd_cpu c pushed s"
    by (intro upd_cpu_cong) simp
  then show ?thesis
    using assms holding_eq [OF on_cpu_pushed [OF assms]]
    by (simp add: on_cpu_def holds_def)
qed

lemma acquire_cases:
  assumes "on_cpu c s"
  shows "acquire c l s =
    (if holds c l s then Panic ''acquire'' (upd_cpu c pushed s)
     else if lk_locked (locks s l) \<noteq> 0 then
       Spin l (upd_lock l (\<lambda>k. k\<lparr>lk_locked := 1\<rparr>) (upd_cpu c pushed s))
     else Ret () (entered c l s))"
proof -
  let ?t = "upd_lock l (\<lambda>k. k\<lparr>lk_locked := 1\<rparr>) (upd_cpu c pushed s)"
  have "mycpu c ?t = Ret c ?t"
    using assms by (intro mycpu_self) (auto simp: on_cpu_def distinct_apicid_upd)
  then show ?thesis
    using assms
    by (simp add: acquire_def pushcli_eq holding_pushed xchg_lock_def entered_def)
qed

lemma acquire_free:
  "on_cpu c s \<Longrightarrow> lk_locked (locks s l) = 0 \<Longrightarrow> acquire c l s = Ret () (entered c l s)"
  by (simp add: acquire_cases holds_def)

lemma release_held:
  assumes "on_cpu c s" "holds c l s" "1 \<le> ncli (cpus s ! c)"
  shows "release c l s = Ret () (left c l s)"
proof -
  have c: "c < length (cpus s)" "\<not> if_flag (cpus s ! c)" "ncli (cpus s ! c) \<noteq> 0"
    using assms by (auto simp: on_cpu_def cli_ok_def)
  let ?t = "upd_lock l (\<lambda>k. k\<lparr>lk_cpu := None, lk_locked := 0\<rparr>) (upd_cpu c settled s)"
  have "upd_cpu c settled s = upd_cpu c id s"
    using c by (intro upd_cpu_cong) (simp add: settled_def)
  then have id: "upd_cpu c settled s = s"
    by (simp add: upd_cpu_def)
  have "popcli c ?t = Ret () (upd_cpu c popped ?t)"
    using assms c by (intro popcli_eq) (auto simp: on_cpu_def distinct_apicid_upd)
  then show ?thesis
    using assms by (simp add: release_def holding_eq left_def id upd_cpu_lock_comm)
qed

lemma release_not_held:
  "on_cpu c s \<Longrightarrow> \<not> holds c l s \<Longrightarrow> release c l s = Panic ''release'' (upd_cpu c settled s)"
  by (simp add: release_def holding_eq)

subsection \<open>The lock interface\<close>

text \<open>
  What a client of a lock relies on: a free lock is taken, a held lock is given back, and giving it
  back makes it free again.
\<close>

locale lock_protocol =
  fixes acq rel :: "'s \<Rightarrow> (unit, 'l, 's) outcome"
    and free held :: "'s \<Rightarrow> bool"
    and enter leave :: "'s \<Rightarrow> 's"
  assumes acq_free: "free s \<Longrightarrow> acq s = Ret () (enter s)"
    and held_enter: "free s \<Longrightarrow> held (enter s)"
    and rel_held: "held s \<Longrightarrow> rel s = Ret () (leave s)"
    and free_leave: "held s \<Longrightarrow> free (leave s)"
begin

lemma critical_section:
  assumes "free s" and "body (enter s) = Ret v t" and "held t"
  shows "andthen (acq s) (\<lambda>_ s. andthen (body s) (\<lambda>v s. andthen (rel s) (\<lambda>_ s. Ret v s)))
      = Ret v (leave t)"
    and "free (leave t)"
  using assms by (simp_all add: acq_free rel_held free_leave)

end

definition lock_free :: "nat \<Rightarrow> lockid \<Rightarrow> 'a mach_scheme \<Rightarrow> bool" where
  "lock_free c l s \<longleftrightarrow> on_cpu c s \<and> lk_locked (locks s l) = 0"

definition lock_held :: "nat \<Rightarrow> lockid \<Rightarrow> 'a mach_scheme \<Rightarrow> bool" where
  "lock_held c l s \<longleftrightarrow> on_cpu c s \<and> holds c l s \<and> 1 \<le> ncli (cpus s ! c)"

lemma on_cpu_entered: "on_cpu c s \<Longrightarrow> on_cpu c (entered c l s)"
  by (auto simp: on_cpu_def entered_def distinct_apicid_upd)

lemma lock_held_entered: "on_cpu c s \<Longrightarrow> lock_held c l (entered c l s)"
  using on_cpu_entered [of c s l]
  by (auto simp: lock_held_def holds_def entered_def on_cpu_def cli_ok_def)

lemma on_cpu_left: "on_cpu c s \<Longrightarrow> 1 \<le> ncli (cpus s ! c) \<Longrightarrow> on_cpu c (left c l s)"
  by (auto simp: on_cpu_def left_def cli_ok_def popped_def distinct_apicid_upd)

lemma lock_word_left: "lk_locked (locks (left c l s) l) = 0"
  by (simp add: left_def)

interpretation spin: lock_protocol "acquire c l" "release c l" "lock_free c l" "lock_held c l"
    "entered c l" "left c l" for c l
proof unfold_locales
  fix s :: "'a mach_scheme"
  show "lock_free c l s \<Longrightarrow> acquire c l s = Ret () (entered c l s)"
    by (simp add: lock_free_def acquire_free)
  show "lock_free c l s \<Longrightarrow> lock_held c l (entered c l s)"
    by (simp add: lock_free_def lock_held_entered)
  show "lock_held c l s \<Longrightarrow> release c l s = Ret () (left c l s)"
    by (simp add: lock_held_def release_held)
  show "lock_held c l s \<Longrightarrow> lock_free c l (left c l s)"
    by (simp add: lock_free_def lock_held_def on_cpu_left lock_word_left)
qed

text \<open>A whole critical section that leaves the lock word alone only settles the interrupt flag.\<close>

lemma left_entered:
  assumes "on_cpu c s" "lk_locked (locks s l) = 0" "lk_cpu (locks s l) = None"
  shows "left c l (entered c l s) = upd_cpu c settled s"
proof -
  have "c < length (cpus s)" "popped (pushed (cpus s ! c)) = settled (cpus s ! c)"
    using assms by (auto simp: on_cpu_def popped_pushed)
  moreover have "(locks s l)\<lparr>lk_cpu := None, lk_locked := 0\<rparr> = locks s l"
    using assms by simp
  ultimately show ?thesis
    by (simp add: left_def entered_def upd_cpu_def upd_lock_def fun_upd_idem)
qed

subsection \<open>Critical sections as atomic steps\<close>

text \<open>
  Code between \<open>acquire\<close> and \<open>release\<close> that touches neither the lock nor the processor runs as one
  atomic step: the section equals the plain state change, up to the settled interrupt flag.
\<close>

definition lock_clear :: "lockid \<Rightarrow> 'a mach_scheme \<Rightarrow> bool" where
  "lock_clear l s \<longleftrightarrow> lk_locked (locks s l) = 0 \<and> lk_cpu (locks s l) = None"

definition settle :: "nat \<Rightarrow> 'a mach_scheme \<Rightarrow> 'a mach_scheme" where
  "settle c = upd_cpu c settled"

definition inside_cs :: "nat \<Rightarrow> 'a mach_scheme \<Rightarrow> bool" where
  "inside_cs c s \<longleftrightarrow> on_cpu c s \<and> 1 \<le> ncli (cpus s ! c)"

text \<open>No lock is held, and processor \<open>c\<close> is executing.\<close>

definition quiet :: "nat \<Rightarrow> 'a mach_scheme \<Rightarrow> bool" where
  "quiet c s \<longleftrightarrow> on_cpu c s \<and> (\<forall>l. lock_clear l s)"

lemma settle_fields [simp]:
  "locks (settle c s) = locks s" "length (cpus (settle c s)) = length (cpus s)"
  by (simp_all add: settle_def)

lemma settle_idem [simp]: "settle c (settle c s) = settle c s"
proof (cases "c < length (cpus s)")
  case True
  then show ?thesis by (simp add: settle_def)
next
  case False
  then show ?thesis by (simp add: settle_def upd_cpu_def list_update_beyond)
qed

lemma settle_inside: "inside_cs c s \<Longrightarrow> settle c s = s"
  by (simp add: settle_def upd_cpu_def settled_def inside_cs_def)

lemma quiet_settle [simp]: "quiet c s \<Longrightarrow> quiet c (settle c s)"
  by (auto simp: quiet_def lock_clear_def settle_def on_cpu_settled)

lemma quiet_clear: "quiet c s \<Longrightarrow> lock_clear l s"
  by (simp add: quiet_def)

lemma inside_entered: "on_cpu c s \<Longrightarrow> inside_cs c (entered c l s)"
  using lock_held_entered [of c s l] by (simp add: inside_cs_def lock_held_def)

lemma lock_clear_entered: "l' \<noteq> l \<Longrightarrow> lock_clear l' (entered c l s) = lock_clear l' s"
  by (simp add: lock_clear_def entered_def)

lemma section_general:
  assumes on: "on_cpu c s" and cl: "lock_clear l s"
    and f: "\<And>k ls. f (s\<lparr>cpus := k, locks := ls\<rparr>) = (f s)\<lparr>cpus := k, locks := ls\<rparr>"
  shows "acquire c l s = Ret () (entered c l s)"
    and "lock_held c l (f (entered c l s))"
    and "left c l (f (entered c l s)) = settle c (f s)"
proof -
  let ?K = "(cpus s)[c := pushed (cpus s ! c)]"
  let ?L = "(locks s)(l := (locks s l)\<lparr>lk_locked := 1, lk_cpu := Some c\<rparr>)"
  have ent: "entered c l s = s\<lparr>cpus := ?K, locks := ?L\<rparr>"
    by (simp add: entered_def upd_cpu_def upd_lock_def)
  have "f s = (f s)\<lparr>cpus := cpus s, locks := locks s\<rparr>"
    using f [where k = "cpus s" and ls = "locks s"] by simp
  then have same: "cpus (f s) = cpus s" "locks (f s) = locks s"
    by (metis (no_types, lifting) mach.select_convs mach.surjective mach.update_convs)+
  show "acquire c l s = Ret () (entered c l s)"
    using on cl by (simp add: acquire_free lock_clear_def)
  have "lock_held c l (entered c l s)"
    by (rule lock_held_entered [OF on])
  then show "lock_held c l (f (entered c l s))"
    by (auto simp: ent f lock_held_def on_cpu_def holds_def)
  have len: "c < length (cpus s)" and pp: "popped (pushed (cpus s ! c)) = settled (cpus s ! c)"
    using on by (auto simp: on_cpu_def popped_pushed)
  have lk: "(locks s l)\<lparr>lk_cpu := None, lk_locked := 0\<rparr> = locks s l"
    using cl by (simp add: lock_clear_def)
  have "left c l (f (entered c l s)) =
      (f s)\<lparr>cpus := (cpus s)[c := settled (cpus s ! c)], locks := locks s\<rparr>"
    using len pp lk by (simp add: ent f left_def upd_cpu_def upd_lock_def fun_upd_idem)
  also have "\<dots> = settle c (f s)"
    using same by (simp add: settle_def upd_cpu_def)
  finally show "left c l (f (entered c l s)) = settle c (f s)" .
qed

lemma section_run:
  assumes "on_cpu c s" "lock_clear l s"
    and "\<And>k ls. f (s\<lparr>cpus := k, locks := ls\<rparr>) = (f s)\<lparr>cpus := k, locks := ls\<rparr>"
    and "\<And>k ls. g (s\<lparr>cpus := k, locks := ls\<rparr>) = g s"
  shows "andthen (acquire c l s) (\<lambda>_ s. andthen (release c l (f s)) (g s)) = g s () (settle c (f s))"
proof -
  note sec = section_general [of c s l f, OF assms(1-3)]
  have "g (entered c l s) = g s"
    using assms(4) by (simp add: entered_def upd_cpu_def upd_lock_def)
  then show ?thesis
    using sec by (simp add: spin.rel_held)
qed

lemma section_end:
  assumes "on_cpu c s" "lock_clear l s"
    and "\<And>k ls. f (s\<lparr>cpus := k, locks := ls\<rparr>) = (f s)\<lparr>cpus := k, locks := ls\<rparr>"
  shows "andthen (acquire c l s) (\<lambda>_ s. release c l (f s)) = Ret () (settle c (f s))"
  using section_general [of c s l f, OF assms] by (simp add: spin.rel_held)

subsection \<open>Many processors: the lock word as a shared variable\<close>

text \<open>
  One lock and any number of processors.  Each processor is at one of five points of the pair
  \<open>acquire\<close> \<dots> \<open>release\<close>: outside, spinning on the exchange, past the exchange but before the owner
  is recorded, in the critical section, and past the clearing of the owner but before the lock word
  is cleared.  Every step is one atomic access of src/spinlock.c.
\<close>

datatype lock_pc = Outside | Spinning | Won | Critical | Clearing

record lock_sys =
  word :: u32
  owner :: "nat option"
  pc :: "nat \<Rightarrow> lock_pc"

definition lock_sys_init :: lock_sys where
  "lock_sys_init = \<lparr>word = 0, owner = None, pc = (\<lambda>_. Outside)\<rparr>"

inductive lock_step :: "lock_sys \<Rightarrow> lock_sys \<Rightarrow> bool" where
  enter: "pc s c = Outside \<Longrightarrow> \<not> (word s \<noteq> 0 \<and> owner s = Some c) \<Longrightarrow>
     lock_step s (s\<lparr>pc := (pc s)(c := Spinning)\<rparr>)"
| spin: "pc s c = Spinning \<Longrightarrow> word s \<noteq> 0 \<Longrightarrow> lock_step s (s\<lparr>word := 1\<rparr>)"
| win: "pc s c = Spinning \<Longrightarrow> word s = 0 \<Longrightarrow>
     lock_step s (s\<lparr>word := 1, pc := (pc s)(c := Won)\<rparr>)"
| record_owner: "pc s c = Won \<Longrightarrow>
     lock_step s (s\<lparr>owner := Some c, pc := (pc s)(c := Critical)\<rparr>)"
| clear_owner: "pc s c = Critical \<Longrightarrow> word s \<noteq> 0 \<Longrightarrow> owner s = Some c \<Longrightarrow>
     lock_step s (s\<lparr>owner := None, pc := (pc s)(c := Clearing)\<rparr>)"
| clear_word: "pc s c = Clearing \<Longrightarrow> lock_step s (s\<lparr>word := 0, pc := (pc s)(c := Outside)\<rparr>)"

inductive lock_reachable :: "lock_sys \<Rightarrow> bool" where
  start: "lock_reachable lock_sys_init"
| step: "lock_reachable s \<Longrightarrow> lock_step s t \<Longrightarrow> lock_reachable t"

inductive_simps lock_step_simps: "lock_step s t"

primrec inside :: "lock_pc \<Rightarrow> bool" where
  "inside Outside = False"
| "inside Spinning = False"
| "inside Won = True"
| "inside Critical = True"
| "inside Clearing = True"

definition lock_idle :: "lock_sys \<Rightarrow> bool" where
  "lock_idle s \<longleftrightarrow> word s = 0 \<and> owner s = None \<and> (\<forall>d. \<not> inside (pc s d))"

definition lock_busy :: "nat \<Rightarrow> lock_sys \<Rightarrow> bool" where
  "lock_busy c s \<longleftrightarrow> word s \<noteq> 0 \<and> inside (pc s c) \<and> (\<forall>d. d \<noteq> c \<longrightarrow> \<not> inside (pc s d)) \<and>
     owner s = (if pc s c = Critical then Some c else None)"

definition lock_inv :: "lock_sys \<Rightarrow> bool" where
  "lock_inv s \<longleftrightarrow> lock_idle s \<or> (\<exists>c. lock_busy c s)"

lemma lock_inv_init: "lock_inv lock_sys_init"
  by (simp add: lock_inv_def lock_idle_def lock_sys_init_def)

lemma lock_busyD:
  "lock_busy c s \<Longrightarrow> inside (pc s d) \<Longrightarrow> d = c"
  by (auto simp: lock_busy_def)

lemma lock_inv_inside:
  "lock_inv s \<Longrightarrow> inside (pc s c) \<Longrightarrow> lock_busy c s"
  using lock_busyD by (auto simp: lock_inv_def lock_idle_def)

lemma lock_step_inv:
  assumes "lock_step s t" "lock_inv s"
  shows "lock_inv t"
  using assms
proof (induction rule: lock_step.induct)
  case (enter s c)
  then consider "lock_idle s" | b where "lock_busy b s" by (auto simp: lock_inv_def)
  then show ?case
  proof cases
    case 1
    then show ?thesis by (simp add: lock_inv_def lock_idle_def)
  next
    case 2
    with enter have "lock_busy b (s\<lparr>pc := (pc s)(c := Spinning)\<rparr>)"
      by (auto simp: lock_busy_def)
    then show ?thesis by (auto simp: lock_inv_def)
  qed
next
  case (spin s c)
  then obtain b where "lock_busy b s" by (auto simp: lock_inv_def lock_idle_def)
  then have "lock_busy b (s\<lparr>word := 1\<rparr>)" by (simp add: lock_busy_def)
  then show ?case by (auto simp: lock_inv_def)
next
  case (win s c)
  then have "lock_idle s" by (auto simp: lock_inv_def lock_busy_def)
  then have "lock_busy c (s\<lparr>word := 1, pc := (pc s)(c := Won)\<rparr>)"
    by (simp add: lock_idle_def lock_busy_def)
  then show ?case by (auto simp: lock_inv_def)
next
  case (record_owner s c)
  then have "lock_busy c s" by (simp add: lock_inv_inside)
  then have "lock_busy c (s\<lparr>owner := Some c, pc := (pc s)(c := Critical)\<rparr>)"
    by (simp add: lock_busy_def)
  then show ?case by (auto simp: lock_inv_def)
next
  case (clear_owner s c)
  then have "lock_busy c s" by (simp add: lock_inv_inside)
  then have "lock_busy c (s\<lparr>owner := None, pc := (pc s)(c := Clearing)\<rparr>)"
    by (simp add: lock_busy_def)
  then show ?case by (auto simp: lock_inv_def)
next
  case (clear_word s c)
  then have "lock_busy c s" by (simp add: lock_inv_inside)
  with clear_word have "lock_idle (s\<lparr>word := 0, pc := (pc s)(c := Outside)\<rparr>)"
    by (simp add: lock_busy_def lock_idle_def)
  then show ?case by (simp add: lock_inv_def)
qed

lemma lock_reachable_inv: "lock_reachable s \<Longrightarrow> lock_inv s"
  by (induction rule: lock_reachable.induct) (auto intro: lock_inv_init lock_step_inv)


subsection \<open>The functions are runs of the small steps\<close>

definition lock_view :: "lockid \<Rightarrow> 'a mach_scheme \<Rightarrow> (nat \<Rightarrow> lock_pc) \<Rightarrow> lock_sys" where
  "lock_view l s p = \<lparr>word = lk_locked (locks s l), owner = lk_cpu (locks s l), pc = p\<rparr>"

lemma entered_steps:
  assumes "p c = Outside" "lk_locked (locks s l) = 0"
  shows "lock_step\<^sup>*\<^sup>* (lock_view l s p) (lock_view l (entered c l s) (p(c := Critical)))"
proof -
  let ?v = "lock_view l s p"
  let ?v1 = "?v\<lparr>pc := p(c := Spinning)\<rparr>"
  let ?v2 = "?v1\<lparr>word := 1, pc := p(c := Won)\<rparr>"
  have 1: "lock_step ?v ?v1"
    using lock_step.enter [of ?v c] assms by (simp add: lock_view_def)
  have 2: "lock_step ?v1 ?v2"
    using lock_step.win [of ?v1 c] assms by (simp add: lock_view_def)
  have "lock_step ?v2 (?v2\<lparr>owner := Some c, pc := p(c := Critical)\<rparr>)"
    using lock_step.record_owner [of ?v2 c] by (simp add: lock_view_def)
  also have "?v2\<lparr>owner := Some c, pc := p(c := Critical)\<rparr> = lock_view l (entered c l s) (p(c := Critical))"
    by (simp add: lock_view_def entered_def)
  finally show ?thesis
    using 1 2 by (meson rtranclp.rtrancl_into_rtrancl rtranclp.rtrancl_refl)
qed

lemma left_steps:
  assumes "p c = Critical" "holds c l s"
  shows "lock_step\<^sup>*\<^sup>* (lock_view l s p) (lock_view l (left c l s) (p(c := Outside)))"
proof -
  let ?v = "lock_view l s p"
  let ?v1 = "?v\<lparr>owner := None, pc := p(c := Clearing)\<rparr>"
  have 1: "lock_step ?v ?v1"
    using lock_step.clear_owner [of ?v c] assms by (simp add: lock_view_def holds_def)
  have "lock_step ?v1 (?v1\<lparr>word := 0, pc := p(c := Outside)\<rparr>)"
    using lock_step.clear_word [of ?v1 c] by (simp add: lock_view_def)
  also have "?v1\<lparr>word := 0, pc := p(c := Outside)\<rparr> = lock_view l (left c l s) (p(c := Outside))"
    by (simp add: lock_view_def left_def)
  finally show ?thesis
    using 1 by (meson rtranclp.rtrancl_into_rtrancl rtranclp.rtrancl_refl)
qed

subsection \<open>Nested pushes\<close>

primrec times :: "nat \<Rightarrow> ('s \<Rightarrow> (unit, 'l, 's) outcome) \<Rightarrow> 's \<Rightarrow> (unit, 'l, 's) outcome" where
  "times 0 f s = Ret () s"
| "times (Suc n) f s = andthen (f s) (\<lambda>_ s. times n f s)"

lemma times_Suc_end: "times (Suc n) f s = andthen (times n f s) (\<lambda>_ s. f s)"
proof (induction n arbitrary: s)
  case 0
  then show ?case by (cases "f s") auto
next
  case (Suc n)
  show ?case
  proof (cases "f s")
    case (Ret v t)
    then show ?thesis using Suc [of t] by simp
  qed auto
qed

lemma pushes:
  "on_cpu c s \<Longrightarrow> times n (pushcli c) s = Ret () (upd_cpu c (pushed ^^ n) s) \<and>
     on_cpu c (upd_cpu c (pushed ^^ n) s)"
proof (induction n)
  case 0
  then show ?case by (simp add: upd_cpu_def)
next
  case (Suc n)
  then have s: "times n (pushcli c) s = Ret () (upd_cpu c (pushed ^^ n) s)"
      "on_cpu c (upd_cpu c (pushed ^^ n) s)" "c < length (cpus s)"
    by (auto simp: on_cpu_def)
  then have "upd_cpu c pushed (upd_cpu c (pushed ^^ n) s) = upd_cpu c (pushed ^^ Suc n) s"
    by (simp add: comp_def)
  with s show ?case
    using on_cpu_pushed [OF s(2)] by (simp only: times_Suc_end andthen.simps pushcli_eq)
qed

lemma ncli_pushes [simp]: "ncli ((pushed ^^ n) k) = ncli k + int n"
  by (induction n) auto

lemma pops:
  "on_cpu c s \<Longrightarrow> times n (popcli c) (upd_cpu c (pushed ^^ n) s) =
     Ret () (if n = 0 then s else settle c s)"
proof (induction n)
  case 0
  then show ?case by (simp add: upd_cpu_def)
next
  case (Suc n)
  let ?t = "upd_cpu c (pushed ^^ n) s"
  have t: "on_cpu c ?t" "c < length (cpus s)"
    using Suc.prems pushes [of c s n] by (auto simp: on_cpu_def)
  let ?u = "upd_cpu c (pushed ^^ Suc n) s"
  have u: "?u = upd_cpu c pushed ?t"
    using t(2) by (simp add: comp_def)
  have "popcli c ?u = Ret () (upd_cpu c popped ?u)"
    using t on_cpu_pushed [OF t(1)] unfolding u
    by (intro popcli_eq) (auto simp: on_cpu_def cli_ok_def)
  also have "upd_cpu c popped ?u = settle c ?t"
    unfolding u using t by (auto simp: settle_def on_cpu_def popped_pushed intro!: upd_cpu_cong)
  finally have pop: "popcli c ?u = Ret () (settle c ?t)" .
  show ?case
  proof (cases n)
    case 0
    then show ?thesis using pop by (simp add: upd_cpu_def settle_def)
  next
    case (Suc m)
    then have "settle c ?t = ?t"
      using t Suc.prems by (intro settle_inside) (auto simp: inside_cs_def on_cpu_def cli_ok_def)
    then have "popcli c ?u = Ret () ?t"
      using pop by simp
    then have "times (Suc n) (popcli c) ?u = times n (popcli c) ?t"
      by (simp only: times.simps(2) andthen.simps)
    then show ?thesis
      using Suc.IH [OF Suc.prems] \<open>n = Suc m\<close> by (simp only: nat.simps if_False)
  qed
qed

subsection \<open>Properties\<close>

text \<open>A machine with two processors, all locks free and interrupts on, for concrete instances.\<close>

definition cpu_at :: "u8 \<Rightarrow> cpu" where
  "cpu_at i = \<lparr>apicid = i, started = 1, ncli = 0, intena = False, cproc = None, ts_esp0 = 0,
     cr3 = 0, if_flag = True\<rparr>"

definition free_lock :: spinlock where
  "free_lock = \<lparr>lk_locked = 0, lk_name = [], lk_cpu = None\<rparr>"

definition two_cpus :: mach where
  "two_cpus = \<lparr>cpus = [cpu_at 0, cpu_at 1], locks = (\<lambda>_. free_lock)\<rparr>"

lemma on_two_cpus: "c < 2 \<Longrightarrow> on_cpu c two_cpus"
  by (auto simp: on_cpu_def two_cpus_def cpu_at_def cli_ok_def less_2_cases_iff)

text \<open>
  C2.  Mutual exclusion.  However any number of processors interleave the atomic steps of
  \<open>acquire\<close> and \<open>release\<close> on one lock, at most one of them is past the exchange and not yet past the
  clearing of the lock word; and \<open>holding\<close> (word set and owner recorded) is true on a processor
  exactly while that processor is in its critical section.
\<close>

theorem mutual_exclusion:
  assumes "lock_reachable s"
  shows "(inside (pc s c) \<and> inside (pc s d) \<longrightarrow> c = d) \<and>
    ((word s \<noteq> 0 \<and> owner s = Some c) = (pc s c = Critical))"
proof -
  have "lock_inv s" by (rule lock_reachable_inv [OF assms])
  then consider "lock_idle s" | b where "lock_busy b s" by (auto simp: lock_inv_def)
  then show ?thesis
  proof cases
    case 1
    then have "\<not> inside (pc s c)" "word s = 0" by (simp_all add: lock_idle_def)
    then show ?thesis by (cases "pc s c") simp_all
  next
    case 2
    then have b: "inside (pc s e) \<Longrightarrow> e = b" for e by (rule lock_busyD)
    show ?thesis
    proof (cases "c = b")
      case True
      then show ?thesis using 2 b [of d] by (simp add: lock_busy_def)
    next
      case False
      then have "pc s c \<noteq> Critical" "owner s \<noteq> Some c" "\<not> inside (pc s c)"
        using 2 b [of c] by (auto simp: lock_busy_def)
      then show ?thesis by simp
    qed
  qed
qed

theorem mutual_exclusion_witness:
  "let s = lock_sys_init\<lparr>word := 1, pc := (\<lambda>_. Outside)(1 := Spinning, 0 := Won)\<rparr> in
   lock_reachable s \<and> pc s 1 = Spinning \<and> (inside (pc s 0) \<and> inside (pc s 1) \<longrightarrow> (0::nat) = 1)"
proof -
  let ?a = "lock_sys_init\<lparr>pc := (\<lambda>_. Outside)(0 := Spinning)\<rparr>"
  let ?b = "lock_sys_init\<lparr>pc := (\<lambda>_. Outside)(1 := Spinning, 0 := Spinning)\<rparr>"
  let ?s = "lock_sys_init\<lparr>word := 1, pc := (\<lambda>_. Outside)(1 := Spinning, 0 := Won)\<rparr>"
  have 1: "lock_step lock_sys_init ?a"
    using lock_step.enter [of lock_sys_init 0] by (simp add: lock_sys_init_def)
  have 2: "lock_step ?a ?b"
    using lock_step.enter [of ?a 1] by (simp add: lock_sys_init_def fun_upd_twist)
  have 3: "lock_step ?b ?s"
    using lock_step.win [of ?b 0] by (simp add: lock_sys_init_def)
  have r: "lock_reachable ?s"
    by (rule lock_reachable.step [OF lock_reachable.step [OF lock_reachable.step [OF
          lock_reachable.start 1] 2] 3])
  then show ?thesis
    using mutual_exclusion [OF r, of 0 1] unfolding Let_def by simp
qed

text \<open>
  C20.  The functions \<open>acquire\<close> and \<open>release\<close> refine the interleaved protocol: a successful call on
  one processor is a sequence of its atomic steps that ends in, respectively leaves, the critical
  section.
\<close>

theorem lock_functions_refine_steps:
  assumes "on_cpu c s"
  shows "(acquire c l s = Ret u t \<and> p c = Outside \<longrightarrow>
       lock_step\<^sup>*\<^sup>* (lock_view l s p) (lock_view l t (p(c := Critical)))) \<and>
    (release c l s = Ret u t \<and> p c = Critical \<and> 1 \<le> ncli (cpus s ! c) \<longrightarrow>
       lock_step\<^sup>*\<^sup>* (lock_view l s p) (lock_view l t (p(c := Outside))))"
proof (intro conjI impI)
  assume "acquire c l s = Ret u t \<and> p c = Outside"
  then show "lock_step\<^sup>*\<^sup>* (lock_view l s p) (lock_view l t (p(c := Critical)))"
    using assms by (auto simp: acquire_cases entered_steps split: if_splits)
next
  assume a: "release c l s = Ret u t \<and> p c = Critical \<and> 1 \<le> ncli (cpus s ! c)"
  then have "holds c l s"
    using assms release_not_held [of c s l] by (cases "holds c l s") auto
  then show "lock_step\<^sup>*\<^sup>* (lock_view l s p) (lock_view l t (p(c := Outside)))"
    using a assms by (auto simp: release_held left_steps)
qed

theorem lock_functions_refine_steps_witness:
  "on_cpu 0 two_cpus \<and> acquire 0 Lk_ptable two_cpus = Ret () (entered 0 Lk_ptable two_cpus) \<and>
   lock_step\<^sup>*\<^sup>* (lock_view Lk_ptable two_cpus (\<lambda>_. Outside))
     (lock_view Lk_ptable (entered 0 Lk_ptable two_cpus) ((\<lambda>_. Outside)(0 := Critical)))"
proof -
  have a: "acquire 0 Lk_ptable two_cpus = Ret () (entered 0 Lk_ptable two_cpus)"
    by (rule acquire_free) (auto simp: on_two_cpus, simp add: two_cpus_def free_lock_def)
  then show ?thesis
    using lock_functions_refine_steps [OF on_two_cpus, of 0 Lk_ptable "()" _ "\<lambda>_. Outside"]
    by (simp add: on_two_cpus)
qed

text \<open>
  What \<open>acquire\<close> does in every case: it panics if this processor already holds the lock, spins
  (with interrupts off) if another processor has it, and otherwise returns holding it, with
  interrupts off and one more level of nesting.  \<open>release\<close> panics unless this processor holds it.
\<close>

theorem acquire_release_behaviour:
  assumes "on_cpu c s"
  shows "(holds c l s \<longrightarrow> (\<exists>t. acquire c l s = Panic ''acquire'' t)) \<and>
    (\<not> holds c l s \<and> lk_locked (locks s l) \<noteq> 0 \<longrightarrow>
       (\<exists>t. acquire c l s = Spin l t \<and> \<not> if_flag (cpus t ! c))) \<and>
    (lk_locked (locks s l) = 0 \<longrightarrow>
       (\<exists>t. acquire c l s = Ret () t \<and> holds c l t \<and> \<not> if_flag (cpus t ! c) \<and>
          ncli (cpus t ! c) = ncli (cpus s ! c) + 1 \<and> (\<forall>l'. l' \<noteq> l \<longrightarrow> locks t l' = locks s l'))) \<and>
    (\<not> holds c l s \<longrightarrow> (\<exists>t. release c l s = Panic ''release'' t))"
  using assms
  by (auto simp: acquire_cases release_not_held holds_def entered_def on_cpu_def)

theorem acquire_release_behaviour_witness:
  "on_cpu 1 two_cpus \<and> (\<exists>t. acquire 1 Lk_kmem two_cpus = Ret () t \<and> holds 1 Lk_kmem t) \<and>
   (\<exists>t. release 1 Lk_kmem two_cpus = Panic ''release'' t)"
proof -
  have on: "on_cpu 1 two_cpus" by (rule on_two_cpus) simp
  have "lk_locked (locks two_cpus Lk_kmem) = 0" "\<not> holds 1 Lk_kmem two_cpus"
    by (simp_all add: two_cpus_def free_lock_def holds_def)
  then show ?thesis
    using on acquire_release_behaviour [OF on, of Lk_kmem] by blast
qed

text \<open>
  \<open>pushcli\<close> and \<open>popcli\<close> are matched: \<open>n\<close> pushes and \<open>n\<close> pops give back the interrupt flag and
  the nesting depth the processor had, and after \<open>m < n\<close> of the pops interrupts are still off.
\<close>

theorem pushcli_popcli_matched:
  assumes "on_cpu c s" "m < n"
  shows "(\<exists>t. andthen (times n (pushcli c) s) (\<lambda>_ s. times n (popcli c) s) = Ret () t \<and>
        if_flag (cpus t ! c) = if_flag (cpus s ! c) \<and> ncli (cpus t ! c) = ncli (cpus s ! c) \<and>
        locks t = locks s) \<and>
    (\<exists>t. andthen (times n (pushcli c) s) (\<lambda>_ s. times m (popcli c) s) = Ret () t \<and>
        \<not> if_flag (cpus t ! c))"
proof -
  have c: "c < length (cpus s)" using assms(1) by (simp add: on_cpu_def)
  let ?t = "upd_cpu c (pushed ^^ (n - m)) s"
  have t: "on_cpu c ?t" using pushes [OF assms(1)] by simp
  have "pushed ^^ n = (\<lambda>k. (pushed ^^ m) ((pushed ^^ (n - m)) k))"
    using funpow_add [of m "n - m" pushed] assms(2) by (simp add: comp_def)
  then have split: "upd_cpu c (pushed ^^ n) s = upd_cpu c (pushed ^^ m) ?t"
    using c by simp
  have "settle c ?t = ?t"
    using t assms c by (intro settle_inside) (auto simp: inside_cs_def on_cpu_def cli_ok_def)
  then have m: "times m (popcli c) (upd_cpu c (pushed ^^ n) s) = Ret () ?t"
    using pops [OF t, of m] by (simp only: split if_cancel)
  have off: "\<not> if_flag (cpus ?t ! c)"
    using c assms(2) by (cases "n - m") (simp_all only: upd_cpu_simps(1) nth_list_update_eq, simp)
  have n: "times n (popcli c) (upd_cpu c (pushed ^^ n) s) = Ret () (settle c s)"
    using pops [OF assms(1), of n] assms(2) by simp
  have push: "times n (pushcli c) s = Ret () (upd_cpu c (pushed ^^ n) s)"
    using pushes [OF assms(1), of n] by blast
  show ?thesis
    unfolding push andthen.simps n m
  proof (rule conjI)
    show "\<exists>t. Ret () (settle c s) = Ret () t \<and> if_flag (cpus t ! c) = if_flag (cpus s ! c) \<and>
        ncli (cpus t ! c) = ncli (cpus s ! c) \<and> locks t = locks s"
      using c by (intro exI [of _ "settle c s"]) (simp add: settle_def)
    show "\<exists>t. Ret () ?t = Ret () t \<and> \<not> if_flag (cpus t ! c)"
      using off by blast
  qed
qed

theorem pushcli_popcli_matched_witness:
  "on_cpu 0 two_cpus \<and>
   (\<exists>t. andthen (times 2 (pushcli 0) two_cpus) (\<lambda>_ s. times 2 (popcli 0) s) = Ret () t \<and>
      if_flag (cpus t ! 0)) \<and>
   (\<exists>t. andthen (times 2 (pushcli 0) two_cpus) (\<lambda>_ s. times 1 (popcli 0) s) = Ret () t \<and>
      \<not> if_flag (cpus t ! 0))"
proof -
  have on: "on_cpu 0 two_cpus" by (rule on_two_cpus) simp
  have lt: "1 < (2 :: nat)" by simp
  have "if_flag (cpus two_cpus ! 0)" by (simp add: two_cpus_def cpu_at_def)
  then show ?thesis
    using on pushcli_popcli_matched [OF on lt] by metis
qed

end
