(* ===== verification/Memory.thy ===== *)
theory Memory
  imports Prelude
begin

unbundle bit_operations_syntax

text \<open>
  Byte-addressed memory of the 32-bit machine and the routines of src/string.c on it.  A pointer is
  a \<open>u32\<close>, pointer arithmetic wraps, and a routine maps a memory to the memory it leaves behind.
  \<open>stosb\<close> and \<open>stosl\<close> are the \<open>rep stos\<close> instructions of src/x86.h.
\<close>

type_synonym mem = "u32 \<Rightarrow> u8"

subsection \<open>Little-endian words\<close>

definition load32 :: "mem \<Rightarrow> u32 \<Rightarrow> u32" where
  "load32 m a = ucast (m a) OR push_bit 8 (ucast (m (a + 1))) OR
     push_bit 16 (ucast (m (a + 2))) OR push_bit 24 (ucast (m (a + 3)))"

definition store32 :: "u32 \<Rightarrow> u32 \<Rightarrow> mem \<Rightarrow> mem" where
  "store32 a v m = m(a := ucast v, a + 1 := ucast (drop_bit 8 v),
     a + 2 := ucast (drop_bit 16 v), a + 3 := ucast (drop_bit 24 v))"

subsection \<open>The routines of string.c\<close>

primrec stosb :: "u32 \<Rightarrow> u8 \<Rightarrow> nat \<Rightarrow> mem \<Rightarrow> mem" where
  "stosb a d 0 m = m"
| "stosb a d (Suc n) m = stosb (a + 1) d n (m(a := d))"

primrec stosl :: "u32 \<Rightarrow> u32 \<Rightarrow> nat \<Rightarrow> mem \<Rightarrow> mem" where
  "stosl a v 0 m = m"
| "stosl a v (Suc n) m = stosl (a + 4) v n (store32 a v m)"

definition memset :: "u32 \<Rightarrow> i32 \<Rightarrow> u32 \<Rightarrow> mem \<Rightarrow> mem" where
  "memset dst c n m =
     (if sint dst mod 4 = 0 \<and> n mod 4 = 0 then
        let c = c AND 0xFF in
        stosl dst (push_bit 24 c OR push_bit 16 c OR push_bit 8 c OR c) (unat (n div 4)) m
      else stosb dst (ucast c) (unat n) m)"

primrec memcmp :: "mem \<Rightarrow> u32 \<Rightarrow> u32 \<Rightarrow> nat \<Rightarrow> int" where
  "memcmp m s1 s2 0 = 0"
| "memcmp m s1 s2 (Suc n) =
     (if m s1 \<noteq> m s2 then uint (m s1) - uint (m s2) else memcmp m (s1 + 1) (s2 + 1) n)"

primrec copy_up :: "u32 \<Rightarrow> u32 \<Rightarrow> nat \<Rightarrow> mem \<Rightarrow> mem" where
  "copy_up d s 0 m = m"
| "copy_up d s (Suc n) m = copy_up (d + 1) (s + 1) n (m(d := m s))"

primrec copy_down :: "u32 \<Rightarrow> u32 \<Rightarrow> nat \<Rightarrow> mem \<Rightarrow> mem" where
  "copy_down d s 0 m = m"
| "copy_down d s (Suc n) m = copy_down (d - 1) (s - 1) n (m(d - 1 := m (s - 1)))"

definition memmove :: "u32 \<Rightarrow> u32 \<Rightarrow> u32 \<Rightarrow> mem \<Rightarrow> mem" where
  "memmove d s n m =
     (if s < d \<and> d < s + n then copy_down (d + n) (s + n) (unat n) m
      else copy_up d s (unat n) m)"

definition memcpy :: "u32 \<Rightarrow> u32 \<Rightarrow> u32 \<Rightarrow> mem \<Rightarrow> mem" where
  "memcpy d s n m = memmove d s n m"

primrec strncmp :: "mem \<Rightarrow> u32 \<Rightarrow> u32 \<Rightarrow> nat \<Rightarrow> int" where
  "strncmp m p q 0 = 0"
| "strncmp m p q (Suc n) =
     (if m p \<noteq> 0 \<and> m p = m q then strncmp m (p + 1) (q + 1) n else uint (m p) - uint (m q))"

primrec strncpy_copy :: "u32 \<Rightarrow> u32 \<Rightarrow> nat \<Rightarrow> mem \<Rightarrow> mem" where
  "strncpy_copy s t 0 m = m"
| "strncpy_copy s t (Suc n) m =
     (if m t \<noteq> 0 then strncpy_copy (s + 1) (t + 1) n (m(s := m t))
      else stosb (s + 1) 0 n (m(s := m t)))"

definition strncpy :: "u32 \<Rightarrow> u32 \<Rightarrow> i32 \<Rightarrow> mem \<Rightarrow> mem" where
  "strncpy s t n m = strncpy_copy s t (nat (sint n)) m"

primrec safestrcpy_loop :: "u32 \<Rightarrow> u32 \<Rightarrow> nat \<Rightarrow> mem \<Rightarrow> mem" where
  "safestrcpy_loop s t 0 m = m(s := 0)"
| "safestrcpy_loop s t (Suc k) m =
     (let m' = m(s := m t) in
      if m t \<noteq> 0 then safestrcpy_loop (s + 1) (t + 1) k m' else m'(s + 1 := 0))"

definition safestrcpy :: "u32 \<Rightarrow> u32 \<Rightarrow> i32 \<Rightarrow> mem \<Rightarrow> mem" where
  "safestrcpy s t n m =
     (if n \<le>s 0 then m else safestrcpy_loop s t (nat (sint n) - 1) m)"

partial_function (option) strlen_from :: "mem \<Rightarrow> u32 \<Rightarrow> u32 \<Rightarrow> u32 option" where
  "strlen_from m s n = (if m (s + n) = 0 then Some n else strlen_from m s (n + 1))"

definition strlen :: "mem \<Rightarrow> u32 \<Rightarrow> u32 option" where
  "strlen m s = strlen_from m s 0"

subsection \<open>Words: reading back what was stored\<close>

lemma word_bytes:
  fixes v :: u32
  shows "ucast (ucast v :: u8) OR push_bit 8 (ucast (ucast (drop_bit 8 v) :: u8)) OR
     push_bit 16 (ucast (ucast (drop_bit 16 v) :: u8)) OR
     push_bit 24 (ucast (ucast (drop_bit 24 v) :: u8)) = v" (is "?w = v")
proof (rule bit_word_eqI)
  fix n assume "n < LENGTH(32)"
  then consider "n < 8" | "8 \<le> n" "n < 16" | "16 \<le> n" "n < 24" | "24 \<le> n" "n < 32"
    by fastforce
  then show "bit ?w n = bit v n"
    by cases (auto simp: bit_simps)
qed

lemma load32_store32 [simp]: "load32 (store32 a v m) a = v"
  by (simp add: load32_def store32_def word_bytes)

lemma load32_cong:
  "m a = m' a \<Longrightarrow> m (a + 1) = m' (a + 1) \<Longrightarrow> m (a + 2) = m' (a + 2) \<Longrightarrow> m (a + 3) = m' (a + 3) \<Longrightarrow>
   load32 m a = load32 m' a"
  by (simp add: load32_def)

lemma store32_other: "4 \<le> unat (x - a) \<Longrightarrow> store32 a v m x = m x"
  by (auto simp: store32_def)

subsection \<open>Offsets in a range that does not wrap\<close>

lemma unat_diff_Suc:
  fixes x d :: u32
  assumes "x \<noteq> d"
  shows "unat (x - d) = Suc (unat (x - (d + 1)))"
proof -
  have "x - d = (x - (d + 1)) + 1" by simp
  moreover have "x - (d + 1) + 1 \<noteq> 0" using assms by simp
  ultimately show ?thesis
    using unatSuc [of "x - (d + 1)"] by (metis add.commute)
qed

lemma unat_minus_one_max: "unat (d - (d + 1) :: u32) = 2 ^ 32 - 1"
  by (simp add: unsigned_minus_1_eq_mask mask_eq_exp_minus_1)

subsection \<open>Correctness of fill\<close>

lemma stosb_eq:
  "n \<le> 2 ^ 32 \<Longrightarrow> stosb a d n m = (\<lambda>x. if unat (x - a) < n then d else m x)"
proof (induction n arbitrary: a m)
  case 0
  then show ?case by simp
next
  case (Suc n)
  have "(if unat (x - (a + 1)) < n then d else (m(a := d)) x) =
        (if unat (x - a) < Suc n then d else m x)" for x
  proof (cases "x = a")
    case True
    then show ?thesis by simp
  next
    case False
    then show ?thesis by (simp add: unat_diff_Suc)
  qed
  with Suc show ?case by simp
qed

lemma stosb_add: "stosb a d (k + n) m = stosb (a + of_nat k) d n (stosb a d k m)"
  by (induction k arbitrary: a m) (simp_all add: algebra_simps)

definition splat :: "u8 \<Rightarrow> u32" where
  "splat d = (let c = ucast d in push_bit 24 c OR push_bit 16 c OR push_bit 8 c OR c)"

lemma splat_bytes:
  "ucast (splat d) = d" "ucast (drop_bit 8 (splat d)) = d"
  "ucast (drop_bit 16 (splat d)) = d" "ucast (drop_bit 24 (splat d)) = d"
  by (rule bit_word_eqI; auto simp: splat_def Let_def bit_simps dest: bit_imp_le_length)+

lemma store32_splat: "store32 a (splat d) m = stosb a d 4 m"
proof -
  have "stosb a d 4 m = m(a := d, a + 1 := d, a + 2 := d, a + 3 := d)"
    by (simp add: numeral_eq_Suc add.commute)
  then show ?thesis by (simp add: store32_def splat_bytes)
qed

lemma stosl_splat: "stosl a (splat d) n m = stosb a d (4 * n) m"
proof (induction n arbitrary: a m)
  case 0
  then show ?case by simp
next
  case (Suc n)
  have "stosb a d (4 + 4 * n) m = stosb (a + 4) d (4 * n) (stosb a d 4 m)"
    using stosb_add [of a d 4 "4 * n" m] by simp
  with Suc show ?case by (simp add: store32_splat)
qed

lemma mask8_eq: "c AND 0xFF = ucast (ucast c :: u8)" for c :: u32
proof -
  have "take_bit 8 c = ucast (ucast c :: u8)"
    by (auto intro!: bit_word_eqI simp: bit_simps)
  then show ?thesis by (simp add: take_bit_eq_mask mask_eq_exp_minus_1)
qed

lemma memset_eq:
  "memset dst c n m = (\<lambda>x. if x - dst < n then ucast c else m x)"
proof -
  have n: "unat n \<le> 2 ^ 32"
    using unsigned_less [of n, where 'a = nat] by simp
  have fill: "stosb dst (ucast c) (unat n) m = (\<lambda>x. if x - dst < n then ucast c else m x)"
    using stosb_eq [OF n] by (simp add: word_less_nat_alt)
  show ?thesis
  proof (cases "sint dst mod 4 = 0 \<and> n mod 4 = 0")
    case True
    then have "unat n mod 4 = 0"
      using unat_mod [of n 4] by simp
    then have "4 * unat (n div 4) = unat n"
      using unat_div [of n 4] by auto
    then show ?thesis
      using True fill stosl_splat [of dst "ucast c" "unat (n div 4)" m]
      by (simp add: memset_def splat_def Let_def mask8_eq)
  next
    case False
    then show ?thesis using fill by (auto simp: memset_def)
  qed
qed

subsection \<open>Correctness of move\<close>

text \<open>
  The meaning of \<open>memmove\<close>: every byte of the target range takes the value the matching source
  byte had before the call, overlap or not.
\<close>

definition moved :: "u32 \<Rightarrow> u32 \<Rightarrow> nat \<Rightarrow> mem \<Rightarrow> mem" where
  "moved d s n m = (\<lambda>x. if unat (x - d) < n then m (s + (x - d)) else m x)"

lemma copy_up_eq:
  assumes "n \<le> 2 ^ 32" "d = s \<or> n \<le> unat (d - s)"
  shows "copy_up d s n m = moved d s n m"
  using assms
proof (induction n arbitrary: d s m)
  case 0
  then show ?case by (simp add: moved_def)
next
  case (Suc n)
  have "d + 1 - (s + 1) = d - s" by simp
  then have "d + 1 = s + 1 \<or> n \<le> unat (d + 1 - (s + 1))"
    using Suc.prems(2) by (metis Suc_leD)
  then have IH: "copy_up (d + 1) (s + 1) n (m(d := m s)) = moved (d + 1) (s + 1) n (m(d := m s))"
    using Suc by simp
  have "moved (d + 1) (s + 1) n (m(d := m s)) x = moved d s (Suc n) m x" for x
  proof (cases "x = d")
    case True
    then show ?thesis
      using Suc.prems(1) by (simp add: moved_def unat_minus_one_max)
  next
    case False
    have "s + (x - d) \<noteq> d" if "unat (x - d) \<le> n"
    proof
      assume "s + (x - d) = d"
      then have "x - d = d - s" by (simp add: algebra_simps)
      with that Suc.prems(2) False show False by auto
    qed
    moreover have "s + 1 + (x - (d + 1)) = s + (x - d)" by simp
    ultimately show ?thesis
      using False unat_diff_Suc [OF False] by (auto simp: moved_def)
  qed
  then show ?case using IH by auto
qed

lemma copy_down_eq:
  assumes "n \<le> 2 ^ 32" "s = d \<or> n \<le> unat (s - d)"
  shows "copy_down (d + of_nat n) (s + of_nat n) n m = moved d s n m"
  using assms
proof (induction n arbitrary: m)
  case 0
  then show ?case by (simp add: moved_def)
next
  case (Suc n)
  let ?m = "m(d + of_nat n := m (s + of_nat n))"
  have IH: "copy_down (d + of_nat n) (s + of_nat n) n ?m = moved d s n ?m"
    using Suc by auto
  have n: "unat (of_nat n :: u32) = n"
    using Suc.prems(1) by (simp add: unat_of_nat)
  have "moved d s n ?m x = moved d s (Suc n) m x" for x
  proof (cases "x = d + of_nat n")
    case True
    then show ?thesis using n by (simp add: moved_def)
  next
    case False
    have "x - d \<noteq> of_nat n"
      using False by (auto simp: algebra_simps)
    then have "unat (x - d) \<noteq> n"
      using n by (metis word_unat_eq_iff)
    moreover have "s + (x - d) \<noteq> d + of_nat n" if "unat (x - d) < n"
    proof
      assume eq: "s + (x - d) = d + of_nat n"
      have "s \<noteq> d"
        using eq False by auto
      then have "Suc n \<le> unat (s - d)" using Suc.prems(2) by simp
      moreover have "of_nat n = (s - d) + (x - d)"
        using eq by (simp add: algebra_simps)
      then have "n = (unat (s - d) + unat (x - d)) mod 2 ^ 32"
        using n unat_word_ariths(1) [of "s - d" "x - d"] by simp
      moreover have "unat (s - d) < 2 ^ 32"
        using unsigned_less [of "s - d", where 'a = nat] by simp
      ultimately show False
        using that by (auto simp: mod_if split: if_splits)
    qed
    ultimately show ?thesis using False by (auto simp: moved_def)
  qed
  then have "moved d s n ?m = moved d s (Suc n) m" by blast
  with IH show ?case by simp
qed

text \<open>A range of \<open>n\<close> bytes from \<open>a\<close> that does not run past the end of the address space.\<close>

definition in_space :: "u32 \<Rightarrow> nat \<Rightarrow> bool" where
  "in_space a n \<longleftrightarrow> unat a + n \<le> 2 ^ 32"

lemma unat_diff_below:
  fixes s d :: u32
  assumes "s < d"
  shows "unat (s - d) = 2 ^ 32 - (unat d - unat s)"
  using assms unsigned_less [of d, where 'a = nat]
  by (simp add: unat_sub_if' word_less_nat_alt)

lemma memmove_eq:
  assumes "in_space d (unat n)" "in_space s (unat n)"
  shows "memmove d s n m = moved d s (unat n) m"
proof (cases "s < d \<and> d < s + n")
  case True
  then have "unat n \<le> unat (s - d)"
    using assms by (simp add: in_space_def unat_diff_below)
  then show ?thesis
    using True copy_down_eq [of "unat n" s d m] unsigned_less [of n, where 'a = nat]
    by (simp add: memmove_def)
next
  case False
  have "d = s \<or> unat n \<le> unat (d - s)"
  proof (cases "s < d")
    case True
    then have "unat (s + n) = unat s + unat n"
      using assms by (intro unat_add_lem [THEN iffD1]) (auto simp: in_space_def word_less_nat_alt)
    moreover have "unat (d - s) = unat d - unat s"
      using True by (simp add: unat_sub_if' word_less_nat_alt)
    ultimately show ?thesis
      using True False by (auto simp: word_less_nat_alt)
  next
    case False
    then consider "d = s" | "d < s" by force
    then show ?thesis
      using assms unat_diff_below [of d s] by cases (auto simp: in_space_def)
  qed
  then show ?thesis
    using False copy_up_eq [of "unat n" d s m] unsigned_less [of n, where 'a = nat]
    by (auto simp: memmove_def)
qed

subsection \<open>C strings\<close>

text \<open>\<open>cstr m a xs\<close>: the bytes from \<open>a\<close> are the non-zero bytes \<open>xs\<close> followed by a NUL.\<close>

primrec cstr :: "mem \<Rightarrow> u32 \<Rightarrow> u8 list \<Rightarrow> bool" where
  "cstr m a [] \<longleftrightarrow> m a = 0"
| "cstr m a (x # xs) \<longleftrightarrow> x \<noteq> 0 \<and> m a = x \<and> cstr m (a + 1) xs"

lemma cstr_unique: "cstr m a xs \<Longrightarrow> cstr m a ys \<Longrightarrow> xs = ys"
proof (induction xs arbitrary: a ys)
  case Nil
  then show ?case by (cases ys) auto
next
  case (Cons x xs)
  then show ?case by (cases ys) auto
qed

lemma strlen_from_cstr:
  "cstr m (s + n) xs \<Longrightarrow> strlen_from m s n = Some (n + of_nat (length xs))"
proof (induction xs arbitrary: n)
  case Nil
  then show ?case by (simp add: strlen_from.simps)
next
  case (Cons x xs)
  then have "strlen_from m s (n + 1) = Some (n + 1 + of_nat (length xs))"
    by (simp add: add.assoc)
  with Cons.prems show ?case
    by (subst strlen_from.simps) (simp add: algebra_simps)
qed

lemma strncmp_zero_iff:
  "cstr m p xs \<Longrightarrow> cstr m q ys \<Longrightarrow> strncmp m p q n = 0 \<longleftrightarrow> take n xs = take n ys"
proof (induction n arbitrary: p q xs ys)
  case 0
  then show ?case by simp
next
  case (Suc n)
  show ?case
  proof (cases "m p \<noteq> 0 \<and> m p = m q")
    case True
    then obtain x xs' ys' where "xs = x # xs'" "ys = x # ys'"
        "cstr m (p + 1) xs'" "cstr m (q + 1) ys'"
      using Suc.prems by (cases xs; cases ys) auto
    with True Suc.IH show ?thesis by auto
  next
    case False
    then show ?thesis
      using Suc.prems by (cases xs; cases ys) (auto simp: word_uint_eq_iff)
  qed
qed

subsection \<open>Bounded copies stay in bounds\<close>

lemma safestrcpy_loop_outside:
  "k < 2 ^ 32 \<Longrightarrow> k < unat (x - s) \<Longrightarrow> safestrcpy_loop s t k m x = m x"
proof (induction k arbitrary: s t m)
  case 0
  then show ?case by auto
next
  case (Suc k)
  then have ne: "x \<noteq> s" by auto
  then have "k < unat (x - (s + 1))"
    using Suc.prems unat_diff_Suc [OF ne] by simp
  moreover from this have "x \<noteq> s + 1" by auto
  ultimately show ?case
    using Suc ne by (auto simp: Let_def)
qed

lemma strncpy_copy_outside:
  "n \<le> 2 ^ 32 \<Longrightarrow> n \<le> unat (x - s) \<Longrightarrow> strncpy_copy s t n m x = m x"
proof (induction n arbitrary: s t m)
  case 0
  then show ?case by simp
next
  case (Suc n)
  then have ne: "x \<noteq> s" by auto
  then have "n \<le> unat (x - (s + 1))"
    using Suc.prems unat_diff_Suc [OF ne] by simp
  then show ?case
    using Suc ne by (auto simp: stosb_eq)
qed

lemma cstr_cong:
  "(\<And>i. i \<le> length xs \<Longrightarrow> m' (a + of_nat i) = m (a + of_nat i)) \<Longrightarrow> cstr m' a xs = cstr m a xs"
proof (induction xs arbitrary: a)
  case Nil
  from Nil [of 0] show ?case by simp
next
  case (Cons x xs)
  have "m' (a + 1 + of_nat i) = m (a + 1 + of_nat i)" if "i \<le> length xs" for i
    using Cons.prems [of "Suc i"] that by (simp add: algebra_simps)
  then have "cstr m' (a + 1) xs = cstr m (a + 1) xs" by (rule Cons.IH)
  moreover have "m' a = m a" using Cons.prems [of 0] by simp
  ultimately show ?case by simp
qed

lemma safestrcpy_loop_cstr:
  assumes "cstr m t xs" "k < 2 ^ 32" "\<And>i. i \<le> length xs \<Longrightarrow> k < unat (t + of_nat i - s)"
  shows "cstr (safestrcpy_loop s t k m) s (take k xs)"
  using assms
proof (induction k arbitrary: s t m xs)
  case 0
  then show ?case by simp
next
  case (Suc k)
  show ?case
  proof (cases xs)
    case Nil
    with Suc.prems show ?thesis by simp
  next
    case (Cons x ys)
    let ?m = "m(s := x)"
    have "t + 1 + of_nat i \<noteq> s" if "i \<le> length ys" for i
      using Suc.prems(3) [of "Suc i"] that Cons by (auto simp: algebra_simps)
    then have src: "cstr ?m (t + 1) ys"
      using Suc.prems(1) Cons cstr_cong [of ys ?m "t + 1" m] by simp
    have far: "k < unat (t + 1 + of_nat i - (s + 1))" if "i \<le> length ys" for i
      using Suc.prems(3) [of i] that Cons by (simp add: algebra_simps)
    have IH: "cstr (safestrcpy_loop (s + 1) (t + 1) k ?m) (s + 1) (take k ys)"
      using Suc.prems(2) by (intro Suc.IH [OF src _ far]) simp_all
    have "k < unat (s - (s + 1))"
      using Suc.prems(2) unat_minus_one_max [of s] by simp
    then have "safestrcpy_loop (s + 1) (t + 1) k ?m s = x"
      using Suc.prems(2) by (simp add: safestrcpy_loop_outside)
    with IH show ?thesis
      using Suc.prems(1) Cons by (auto simp: Let_def)
  qed
qed

subsection \<open>Properties\<close>

text \<open>
  \<open>memmove\<close> copies correctly whether or not the areas overlap: every byte of the destination
  holds what the source held before the call, and no other byte changes.
\<close>

theorem memmove_correct:
  assumes "in_space d (unat n)" "in_space s (unat n)"
  shows "memmove d s n m x = (if unat (x - d) < unat n then m (s + (x - d)) else m x)"
  using memmove_eq [OF assms] by (simp add: moved_def)

theorem memmove_correct_witness:
  "in_space 1 (unat (4 :: u32)) \<and> in_space 0 (unat (4 :: u32)) \<and>
   map (memmove 1 0 4 (\<lambda>a. ucast a + 10)) [0, 1, 2, 3, 4, 5] = [10, 10, 11, 12, 13, 15]"
proof -
  have s: "in_space 1 (unat (4 :: u32))" "in_space 0 (unat (4 :: u32))"
    by (simp_all add: in_space_def)
  show ?thesis
    using s by (simp add: memmove_correct [OF s] unsigned_minus_1_eq_mask mask_eq_exp_minus_1)
qed

text \<open>
  \<open>memset\<close> fills exactly the \<open>n\<close> bytes from \<open>dst\<close> with the low byte of \<open>c\<close>, both on the path
  that stores four bytes at a time and on the one that stores single bytes.
\<close>

theorem memset_correct:
  "memset dst c n m x = (if x - dst < n then ucast c else m x)"
  by (simp add: memset_eq)

text \<open>
  \<open>safestrcpy\<close> leaves a NUL-terminated copy of the source, cut to the \<open>n - 1\<close> bytes that fit, and
  writes nothing outside the \<open>n\<close> bytes of its destination, when source and destination are disjoint.
\<close>

theorem safestrcpy_correct:
  assumes "cstr m t xs" "0 <s n" "\<And>i. i \<le> length xs \<Longrightarrow> nat (sint n) \<le> unat (t + of_nat i - s)"
  shows "cstr (safestrcpy s t n m) s (take (nat (sint n) - 1) xs) \<and>
    (\<forall>x. nat (sint n) \<le> unat (x - s) \<longrightarrow> safestrcpy s t n m x = m x)"
proof -
  have n: "0 < sint n" "nat (sint n) < 2 ^ 32"
    using assms(2) sint_lt [of n] by (simp_all add: word_sless_alt)
  let ?k = "nat (sint n) - 1"
  have eq: "safestrcpy s t n m = safestrcpy_loop s t ?k m"
    using n by (simp add: safestrcpy_def word_sle_eq)
  have k: "?k < 2 ^ 32" "?k < nat (sint n)"
    using n by simp_all
  have "cstr (safestrcpy_loop s t ?k m) s (take ?k xs)"
    using k assms(3) by (intro safestrcpy_loop_cstr [OF assms(1)]) fastforce+
  moreover have "safestrcpy_loop s t ?k m x = m x" if "nat (sint n) \<le> unat (x - s)" for x
    using that k by (intro safestrcpy_loop_outside) simp_all
  ultimately show ?thesis
    unfolding eq by blast
qed

theorem safestrcpy_correct_witness:
  "let m = (\<lambda>_. 0)(100 := 115, 101 := 104, 102 := 101, 103 := 108, 104 := 108) in
   cstr m 100 [115, 104, 101, 108, 108] \<and> cstr (safestrcpy 0 100 4 m) 0 [115, 104, 101]"
proof -
  let ?m = "(\<lambda>_. 0)(100 := 115, 101 := 104, 102 := 101, 103 := 108, 104 := 108) :: mem"
  have c: "cstr ?m 100 [115, 104, 101, 108, 108]" by simp
  have n: "0 <s (4 :: i32)" by (simp add: word_sless_alt)
  have d: "nat (sint (4 :: i32)) \<le> unat (100 + of_nat i - 0 :: u32)"
    if "i \<le> length [115, 104, 101, 108, 108 :: u8]" for i
  proof -
    have "i = 0 \<or> i = 1 \<or> i = 2 \<or> i = 3 \<or> i = 4 \<or> i = 5" using that by simp arith
    then show ?thesis by auto
  qed
  show ?thesis
    using c safestrcpy_correct [OF c n d] unfolding Let_def by simp
qed

end
