(* ===== verification/Kalloc.thy ===== *)
theory Kalloc
  imports Spinlock Memory
begin

unbundle bit_operations_syntax

text \<open>
  The physical page allocator (src/kalloc.c).  The free list lives in the free pages themselves: the
  first word of a free page is the address of the next one.  The model keeps that representation
  (\<open>ram\<close> is the kernel's view of memory, \<open>kmem_freelist\<close> the head pointer); \<open>free_list\<close> reads it as
  an abstract list, and the lemmas show that \<open>kalloc\<close>, \<open>kfree\<close> and \<open>freerange\<close> are pop, push and
  a push of every page of a range.  \<open>kend\<close> and \<open>kdata\<close> are the linker
  symbols \<open>end\<close> and \<open>data\<close> of src/kernel.ld; \<open>kpgdir\<close> is the kernel page table of src/vm.c.
\<close>

subsection \<open>State and constants\<close>

record kmem = mach +
  kmem_use_lock :: bool
  kmem_freelist :: u32
  ram :: mem
  kend :: u32
  kdata :: u32
  kpgdir :: u32

definition PGSIZE :: u32 where "PGSIZE = 4096"
definition KERNBASE :: u32 where "KERNBASE = 0x80000000"
definition PHYSTOP :: u32 where "PHYSTOP = 0xE000000"

definition V2P :: "u32 \<Rightarrow> u32" where "V2P a = a - KERNBASE"
definition P2V :: "u32 \<Rightarrow> u32" where "P2V a = a + KERNBASE"

definition PGROUNDUP :: "u32 \<Rightarrow> u32" where
  "PGROUNDUP sz = (sz + PGSIZE - 1) AND NOT (PGSIZE - 1)"

definition PGROUNDDOWN :: "u32 \<Rightarrow> u32" where
  "PGROUNDDOWN a = a AND NOT (PGSIZE - 1)"

subsection \<open>Operations\<close>

definition kfree :: "nat \<Rightarrow> u32 \<Rightarrow> 'a kmem_scheme \<Rightarrow> (unit, lockid, 'a kmem_scheme) outcome" where
  "kfree c v s =
     (if v mod PGSIZE \<noteq> 0 \<or> v < kend s \<or> PHYSTOP \<le> V2P v then Panic ''kfree'' s
      else
        let s = s\<lparr>ram := memset v 1 PGSIZE (ram s)\<rparr> in
        andthen (if kmem_use_lock s then acquire c Lk_kmem s else Ret () s) (\<lambda>_ s.
          let s = s\<lparr>ram := store32 v (kmem_freelist s) (ram s)\<rparr>; s = s\<lparr>kmem_freelist := v\<rparr> in
          if kmem_use_lock s then release c Lk_kmem s else Ret () s))"

definition kalloc :: "nat \<Rightarrow> 'a kmem_scheme \<Rightarrow> (u32, lockid, 'a kmem_scheme) outcome" where
  "kalloc c s =
     andthen (if kmem_use_lock s then acquire c Lk_kmem s else Ret () s) (\<lambda>_ s.
       let r = kmem_freelist s;
           s = (if r \<noteq> 0 then s\<lparr>kmem_freelist := load32 (ram s) r\<rparr> else s) in
       andthen (if kmem_use_lock s then release c Lk_kmem s else Ret () s) (\<lambda>_ s. Ret r s))"

lemma kfree_Ret_bound:
  "kfree c v s = Ret u t \<Longrightarrow> unat v < 0x8E000000 \<and> v mod PGSIZE = 0"
proof -
  assume "kfree c v s = Ret u t"
  then have "V2P v < PHYSTOP" and a: "v mod PGSIZE = 0"
    by (auto simp: kfree_def split: if_splits)
  then have "v - 0x80000000 < 0xE000000"
    by (simp add: V2P_def KERNBASE_def PHYSTOP_def)
  then have "unat v < 0x8E000000"
    by (auto simp: word_less_nat_alt unat_sub_if' split: if_splits)
  with a show ?thesis by simp
qed

function freerange_loop ::
  "nat \<Rightarrow> u32 \<Rightarrow> u32 \<Rightarrow> 'a kmem_scheme \<Rightarrow> (unit, lockid, 'a kmem_scheme) outcome" where
  "freerange_loop c p vend s =
     (if p + PGSIZE \<le> vend then
        andthen (kfree c p s) (\<lambda>_ s. freerange_loop c (p + PGSIZE) vend s)
      else Ret () s)"
  by pat_completeness auto
termination
proof (relation "measure (\<lambda>(c, p, vend, s). 2 ^ 32 - unat p)", simp)
  fix c p vend and s :: "'a kmem_scheme" and u t
  assume "kfree c p s = Ret u t"
  then have "unat p < 0x8E000000" by (simp add: kfree_Ret_bound)
  then show "((c, p + PGSIZE, vend, t), c, p, vend, s) \<in> measure (\<lambda>(c, p, vend, s). 2 ^ 32 - unat p)"
    by (simp add: PGSIZE_def unat_word_ariths)
qed

declare freerange_loop.simps [simp del]

definition freerange ::
  "nat \<Rightarrow> u32 \<Rightarrow> u32 \<Rightarrow> 'a kmem_scheme \<Rightarrow> (unit, lockid, 'a kmem_scheme) outcome" where
  "freerange c vstart vend s = freerange_loop c (PGROUNDUP vstart) vend s"

definition kinit1 ::
  "nat \<Rightarrow> u32 \<Rightarrow> u32 \<Rightarrow> 'a kmem_scheme \<Rightarrow> (unit, lockid, 'a kmem_scheme) outcome" where
  "kinit1 c vstart vend s =
     freerange c vstart vend ((initlock Lk_kmem ''kmem'' s)\<lparr>kmem_use_lock := False\<rparr>)"

definition kinit2 ::
  "nat \<Rightarrow> u32 \<Rightarrow> u32 \<Rightarrow> 'a kmem_scheme \<Rightarrow> (unit, lockid, 'a kmem_scheme) outcome" where
  "kinit2 c vstart vend s =
     andthen (freerange c vstart vend s) (\<lambda>_ s. Ret () (s\<lparr>kmem_use_lock := True\<rparr>))"

subsection \<open>The free list as an abstract list\<close>

primrec free_list :: "mem \<Rightarrow> u32 \<Rightarrow> u32 list \<Rightarrow> bool" where
  "free_list m p [] \<longleftrightarrow> p = 0"
| "free_list m p (x # xs) \<longleftrightarrow> p = x \<and> x \<noteq> 0 \<and> free_list m (load32 m x) xs"

definition page_ok :: "'a kmem_scheme \<Rightarrow> u32 \<Rightarrow> bool" where
  "page_ok s v \<longleftrightarrow> v mod PGSIZE = 0 \<and> kend s \<le> v \<and> V2P v < PHYSTOP"

definition pages :: "'a kmem_scheme \<Rightarrow> u32 list \<Rightarrow> bool" where
  "pages s xs \<longleftrightarrow> free_list (ram s) (kmem_freelist s) xs \<and> distinct xs \<and> (\<forall>x \<in> set xs. page_ok s x)"

text \<open>The allocator can be called by processor \<open>c\<close>: its lock, if in use, is free.\<close>

definition kmem_ready :: "nat \<Rightarrow> 'a kmem_scheme \<Rightarrow> bool" where
  "kmem_ready c s \<longleftrightarrow> on_cpu c s \<and> lk_locked (locks s Lk_kmem) = 0"

definition page_pool :: "nat \<Rightarrow> 'a kmem_scheme \<Rightarrow> u32 list \<Rightarrow> bool" where
  "page_pool c s xs \<longleftrightarrow> kmem_ready c s \<and> pages s xs"

lemma free_list_unique: "free_list m p xs \<Longrightarrow> free_list m p ys \<Longrightarrow> xs = ys"
proof (induction xs arbitrary: p ys)
  case Nil
  then show ?case by (cases ys) auto
next
  case (Cons x xs)
  then show ?case by (cases ys) auto
qed

lemma page_ok_nonzero: "page_ok s v \<Longrightarrow> v \<noteq> 0"
  by (auto simp: page_ok_def V2P_def PHYSTOP_def KERNBASE_def)

subsection \<open>Distinct pages are disjoint\<close>

lemma page_mod_iff: "v mod PGSIZE = 0 \<longleftrightarrow> unat v mod 4096 = 0"
  by (simp add: PGSIZE_def word_unat_eq_iff unat_mod)

lemma page_diff_mod:
  assumes "unat (x :: u32) mod 4096 = 0" "unat (v :: u32) mod 4096 = 0"
  shows "unat (x - v) mod 4096 = 0"
proof (cases "v \<le> x")
  case True
  then show ?thesis
    using assms by (simp add: unat_sub_if' word_le_nat_alt mod_eq_0_iff_dvd)
next
  case False
  have "unat (x - v) = 2 ^ 32 + unat x - unat v"
    using False by (simp add: unat_sub_if' word_le_nat_alt)
  moreover have "4096 dvd (2 ^ 32 + unat x)"
    using assms(1) by (simp add: mod_eq_0_iff_dvd)
  ultimately show ?thesis
    using assms(2) by (simp add: mod_eq_0_iff_dvd)
qed

lemma page_disjoint:
  assumes "x mod PGSIZE = 0" "v mod PGSIZE = 0" "x \<noteq> v" "i < 4096"
  shows "4096 \<le> unat (x + of_nat i - v)"
proof -
  let ?k = "unat (x - v)"
  have k: "?k mod 4096 = 0" "?k \<noteq> 0"
    using assms by (auto simp: page_mod_iff page_diff_mod unat_eq_0)
  then have lo: "4096 \<le> ?k" by (auto intro: ccontr)
  have "?k < 2 ^ 32"
    using unsigned_less [of "x - v", where 'a = nat] by simp
  then have hi: "?k + i < 2 ^ 32"
    using k(1) assms(4) by auto
  have eq: "x + of_nat i - v = (x - v) + of_nat i" by simp
  have "unat (of_nat i :: u32) = i"
    using assms(4) by (simp add: unat_of_nat)
  then have "unat (x + of_nat i - v) = ?k + i"
    using hi unfolding eq unat_word_ariths(1) by simp
  with lo show ?thesis by simp
qed

lemma load32_other_page:
  assumes "x mod PGSIZE = 0" "v mod PGSIZE = 0" "x \<noteq> v"
    and "\<And>y. 4096 \<le> unat (y - v) \<Longrightarrow> m' y = m y"
  shows "load32 m' x = load32 m x"
  using page_disjoint [OF assms(1-3), of 0] page_disjoint [OF assms(1-3), of 1]
    page_disjoint [OF assms(1-3), of 2] page_disjoint [OF assms(1-3), of 3]
  by (intro load32_cong) (auto intro!: assms(4))

lemma free_list_frame:
  assumes "\<forall>x \<in> set xs. x mod PGSIZE = 0 \<and> x \<noteq> v" "v mod PGSIZE = 0"
    and "\<And>y. 4096 \<le> unat (y - v) \<Longrightarrow> m' y = m y"
  shows "free_list m' p xs = free_list m p xs"
  using assms(1)
proof (induction xs arbitrary: p)
  case Nil
  then show ?case by simp
next
  case (Cons x xs)
  have "load32 m' x = load32 m x"
    using Cons.prems assms(2,3) by (intro load32_other_page [where v = v]) auto
  with Cons show ?case by simp
qed

subsection \<open>Refinement: pop and push\<close>

lemma kmem_lock_eq:
  assumes "kmem_ready c s"
  shows "(if kmem_use_lock s then acquire c Lk_kmem s else Ret () s) =
    Ret () (if kmem_use_lock s then entered c Lk_kmem s else s)"
  using assms by (simp add: kmem_ready_def acquire_free)

text \<open>The machine part of the state after a locked section that started in \<open>s\<close> and ended in \<open>t\<close>.\<close>

definition kmem_done :: "nat \<Rightarrow> 'a kmem_scheme \<Rightarrow> 'a kmem_scheme" where
  "kmem_done c s = (if kmem_use_lock s then left c Lk_kmem (entered c Lk_kmem s) else s)"

lemma kmem_done_fields [simp]:
  "kmem_freelist (kmem_done c s) = kmem_freelist s" "ram (kmem_done c s) = ram s"
  "kend (kmem_done c s) = kend s" "kdata (kmem_done c s) = kdata s"
  "kpgdir (kmem_done c s) = kpgdir s" "kmem_use_lock (kmem_done c s) = kmem_use_lock s"
  "kmem.more (kmem_done c s) = kmem.more s"
  by (simp_all add: kmem_done_def left_def entered_def upd_cpu_def upd_lock_def)

lemma kmem_ready_done: "kmem_ready c s \<Longrightarrow> kmem_ready c (kmem_done c s)"
  using spin.free_leave [of c Lk_kmem] lock_held_entered [of c s Lk_kmem]
  by (auto simp: kmem_done_def kmem_ready_def lock_free_def)

lemma kmem_section:
  assumes "kmem_ready c s"
    and "\<And>s'. cpus (f s') = cpus s' \<and> locks (f s') = locks s' \<and> kmem_use_lock (f s') = kmem_use_lock s'"
  shows "(let s = f (if kmem_use_lock s then entered c Lk_kmem s else s) in
          if kmem_use_lock s then release c Lk_kmem s else Ret () s) =
    Ret () (if kmem_use_lock s then left c Lk_kmem (f (entered c Lk_kmem s)) else f s)"
proof (cases "kmem_use_lock s")
  case True
  have "lock_held c Lk_kmem (f (entered c Lk_kmem s))"
    using lock_held_entered [of c s Lk_kmem] assms
    by (auto simp: kmem_ready_def lock_held_def on_cpu_def holds_def)
  moreover have "kmem_use_lock (f (entered c Lk_kmem s))"
    using True assms(2) by (simp add: entered_def upd_cpu_def upd_lock_def)
  ultimately show ?thesis
    using True by (simp add: spin.rel_held)
next
  case False
  then show ?thesis using assms(2) by simp
qed

lemma kalloc_eq:
  assumes "kmem_ready c s"
  shows "kalloc c s = Ret (kmem_freelist s) (kmem_done c s
    \<lparr>kmem_freelist := (if kmem_freelist s \<noteq> 0 then load32 (ram s) (kmem_freelist s) else 0)\<rparr>)"
proof -
  let ?f = "\<lambda>s :: 'a kmem_scheme. if kmem_freelist s \<noteq> 0
    then s\<lparr>kmem_freelist := load32 (ram s) (kmem_freelist s)\<rparr> else s"
  have "kalloc c s = andthen (let s = ?f (if kmem_use_lock s then entered c Lk_kmem s else s) in
      if kmem_use_lock s then release c Lk_kmem s else Ret () s) (\<lambda>_ t. Ret (kmem_freelist s) t)"
    using kmem_lock_eq [OF assms]
    by (simp add: kalloc_def Let_def entered_def upd_cpu_def upd_lock_def)
  also have "\<dots> = Ret (kmem_freelist s)
      (if kmem_use_lock s then left c Lk_kmem (?f (entered c Lk_kmem s)) else ?f s)"
    by (subst kmem_section [OF assms]) auto
  also have "\<dots> = Ret (kmem_freelist s) (kmem_done c s
    \<lparr>kmem_freelist := (if kmem_freelist s \<noteq> 0 then load32 (ram s) (kmem_freelist s) else 0)\<rparr>)"
    by (simp add: kmem_done_def left_def entered_def upd_cpu_def upd_lock_def)
  finally show ?thesis .
qed

lemma kfree_eq:
  assumes "kmem_ready c s" "page_ok s v"
  shows "kfree c v s = Ret () (kmem_done c s
    \<lparr>ram := store32 v (kmem_freelist s) (memset v 1 PGSIZE (ram s)), kmem_freelist := v\<rparr>)"
proof -
  let ?s = "s\<lparr>ram := memset v 1 PGSIZE (ram s)\<rparr>"
  let ?f = "\<lambda>s :: 'a kmem_scheme.
    s\<lparr>ram := store32 v (kmem_freelist s) (ram s)\<rparr>\<lparr>kmem_freelist := v\<rparr>"
  have r: "kmem_ready c ?s"
    using assms by (simp add: kmem_ready_def on_cpu_def)
  have "kfree c v s = (let s = ?f (if kmem_use_lock ?s then entered c Lk_kmem ?s else ?s) in
      if kmem_use_lock s then release c Lk_kmem s else Ret () s)"
    using assms(2) kmem_lock_eq [OF r]
    by (auto simp: kfree_def Let_def page_ok_def)
  also have "\<dots> = Ret () (if kmem_use_lock ?s then left c Lk_kmem (?f (entered c Lk_kmem ?s)) else ?f ?s)"
    by (subst kmem_section [OF r]) auto
  also have "\<dots> = Ret () (kmem_done c s
    \<lparr>ram := store32 v (kmem_freelist s) (memset v 1 PGSIZE (ram s)), kmem_freelist := v\<rparr>)"
    by (simp add: kmem_done_def left_def entered_def upd_cpu_def upd_lock_def)
  finally show ?thesis .
qed

lemma kmem_ready_upd [simp]:
  "kmem_ready c (s\<lparr>kmem_freelist := x\<rparr>) = kmem_ready c s"
  "kmem_ready c (s\<lparr>ram := m\<rparr>) = kmem_ready c s"
  by (simp_all add: kmem_ready_def on_cpu_def)

lemma page_write_outside:
  "4096 \<le> unat (y - v) \<Longrightarrow> store32 v w (memset v 1 PGSIZE m) y = m y"
  by (simp add: store32_other memset_eq PGSIZE_def word_less_nat_alt)

lemma page_pool_kalloc_Nil:
  assumes "page_pool c s []"
  shows "kalloc c s = Ret 0 (kmem_done c s) \<and> page_pool c (kmem_done c s) []"
proof -
  have z: "kmem_freelist s = 0"
    using assms by (simp add: page_pool_def pages_def)
  have "t\<lparr>kmem_freelist := 0\<rparr> = t" if "kmem_freelist t = 0" for t :: "'a kmem_scheme"
    using that by (cases t) simp
  with z have "kmem_done c s\<lparr>kmem_freelist := 0\<rparr> = kmem_done c s"
    by simp
  with z show ?thesis
    using assms kalloc_eq [of c s]
    by (simp add: page_pool_def pages_def kmem_ready_done)
qed

lemma page_pool_kalloc_Cons:
  assumes "page_pool c s (x # xs)"
  shows "\<exists>t. kalloc c s = Ret x t \<and> page_pool c t xs \<and> ram t = ram s \<and> kend t = kend s
     \<and> kmem.more t = kmem.more s"
  using assms kalloc_eq [of c s]
  by (auto simp: page_pool_def pages_def page_ok_def kmem_ready_done)

lemma page_pool_kfree:
  assumes "page_pool c s xs" "page_ok s v" "v \<notin> set xs"
  shows "\<exists>t. kfree c v s = Ret () t \<and> page_pool c t (v # xs) \<and> kend t = kend s
     \<and> kmem.more t = kmem.more s \<and> (\<forall>y. 4096 \<le> unat (y - v) \<longrightarrow> ram t y = ram s y)"
proof -
  let ?m = "store32 v (kmem_freelist s) (memset v 1 PGSIZE (ram s))"
  have xs: "\<forall>x \<in> set xs. x mod PGSIZE = 0 \<and> x \<noteq> v" and v: "v mod PGSIZE = 0" "v \<noteq> 0"
    using assms page_ok_nonzero [of s v]
    by (auto simp: page_pool_def pages_def page_ok_def)
  have "free_list ?m (kmem_freelist s) xs = free_list (ram s) (kmem_freelist s) xs"
    by (rule free_list_frame [OF xs v(1)]) (simp add: page_write_outside)
  then show ?thesis
    using assms v kfree_eq [of c s v]
    by (auto simp: page_pool_def pages_def page_ok_def kmem_ready_done page_write_outside)
qed

subsection \<open>The allocator interface\<close>

text \<open>
  What the clients of the allocator (\<open>allocproc\<close>, the page tables, pipes) rely on.  \<open>pool s xs\<close> says
  that exactly the pages \<open>xs\<close> are free, the next one to be handed out first.
\<close>

locale page_allocator =
  fixes alloc :: "'s \<Rightarrow> (u32, 'l, 's) outcome"
    and free :: "u32 \<Rightarrow> 's \<Rightarrow> (unit, 'l, 's) outcome"
    and pool :: "'s \<Rightarrow> u32 list \<Rightarrow> bool"
    and ok :: "'s \<Rightarrow> u32 \<Rightarrow> bool"
  assumes alloc_Nil: "pool s [] \<Longrightarrow> \<exists>t. alloc s = Ret 0 t \<and> pool t []"
    and alloc_Cons: "pool s (x # xs) \<Longrightarrow> \<exists>t. alloc s = Ret x t \<and> pool t xs \<and> ok t = ok s"
    and free_page: "pool s xs \<Longrightarrow> ok s v \<Longrightarrow> v \<notin> set xs \<Longrightarrow> \<exists>t. free v s = Ret () t \<and> pool t (v # xs)"
    and pool_distinct: "pool s xs \<Longrightarrow> distinct xs"
    and pool_ok: "pool s xs \<Longrightarrow> x \<in> set xs \<Longrightarrow> ok s x \<and> x \<noteq> 0"
begin

lemma alloc_zero_iff:
  assumes "pool s xs" "alloc s = Ret v t"
  shows "v = 0 \<longleftrightarrow> xs = []"
proof (cases xs)
  case Nil
  then show ?thesis using assms alloc_Nil by fastforce
next
  case (Cons x ys)
  then show ?thesis using assms alloc_Cons [of s x ys] pool_ok [of s xs x] by auto
qed

lemma alloc_free_restores:
  assumes "pool s (x # xs)"
  shows "\<exists>t. andthen (alloc s) (\<lambda>v s. free v s) = Ret () t \<and> pool t (x # xs)"
proof -
  obtain t where t: "alloc s = Ret x t" "pool t xs" "ok t = ok s"
    using alloc_Cons [OF assms] by blast
  have "ok t x" "x \<notin> set xs"
    using t(3) pool_ok [OF assms] pool_distinct [OF assms] by auto
  then show ?thesis
    using free_page [OF t(2)] t(1) by auto
qed

lemma alloc_twice_distinct:
  assumes "pool s xs" "alloc s = Ret v t" "alloc t = Ret w u" "v \<noteq> 0" "w \<noteq> 0"
  shows "v \<noteq> w"
proof -
  obtain x ys where xs: "xs = x # ys"
    using assms alloc_zero_iff [of s xs v t] by (cases xs) auto
  then have t: "v = x" "pool t ys"
    using assms(1,2) alloc_Cons [of s x ys] by auto
  obtain y zs where "ys = y # zs"
    using assms t alloc_zero_iff [of t ys w u] by (cases ys) auto
  then show ?thesis
    using assms(1,3) xs t alloc_Cons [of t y zs] pool_distinct [of s xs] by auto
qed

end

interpretation ka: page_allocator "kalloc c" "kfree c" "page_pool c" page_ok for c
proof unfold_locales
  fix s :: "'a kmem_scheme" and x v :: u32 and xs :: "u32 list"
  show "page_pool c s [] \<Longrightarrow> \<exists>t. kalloc c s = Ret 0 t \<and> page_pool c t []"
    using page_pool_kalloc_Nil by blast
  show "page_pool c s (x # xs) \<Longrightarrow> \<exists>t. kalloc c s = Ret x t \<and> page_pool c t xs \<and> page_ok t = page_ok s"
    using page_pool_kalloc_Cons [of c s x xs] by (fastforce simp: page_ok_def fun_eq_iff)
  show "page_pool c s xs \<Longrightarrow> page_ok s v \<Longrightarrow> v \<notin> set xs \<Longrightarrow>
      \<exists>t. kfree c v s = Ret () t \<and> page_pool c t (v # xs)"
    using page_pool_kfree by blast
  show "page_pool c s xs \<Longrightarrow> distinct xs"
    by (simp add: page_pool_def pages_def)
  show "page_pool c s xs \<Longrightarrow> x \<in> set xs \<Longrightarrow> page_ok s x \<and> x \<noteq> 0"
    using page_ok_nonzero by (auto simp: page_pool_def pages_def)
qed

subsection \<open>Rounding to pages\<close>

lemma and_not_page_mask: "(a :: u32) AND - 4096 = push_bit 12 (drop_bit 12 a)"
proof -
  have "a AND NOT (mask 12) = push_bit 12 (drop_bit 12 a)"
    by (rule bit_word_eqI) (auto simp: bit_simps)
  then show ?thesis by (simp add: mask_eq_exp_minus_1)
qed

lemma unat_and_not_page_mask: "unat ((a :: u32) AND - 4096) = unat a div 4096 * 4096"
proof -
  have "unat a div 4096 * 4096 < 2 ^ 32"
    using unsigned_less [of a, where 'a = nat] by simp
  then show ?thesis
    by (simp add: and_not_page_mask push_bit_eq_mult drop_bit_eq_div unat_word_ariths unat_div)
qed

lemma unat_PGROUNDDOWN: "unat (PGROUNDDOWN a) = unat a div 4096 * 4096"
  by (simp add: PGROUNDDOWN_def PGSIZE_def unat_and_not_page_mask)

lemma unat_page_offset: "unat (a - PGROUNDDOWN a) = unat a mod 4096"
proof -
  have "unat (PGROUNDDOWN a) \<le> unat a"
    by (simp add: unat_PGROUNDDOWN)
  then have "unat (a - PGROUNDDOWN a) = unat a - unat a div 4096 * 4096"
    by (simp add: unat_sub_if' unat_PGROUNDDOWN)
  then show ?thesis
    by (simp add: minus_div_mult_eq_mod)
qed

lemma unat_PGROUNDUP:
  assumes "unat a \<le> 2 ^ 32 - 4096"
  shows "unat (PGROUNDUP a) = (unat a + 4095) div 4096 * 4096"
  using assms
  by (simp add: PGROUNDUP_def PGSIZE_def unat_and_not_page_mask unat_word_ariths)

subsection \<open>Freeing a range\<close>

definition range_pages :: "u32 \<Rightarrow> nat \<Rightarrow> u32 list" where
  "range_pages p n = map (\<lambda>i. p + of_nat (4096 * i)) [0..<n]"

lemma range_pages_Suc: "range_pages p (Suc n) = p # range_pages (p + PGSIZE) n"
proof -
  have "range_pages p (Suc n) = p # map (\<lambda>i. p + of_nat (4096 * Suc i)) [0..<n]"
    by (simp add: range_pages_def map_upt_Suc del: upt_Suc)
  then show ?thesis
    by (simp add: range_pages_def PGSIZE_def algebra_simps)
qed

lemma freerange_loop_pool:
  assumes "page_pool c s xs" "p mod PGSIZE = 0" "kend s \<le> p" "KERNBASE \<le> p"
    and "unat vend \<le> 0x8E000000" "unat p \<le> 0x8E000000" "n = (unat vend - unat p) div 4096"
    and "\<forall>x \<in> set xs. x < p \<or> vend \<le> x"
  shows "\<exists>t. freerange_loop c p vend s = Ret () t \<and>
     page_pool c t (rev (range_pages p n) @ xs) \<and> kend t = kend s"
  using assms
proof (induction n arbitrary: p s xs)
  case 0
  then have "\<not> p + PGSIZE \<le> vend"
    by (auto simp: PGSIZE_def word_le_nat_alt unat_word_ariths div_eq_0_iff)
  with 0 show ?case
    by (simp add: freerange_loop.simps range_pages_def)
next
  case (Suc n)
  have np: "unat (p + PGSIZE) = unat p + 4096"
    using Suc.prems(6) by (simp add: PGSIZE_def unat_word_ariths)
  have le: "unat p + 4096 \<le> unat vend"
    using Suc.prems(7) by (metis One_nat_def Suc_le_mono diff_is_0_eq div_0 div_less nat.simps(3)
        le_diff_conv2 nat_le_linear not_less zero_less_diff add.commute)
  have "V2P p < PHYSTOP"
    using Suc.prems(4,5) le
    by (simp add: V2P_def KERNBASE_def PHYSTOP_def word_less_nat_alt word_le_nat_alt unat_sub_if')
  then have ok: "page_ok s p"
    using Suc.prems(2,3) by (simp add: page_ok_def)
  have "p \<notin> set xs"
    using Suc.prems(8) le by (auto simp: word_le_nat_alt)
  then obtain t where t: "kfree c p s = Ret () t" "page_pool c t (p # xs)" "kend t = kend s"
    using page_pool_kfree [OF Suc.prems(1) ok] by auto
  have "\<exists>u. freerange_loop c (p + PGSIZE) vend t = Ret () u \<and>
     page_pool c u (rev (range_pages (p + PGSIZE) n) @ p # xs) \<and> kend u = kend t"
  proof (rule Suc.IH [OF t(2)])
    show "(p + PGSIZE) mod PGSIZE = 0"
      using Suc.prems(2) np unfolding page_mod_iff by simp
    show "kend t \<le> p + PGSIZE" "KERNBASE \<le> p + PGSIZE"
      using Suc.prems(3,4) t(3) np by (simp_all add: word_le_nat_alt)
    show "n = (unat vend - unat (p + PGSIZE)) div 4096"
      using Suc.prems(7) np le by simp
    show "\<forall>x \<in> set (p # xs). x < p + PGSIZE \<or> vend \<le> x"
      using Suc.prems(8) np by (auto simp: word_less_nat_alt word_le_nat_alt)
  qed (use Suc.prems np le in auto)
  moreover have "p + PGSIZE \<le> vend"
    using np le by (simp add: word_le_nat_alt)
  ultimately show ?case
    using t by (subst freerange_loop.simps) (auto simp: range_pages_Suc)
qed

lemma PGROUNDUP_bounds:
  assumes "unat a \<le> 2 ^ 32 - 4096"
  shows "a \<le> PGROUNDUP a" "unat (PGROUNDUP a) < unat a + 4096" "PGROUNDUP a mod PGSIZE = 0"
proof -
  have "unat a \<le> (unat a + 4095) div 4096 * 4096" "(unat a + 4095) div 4096 * 4096 < unat a + 4096"
    using div_mult_mod_eq [of "unat a + 4095" 4096] mod_less_divisor [of 4096 "unat a + 4095"]
    by linarith+
  then show "a \<le> PGROUNDUP a" "unat (PGROUNDUP a) < unat a + 4096"
    using unat_PGROUNDUP [OF assms] by (simp_all add: word_le_nat_alt)
  show "PGROUNDUP a mod PGSIZE = 0"
    unfolding page_mod_iff unat_PGROUNDUP [OF assms] by simp
qed

subsection \<open>Properties\<close>

text \<open>An allocator state with the given head of the free list, for concrete instances.\<close>

definition kmem_at :: "u32 \<Rightarrow> kmem" where
  "kmem_at fl = \<lparr>cpus = [cpu_at 0, cpu_at 1], locks = (\<lambda>_. free_lock), kmem_use_lock = True,
     kmem_freelist = fl, ram = (\<lambda>_. 0), kend = 0x80100000, kdata = 0x80108000, kpgdir = 0\<rparr>"

lemma kmem_at_ready: "kmem_ready 0 (kmem_at fl)"
  by (simp add: kmem_ready_def on_cpu_def kmem_at_def cpu_at_def cli_ok_def free_lock_def)

lemma kmem_at_empty: "page_pool 0 (kmem_at 0) []"
  by (simp add: page_pool_def kmem_at_ready pages_def) (simp add: kmem_at_def)

lemma kmem_at_page_ok: "page_ok (kmem_at fl) 0x80200000"
  by (simp add: page_ok_def kmem_at_def PGSIZE_def V2P_def KERNBASE_def PHYSTOP_def)

lemma kmem_at_one: "page_pool 0 (kmem_at 0x80200000) [0x80200000]"
  using kmem_at_page_ok [of "0x80200000"]
  by (simp add: page_pool_def kmem_at_ready pages_def) (simp add: kmem_at_def load32_def)

text \<open>
  C4.  \<open>kalloc\<close> refines popping an abstract list of free pages: with no free page it returns 0,
  otherwise the first free page, which is then no longer free; it writes no memory and leaves the
  allocator usable.
\<close>

theorem kalloc_correct:
  assumes "page_pool c s xs"
  shows "\<exists>t. kalloc c s = Ret (case xs of [] \<Rightarrow> 0 | x # _ \<Rightarrow> x) t \<and> page_pool c t (tl xs) \<and> ram t = ram s"
proof (cases xs)
  case Nil
  then show ?thesis using page_pool_kalloc_Nil [of c s] assms by auto
next
  case (Cons x ys)
  then show ?thesis using page_pool_kalloc_Cons [of c s x ys] assms by auto
qed

theorem kalloc_correct_witness:
  "page_pool 0 (kmem_at 0x80200000) [0x80200000] \<and>
   (\<exists>t. kalloc 0 (kmem_at 0x80200000) = Ret 0x80200000 t \<and> page_pool 0 t [])"
  using kalloc_correct [OF kmem_at_one] kmem_at_one by auto

text \<open>
  \<open>kfree\<close> panics on an address that is not a page of the managed range; on a page that is not
  free already it pushes the page on the free list and writes only within that page.
\<close>

theorem kfree_correct:
  assumes "page_pool c s xs"
  shows "(\<not> page_ok s v \<longrightarrow> kfree c v s = Panic ''kfree'' s) \<and>
    (page_ok s v \<and> v \<notin> set xs \<longrightarrow>
      (\<exists>t. kfree c v s = Ret () t \<and> page_pool c t (v # xs) \<and>
         (\<forall>y. 4096 \<le> unat (y - v) \<longrightarrow> ram t y = ram s y)))"
proof
  show "\<not> page_ok s v \<longrightarrow> kfree c v s = Panic ''kfree'' s"
    by (auto simp: page_ok_def kfree_def)
  show "page_ok s v \<and> v \<notin> set xs \<longrightarrow> (\<exists>t. kfree c v s = Ret () t \<and> page_pool c t (v # xs) \<and>
      (\<forall>y. 4096 \<le> unat (y - v) \<longrightarrow> ram t y = ram s y))"
    using page_pool_kfree [OF assms, of v] by blast
qed

theorem kfree_correct_witness:
  "page_ok (kmem_at 0) 0x80200000 \<and>
   (\<exists>t. kfree 0 0x80200000 (kmem_at 0) = Ret () t \<and> page_pool 0 t [0x80200000]) \<and>
   kfree 0 0x80200001 (kmem_at 0) = Panic ''kfree'' (kmem_at 0)"
proof -
  have "\<not> page_ok (kmem_at 0) 0x80200001"
    by (simp add: page_ok_def PGSIZE_def)
  then show ?thesis
    using kfree_correct [OF kmem_at_empty, of "0x80200000"]
      kfree_correct [OF kmem_at_empty, of "0x80200001"] kmem_at_page_ok [of 0] by auto
qed

text \<open>
  \<open>freerange\<close> frees exactly the whole pages of the range \<open>[vstart, vend)\<close>, in order, and ends
  without a panic.
\<close>

theorem freerange_correct:
  assumes "page_pool c s []" "kend s \<le> vstart" "KERNBASE \<le> vstart"
    and "unat vstart + 4096 \<le> 0x8E000000" "unat vend \<le> 0x8E000000"
  shows "\<exists>t. freerange c vstart vend s = Ret () t \<and> page_pool c t
     (rev (range_pages (PGROUNDUP vstart) ((unat vend - unat (PGROUNDUP vstart)) div 4096)))"
proof -
  have b: "vstart \<le> PGROUNDUP vstart" "unat (PGROUNDUP vstart) < unat vstart + 4096"
      "PGROUNDUP vstart mod PGSIZE = 0"
    using assms(4) by (auto intro!: PGROUNDUP_bounds)
  then show ?thesis
    using freerange_loop_pool [OF assms(1) b(3) _ _ assms(5) _ refl] assms
    by (simp add: freerange_def) (meson order_trans)
qed

theorem freerange_correct_witness:
  "\<exists>t. freerange 0 0x80200001 0x80203000 (kmem_at 0) = Ret () t \<and>
     page_pool 0 t [0x80202000, 0x80201000]"
proof -
  have "PGROUNDUP 0x80200001 = 0x80201000"
    by (simp add: PGROUNDUP_def PGSIZE_def)
  moreover have "rev (range_pages 0x80201000 2) = [0x80202000, 0x80201000]"
    by (simp add: range_pages_def upt_rec)
  ultimately show ?thesis
    using freerange_correct [OF kmem_at_empty, of "0x80200001" "0x80203000"]
    by (simp add: kmem_at_def KERNBASE_def)
qed

text \<open>
  Allocated pages are fresh and freeing undoes allocating: two successive successful
  \<open>kalloc\<close>s return different pages, and \<open>kalloc\<close> followed by \<open>kfree\<close> of the result restores the
  list of free pages.
\<close>

theorem kalloc_fresh_and_undone:
  assumes "page_pool c s (x # xs)"
  shows "(\<exists>t. andthen (kalloc c s) (\<lambda>v s. kfree c v s) = Ret () t \<and> page_pool c t (x # xs)) \<and>
    (kalloc c s = Ret v t \<and> kalloc c t = Ret w u \<and> v \<noteq> 0 \<and> w \<noteq> 0 \<longrightarrow> v \<noteq> w)"
  using ka.alloc_free_restores [OF assms] ka.alloc_twice_distinct [OF assms] by blast

theorem kalloc_fresh_and_undone_witness:
  "\<exists>t. andthen (kalloc 0 (kmem_at 0x80200000)) (\<lambda>v s. kfree 0 v s) = Ret () t \<and>
     page_pool 0 t [0x80200000]"
  using kalloc_fresh_and_undone [OF kmem_at_one] by blast

end
