(* ===== verification/VM.thy ===== *)
theory VM
  imports Kalloc
begin

unbundle bit_operations_syntax

text \<open>
  Page tables (src/vm.c, src/mmu.h, src/memlayout.h).  Page directories and page tables are pages of
  \<open>ram\<close>; an entry is a little-endian word.  A pointer to an entry is a kernel address, 0 being NULL.
\<close>

subsection \<open>Constants and macros of mmu.h and memlayout.h\<close>

definition EXTMEM :: u32 where "EXTMEM = 0x100000"
definition DEVSPACE :: u32 where "DEVSPACE = 0xFE000000"
definition KERNLINK :: u32 where "KERNLINK = KERNBASE + EXTMEM"

definition PTE_P :: u32 where "PTE_P = 1"
definition PTE_W :: u32 where "PTE_W = 2"
definition PTE_U :: u32 where "PTE_U = 4"
definition NPDENTRIES :: nat where "NPDENTRIES = 1024"

definition PDX :: "u32 \<Rightarrow> u32" where "PDX va = drop_bit 22 va AND 0x3FF"
definition PTX :: "u32 \<Rightarrow> u32" where "PTX va = drop_bit 12 va AND 0x3FF"
definition PGADDR :: "u32 \<Rightarrow> u32 \<Rightarrow> u32 \<Rightarrow> u32" where
  "PGADDR d t off = push_bit 22 d OR push_bit 12 t OR off"
definition PTE_ADDR :: "u32 \<Rightarrow> u32" where "PTE_ADDR pte = pte AND NOT 0xFFF"
definition PTE_FLAGS :: "u32 \<Rightarrow> u32" where "PTE_FLAGS pte = pte AND 0xFFF"

definition present :: "u32 \<Rightarrow> bool" where "present pte \<longleftrightarrow> pte AND PTE_P \<noteq> 0"

abbreviation set_ram :: "(mem \<Rightarrow> mem) \<Rightarrow> 'a kmem_scheme \<Rightarrow> 'a kmem_scheme" where
  "set_ram f s \<equiv> s\<lparr>ram := f (ram s)\<rparr>"

subsection \<open>Walking and mapping\<close>

definition walkpgdir ::
  "nat \<Rightarrow> u32 \<Rightarrow> u32 \<Rightarrow> bool \<Rightarrow> 'a kmem_scheme \<Rightarrow> (u32, lockid, 'a kmem_scheme) outcome" where
  "walkpgdir c pgdir va alloc s =
     (let pde = pgdir + 4 * PDX va; e = load32 (ram s) pde in
      if present e then Ret (P2V (PTE_ADDR e) + 4 * PTX va) s
      else if \<not> alloc then Ret 0 s
      else andthen (kalloc c s) (\<lambda>pgtab s.
        if pgtab = 0 then Ret 0 s
        else
          let s = set_ram (memset pgtab 0 PGSIZE) s;
              s = set_ram (store32 pde (V2P pgtab OR PTE_P OR PTE_W OR PTE_U)) s
          in Ret (pgtab + 4 * PTX va) s))"

text \<open>
  The loop of \<open>mappages\<close> leaves when \<open>a == last\<close>.  Both are page-aligned, so it runs once more than
  \<open>(last - a) / PGSIZE\<close> times; the first argument counts those further rounds.
\<close>

primrec mappages_loop ::
  "nat \<Rightarrow> nat \<Rightarrow> u32 \<Rightarrow> u32 \<Rightarrow> u32 \<Rightarrow> u32 \<Rightarrow> 'a kmem_scheme \<Rightarrow> (i32, lockid, 'a kmem_scheme) outcome" where
  "mappages_loop 0 c pgdir a pa perm s =
     andthen (walkpgdir c pgdir a True s) (\<lambda>pte s.
       if pte = 0 then Ret (- 1) s
       else if present (load32 (ram s) pte) then Panic ''remap'' s
       else Ret 0 (set_ram (store32 pte (pa OR perm OR PTE_P)) s))"
| "mappages_loop (Suc n) c pgdir a pa perm s =
     andthen (walkpgdir c pgdir a True s) (\<lambda>pte s.
       if pte = 0 then Ret (- 1) s
       else if present (load32 (ram s) pte) then Panic ''remap'' s
       else mappages_loop n c pgdir (a + PGSIZE) (pa + PGSIZE) perm
              (set_ram (store32 pte (pa OR perm OR PTE_P)) s))"

definition mappages ::
  "nat \<Rightarrow> u32 \<Rightarrow> u32 \<Rightarrow> u32 \<Rightarrow> u32 \<Rightarrow> u32 \<Rightarrow> 'a kmem_scheme \<Rightarrow> (i32, lockid, 'a kmem_scheme) outcome" where
  "mappages c pgdir va sz pa perm s =
     (let a = PGROUNDDOWN va; last = PGROUNDDOWN (va + sz - 1)
      in mappages_loop (unat (last - a) div 4096) c pgdir a pa perm s)"

subsection \<open>Unmapping\<close>

text \<open>
  The loop of \<open>deallocuvm\<close>: where the page-table page is missing it jumps to the next directory
  entry.  If the address wraps around, the loop never ends.
\<close>

function deallocuvm_loop ::
  "nat \<Rightarrow> u32 \<Rightarrow> u32 \<Rightarrow> u32 \<Rightarrow> 'a kmem_scheme \<Rightarrow> (unit, lockid, 'a kmem_scheme) outcome" where
  "deallocuvm_loop c pgdir a oldsz s =
     (if a < oldsz then
        andthen (walkpgdir c pgdir a False s) (\<lambda>pte s.
          if pte = 0 then
            let a' = (PGADDR (PDX a + 1) 0 0 - PGSIZE) + PGSIZE in
            if a' \<le> a then Diverge s else deallocuvm_loop c pgdir a' oldsz s
          else
            let e = load32 (ram s) pte; a' = a + PGSIZE in
            if present e then
              if PTE_ADDR e = 0 then Panic ''kfree'' s
              else andthen (kfree c (P2V (PTE_ADDR e)) s) (\<lambda>_ s.
                let s = set_ram (store32 pte 0) s in
                if a' \<le> a then Diverge s else deallocuvm_loop c pgdir a' oldsz s)
            else if a' \<le> a then Diverge s else deallocuvm_loop c pgdir a' oldsz s)
      else Ret () s)"
  by pat_completeness auto
termination
  by (relation "measure (\<lambda>(c, pgdir, a, oldsz, s). 2 ^ 32 - unat a)")
    (use unsigned_less [where 'a = nat and 'b = 32] in
      \<open>auto simp: word_le_nat_alt not_le intro!: diff_less_mono2\<close>)

declare deallocuvm_loop.simps [simp del]

definition deallocuvm ::
  "nat \<Rightarrow> u32 \<Rightarrow> u32 \<Rightarrow> u32 \<Rightarrow> 'a kmem_scheme \<Rightarrow> (u32, lockid, 'a kmem_scheme) outcome" where
  "deallocuvm c pgdir oldsz newsz s =
     (if oldsz \<le> newsz then Ret oldsz s
      else andthen (deallocuvm_loop c pgdir (PGROUNDUP newsz) oldsz s) (\<lambda>_ s. Ret newsz s))"

primrec free_tables ::
  "nat \<Rightarrow> nat \<Rightarrow> u32 \<Rightarrow> 'a kmem_scheme \<Rightarrow> (unit, lockid, 'a kmem_scheme) outcome" where
  "free_tables 0 c pgdir s = Ret () s"
| "free_tables (Suc n) c pgdir s =
     (let e = load32 (ram s) (pgdir + 4 * of_nat (NPDENTRIES - Suc n)) in
      if present e then
        andthen (kfree c (P2V (PTE_ADDR e)) s) (\<lambda>_ s. free_tables n c pgdir s)
      else free_tables n c pgdir s)"

definition freevm :: "nat \<Rightarrow> u32 \<Rightarrow> 'a kmem_scheme \<Rightarrow> (unit, lockid, 'a kmem_scheme) outcome" where
  "freevm c pgdir s =
     (if pgdir = 0 then Panic ''freevm: no pgdir'' s
      else
        andthen (deallocuvm c pgdir KERNBASE 0 s) (\<lambda>_ s.
        andthen (free_tables NPDENTRIES c pgdir s) (\<lambda>_ s.
        kfree c pgdir s)))"

subsection \<open>Building address spaces\<close>

record kmap_entry =
  virt :: u32
  phys_start :: u32
  phys_end :: u32
  perm :: u32

definition kmap :: "'a kmem_scheme \<Rightarrow> kmap_entry list" where
  "kmap s =
    [\<lparr>virt = KERNBASE, phys_start = 0, phys_end = EXTMEM, perm = PTE_W\<rparr>,
     \<lparr>virt = KERNLINK, phys_start = V2P KERNLINK, phys_end = V2P (kdata s), perm = 0\<rparr>,
     \<lparr>virt = kdata s, phys_start = V2P (kdata s), phys_end = PHYSTOP, perm = PTE_W\<rparr>,
     \<lparr>virt = DEVSPACE, phys_start = DEVSPACE, phys_end = 0, perm = PTE_W\<rparr>]"

fun setupkvm_loop ::
  "nat \<Rightarrow> u32 \<Rightarrow> kmap_entry list \<Rightarrow> 'a kmem_scheme \<Rightarrow> (u32, lockid, 'a kmem_scheme) outcome" where
  "setupkvm_loop c pgdir [] s = Ret pgdir s"
| "setupkvm_loop c pgdir (k # ks) s =
     andthen (mappages c pgdir (virt k) (phys_end k - phys_start k) (phys_start k) (perm k) s) (\<lambda>r s.
       if r <s 0 then andthen (freevm c pgdir s) (\<lambda>_ s. Ret 0 s)
       else setupkvm_loop c pgdir ks s)"

definition setupkvm :: "nat \<Rightarrow> 'a kmem_scheme \<Rightarrow> (u32, lockid, 'a kmem_scheme) outcome" where
  "setupkvm c s =
     andthen (kalloc c s) (\<lambda>pgdir s.
       if pgdir = 0 then Ret 0 s
       else
         let s = set_ram (memset pgdir 0 PGSIZE) s in
         if DEVSPACE < P2V PHYSTOP then Panic ''PHYSTOP too high'' s
         else setupkvm_loop c pgdir (kmap s) s)"

definition switchkvm :: "nat \<Rightarrow> 'a kmem_scheme \<Rightarrow> 'a kmem_scheme" where
  "switchkvm c s = upd_cpu c (\<lambda>k. k\<lparr>cr3 := V2P (kpgdir s)\<rparr>) s"

definition kvmalloc :: "nat \<Rightarrow> 'a kmem_scheme \<Rightarrow> (unit, lockid, 'a kmem_scheme) outcome" where
  "kvmalloc c s =
     andthen (setupkvm c s) (\<lambda>p s. Ret () (switchkvm c (s\<lparr>kpgdir := p\<rparr>)))"

primrec copy_bytes :: "u32 \<Rightarrow> u8 list \<Rightarrow> mem \<Rightarrow> mem" where
  "copy_bytes a [] m = m"
| "copy_bytes a (b # bs) m = copy_bytes (a + 1) bs (m(a := b))"

definition inituvm ::
  "nat \<Rightarrow> u32 \<Rightarrow> u8 list \<Rightarrow> 'a kmem_scheme \<Rightarrow> (unit, lockid, 'a kmem_scheme) outcome" where
  "inituvm c pgdir init s =
     (if 4096 \<le> length init then Panic ''inituvm: more than a page'' s
      else andthen (kalloc c s) (\<lambda>m s.
        let s = set_ram (memset m 0 PGSIZE) s in
        andthen (mappages c pgdir 0 PGSIZE (V2P m) (PTE_W OR PTE_U) s) (\<lambda>_ s.
          Ret () (set_ram (copy_bytes m init) s))))"

text \<open>
  The loop of \<open>allocuvm\<close>; \<open>newsz < KERNBASE\<close> by the caller's check, so the address cannot wrap.
\<close>

function allocuvm_loop ::
  "nat \<Rightarrow> u32 \<Rightarrow> u32 \<Rightarrow> u32 \<Rightarrow> u32 \<Rightarrow> 'a kmem_scheme \<Rightarrow> (u32, lockid, 'a kmem_scheme) outcome" where
  "allocuvm_loop c pgdir a oldsz newsz s =
     (if a < newsz then
        andthen (kalloc c s) (\<lambda>m s.
          if m = 0 then andthen (deallocuvm c pgdir newsz oldsz s) (\<lambda>_ s. Ret 0 s)
          else
            let s = set_ram (memset m 0 PGSIZE) s in
            andthen (mappages c pgdir a PGSIZE (V2P m) (PTE_W OR PTE_U) s) (\<lambda>r s.
              if r <s 0 then
                andthen (deallocuvm c pgdir newsz oldsz s) (\<lambda>_ s.
                andthen (kfree c m s) (\<lambda>_ s. Ret 0 s))
              else if a + PGSIZE \<le> a then Diverge s
              else allocuvm_loop c pgdir (a + PGSIZE) oldsz newsz s))
      else Ret newsz s)"
  by pat_completeness auto
termination
  by (relation "measure (\<lambda>(c, pgdir, a, oldsz, newsz, s). 2 ^ 32 - unat a)")
    (use unsigned_less [where 'a = nat and 'b = 32] in
      \<open>auto simp: word_le_nat_alt not_le intro!: diff_less_mono2\<close>)

declare allocuvm_loop.simps [simp del]

definition allocuvm ::
  "nat \<Rightarrow> u32 \<Rightarrow> u32 \<Rightarrow> u32 \<Rightarrow> 'a kmem_scheme \<Rightarrow> (u32, lockid, 'a kmem_scheme) outcome" where
  "allocuvm c pgdir oldsz newsz s =
     (if KERNBASE \<le> newsz then Ret 0 s
      else if newsz < oldsz then Ret oldsz s
      else allocuvm_loop c pgdir (PGROUNDUP oldsz) oldsz newsz s)"

definition clearpteu ::
  "nat \<Rightarrow> u32 \<Rightarrow> u32 \<Rightarrow> 'a kmem_scheme \<Rightarrow> (unit, lockid, 'a kmem_scheme) outcome" where
  "clearpteu c pgdir uva s =
     andthen (walkpgdir c pgdir uva False s) (\<lambda>pte s.
       if pte = 0 then Panic ''clearpteu'' s
       else Ret () (set_ram (store32 pte (load32 (ram s) pte AND NOT PTE_U)) s))"

function copyuvm_loop ::
  "nat \<Rightarrow> u32 \<Rightarrow> u32 \<Rightarrow> u32 \<Rightarrow> u32 \<Rightarrow> 'a kmem_scheme \<Rightarrow> (u32, lockid, 'a kmem_scheme) outcome" where
  "copyuvm_loop c pgdir d i sz s =
     (if i < sz then
        andthen (walkpgdir c pgdir i False s) (\<lambda>pte s.
          if pte = 0 then Panic ''copyuvm: pte should exist'' s
          else
            let e = load32 (ram s) pte in
            if \<not> present e then Panic ''copyuvm: page not present'' s
            else andthen (kalloc c s) (\<lambda>m s.
              if m = 0 then andthen (freevm c d s) (\<lambda>_ s. Ret 0 s)
              else
                let s = set_ram (memmove m (P2V (PTE_ADDR e)) PGSIZE) s in
                andthen (mappages c d i PGSIZE (V2P m) (PTE_FLAGS e) s) (\<lambda>r s.
                  if r <s 0 then
                    andthen (kfree c m s) (\<lambda>_ s. andthen (freevm c d s) (\<lambda>_ s. Ret 0 s))
                  else if i + PGSIZE \<le> i then Diverge s
                  else copyuvm_loop c pgdir d (i + PGSIZE) sz s)))
      else Ret d s)"
  by pat_completeness auto
termination
  by (relation "measure (\<lambda>(c, pgdir, d, i, sz, s). 2 ^ 32 - unat i)")
    (use unsigned_less [where 'a = nat and 'b = 32] in
      \<open>auto simp: word_le_nat_alt not_le intro!: diff_less_mono2\<close>)

declare copyuvm_loop.simps [simp del]

definition copyuvm ::
  "nat \<Rightarrow> u32 \<Rightarrow> u32 \<Rightarrow> 'a kmem_scheme \<Rightarrow> (u32, lockid, 'a kmem_scheme) outcome" where
  "copyuvm c pgdir sz s =
     andthen (setupkvm c s) (\<lambda>d s. if d = 0 then Ret 0 s else copyuvm_loop c pgdir d 0 sz s)"

text \<open>
  \<open>uva2ka\<close> reads through the entry pointer without a NULL test; where the page-table page is missing
  the kernel faults, and the trap handler panics.
\<close>

definition uva2ka :: "nat \<Rightarrow> u32 \<Rightarrow> u32 \<Rightarrow> 'a kmem_scheme \<Rightarrow> (u32, lockid, 'a kmem_scheme) outcome" where
  "uva2ka c pgdir uva s =
     andthen (walkpgdir c pgdir uva False s) (\<lambda>pte s.
       if pte = 0 then Panic ''trap'' s
       else
         let e = load32 (ram s) pte in
         if \<not> present e then Ret 0 s
         else if e AND PTE_U = 0 then Ret 0 s
         else Ret (P2V (PTE_ADDR e)) s)"

text \<open>The source buffer of \<open>copyout\<close> is kernel data, given by its bytes.\<close>

function copyout ::
  "nat \<Rightarrow> u32 \<Rightarrow> u32 \<Rightarrow> u8 list \<Rightarrow> 'a kmem_scheme \<Rightarrow> (i32, lockid, 'a kmem_scheme) outcome" where
  "copyout c pgdir va buf s =
     (if buf = [] then Ret 0 s
      else
        let va0 = PGROUNDDOWN va in
        andthen (uva2ka c pgdir va0 s) (\<lambda>pa0 s.
          if pa0 = 0 then Ret (- 1) s
          else
            let n = min (4096 - unat (va - va0)) (length buf);
                s = set_ram (copy_bytes (pa0 + (va - va0)) (take n buf)) s
            in copyout c pgdir (va0 + PGSIZE) (drop n buf) s))"
  by pat_completeness auto
termination
proof (relation "measure (\<lambda>(c, pgdir, va, buf, s). length buf)", simp)
  fix c pgdir va and buf :: "u8 list" and s s' :: "'a kmem_scheme" and va0 pa0 n t
  assume "buf \<noteq> []" "va0 = PGROUNDDOWN va" "n = min (4096 - unat (va - va0)) (length buf)"
  moreover have "unat (va - PGROUNDDOWN va) < 4096"
    by (simp add: unat_page_offset)
  ultimately show "((c, pgdir, va0 + PGSIZE, drop n buf, t), c, pgdir, va, buf, s)
      \<in> measure (\<lambda>(c, pgdir, va, buf, s). length buf)"
    by simp
qed

declare copyout.simps [simp del]

end
