(* ===== verification/LCG.thy ===== *)
theory LCG
  imports Prelude
begin

unbundle bit_operations_syntax

text \<open>
  The linear congruential generator of src/random.c, used by the lottery scheduler.  The seed is
  explicit state.  A draw from an empty range divides by zero, which the processor reports as a trap:
  the result is then \<open>None\<close>.
\<close>

definition srand :: "u32 \<Rightarrow> u32" where
  "srand s = s"

definition next_seed :: "u32 \<Rightarrow> u32" where
  "next_seed seed = 1664525 * seed + 1013904223"

definition rand15 :: "u32 \<Rightarrow> u32" where
  "rand15 seed = drop_bit 16 seed AND 0x7FFF"

definition get_random :: "i32 \<Rightarrow> i32 \<Rightarrow> u32 \<Rightarrow> (i32 \<times> u32) option" where
  "get_random mn mx seed =
     (let seed = next_seed seed; rand = rand15 seed; range = mx - mn in
      if range = 0 then None else Some ((rand mod range) + mn, seed))"

lemma rand15_le: "unat (rand15 s) \<le> 32767"
proof -
  have "rand15 s \<le> 0x7FFF"
    unfolding rand15_def by (rule word_and_le1)
  then show ?thesis by (simp add: word_le_nat_alt)
qed

text \<open>A draw from \<open>[0, n)\<close>, as the scheduler makes it.\<close>

lemma get_random_zero:
  assumes "0 <s n"
  shows "\<exists>r. get_random 0 n seed = Some (r, next_seed seed) \<and> unat r < unat n \<and> unat r \<le> 32767"
proof -
  have "n \<noteq> 0" using assms by auto
  moreover have "unat (rand15 (next_seed seed) mod n) < unat n"
    using \<open>n \<noteq> 0\<close> by (simp add: unat_mod unat_gt_0)
  moreover have "unat (rand15 (next_seed seed) mod n) \<le> 32767"
    using rand15_le [of "next_seed seed"] by (simp add: unat_mod) (meson le_trans mod_less_eq_dividend)
  ultimately show ?thesis
    by (simp add: get_random_def Let_def)
qed

end
