(* ===== verification/Proc.thy ===== *)
theory Proc
  imports VM LCG
begin

unbundle bit_operations_syntax

text \<open>
  Processes (src/proc.c, src/proc.h).  The process table, the performance records the project adds,
  the clock and the seed of the lottery are one state, which extends the machine and memory state of
  the theories below.  A pointer to a process is its index in the table.

  A trap frame and a saved context live on the process's own kernel stack; the model keeps their
  addresses (\<open>p_tf\<close>, \<open>p_context\<close>) and, beside them, their contents (\<open>p_frame\<close>, \<open>p_ctx\<close>).
  A name is the bytes before its terminating NUL.

  Context switches cut a function in two: \<open>sched\<close> ends in \<open>Sleep\<close>, and the part that runs when the
  process is switched to again is a function of its own (\<open>sched_resume\<close>, \<open>sleep_resume\<close>).
\<close>

subsection \<open>Data\<close>

definition NPROC :: nat where "NPROC = 64"
definition NOFILE :: nat where "NOFILE = 16"
definition KSTACKSIZE :: u32 where "KSTACKSIZE = 4096"
definition DEFAULT_TICKETS :: i32 where "DEFAULT_TICKETS = 10"

datatype procstate = UNUSED | EMBRYO | SLEEPING | RUNNABLE | RUNNING | ZOMBIE

datatype chan =
    Ch_proc nat | Ch_ticks | Ch_log | Ch_input
  | Ch_pipe_read u32 | Ch_pipe_write u32 | Ch_sleeplock nat | Ch_buf nat

record trapframe =
  tf_edi :: u32
  tf_esi :: u32
  tf_ebp :: u32
  tf_oesp :: u32
  tf_ebx :: u32
  tf_edx :: u32
  tf_ecx :: u32
  tf_eax :: u32
  tf_gs :: u16
  tf_fs :: u16
  tf_es :: u16
  tf_ds :: u16
  tf_trapno :: u32
  tf_err :: u32
  tf_eip :: u32
  tf_cs :: u16
  tf_eflags :: u32
  tf_esp :: u32
  tf_ss :: u16

definition zero_trapframe :: trapframe where
  "zero_trapframe = \<lparr>tf_edi = 0, tf_esi = 0, tf_ebp = 0, tf_oesp = 0, tf_ebx = 0, tf_edx = 0,
     tf_ecx = 0, tf_eax = 0, tf_gs = 0, tf_fs = 0, tf_es = 0, tf_ds = 0, tf_trapno = 0, tf_err = 0,
     tf_eip = 0, tf_cs = 0, tf_eflags = 0, tf_esp = 0, tf_ss = 0\<rparr>"

record kcontext =
  cx_edi :: u32
  cx_esi :: u32
  cx_ebx :: u32
  cx_ebp :: u32
  cx_eip :: u32

record perfdata =
  pd_pid :: i32
  pd_creation_time :: i32
  pd_start_time :: i32
  pd_completion_time :: i32
  pd_total_run_time :: i32
  pd_total_ready_time :: i32
  pd_valid :: bool

record proc =
  p_sz :: u32
  p_pgdir :: u32
  p_kstack :: u32
  p_state :: procstate
  p_pid :: i32
  p_parent :: "nat option"
  p_tf :: u32
  p_frame :: trapframe
  p_ret :: u32 \<comment> \<open>the word above the context: the return address of \<open>forkret\<close>\<close>
  p_context :: u32
  p_ctx :: kcontext
  p_chan :: "chan option"
  p_killed :: bool
  p_runticks :: i32
  p_ofile :: "nat option list"
  p_cwd :: "nat option"
  p_name :: "u8 list"
  p_tickets :: i32
  p_enqueue_time :: i32
  p_creation_time :: i32
  p_start_time :: i32
  p_completion_time :: i32
  p_total_run_time :: i32
  p_total_ready_time :: i32

record pst = kmem +
  procs :: "proc list"
  perf_data :: "perfdata list"
  last_completion_time :: u32
  initproc :: "nat option"
  nextpid :: i32
  ticks :: u32
  rseed :: u32
  sym_trapret :: u32 \<comment> \<open>address of \<open>trapret\<close> (src/trapasm.S)\<close>
  sym_forkret :: u32 \<comment> \<open>address of \<open>forkret\<close>\<close>

definition updp :: "nat \<Rightarrow> (proc \<Rightarrow> proc) \<Rightarrow> 'a pst_scheme \<Rightarrow> 'a pst_scheme" where
  "updp i f s = s\<lparr>procs := (procs s)[i := f (procs s ! i)]\<rparr>"

subsection \<open>Start-up, the current process, and address-space switches\<close>

definition pinit :: "'a pst_scheme \<Rightarrow> 'a pst_scheme" where
  "pinit s =
     (let s = initlock Lk_ptable ''ptable'' s; s = initlock Lk_perf ''perfdata'' s in
      s\<lparr>last_completion_time := 0, perf_data := map (\<lambda>d. d\<lparr>pd_valid := False\<rparr>) (perf_data s)\<rparr>)"

definition myproc :: "nat \<Rightarrow> 'a mach_scheme \<Rightarrow> (nat option, lockid, 'a mach_scheme) outcome" where
  "myproc c s =
     andthen (pushcli c s) (\<lambda>_ s.
     andthen (mycpu c s) (\<lambda>i s.
       let p = cproc (cpus s ! i) in
       andthen (popcli c s) (\<lambda>_ s. Ret p s)))"

definition switchuvm :: "nat \<Rightarrow> nat option \<Rightarrow> 'a pst_scheme \<Rightarrow> (unit, lockid, 'a pst_scheme) outcome" where
  "switchuvm c q s =
     (case q of
        None \<Rightarrow> Panic ''switchuvm: no process'' s
      | Some p \<Rightarrow>
          if p_kstack (procs s ! p) = 0 then Panic ''switchuvm: no kstack'' s
          else if p_pgdir (procs s ! p) = 0 then Panic ''switchuvm: no pgdir'' s
          else
            andthen (pushcli c s) (\<lambda>_ s.
            andthen (mycpu c s) (\<lambda>i s.
              let s = upd_cpu i (\<lambda>k. k\<lparr>ts_esp0 := p_kstack (procs s ! p) + KSTACKSIZE\<rparr>) s;
                  s = upd_cpu c (\<lambda>k. k\<lparr>cr3 := V2P (p_pgdir (procs s ! p))\<rparr>) s
              in popcli c s)))"

subsection \<open>Allocating a process\<close>

definition sizeof_trapframe :: u32 where "sizeof_trapframe = 76"
definition sizeof_context :: u32 where "sizeof_context = 20"

definition allocproc :: "nat \<Rightarrow> 'a pst_scheme \<Rightarrow> (nat option, lockid, 'a pst_scheme) outcome" where
  "allocproc c s =
     andthen (acquire c Lk_ptable s) (\<lambda>_ s.
     case scan (\<lambda>p. p_state p = UNUSED) (procs s) of
       None \<Rightarrow> andthen (release c Lk_ptable s) (\<lambda>_ s. Ret None s)
     | Some i \<Rightarrow>
         let s = updp i (\<lambda>p. p\<lparr>p_state := EMBRYO, p_pid := nextpid s, p_runticks := 0,
                               p_tickets := DEFAULT_TICKETS\<rparr>) s;
             s = s\<lparr>nextpid := nextpid s + 1\<rparr> in
         andthen (acquire c Lk_ticks s) (\<lambda>_ s.
         andthen (release c Lk_ticks
           (updp i (\<lambda>p. p\<lparr>p_creation_time := ticks s, p_start_time := ticks s\<rparr>) s)) (\<lambda>_ s.
         andthen (release c Lk_ptable
           (updp i (\<lambda>p. p\<lparr>p_completion_time := 0, p_total_run_time := 0, p_total_ready_time := 0,
                          p_enqueue_time := 0\<rparr>) s)) (\<lambda>_ s.
         andthen (kalloc c s) (\<lambda>k s.
           let s = updp i (\<lambda>p. p\<lparr>p_kstack := k\<rparr>) s in
           if k = 0 then Ret None (updp i (\<lambda>p. p\<lparr>p_state := UNUSED\<rparr>) s)
           else
             let sp = k + KSTACKSIZE;
                 sp = sp - sizeof_trapframe;
                 s = updp i (\<lambda>p. p\<lparr>p_tf := sp\<rparr>) s;
                 sp = sp - 4;
                 s = updp i (\<lambda>p. p\<lparr>p_ret := sym_trapret s\<rparr>) s;
                 sp = sp - sizeof_context;
                 s = updp i (\<lambda>p. p\<lparr>p_context := sp,
                       p_ctx := \<lparr>cx_edi = 0, cx_esi = 0, cx_ebx = 0, cx_ebp = 0, cx_eip = sym_forkret s\<rparr>\<rparr>) s
             in Ret (Some i) s)))))"

subsection \<open>Sleep and wakeup\<close>

definition wakeup1 :: "chan option \<Rightarrow> 'a pst_scheme \<Rightarrow> 'a pst_scheme" where
  "wakeup1 ch s = s\<lparr>procs := map (\<lambda>p.
     if p_state p = SLEEPING \<and> p_chan p = ch
     then p\<lparr>p_state := RUNNABLE, p_enqueue_time := ticks s\<rparr> else p) (procs s)\<rparr>"

definition wakeup :: "nat \<Rightarrow> chan option \<Rightarrow> 'a pst_scheme \<Rightarrow> (unit, lockid, 'a pst_scheme) outcome" where
  "wakeup c ch s =
     andthen (acquire c Lk_ptable s) (\<lambda>_ s. release c Lk_ptable (wakeup1 ch s))"

text \<open>
  \<open>sched\<close> up to the switch: its result is the interrupt state it saves in a local variable and puts
  back when it is resumed.  A NULL current process faults.
\<close>

definition sched_enter :: "nat \<Rightarrow> 'a pst_scheme \<Rightarrow> (bool, lockid, 'a pst_scheme) outcome" where
  "sched_enter c s =
     andthen (myproc c s) (\<lambda>p s.
     andthen (holding c Lk_ptable s) (\<lambda>h s.
       if \<not> h then Panic ''sched ptable.lock'' s
       else andthen (mycpu c s) (\<lambda>i s.
         if ncli (cpus s ! i) \<noteq> 1 then Panic ''sched locks'' s
         else case p of
           None \<Rightarrow> Panic ''trap'' s
         | Some p \<Rightarrow>
             if p_state (procs s ! p) = RUNNING then Panic ''sched running'' s
             else if if_flag (cpus s ! c) then Panic ''sched interruptible'' s
             else Ret (intena (cpus s ! i)) s)))"

definition sched :: "nat \<Rightarrow> 'a pst_scheme \<Rightarrow> (unit, lockid, 'a pst_scheme) outcome" where
  "sched c s = andthen (sched_enter c s) (\<lambda>_ s. Sleep s)"

definition sched_resume :: "nat \<Rightarrow> bool \<Rightarrow> 'a pst_scheme \<Rightarrow> (unit, lockid, 'a pst_scheme) outcome" where
  "sched_resume c saved s =
     andthen (mycpu c s) (\<lambda>i s. Ret () (upd_cpu i (\<lambda>k. k\<lparr>intena := saved\<rparr>) s))"

definition charge_ready :: "u32 \<Rightarrow> proc \<Rightarrow> proc" where
  "charge_ready t p = p\<lparr>p_total_ready_time := p_total_ready_time p + (t - p_enqueue_time p)\<rparr>"

definition sleep ::
  "nat \<Rightarrow> chan \<Rightarrow> lockid option \<Rightarrow> 'a pst_scheme \<Rightarrow> (unit, lockid, 'a pst_scheme) outcome" where
  "sleep c ch lk s =
     andthen (myproc c s) (\<lambda>q s.
     case q of None \<Rightarrow> Panic ''sleep'' s | Some p \<Rightarrow>
     (case lk of None \<Rightarrow> Panic ''sleep without lk'' s | Some l \<Rightarrow>
       andthen (if l \<noteq> Lk_ptable then andthen (acquire c Lk_ptable s) (\<lambda>_ s. release c l s)
                else Ret () s) (\<lambda>_ s.
         let s = (if 0 <s p_enqueue_time (procs s ! p)
                  then updp p (\<lambda>q. (charge_ready (ticks s) q)\<lparr>p_enqueue_time := 0\<rparr>) s else s);
             s = updp p (\<lambda>q. q\<lparr>p_chan := Some ch, p_state := SLEEPING\<rparr>) s
         in sched c s)))"

definition sleep_resume ::
  "nat \<Rightarrow> nat \<Rightarrow> lockid \<Rightarrow> bool \<Rightarrow> 'a pst_scheme \<Rightarrow> (unit, lockid, 'a pst_scheme) outcome" where
  "sleep_resume c p l saved s =
     andthen (sched_resume c saved s) (\<lambda>_ s.
       let s = updp p (\<lambda>q. q\<lparr>p_chan := None\<rparr>) s in
       if l \<noteq> Lk_ptable then andthen (release c Lk_ptable s) (\<lambda>_ s. acquire c l s) else Ret () s)"

definition yield_enter :: "nat \<Rightarrow> 'a pst_scheme \<Rightarrow> (unit, lockid, 'a pst_scheme) outcome" where
  "yield_enter c s =
     andthen (myproc c s) (\<lambda>q s.
     andthen (acquire c Lk_ptable s) (\<lambda>_ s.
     case q of None \<Rightarrow> Panic ''trap'' s | Some p \<Rightarrow>
       let s = updp p (\<lambda>q. q\<lparr>p_state := RUNNABLE\<rparr>) s in
       andthen (acquire c Lk_ticks s) (\<lambda>_ s.
       andthen (release c Lk_ticks (updp p (\<lambda>q. q\<lparr>p_enqueue_time := ticks s\<rparr>) s)) (\<lambda>_ s.
       sched c s))))"

definition yield_resume :: "nat \<Rightarrow> bool \<Rightarrow> 'a pst_scheme \<Rightarrow> (unit, lockid, 'a pst_scheme) outcome" where
  "yield_resume c saved s = andthen (sched_resume c saved s) (\<lambda>_ s. release c Lk_ptable s)"

subsection \<open>Performance records\<close>

definition perf_entry :: "proc \<Rightarrow> perfdata" where
  "perf_entry p = \<lparr>pd_pid = p_pid p, pd_creation_time = p_creation_time p,
     pd_start_time = p_start_time p, pd_completion_time = p_completion_time p,
     pd_total_run_time = p_total_run_time p, pd_total_ready_time = p_total_ready_time p,
     pd_valid = True\<rparr>"

text \<open>The store loop that \<open>exit\<close>, \<open>wait\<close> and the lottery scheduler share: first invalid entry.\<close>

definition store_perf :: "nat \<Rightarrow> 'a pst_scheme \<Rightarrow> bool \<times> 'a pst_scheme" where
  "store_perf i s =
     (case scan (\<lambda>d. \<not> pd_valid d) (perf_data s) of
        None \<Rightarrow> (False, s)
      | Some j \<Rightarrow> (True, s\<lparr>perf_data := (perf_data s)[j := perf_entry (procs s ! i)]\<rparr>))"

definition finalize_metrics :: "u32 \<Rightarrow> proc \<Rightarrow> proc" where
  "finalize_metrics t p =
     (let p = (if p_completion_time p \<le>s p_creation_time p then p\<lparr>p_completion_time := t\<rparr> else p);
          p = (if p_total_run_time p = 0 then p\<lparr>p_total_run_time := 1\<rparr> else p)
      in if 0 <s p_enqueue_time p then (charge_ready t p)\<lparr>p_enqueue_time := 0\<rparr> else p)"

subsection \<open>Exit and wait\<close>

text \<open>
  \<open>exit\<close> up to the point where it closes the files, and from the point where it has dropped its
  directory; the file-system part between the two belongs to the file layer.
\<close>

definition exit_metrics :: "nat \<Rightarrow> 'a pst_scheme \<Rightarrow> (nat, lockid, 'a pst_scheme) outcome" where
  "exit_metrics c s =
     andthen (myproc c s) (\<lambda>q s.
     if q = initproc s then Panic ''init exiting'' s
     else case q of None \<Rightarrow> Panic ''trap'' s | Some p \<Rightarrow>
       andthen (acquire c Lk_ptable s) (\<lambda>_ s.
         let s = updp p (finalize_metrics (ticks s)) s in
         andthen (acquire c Lk_perf s) (\<lambda>_ s.
         andthen (release c Lk_perf (snd (store_perf p s))) (\<lambda>_ s.
         andthen (release c Lk_ptable s) (\<lambda>_ s. Ret p s)))))"

fun reparent :: "nat \<Rightarrow> nat list \<Rightarrow> 'a pst_scheme \<Rightarrow> 'a pst_scheme" where
  "reparent cur [] s = s"
| "reparent cur (i # is) s =
     (if p_parent (procs s ! i) = Some cur then
        let s = updp i (\<lambda>p. p\<lparr>p_parent := initproc s\<rparr>) s;
            s = (if p_state (procs s ! i) = ZOMBIE
                 then wakeup1 (map_option Ch_proc (initproc s)) s else s)
        in reparent cur is s
      else reparent cur is s)"

definition exit_zombie :: "nat \<Rightarrow> nat \<Rightarrow> 'a pst_scheme \<Rightarrow> (unit, lockid, 'a pst_scheme) outcome" where
  "exit_zombie c cur s =
     andthen (acquire c Lk_ptable s) (\<lambda>_ s.
       let s = wakeup1 (map_option Ch_proc (p_parent (procs s ! cur))) s;
           s = reparent cur [0..<NPROC] s;
           s = updp cur (\<lambda>p. p\<lparr>p_state := ZOMBIE\<rparr>) s
       in sched c s)"

text \<open>
  One pass of \<open>wait\<close> over the table: the pid of a reaped child, or whether there were children.  When
  the performance records are full the \<open>continue\<close> of the source skips the zombie.
\<close>

fun wait_scan ::
  "nat \<Rightarrow> nat \<Rightarrow> nat list \<Rightarrow> bool \<Rightarrow> 'a pst_scheme \<Rightarrow> (i32 option \<times> bool, lockid, 'a pst_scheme) outcome" where
  "wait_scan c cur [] havekids s = Ret (None, havekids) s"
| "wait_scan c cur (i # is) havekids s =
     (if p_parent (procs s ! i) \<noteq> Some cur then wait_scan c cur is havekids s
      else if p_state (procs s ! i) = ZOMBIE then
        let pid = p_pid (procs s ! i);
            s = updp i (finalize_metrics (ticks s)) s in
        andthen (acquire c Lk_perf s) (\<lambda>_ s.
          let (stored, s) = store_perf i s in
          andthen (release c Lk_perf s) (\<lambda>_ s.
            if \<not> stored then wait_scan c cur is True s
            else
              andthen (kfree c (p_kstack (procs s ! i)) s) (\<lambda>_ s.
              let s = updp i (\<lambda>p. p\<lparr>p_kstack := 0\<rparr>) s in
              andthen (freevm c (p_pgdir (procs s ! i)) s) (\<lambda>_ s.
              let s = updp i (\<lambda>p. p\<lparr>p_pid := 0, p_parent := None, p_name := [], p_killed := False,
                                    p_state := UNUSED\<rparr>) s in
              andthen (release c Lk_ptable s) (\<lambda>_ s. Ret (Some pid, True) s)))))
      else wait_scan c cur is True s)"

text \<open>
  One round of the loop of \<open>wait\<close>, entered with the table locked: a result, or a sleep after which
  the round runs again.
\<close>

definition wait_round :: "nat \<Rightarrow> nat \<Rightarrow> 'a pst_scheme \<Rightarrow> (i32, lockid, 'a pst_scheme) outcome" where
  "wait_round c cur s =
     andthen (wait_scan c cur [0..<NPROC] False s) (\<lambda>(r, havekids) s.
       case r of
         Some pid \<Rightarrow> Ret pid s
       | None \<Rightarrow>
           if \<not> havekids \<or> p_killed (procs s ! cur) then
             andthen (release c Lk_ptable s) (\<lambda>_ s. Ret (- 1) s)
           else andthen (sleep c (Ch_proc cur) (Some Lk_ptable) s) (\<lambda>_ s. Ret 0 s))"

definition wait :: "nat \<Rightarrow> 'a pst_scheme \<Rightarrow> (i32, lockid, 'a pst_scheme) outcome" where
  "wait c s =
     andthen (myproc c s) (\<lambda>q s.
     case q of None \<Rightarrow> Panic ''trap'' s | Some cur \<Rightarrow>
       andthen (acquire c Lk_ptable s) (\<lambda>_ s. wait_round c cur s))"

subsection \<open>Signals, queries and tickets\<close>

definition kill :: "nat \<Rightarrow> i32 \<Rightarrow> 'a pst_scheme \<Rightarrow> (i32, lockid, 'a pst_scheme) outcome" where
  "kill c pid s =
     andthen (acquire c Lk_ptable s) (\<lambda>_ s.
     case scan (\<lambda>p. p_pid p = pid) (procs s) of
       Some i \<Rightarrow>
         let s = updp i (\<lambda>p. p\<lparr>p_killed := True\<rparr>) s;
             s = (if p_state (procs s ! i) = SLEEPING
                  then updp i (\<lambda>p. p\<lparr>p_state := RUNNABLE\<rparr>) s else s)
         in andthen (release c Lk_ptable s) (\<lambda>_ s. Ret 0 s)
     | None \<Rightarrow> andthen (release c Lk_ptable s) (\<lambda>_ s. Ret (- 1) s))"

definition getrunticks :: "nat \<Rightarrow> i32 \<Rightarrow> 'a pst_scheme \<Rightarrow> (i32, lockid, 'a pst_scheme) outcome" where
  "getrunticks c pid s =
     andthen (acquire c Lk_ptable s) (\<lambda>_ s.
       let v = (case scan (\<lambda>p. p_pid p = pid) (procs s) of
                  None \<Rightarrow> - 1
                | Some i \<Rightarrow>
                    if p_state (procs s ! i) \<noteq> ZOMBIE \<and> p_state (procs s ! i) \<noteq> UNUSED
                    then p_runticks (procs s ! i) else - 1)
       in andthen (release c Lk_ptable s) (\<lambda>_ s. Ret v s))"

definition set_tickets :: "nat \<Rightarrow> i32 \<Rightarrow> 'a pst_scheme \<Rightarrow> (i32, lockid, 'a pst_scheme) outcome" where
  "set_tickets c t s =
     (if t \<le>s 0 then Ret (- 1) s
      else andthen (myproc c s) (\<lambda>q s.
        case q of None \<Rightarrow> Ret (- 1) s | Some p \<Rightarrow>
          andthen (acquire c Lk_ptable s) (\<lambda>_ s.
          andthen (release c Lk_ptable (updp p (\<lambda>q. q\<lparr>p_tickets := t\<rparr>) s)) (\<lambda>_ s. Ret 0 s))))"

definition gettickets :: "nat \<Rightarrow> i32 \<Rightarrow> 'a pst_scheme \<Rightarrow> (i32, lockid, 'a pst_scheme) outcome" where
  "gettickets c pid s =
     andthen (acquire c Lk_ptable s) (\<lambda>_ s.
       let v = (case scan (\<lambda>p. p_pid p = pid) (procs s) of
                  None \<Rightarrow> - 1
                | Some i \<Rightarrow>
                    if p_state (procs s ! i) = RUNNABLE \<or> p_state (procs s ! i) = RUNNING
                    then p_tickets (procs s ! i) else - 1)
       in andthen (release c Lk_ptable s) (\<lambda>_ s. Ret v s))"

definition job_position :: "nat \<Rightarrow> i32 \<Rightarrow> 'a pst_scheme \<Rightarrow> (i32, lockid, 'a pst_scheme) outcome" where
  "job_position c pid s =
     andthen (acquire c Lk_ptable s) (\<lambda>_ s.
     case scan (\<lambda>p. p_pid p = pid) (procs s) of
       Some i \<Rightarrow> andthen (release c Lk_ptable s) (\<lambda>_ s. Ret (p_pid (procs s ! i)) s)
     | None \<Rightarrow> andthen (release c Lk_ptable s) (\<lambda>_ s. Ret (- 1) s))"

text \<open>
  The five metric queries have the same body up to the field they read: the live process first, then
  the stored records if the value read is \<open>-1\<close>.
\<close>

definition get_metric ::
  "(proc \<Rightarrow> i32) \<Rightarrow> (perfdata \<Rightarrow> i32) \<Rightarrow> nat \<Rightarrow> i32 \<Rightarrow> 'a pst_scheme \<Rightarrow> (i32, lockid, 'a pst_scheme) outcome" where
  "get_metric live hist c pid s =
     andthen (acquire c Lk_ptable s) (\<lambda>_ s.
       let v = (case scan (\<lambda>p. p_pid p = pid) (procs s) of
                  None \<Rightarrow> - 1 | Some i \<Rightarrow> live (procs s ! i)) in
       andthen (release c Lk_ptable s) (\<lambda>_ s.
         if v = - 1 then
           andthen (acquire c Lk_perf s) (\<lambda>_ s.
             let v = (case scan (\<lambda>d. pd_valid d \<and> pd_pid d = pid) (perf_data s) of
                        None \<Rightarrow> v | Some j \<Rightarrow> hist (perf_data s ! j)) in
             andthen (release c Lk_perf s) (\<lambda>_ s. Ret v s))
         else Ret v s))"

definition get_creation_time :: "nat \<Rightarrow> i32 \<Rightarrow> 'a pst_scheme \<Rightarrow> (i32, lockid, 'a pst_scheme) outcome" where
  "get_creation_time = get_metric p_creation_time pd_creation_time"

definition get_start_time :: "nat \<Rightarrow> i32 \<Rightarrow> 'a pst_scheme \<Rightarrow> (i32, lockid, 'a pst_scheme) outcome" where
  "get_start_time = get_metric p_start_time pd_start_time"

definition get_completion_time :: "nat \<Rightarrow> i32 \<Rightarrow> 'a pst_scheme \<Rightarrow> (i32, lockid, 'a pst_scheme) outcome" where
  "get_completion_time = get_metric p_completion_time pd_completion_time"

definition get_total_run_time :: "nat \<Rightarrow> i32 \<Rightarrow> 'a pst_scheme \<Rightarrow> (i32, lockid, 'a pst_scheme) outcome" where
  "get_total_run_time = get_metric p_total_run_time pd_total_run_time"

definition get_total_ready_time :: "nat \<Rightarrow> i32 \<Rightarrow> 'a pst_scheme \<Rightarrow> (i32, lockid, 'a pst_scheme) outcome" where
  "get_total_ready_time = get_metric p_total_ready_time pd_total_ready_time"

subsection \<open>Growing the current process\<close>

definition growproc :: "nat \<Rightarrow> i32 \<Rightarrow> 'a pst_scheme \<Rightarrow> (i32, lockid, 'a pst_scheme) outcome" where
  "growproc c n s =
     andthen (myproc c s) (\<lambda>q s.
     case q of None \<Rightarrow> Panic ''trap'' s | Some p \<Rightarrow>
       let sz = p_sz (procs s ! p); pd = p_pgdir (procs s ! p);
           fin = (\<lambda>sz s. andthen (switchuvm c (Some p) (updp p (\<lambda>q. q\<lparr>p_sz := sz\<rparr>) s)) (\<lambda>_ s. Ret 0 s)) in
       if 0 <s n then
         andthen (allocuvm c pd sz (sz + n) s) (\<lambda>sz s. if sz = 0 then Ret (- 1) s else fin sz s)
       else if n <s 0 then
         andthen (deallocuvm c pd sz (sz + n) s) (\<lambda>sz s. if sz = 0 then Ret (- 1) s else fin sz s)
       else fin sz s)"

end
