(* ===== verification/Scheduler.thy ===== *)
theory Scheduler
  imports Proc
begin

unbundle bit_operations_syntax

text \<open>
  The per-processor scheduler (\<open>scheduler\<close> of src/proc.c) in its default (round-robin) and lottery
  builds.  The \<open>FIFO\<close> build reads \<open>ptable.head\<close> and \<open>p->next\<close>, which no structure of the source
  declares, so it has no meaning to model.

  A context switch to a process and back is the parameter \<open>run\<close>: the state when the process switches
  back, as a function of its index and the state at the switch.  What the code relies on is that the
  process returns with the table lock as it found it.  Everything before and after the switch is the
  code of the scheduler.
\<close>

definition scheduler_init :: "nat \<Rightarrow> 'a pst_scheme \<Rightarrow> (unit, lockid, 'a pst_scheme) outcome" where
  "scheduler_init c s = andthen (mycpu c s) (\<lambda>i s. Ret () (upd_cpu i (\<lambda>k. k\<lparr>cproc := None\<rparr>) s))"

subsection \<open>Default build: round robin\<close>

definition default_enter :: "nat \<Rightarrow> nat \<Rightarrow> 'a pst_scheme \<Rightarrow> (u32, lockid, 'a pst_scheme) outcome" where
  "default_enter c p s =
     (let s = upd_cpu c (\<lambda>k. k\<lparr>cproc := Some p\<rparr>) s in
      andthen (switchuvm c (Some p) s) (\<lambda>_ s.
        let s = updp p (\<lambda>q. q\<lparr>p_state := RUNNING\<rparr>) s;
            s = (if p_start_time (procs s ! p) = 0
                 then updp p (\<lambda>q. q\<lparr>p_start_time := last_completion_time s\<rparr>) s else s);
            s = (if 0 <s p_enqueue_time (procs s ! p) then updp p (charge_ready (ticks s)) s else s) in
        andthen (acquire c Lk_ticks s) (\<lambda>_ s.
          let run_start = ticks s in
          andthen (release c Lk_ticks s) (\<lambda>_ s. Ret run_start s))))"

definition default_leave ::
  "nat \<Rightarrow> nat \<Rightarrow> u32 \<Rightarrow> 'a pst_scheme \<Rightarrow> (unit, lockid, 'a pst_scheme) outcome" where
  "default_leave c p run_start s =
     (let s = switchkvm c s;
          s = updp p (\<lambda>q. q\<lparr>p_total_run_time := p_total_run_time q + (ticks s - run_start)\<rparr>) s in
      andthen
        (if p_state (procs s ! p) = ZOMBIE \<or> p_state (procs s ! p) = UNUSED then
           andthen (acquire c Lk_ticks s) (\<lambda>_ s.
             let s = updp p (\<lambda>q. q\<lparr>p_completion_time := ticks s\<rparr>) s;
                 s = s\<lparr>last_completion_time := p_completion_time (procs s ! p)\<rparr>
             in release c Lk_ticks s)
         else Ret () s)
        (\<lambda>_ s. Ret () (upd_cpu c (\<lambda>k. k\<lparr>cproc := None\<rparr>) s)))"

fun default_pass ::
  "(nat \<Rightarrow> 'a pst_scheme \<Rightarrow> 'a pst_scheme) \<Rightarrow> nat \<Rightarrow> nat list \<Rightarrow> 'a pst_scheme \<Rightarrow>
   (nat list, lockid, 'a pst_scheme) outcome" where
  "default_pass run c [] s = Ret [] s"
| "default_pass run c (p # ps) s =
     (if p_state (procs s ! p) \<noteq> RUNNABLE then default_pass run c ps s
      else
        andthen (default_enter c p s) (\<lambda>run_start s.
        andthen (default_leave c p run_start (run p s)) (\<lambda>_ s.
        andthen (default_pass run c ps s) (\<lambda>chosen s. Ret (p # chosen) s))))"

text \<open>One turn of the endless loop; the result lists the processes that were run, in order.\<close>

definition scheduler_default ::
  "(nat \<Rightarrow> 'a pst_scheme \<Rightarrow> 'a pst_scheme) \<Rightarrow> nat \<Rightarrow> 'a pst_scheme \<Rightarrow>
   (nat list, lockid, 'a pst_scheme) outcome" where
  "scheduler_default run c s =
     andthen (acquire c Lk_ptable (sti c s)) (\<lambda>_ s.
     andthen (default_pass run c [0..<NPROC] s) (\<lambda>chosen s.
     andthen (release c Lk_ptable s) (\<lambda>_ s. Ret chosen s)))"

subsection \<open>Lottery build\<close>

text \<open>The metrics sweep at the start of a turn.\<close>

definition lottery_metrics1 :: "nat \<Rightarrow> nat \<Rightarrow> 'a pst_scheme \<Rightarrow> (unit, lockid, 'a pst_scheme) outcome" where
  "lottery_metrics1 c p s =
     andthen
       (if (p_state (procs s ! p) = ZOMBIE \<or> p_state (procs s ! p) = UNUSED) \<and>
           p_completion_time (procs s ! p) \<le>s p_creation_time (procs s ! p) then
          andthen (acquire c Lk_ticks s) (\<lambda>_ s.
          andthen (release c Lk_ticks (updp p (\<lambda>q. q\<lparr>p_completion_time := ticks s\<rparr>) s)) (\<lambda>_ s.
            let s = (if p_total_run_time (procs s ! p) = 0
                     then updp p (\<lambda>q. q\<lparr>p_total_run_time := 1\<rparr>) s else s) in
            andthen (acquire c Lk_perf s) (\<lambda>_ s. release c Lk_perf (snd (store_perf p s)))))
        else Ret () s)
       (\<lambda>_ s.
         if p_state (procs s ! p) = RUNNABLE \<and> 0 <s p_enqueue_time (procs s ! p) then
           andthen (acquire c Lk_ticks s) (\<lambda>_ s.
             release c Lk_ticks
               (updp p (\<lambda>q. (charge_ready (ticks s) q)\<lparr>p_enqueue_time := ticks s\<rparr>) s))
         else Ret () s)"

fun lottery_metrics :: "nat \<Rightarrow> nat list \<Rightarrow> 'a pst_scheme \<Rightarrow> (unit, lockid, 'a pst_scheme) outcome" where
  "lottery_metrics c [] s = Ret () s"
| "lottery_metrics c (p # ps) s = andthen (lottery_metrics1 c p s) (\<lambda>_ s. lottery_metrics c ps s)"

definition total_tickets :: "proc list \<Rightarrow> i32" where
  "total_tickets ps = foldl (\<lambda>t p. if p_state p = RUNNABLE then t + p_tickets p else t) 0 ps"

fun lottery_winner :: "i32 \<Rightarrow> i32 \<Rightarrow> proc list \<Rightarrow> nat option" where
  "lottery_winner ticket count [] = None"
| "lottery_winner ticket count (p # ps) =
     (if p_state p \<noteq> RUNNABLE then map_option Suc (lottery_winner ticket count ps)
      else
        let count = count + p_tickets p in
        if ticket <s count then Some 0 else map_option Suc (lottery_winner ticket count ps))"

definition lottery_enter :: "nat \<Rightarrow> nat \<Rightarrow> 'a pst_scheme \<Rightarrow> (u32, lockid, 'a pst_scheme) outcome" where
  "lottery_enter c p s =
     (let s = upd_cpu c (\<lambda>k. k\<lparr>cproc := Some p\<rparr>) s in
      andthen (switchuvm c (Some p) s) (\<lambda>_ s.
        let s = updp p (\<lambda>q. q\<lparr>p_state := RUNNING\<rparr>) s in
        andthen
          (if 0 <s p_enqueue_time (procs s ! p) then
             andthen (acquire c Lk_ticks s) (\<lambda>_ s.
               release c Lk_ticks (updp p (\<lambda>q. (charge_ready (ticks s) q)\<lparr>p_enqueue_time := 0\<rparr>) s))
           else Ret () s) (\<lambda>_ s.
        andthen (acquire c Lk_ticks s) (\<lambda>_ s.
          let run_start = ticks s in
          andthen (release c Lk_ticks s) (\<lambda>_ s. Ret run_start s)))))"

definition lottery_leave ::
  "nat \<Rightarrow> nat \<Rightarrow> u32 \<Rightarrow> 'a pst_scheme \<Rightarrow> (unit, lockid, 'a pst_scheme) outcome" where
  "lottery_leave c p run_start s =
     (let s = switchkvm c s in
      andthen (acquire c Lk_ticks s) (\<lambda>_ s.
        let run_time = ticks s - run_start in
        andthen (release c Lk_ticks s) (\<lambda>_ s.
          let run_time = (if run_time = 0 then 1 else run_time);
              s = updp p (\<lambda>q. q\<lparr>p_total_run_time := p_total_run_time q + run_time,
                               p_runticks := p_runticks q + run_time\<rparr>) s in
          andthen
            (if p_state (procs s ! p) = ZOMBIE \<or> p_state (procs s ! p) = UNUSED then
               andthen (acquire c Lk_ticks s) (\<lambda>_ s.
                 let s = updp p (\<lambda>q. q\<lparr>p_completion_time := ticks s\<rparr>) s;
                     s = s\<lparr>last_completion_time := p_completion_time (procs s ! p)\<rparr> in
                 andthen (release c Lk_ticks s) (\<lambda>_ s.
                 andthen (acquire c Lk_perf s) (\<lambda>_ s.
                   release c Lk_perf (snd (store_perf p s)))))
             else Ret () s)
            (\<lambda>_ s. Ret () (upd_cpu c (\<lambda>k. k\<lparr>cproc := None\<rparr>) s)))))"

text \<open>
  One turn of the lottery loop.  If no process covers the drawn ticket, the source reads one entry
  past the table; an empty range divides by zero.  Both are faults of the kernel.
\<close>

definition scheduler_lottery ::
  "(nat \<Rightarrow> 'a pst_scheme \<Rightarrow> 'a pst_scheme) \<Rightarrow> nat \<Rightarrow> 'a pst_scheme \<Rightarrow>
   (nat option, lockid, 'a pst_scheme) outcome" where
  "scheduler_lottery run c s =
     andthen (acquire c Lk_ptable (sti c s)) (\<lambda>_ s.
     andthen (lottery_metrics c [0..<NPROC] s) (\<lambda>_ s.
     andthen
       (let total = total_tickets (procs s) in
        if 0 <s total then
          case get_random 0 total (rseed s) of
            None \<Rightarrow> Panic ''trap'' s
          | Some (ticket, seed) \<Rightarrow>
              let s = s\<lparr>rseed := seed\<rparr> in
              (case lottery_winner ticket 0 (procs s) of
                 None \<Rightarrow> Panic ''out of bounds'' s
               | Some p \<Rightarrow>
                   andthen (lottery_enter c p s) (\<lambda>run_start s.
                   andthen (lottery_leave c p run_start (run p s)) (\<lambda>_ s. Ret (Some p) s)))
        else Ret None s)
       (\<lambda>chosen s. andthen (release c Lk_ptable s) (\<lambda>_ s. Ret chosen s))))"

end
