(* ===== verification/Proc_Atomic.thy ===== *)
theory Proc_Atomic
  imports Proc
begin

text \<open>
  The process operations as atomic steps.  Each operation of \<open>Proc\<close> takes and gives back its locks;
  from a state in which no lock is held it equals a plain state change, given here as a specification
  function without locks.  The lemmas ending in \<open>_eq\<close> are the refinement of the specifications by the
  code: the code returns (it neither panics nor spins), gives the specified value, and leaves every
  lock free.
\<close>

subsection \<open>Frames\<close>

lemma settle_kmem_fields [simp]:
  "kmem_use_lock (settle c s) = kmem_use_lock s" "kmem_freelist (settle c s) = kmem_freelist s"
  "ram (settle c s) = ram s" "kend (settle c s) = kend s" "kdata (settle c s) = kdata s"
  "kpgdir (settle c s) = kpgdir s"
  by (simp_all add: settle_def upd_cpu_def)

lemma settle_pst_fields [simp]:
  "procs (settle c s) = procs s" "perf_data (settle c s) = perf_data s"
  "last_completion_time (settle c s) = last_completion_time s" "initproc (settle c s) = initproc s"
  "nextpid (settle c s) = nextpid s" "ticks (settle c s) = ticks s" "rseed (settle c s) = rseed s"
  "sym_trapret (settle c s) = sym_trapret s" "sym_forkret (settle c s) = sym_forkret s"
  by (simp_all add: settle_def upd_cpu_def)

lemma entered_pst_fields [simp]:
  "procs (entered c l s) = procs s" "perf_data (entered c l s) = perf_data s"
  "last_completion_time (entered c l s) = last_completion_time s" "initproc (entered c l s) = initproc s"
  "nextpid (entered c l s) = nextpid s" "ticks (entered c l s) = ticks s" "rseed (entered c l s) = rseed s"
  "sym_trapret (entered c l s) = sym_trapret s" "sym_forkret (entered c l s) = sym_forkret s"
  by (simp_all add: entered_def upd_cpu_def upd_lock_def)

lemma updp_fields [simp]:
  "cpus (updp i f s) = cpus s" "locks (updp i f s) = locks s"
  "kmem_use_lock (updp i f s) = kmem_use_lock s" "kmem_freelist (updp i f s) = kmem_freelist s"
  "ram (updp i f s) = ram s" "kend (updp i f s) = kend s" "kpgdir (updp i f s) = kpgdir s"
  "procs (updp i f s) = (procs s)[i := f (procs s ! i)]" "perf_data (updp i f s) = perf_data s"
  "last_completion_time (updp i f s) = last_completion_time s" "initproc (updp i f s) = initproc s"
  "nextpid (updp i f s) = nextpid s" "ticks (updp i f s) = ticks s" "rseed (updp i f s) = rseed s"
  "sym_trapret (updp i f s) = sym_trapret s" "sym_forkret (updp i f s) = sym_forkret s"
  by (simp_all add: updp_def)

lemma updp_mach:
  "updp i f (s\<lparr>cpus := k, locks := ls\<rparr>) = (updp i f s)\<lparr>cpus := k, locks := ls\<rparr>"
  by (simp add: updp_def)

lemma updp_comp: "i < length (procs s) \<Longrightarrow> updp i f (updp i g s) = updp i (\<lambda>p. f (g p)) s"
  by (simp add: updp_def)

lemma settle_updp: "settle c (updp i f s) = updp i f (settle c s)"
  by (simp add: settle_def upd_cpu_def updp_def)

lemma on_cpu_cong: "cpus t = cpus s \<Longrightarrow> on_cpu c t = on_cpu c s"
  by (simp add: on_cpu_def)

lemma inside_cs_cong: "cpus t = cpus s \<Longrightarrow> inside_cs c t = inside_cs c s"
  by (simp add: inside_cs_def on_cpu_def)

lemma lock_clear_cong: "locks t = locks s \<Longrightarrow> lock_clear l t = lock_clear l s"
  by (simp add: lock_clear_def)

lemma quiet_cong: "cpus t = cpus s \<Longrightarrow> locks t = locks s \<Longrightarrow> quiet c t = quiet c s"
  by (simp add: quiet_def on_cpu_def lock_clear_def)

lemma updp_invs [simp]:
  "on_cpu c (updp i f s) = on_cpu c s" "inside_cs c (updp i f s) = inside_cs c s"
  "lock_clear l (updp i f s) = lock_clear l s" "quiet c (updp i f s) = quiet c s"
  by (auto intro!: on_cpu_cong inside_cs_cong lock_clear_cong quiet_cong)

lemma quiet_on_cpu: "quiet c s \<Longrightarrow> on_cpu c s"
  by (simp add: quiet_def)

subsection \<open>Normal form of locked states\<close>

text \<open>
  Inside a section the state is \<open>entered c l s\<close>, where \<open>s\<close> is the state without the lock.  Updates of
  the process state move under \<open>entered\<close> and \<open>settle\<close>, so that a release meets the matching acquire:
  with the rules \<open>locking\<close> the simplifier runs locked code.
\<close>

named_theorems locking

lemma upd_under_entered [locking]:
  "updp i f (entered c l s) = entered c l (updp i f s)"
  "(entered c l s)\<lparr>procs := ps\<rparr> = entered c l (s\<lparr>procs := ps\<rparr>)"
  "(entered c l s)\<lparr>perf_data := d\<rparr> = entered c l (s\<lparr>perf_data := d\<rparr>)"
  "(entered c l s)\<lparr>last_completion_time := n\<rparr> = entered c l (s\<lparr>last_completion_time := n\<rparr>)"
  "(entered c l s)\<lparr>nextpid := q\<rparr> = entered c l (s\<lparr>nextpid := q\<rparr>)"
  "(entered c l s)\<lparr>ticks := n\<rparr> = entered c l (s\<lparr>ticks := n\<rparr>)"
  "(entered c l s)\<lparr>rseed := n\<rparr> = entered c l (s\<lparr>rseed := n\<rparr>)"
  by (simp_all add: entered_def upd_cpu_def upd_lock_def updp_def)

lemma upd_under_settle [locking]:
  "updp i f (settle c s) = settle c (updp i f s)"
  "(settle c s)\<lparr>procs := ps\<rparr> = settle c (s\<lparr>procs := ps\<rparr>)"
  "(settle c s)\<lparr>perf_data := d\<rparr> = settle c (s\<lparr>perf_data := d\<rparr>)"
  "(settle c s)\<lparr>last_completion_time := n\<rparr> = settle c (s\<lparr>last_completion_time := n\<rparr>)"
  "(settle c s)\<lparr>nextpid := q\<rparr> = settle c (s\<lparr>nextpid := q\<rparr>)"
  "(settle c s)\<lparr>ticks := n\<rparr> = settle c (s\<lparr>ticks := n\<rparr>)"
  "(settle c s)\<lparr>rseed := n\<rparr> = settle c (s\<lparr>rseed := n\<rparr>)"
  by (simp_all add: settle_def upd_cpu_def updp_def)

lemma quiet_upd [simp]:
  "quiet c (s\<lparr>procs := ps\<rparr>) = quiet c s" "quiet c (s\<lparr>perf_data := d\<rparr>) = quiet c s"
  "quiet c (s\<lparr>last_completion_time := n\<rparr>) = quiet c s" "quiet c (s\<lparr>nextpid := q\<rparr>) = quiet c s"
  "quiet c (s\<lparr>ticks := n\<rparr>) = quiet c s" "quiet c (s\<lparr>rseed := n\<rparr>) = quiet c s"
  by (auto intro!: quiet_cong)

lemma acquire_quiet [locking]: "quiet c s \<Longrightarrow> acquire c l s = Ret () (entered c l s)"
  by (simp add: quiet_def lock_clear_def acquire_free)

lemma release_quiet [locking]: "quiet c s \<Longrightarrow> release c l (entered c l s) = Ret () (settle c s)"
  using section_general [of c s l "\<lambda>s. s"] by (simp add: quiet_def spin.rel_held)

lemma acquire_nested [locking]:
  assumes "quiet c s" "l' \<noteq> l"
  shows "acquire c l' (entered c l s) = Ret () (entered c l' (entered c l s))"
  using assms lock_clear_entered [of l' l c s] on_cpu_entered [of c s l]
  by (intro acquire_free) (simp_all add: quiet_def lock_clear_def)

lemma release_nested [locking]:
  assumes "quiet c s" "l' \<noteq> l"
  shows "release c l' (entered c l' (entered c l s)) = Ret () (entered c l s)"
proof -
  have "lock_clear l' (entered c l s)" "inside_cs c (entered c l s)"
    using assms by (auto simp: quiet_def lock_clear_entered inside_entered)
  then show ?thesis
    using section_general [of c "entered c l s" l' "\<lambda>s. s"] settle_inside [of c "entered c l s"]
    by (simp add: inside_cs_def spin.rel_held)
qed

subsection \<open>The current process\<close>

definition curproc :: "nat \<Rightarrow> 'a mach_scheme \<Rightarrow> nat option" where
  "curproc c s = cproc (cpus s ! c)"

lemma curproc_settle [simp]: "curproc c (settle c s) = curproc c s"
  by (cases "c < length (cpus s)") (simp_all add: curproc_def settle_def list_update_beyond)

lemma curproc_updp [simp]: "curproc c (updp i f s) = curproc c s"
  by (simp add: curproc_def)

lemma curproc_entered [simp]: "curproc c (entered c l s) = curproc c s"
  by (cases "c < length (cpus s)") (simp_all add: curproc_def entered_def list_update_beyond)

lemma myproc_eq:
  assumes "on_cpu c s"
  shows "myproc c s = Ret (curproc c s) (settle c s)"
proof -
  let ?t = "upd_cpu c pushed s"
  have t: "c < length (cpus ?t)" "distinct (map apicid (cpus ?t))" "\<not> if_flag (cpus ?t ! c)"
      "1 \<le> ncli (cpus ?t ! c)"
    using assms by (auto simp: on_cpu_def cli_ok_def distinct_apicid_upd)
  have "popcli c ?t = Ret () (upd_cpu c settled s)"
    using assms popcli_eq [OF t] by (auto simp: on_cpu_def popped_pushed intro!: upd_cpu_cong)
  then show ?thesis
    using assms t mycpu_self [OF t(1-3)]
    by (simp add: myproc_def pushcli_eq curproc_def settle_def on_cpu_def)
qed

subsection \<open>Wakeup, kill and the queries\<close>

lemma wakeup1_mach:
  "wakeup1 ch (s\<lparr>cpus := k, locks := ls\<rparr>) = (wakeup1 ch s)\<lparr>cpus := k, locks := ls\<rparr>"
  by (simp add: wakeup1_def)

lemma wakeup_eq: "quiet c s \<Longrightarrow> wakeup c ch s = Ret () (settle c (wakeup1 ch s))"
  unfolding wakeup_def
  by (intro section_end) (auto simp: quiet_def wakeup1_mach)

definition kill_spec :: "i32 \<Rightarrow> 'a pst_scheme \<Rightarrow> i32 \<times> 'a pst_scheme" where
  "kill_spec pid s =
     (case scan (\<lambda>p. p_pid p = pid) (procs s) of
        None \<Rightarrow> (- 1, s)
      | Some i \<Rightarrow> (0, updp i (\<lambda>p. p\<lparr>p_killed := True,
          p_state := (if p_state p = SLEEPING then RUNNABLE else p_state p)\<rparr>) s))"

lemma kill_eq:
  assumes "quiet c s"
  shows "kill c pid s = Ret (fst (kill_spec pid s)) (settle c (snd (kill_spec pid s)))"
proof (cases "scan (\<lambda>p. p_pid p = pid) (procs s)")
  case None
  then show ?thesis
    using assms by (simp add: kill_def kill_spec_def locking del: scan_None_iff)
next
  case (Some i)
  then have "i < length (procs s)"
    by (simp add: scan_Some_iff)
  with Some show ?thesis
    using assms by (simp add: kill_def kill_spec_def locking Let_def updp_comp)
      (auto simp: updp_def intro!: arg_cong [where f = "settle c"])
qed

definition find_pid :: "i32 \<Rightarrow> 'a pst_scheme \<Rightarrow> proc option" where
  "find_pid pid s = find (\<lambda>p. p_pid p = pid) (procs s)"

lemma scan_find: "find P xs = map_option (nth xs) (scan P xs)"
proof (cases "scan P xs")
  case None
  moreover have "find P xs = None"
    using None by (simp add: find_None_iff)
  ultimately show ?thesis by (simp del: scan_None_iff)
next
  case (Some i)
  then have "find P xs = Some (xs ! i)"
    by (auto simp: scan_Some_iff find_Some_iff)
  with Some show ?thesis by simp
qed

lemma getrunticks_eq:
  assumes "quiet c s"
  shows "getrunticks c pid s = Ret (case find_pid pid s of None \<Rightarrow> - 1
     | Some p \<Rightarrow> if p_state p \<noteq> ZOMBIE \<and> p_state p \<noteq> UNUSED then p_runticks p else - 1) (settle c s)"
  using assms by (cases "scan (\<lambda>p. p_pid p = pid) (procs s)")
    (simp_all add: getrunticks_def locking find_pid_def scan_find del: scan_None_iff)

lemma gettickets_eq:
  assumes "quiet c s"
  shows "gettickets c pid s = Ret (case find_pid pid s of None \<Rightarrow> - 1
     | Some p \<Rightarrow> if p_state p = RUNNABLE \<or> p_state p = RUNNING then p_tickets p else - 1) (settle c s)"
  using assms by (cases "scan (\<lambda>p. p_pid p = pid) (procs s)")
    (simp_all add: gettickets_def locking find_pid_def scan_find del: scan_None_iff)

lemma job_position_eq:
  assumes "quiet c s"
  shows "job_position c pid s = Ret (if find_pid pid s = None then - 1 else pid) (settle c s)"
proof (cases "scan (\<lambda>p. p_pid p = pid) (procs s)")
  case None
  then show ?thesis
    using assms by (simp add: job_position_def locking find_pid_def scan_find del: scan_None_iff)
next
  case (Some i)
  then have "p_pid (procs s ! i) = pid" by (simp add: scan_Some_iff)
  with Some show ?thesis
    using assms by (simp add: job_position_def locking find_pid_def scan_find)
qed

definition find_perf :: "i32 \<Rightarrow> 'a pst_scheme \<Rightarrow> perfdata option" where
  "find_perf pid s = find (\<lambda>d. pd_valid d \<and> pd_pid d = pid) (perf_data s)"

definition metric_spec :: "(proc \<Rightarrow> i32) \<Rightarrow> (perfdata \<Rightarrow> i32) \<Rightarrow> i32 \<Rightarrow> 'a pst_scheme \<Rightarrow> i32" where
  "metric_spec live hist pid s =
     (let v = (case find_pid pid s of None \<Rightarrow> - 1 | Some p \<Rightarrow> live p) in
      if v = - 1 then case find_perf pid s of None \<Rightarrow> - 1 | Some d \<Rightarrow> hist d else v)"

lemma get_metric_eq:
  assumes q: "quiet c s"
  shows "get_metric live hist c pid s = Ret (metric_spec live hist pid s) (settle c s)"
  using q quiet_settle [OF q]
  by (cases "scan (\<lambda>p. p_pid p = pid) (procs s)";
      cases "scan (\<lambda>d. pd_valid d \<and> pd_pid d = pid) (perf_data s)")
    (simp_all add: get_metric_def locking metric_spec_def find_pid_def find_perf_def
      scan_find Let_def del: scan_None_iff)

lemma set_tickets_eq:
  assumes "quiet c s"
  shows "set_tickets c t s =
    (if t \<le>s 0 then Ret (- 1) s
     else case curproc c s of
       None \<Rightarrow> Ret (- 1) (settle c s)
     | Some p \<Rightarrow> Ret 0 (settle c (updp p (\<lambda>q. q\<lparr>p_tickets := t\<rparr>) s)))"
  using assms quiet_settle [OF assms]
  by (simp add: set_tickets_def myproc_eq quiet_on_cpu locking split: option.splits)

subsection \<open>Allocating a process\<close>

lemma upd_kmem_settle [locking]:
  "(settle c s)\<lparr>kmem_freelist := x\<rparr> = settle c (s\<lparr>kmem_freelist := x\<rparr>)"
  by (simp add: settle_def upd_cpu_def)

lemma quiet_kmem [simp]: "quiet c (s\<lparr>kmem_freelist := x\<rparr>) = quiet c s"
  by (auto intro!: quiet_cong)

lemma kmem_done_quiet:
  assumes "quiet c s"
  shows "kmem_done c (settle c s) = settle c s"
proof -
  have "left c Lk_kmem (entered c Lk_kmem (settle c s)) = settle c (settle c s)"
    using section_general(3) [of c "settle c s" Lk_kmem "\<lambda>s. s"] quiet_settle [OF assms]
    by (simp add: quiet_def)
  then show ?thesis by (simp add: kmem_done_def)
qed

lemma kalloc_quiet [locking]:
  assumes "quiet c s"
  shows "kalloc c (settle c s) = Ret (kmem_freelist s) (settle c (s\<lparr>kmem_freelist :=
    (if kmem_freelist s \<noteq> 0 then load32 (ram s) (kmem_freelist s) else 0)\<rparr>))"
proof -
  have "kmem_ready c (settle c s)"
    using quiet_settle [OF assms] by (simp add: kmem_ready_def quiet_def lock_clear_def)
  from kalloc_eq [OF this] show ?thesis
    by (simp add: kmem_done_quiet [OF assms] locking)
qed

definition embryo :: "i32 \<Rightarrow> u32 \<Rightarrow> proc \<Rightarrow> proc" where
  "embryo pid t p = p\<lparr>p_state := EMBRYO, p_pid := pid, p_runticks := 0, p_tickets := DEFAULT_TICKETS,
     p_creation_time := t, p_start_time := t, p_completion_time := 0, p_total_run_time := 0,
     p_total_ready_time := 0, p_enqueue_time := 0\<rparr>"

definition kernel_stack :: "u32 \<Rightarrow> u32 \<Rightarrow> u32 \<Rightarrow> proc \<Rightarrow> proc" where
  "kernel_stack k trapret forkret p = p\<lparr>p_kstack := k, p_tf := k + 4096 - 76, p_ret := trapret,
     p_context := k + 4096 - 76 - 4 - 20,
     p_ctx := \<lparr>cx_edi = 0, cx_esi = 0, cx_ebx = 0, cx_ebp = 0, cx_eip = forkret\<rparr>\<rparr>"

definition allocproc_spec :: "'a pst_scheme \<Rightarrow> nat option \<times> 'a pst_scheme" where
  "allocproc_spec s =
     (case scan (\<lambda>p. p_state p = UNUSED) (procs s) of
        None \<Rightarrow> (None, s)
      | Some i \<Rightarrow>
          if kmem_freelist s = 0 then
            (None, updp i (\<lambda>p. (embryo (nextpid s) (ticks s) p)\<lparr>p_kstack := 0, p_state := UNUSED\<rparr>)
               (s\<lparr>nextpid := nextpid s + 1\<rparr>))
          else
            (Some i, updp i (\<lambda>p. kernel_stack (kmem_freelist s) (sym_trapret s) (sym_forkret s)
                 (embryo (nextpid s) (ticks s) p))
               (s\<lparr>nextpid := nextpid s + 1, kmem_freelist := load32 (ram s) (kmem_freelist s)\<rparr>)))"

lemma updp_record [simp]:
  "(updp i f s)\<lparr>nextpid := q\<rparr> = updp i f (s\<lparr>nextpid := q\<rparr>)"
  "(updp i f s)\<lparr>kmem_freelist := x\<rparr> = updp i f (s\<lparr>kmem_freelist := x\<rparr>)"
  by (simp_all add: updp_def)

lemma kmem_self_update: "kmem_freelist s = 0 \<Longrightarrow> s\<lparr>kmem_freelist := 0\<rparr> = s" for s :: "'a pst_scheme"
  by simp

lemma allocproc_eq:
  assumes q: "quiet c s"
  shows "allocproc c s = Ret (fst (allocproc_spec s)) (settle c (snd (allocproc_spec s)))"
proof (cases "scan (\<lambda>p. p_state p = UNUSED) (procs s)")
  case None
  then show ?thesis
    using q by (simp add: allocproc_def allocproc_spec_def locking del: scan_None_iff)
next
  case (Some i)
  then have "i < length (procs s)" by (simp add: scan_Some_iff)
  with Some q show ?thesis
    by (simp add: allocproc_def allocproc_spec_def Let_def locking updp_comp embryo_def
        kernel_stack_def kmem_self_update sizeof_trapframe_def sizeof_context_def KSTACKSIZE_def)
qed

subsection \<open>Giving up the processor\<close>

text \<open>Releasing an outer lock while an inner one is held, as \<open>sleep\<close> does.\<close>

lemma entered_settle [locking]: "entered c l (settle c s) = entered c l s"
proof (cases "c < length (cpus s)")
  case True
  then show ?thesis by (simp add: entered_def settle_def)
next
  case False
  then show ?thesis by (simp add: entered_def settle_def upd_cpu_def list_update_beyond)
qed

lemma settle_entered [locking]: "quiet c s \<Longrightarrow> settle c (entered c l s) = entered c l s"
  by (intro settle_inside inside_entered) (simp add: quiet_def)

lemma release_outer [locking]:
  assumes q: "quiet c s" and ne: "l' \<noteq> l"
  shows "release c l (entered c l' (entered c l s)) = Ret () (entered c l' s)"
proof -
  let ?t = "entered c l' (entered c l s)"
  have on: "on_cpu c (entered c l s)" "on_cpu c s" "c < length (cpus s)" "0 \<le> ncli (cpus s ! c)"
    using q on_cpu_entered [of c s l] by (auto simp: quiet_def on_cpu_def cli_ok_def)
  have "lock_held c l ?t"
    using lock_held_entered [OF on(1), of l'] ne
    by (auto simp: lock_held_def holds_def entered_def)
  moreover have "left c l ?t = entered c l' s"
  proof -
    have "popped (pushed (pushed (cpus s ! c))) = pushed (cpus s ! c)"
      using on(4) by (simp add: popped_def pushed_def)
    moreover have "(locks s l)\<lparr>lk_cpu := None, lk_locked := 0\<rparr> = locks s l"
      using q by (simp add: quiet_def lock_clear_def)
    moreover have "(locks s)(l := a, l' := b, l := locks s l) = (locks s)(l' := b)" for a b
      using ne by auto
    ultimately show ?thesis
      using on(3) ne by (simp add: left_def entered_def upd_cpu_def upd_lock_def)
  qed
  ultimately show ?thesis by (simp add: spin.rel_held)
qed

lemma entered_if: "(if b then entered c l s else entered c l t) = entered c l (if b then s else t)"
  by simp

text \<open>Processor \<open>c\<close> runs process \<open>p\<close> and holds no lock.\<close>

definition running_on :: "nat \<Rightarrow> nat \<Rightarrow> 'a pst_scheme \<Rightarrow> bool" where
  "running_on c p s \<longleftrightarrow> quiet c s \<and> curproc c s = Some p \<and> ncli (cpus s ! c) = 0 \<and> p < length (procs s)"

lemma running_on_updp [simp]: "running_on c p (updp i f s) = running_on c p s"
  by (simp add: running_on_def)

lemma holding_entered [locking]: "quiet c s \<Longrightarrow> holding c l (entered c l s) = Ret True (entered c l s)"
  using lock_held_entered [of c s l] settle_entered [of c s l]
  by (simp add: quiet_def holding_eq lock_held_def settle_def)

lemma myproc_entered [locking]: "quiet c s \<Longrightarrow> myproc c (entered c l s) = Ret (curproc c s) (entered c l s)"
  using on_cpu_entered [of c s l] by (simp add: quiet_def myproc_eq settle_entered [unfolded quiet_def])

lemma myproc_quiet [locking]: "quiet c s \<Longrightarrow> myproc c s = Ret (curproc c s) (settle c s)"
  by (simp add: myproc_eq quiet_on_cpu)

lemma mycpu_entered [locking]: "quiet c s \<Longrightarrow> mycpu c (entered c l s) = Ret c (entered c l s)"
  using on_cpu_entered [of c s l]
  by (intro mycpu_self) (auto simp: quiet_def on_cpu_def entered_def)

lemma cpu_entered [simp]:
  "c < length (cpus s) \<Longrightarrow> cpus (entered c l s) ! c = pushed (cpus s ! c)"
  by (simp add: entered_def)

lemma sched_entered [locking]:
  assumes "running_on c p s" "p_state (procs s ! p) \<noteq> RUNNING"
  shows "sched c (entered c Lk_ptable s) = Sleep (entered c Lk_ptable s)"
  using assms
  by (auto simp: sched_def sched_enter_def running_on_def locking quiet_def on_cpu_def)

lemma sched_running:
  assumes "running_on c p s" "p_state (procs s ! p) = RUNNING"
  shows "sched c (entered c Lk_ptable s) = Panic ''sched running'' (entered c Lk_ptable s)"
  using assms
  by (auto simp: sched_def sched_enter_def running_on_def locking quiet_def on_cpu_def)

definition asleep :: "chan \<Rightarrow> u32 \<Rightarrow> proc \<Rightarrow> proc" where
  "asleep ch t p = (if 0 <s p_enqueue_time p then (charge_ready t p)\<lparr>p_enqueue_time := 0\<rparr> else p)
     \<lparr>p_chan := Some ch, p_state := SLEEPING\<rparr>"

lemma running_onD:
  "running_on c p s \<Longrightarrow> quiet c s" "running_on c p s \<Longrightarrow> curproc c s = Some p"
  "running_on c p s \<Longrightarrow> p < length (procs s)"
  by (simp_all add: running_on_def)

lemma updp_cong: "f (procs s ! i) = g (procs s ! i) \<Longrightarrow> updp i f s = updp i g s"
  by (simp add: updp_def)

lemma sleep_eq:
  assumes r: "running_on c p s"
  shows "sleep c ch (Some l) (entered c l s) =
     Sleep (entered c Lk_ptable (updp p (asleep ch (ticks s)) s))"
proof -
  let ?s = "updp p (asleep ch (ticks s)) s"
  have st: "p_state (procs ?s ! p) \<noteq> RUNNING"
    using running_onD(3) [OF r] by (simp add: asleep_def)
  have body: "updp p (\<lambda>q. q\<lparr>p_chan := Some ch, p_state := SLEEPING\<rparr>)
       (if 0 <s p_enqueue_time (procs s ! p)
        then updp p (\<lambda>q. (charge_ready (ticks s) q)\<lparr>p_enqueue_time := 0\<rparr>) s else s) = ?s"
    using running_onD(3) [OF r] by (auto simp: updp_comp asleep_def intro!: updp_cong)
  have pre: "(if l \<noteq> Lk_ptable then andthen (acquire c Lk_ptable (entered c l s)) (\<lambda>_ s. release c l s)
      else Ret () (entered c l s)) = Ret () (entered c Lk_ptable s)"
    using running_onD(1) [OF r] by (simp add: locking)
  have "sched c (entered c Lk_ptable ?s) = Sleep (entered c Lk_ptable ?s)"
    using sched_entered [OF _ st, of c] r by simp
  then show ?thesis
    using running_onD(1,2) [OF r] body
    by (simp only: sleep_def myproc_entered andthen.simps option.case pre Let_def entered_pst_fields
        upd_under_entered entered_if)
qed

lemma yield_eq:
  assumes r: "running_on c p s"
  shows "yield_enter c s = Sleep (entered c Lk_ptable
     (updp p (\<lambda>q. q\<lparr>p_state := RUNNABLE, p_enqueue_time := ticks s\<rparr>) s))"
proof -
  let ?s = "updp p (\<lambda>q. q\<lparr>p_state := RUNNABLE, p_enqueue_time := ticks s\<rparr>) s"
  have "sched c (entered c Lk_ptable ?s) = Sleep (entered c Lk_ptable ?s)"
    using sched_entered [of c p ?s] r running_onD(3) [OF r] by simp
  then show ?thesis
    using running_onD [OF r] quiet_settle [OF running_onD(1) [OF r]]
    by (simp add: yield_enter_def locking updp_comp)
qed

subsection \<open>Coming back from the scheduler\<close>

text \<open>The interrupt flag the process had before it gave up the processor.\<close>

definition set_flag :: "nat \<Rightarrow> bool \<Rightarrow> 'a mach_scheme \<Rightarrow> 'a mach_scheme" where
  "set_flag c b = upd_cpu c (\<lambda>k. k\<lparr>if_flag := b, intena := b\<rparr>)"

lemma set_flag_fields [simp]:
  "locks (set_flag c b s) = locks s" "procs (set_flag c b t) = procs t"
  by (simp_all add: set_flag_def upd_cpu_def)

lemma quiet_set_flag:
  assumes "quiet c s" "ncli (cpus s ! c) = 0"
  shows "quiet c (set_flag c b s)"
  using assms by (auto simp: quiet_def lock_clear_def on_cpu_def cli_ok_def set_flag_def distinct_apicid_upd)

lemma release_restoring:
  assumes q: "quiet c s" and n: "ncli (cpus s ! c) = 0"
  shows "release c l (upd_cpu c (\<lambda>k. k\<lparr>intena := b\<rparr>) (entered c l s)) = Ret () (set_flag c b s)"
proof -
  let ?t = "upd_cpu c (\<lambda>k. k\<lparr>intena := b\<rparr>) (entered c l s)"
  have c: "c < length (cpus s)" "on_cpu c s" "distinct (map apicid (cpus s))"
    using q by (auto simp: quiet_def on_cpu_def)
  have "lock_held c l ?t"
    using c n by (auto simp: lock_held_def on_cpu_def holds_def entered_def cli_ok_def distinct_apicid_upd)
  moreover have "left c l ?t = set_flag c b s"
  proof -
    have "popped ((pushed (cpus s ! c))\<lparr>intena := b\<rparr>) = (cpus s ! c)\<lparr>if_flag := b, intena := b\<rparr>"
      using n by (simp add: popped_def pushed_def)
    moreover have "(locks s l)\<lparr>lk_cpu := None, lk_locked := 0\<rparr> = locks s l"
      using q by (simp add: quiet_def lock_clear_def)
    ultimately show ?thesis
      using c by (simp add: left_def entered_def set_flag_def upd_cpu_def upd_lock_def fun_upd_idem)
  qed
  ultimately show ?thesis by (simp add: spin.rel_held)
qed

lemma sleep_resume_eq:
  assumes q: "quiet c s" and n: "ncli (cpus s ! c) = 0" and l: "l \<noteq> Lk_ptable"
  shows "sleep_resume c p l b (entered c Lk_ptable s) =
     Ret () (entered c l (set_flag c b (updp p (\<lambda>q. q\<lparr>p_chan := None\<rparr>) s)))"
proof -
  let ?s = "updp p (\<lambda>q. q\<lparr>p_chan := None\<rparr>) s"
  have eq: "updp p (\<lambda>q. q\<lparr>p_chan := None\<rparr>) (upd_cpu c (\<lambda>k. k\<lparr>intena := b\<rparr>) (entered c Lk_ptable s)) =
      upd_cpu c (\<lambda>k. k\<lparr>intena := b\<rparr>) (entered c Lk_ptable ?s)"
    by (simp add: updp_def upd_cpu_def entered_def upd_lock_def)
  have "quiet c (set_flag c b ?s)"
    using quiet_set_flag [of c ?s b] q n by simp
  then show ?thesis
    using q n l release_restoring [of c ?s Lk_ptable b]
    by (simp add: sleep_resume_def sched_resume_def mycpu_entered eq acquire_quiet)
qed

lemma yield_resume_eq:
  assumes "quiet c s" "ncli (cpus s ! c) = 0"
  shows "yield_resume c b (entered c Lk_ptable s) = Ret () (set_flag c b s)"
  using assms release_restoring [OF assms]
  by (simp add: yield_resume_def sched_resume_def mycpu_entered)

subsection \<open>Exit\<close>

lemma wakeup1_locking [locking]:
  "wakeup1 ch (entered c l s) = entered c l (wakeup1 ch s)"
  "wakeup1 ch (settle c s) = settle c (wakeup1 ch s)"
  by (simp_all add: wakeup1_def locking cong: if_cong)

lemma wakeup1_fields [simp]:
  "cpus (wakeup1 ch s) = cpus s" "locks (wakeup1 ch s) = locks s"
  "length (procs (wakeup1 ch s)) = length (procs s)" "initproc (wakeup1 ch s) = initproc s"
  "perf_data (wakeup1 ch s) = perf_data s" "ticks (wakeup1 ch s) = ticks s" "nextpid (wakeup1 ch s) = nextpid s"
  by (simp_all add: wakeup1_def)

lemma reparent_locking [locking]: "reparent cur is (entered c l s) = entered c l (reparent cur is s)"
proof (induction "is" arbitrary: s)
  case (Cons i "is")
  show ?case
    by (simp only: reparent.simps Let_def entered_pst_fields updp_fields upd_under_entered
        wakeup1_locking entered_if Cons.IH)
qed simp

lemma reparent_fields [simp]:
  "cpus (reparent cur is s) = cpus s" "locks (reparent cur is s) = locks s"
  "length (procs (reparent cur is s)) = length (procs s)" "initproc (reparent cur is s) = initproc s"
  by (induction "is" arbitrary: s) (simp_all add: Let_def)

definition exit_spec :: "nat \<Rightarrow> 'a pst_scheme \<Rightarrow> 'a pst_scheme" where
  "exit_spec cur s = updp cur (\<lambda>p. p\<lparr>p_state := ZOMBIE\<rparr>)
     (reparent cur [0..<NPROC] (wakeup1 (map_option Ch_proc (p_parent (procs s ! cur))) s))"

lemma exit_zombie_eq:
  assumes r: "running_on c cur s"
  shows "exit_zombie c cur s = Sleep (entered c Lk_ptable (exit_spec cur s))"
proof -
  have f: "cpus (exit_spec cur s) = cpus s" "locks (exit_spec cur s) = locks s"
      "length (procs (exit_spec cur s)) = length (procs s)"
    by (simp_all add: exit_spec_def)
  have "running_on c cur (exit_spec cur s)"
    using r quiet_cong [OF f(1,2)] f by (simp add: running_on_def curproc_def)
  moreover have "p_state (procs (exit_spec cur s) ! cur) \<noteq> RUNNING"
    using running_onD(3) [OF r] by (simp add: exit_spec_def)
  ultimately have "sched c (entered c Lk_ptable (exit_spec cur s)) = Sleep (entered c Lk_ptable (exit_spec cur s))"
    by (rule sched_entered)
  then show ?thesis
    using running_onD(1) [OF r]
    by (simp only: exit_zombie_def Let_def exit_spec_def acquire_quiet andthen.simps entered_pst_fields
        upd_under_entered wakeup1_locking reparent_locking)
qed

lemma store_perf_locking [locking]:
  "store_perf i (entered c l s) = map_prod id (entered c l) (store_perf i s)"
  by (cases "scan (\<lambda>d. \<not> pd_valid d) (perf_data s)")
    (simp_all add: store_perf_def locking del: scan_None_iff)

lemma quiet_store_perf [simp]: "quiet c (snd (store_perf i s)) = quiet c s"
  by (simp add: store_perf_def split: option.splits)

lemma exit_metrics_eq:
  assumes r: "running_on c p s" and i: "initproc s \<noteq> Some p"
  shows "exit_metrics c s = Ret p (settle c (snd (store_perf p (updp p (finalize_metrics (ticks s)) s))))"
  using running_onD [OF r] quiet_settle [OF running_onD(1) [OF r]] i
  by (simp add: exit_metrics_def locking Let_def)

lemma exit_init_panics:
  assumes "running_on c p s" "initproc s = Some p"
  shows "exit_metrics c s = Panic ''init exiting'' (settle c s)"
  using running_onD [OF assms(1)] assms(2) by (simp add: exit_metrics_def locking)

end
