(* ===== verification/VM_Frame.thy ===== *)
theory VM_Frame
  imports VM
begin

unbundle bit_operations_syntax

text \<open>
  What the page-table code leaves alone.  Called with some lock held already, the allocator's own lock
  is a nested section, so every function of src/vm.c changes at most the memory and the free list:
  the processors, the locks and all state beyond memory are as before.
\<close>

definition mem_only :: "'a kmem_scheme \<Rightarrow> 'a kmem_scheme \<Rightarrow> bool" where
  "mem_only s t \<longleftrightarrow> t = s\<lparr>ram := ram t, kmem_freelist := kmem_freelist t\<rparr>"

named_theorems vm_frame

lemma mem_only_refl [simp, intro]: "mem_only s s"
  by (simp add: mem_only_def)

lemma mem_only_trans: "mem_only s t \<Longrightarrow> mem_only t u \<Longrightarrow> mem_only s u"
  by (cases s; cases t; cases u) (simp add: mem_only_def)

lemma mem_only_upd [simp]:
  "mem_only s (t\<lparr>ram := m\<rparr>) = mem_only s t" "mem_only (s\<lparr>ram := m\<rparr>) t = mem_only s t"
  "mem_only s (t\<lparr>kmem_freelist := f\<rparr>) = mem_only s t" "mem_only (s\<lparr>kmem_freelist := f\<rparr>) t = mem_only s t"
  by (cases s; cases t; simp add: mem_only_def)+

lemma mem_only_kend: "mem_only s t \<Longrightarrow> kend t = kend s"
  by (cases s; cases t) (simp add: mem_only_def)

text \<open>The states in which the allocator is called from inside a section of another lock.\<close>

definition in_section :: "nat \<Rightarrow> 'a kmem_scheme \<Rightarrow> bool" where
  "in_section c s \<longleftrightarrow> inside_cs c s \<and> lock_clear Lk_kmem s"

lemma in_section_mem_only: "mem_only s t \<Longrightarrow> in_section c s \<Longrightarrow> in_section c t"
  by (cases s; cases t) (simp add: mem_only_def in_section_def inside_cs_def on_cpu_def lock_clear_def)

lemma in_section_ram [simp]: "in_section c (s\<lparr>ram := m\<rparr>) = in_section c s"
  by (simp add: in_section_def inside_cs_def on_cpu_def lock_clear_def)

lemma in_section_ready: "in_section c s \<Longrightarrow> kmem_ready c s"
  by (simp add: in_section_def inside_cs_def lock_clear_def kmem_ready_def)

lemma kmem_done_in_section:
  assumes "in_section c s"
  shows "kmem_done c s = s"
proof -
  have "left c Lk_kmem (entered c Lk_kmem s) = settle c s"
    using section_general(3) [of c s Lk_kmem "\<lambda>s. s"] assms
    by (simp add: in_section_def inside_cs_def)
  then show ?thesis
    using assms by (simp add: kmem_done_def in_section_def settle_inside)
qed

lemma kalloc_frame [vm_frame]:
  assumes "in_section c s" "kalloc c s = Ret v t"
  shows "mem_only s t"
proof -
  have "t = s\<lparr>kmem_freelist := (if kmem_freelist s \<noteq> 0 then load32 (ram s) (kmem_freelist s) else 0)\<rparr>"
    using kalloc_eq [OF in_section_ready [OF assms(1)]] assms
    by (simp add: kmem_done_in_section)
  then show ?thesis by simp
qed

lemma kfree_frame [vm_frame]:
  assumes "in_section c s" "kfree c v s = Ret u t"
  shows "mem_only s t"
proof -
  have "page_ok s v"
    using assms(2) by (auto simp: kfree_def page_ok_def split: if_splits)
  from kfree_eq [OF in_section_ready [OF assms(1)] this] assms show ?thesis
    by (auto simp: kmem_done_in_section)
qed

lemma walkpgdir_frame [vm_frame]:
  assumes "in_section c s" "walkpgdir c pgdir va al s = Ret v t"
  shows "mem_only s t"
  using assms
  by (auto simp: walkpgdir_def Let_def andthen_Ret_iff split: if_splits dest: kalloc_frame)

lemma mappages_loop_frame [vm_frame]:
  "in_section c s \<Longrightarrow> mappages_loop n c pgdir a pa pm s = Ret r t \<Longrightarrow> mem_only s t"
proof (induction n arbitrary: a pa s)
  case 0
  then show ?case
    by (auto simp: andthen_Ret_iff split: if_splits dest: walkpgdir_frame)
next
  case (Suc n)
  from Suc.prems obtain pte s' where w: "walkpgdir c pgdir a True s = Ret pte s'"
    and rest: "(if pte = 0 then Ret (- 1) s'
       else if present (load32 (ram s') pte) then Panic ''remap'' s'
       else mappages_loop n c pgdir (a + PGSIZE) (pa + PGSIZE) pm
              (set_ram (store32 pte (pa OR pm OR PTE_P)) s')) = Ret r t"
    by (auto simp: andthen_Ret_iff)
  have s': "mem_only s s'" "in_section c s'"
    using walkpgdir_frame [OF Suc.prems(1) w] in_section_mem_only [OF _ Suc.prems(1)] by auto
  show ?case
    using rest s' Suc.IH [of "set_ram (store32 pte (pa OR pm OR PTE_P)) s'" "a + PGSIZE" "pa + PGSIZE"]
    by (auto split: if_splits intro: mem_only_trans)
qed

lemma mappages_frame [vm_frame]:
  "in_section c s \<Longrightarrow> mappages c pgdir va sz pa pm s = Ret r t \<Longrightarrow> mem_only s t"
  by (auto simp: mappages_def Let_def dest: mappages_loop_frame)

lemma deallocuvm_loop_frame [vm_frame]:
  "in_section c s \<Longrightarrow> deallocuvm_loop c pgdir a oldsz s = Ret r t \<Longrightarrow> mem_only s t"
proof (induction c pgdir a oldsz s rule: deallocuvm_loop.induct)
  case (1 c pgdir a oldsz s)
  show ?case
  proof (cases "a < oldsz")
    case False
    then show ?thesis using 1(5) by (simp add: deallocuvm_loop.simps)
  next
    case True
    then obtain pte s' where w: "walkpgdir c pgdir a False s = Ret pte s'"
      using 1(5) by (subst (asm) deallocuvm_loop.simps) (auto simp: andthen_Ret_iff)
    have s': "mem_only s s'" "in_section c s'"
      using walkpgdir_frame [OF 1(4) w] in_section_mem_only [OF _ 1(4)] by auto
    note IH1 = 1(1) [OF True w] and IH2 = 1(2) [OF True w] and IH3 = 1(3) [OF True w]
    show ?thesis
    proof (cases "pte = 0")
      case True': True
      then show ?thesis
        using 1(5) w True s' IH1 [OF True' refl]
        by (subst (asm) deallocuvm_loop.simps) (auto simp: Let_def split: if_splits intro: mem_only_trans)
    next
      case pte: False
      show ?thesis
      proof (cases "present (load32 (ram s') pte)")
        case p: True
        then obtain u s'' where k: "kfree c (P2V (PTE_ADDR (load32 (ram s') pte))) s' = Ret u s''"
          and nz: "PTE_ADDR (load32 (ram s') pte) \<noteq> 0"
          using 1(5) w True pte
          by (subst (asm) deallocuvm_loop.simps) (auto simp: Let_def andthen_Ret_iff split: if_splits)
        have s'': "mem_only s s''" "in_section c s''"
          using kfree_frame [OF s'(2) k] s' mem_only_trans in_section_mem_only by blast+
        show ?thesis
          using 1(5) w True pte p nz k s'' IH2 [OF pte refl refl p nz k refl]
          by (subst (asm) deallocuvm_loop.simps) (auto simp: Let_def split: if_splits intro: mem_only_trans)
      next
        case p: False
        then show ?thesis
          using 1(5) w True pte s' IH3 [OF pte refl refl p]
          by (subst (asm) deallocuvm_loop.simps) (auto simp: Let_def split: if_splits intro: mem_only_trans)
      qed
    qed
  qed
qed

lemma deallocuvm_frame [vm_frame]:
  "in_section c s \<Longrightarrow> deallocuvm c pgdir oldsz newsz s = Ret r t \<Longrightarrow> mem_only s t"
  by (auto simp: deallocuvm_def andthen_Ret_iff split: if_splits dest: deallocuvm_loop_frame)

lemma free_tables_frame [vm_frame]:
  "in_section c s \<Longrightarrow> free_tables n c pgdir s = Ret r t \<Longrightarrow> mem_only s t"
proof (induction n arbitrary: s)
  case (Suc n)
  show ?case
  proof (cases "present (load32 (ram s) (pgdir + 4 * of_nat (NPDENTRIES - Suc n)))")
    case True
    then obtain u s' where k: "kfree c (P2V (PTE_ADDR (load32 (ram s)
        (pgdir + 4 * of_nat (NPDENTRIES - Suc n))))) s = Ret u s'" "free_tables n c pgdir s' = Ret r t"
      using Suc.prems by (auto simp: Let_def andthen_Ret_iff)
    have "mem_only s s'" by (rule kfree_frame [OF Suc.prems(1) k(1)])
    then show ?thesis
      using Suc.IH [OF _ k(2)] in_section_mem_only [OF _ Suc.prems(1)] mem_only_trans by blast
  next
    case False
    then show ?thesis using Suc by (simp add: Let_def)
  qed
qed simp

lemma freevm_frame [vm_frame]:
  assumes "in_section c s" "freevm c pgdir s = Ret r t"
  shows "mem_only s t"
proof -
  from assms(2) obtain r1 s1 r2 s2 where f: "deallocuvm c pgdir KERNBASE 0 s = Ret r1 s1"
    "free_tables NPDENTRIES c pgdir s1 = Ret r2 s2" "kfree c pgdir s2 = Ret r t"
    by (auto simp: freevm_def andthen_Ret_iff split: if_splits)
  have 1: "mem_only s s1" "in_section c s1"
    using deallocuvm_frame [OF assms(1) f(1)] in_section_mem_only assms(1) by auto
  have 2: "mem_only s1 s2" "in_section c s2"
    using free_tables_frame [OF 1(2) f(2)] in_section_mem_only 1(2) by auto
  show ?thesis
    using kfree_frame [OF 2(2) f(3)] 1(1) 2(1) mem_only_trans by blast
qed

subsection \<open>Directory indices\<close>

lemma and_3FF: "(x :: u32) AND 0x3FF = take_bit 10 x"
  by (simp add: take_bit_eq_mask mask_eq_exp_minus_1)

lemma unat_PDX: "unat (PDX a) = unat a div 2 ^ 22"
proof -
  have "unat a div 2 ^ 22 < 2 ^ 10"
    using unsigned_less [of a, where 'a = nat] by (simp add: div_less_iff_less_mult)
  then show ?thesis
    by (simp add: PDX_def and_3FF unsigned_take_bit_eq drop_bit_eq_div unat_div unat_mod take_bit_eq_mod)
qed

lemma unat_PTX: "unat (PTX a) = unat a div 4096 mod 1024"
  by (simp add: PTX_def and_3FF unsigned_take_bit_eq drop_bit_eq_div unat_div unat_mod take_bit_eq_mod)

lemma PDX_less: "unat (PDX a) < 1024"
  using unsigned_less [of a, where 'a = nat] by (simp add: unat_PDX div_less_iff_less_mult)

lemma PTX_less: "unat (PTX a) < 1024"
  by (simp add: unat_PTX)

lemma next_table:
  assumes "unat a < 0x80000000"
  shows "unat (PGADDR (PDX a + 1) 0 0) = (unat a div 2 ^ 22 + 1) * 2 ^ 22"
proof -
  have d: "unat a div 2 ^ 22 < 512"
    using assms by (simp add: div_less_iff_less_mult)
  then show ?thesis
    using unat_PDX [of a] by (simp add: PGADDR_def push_bit_eq_mult unat_word_ariths)
qed

definition empty_dir :: "mem \<Rightarrow> u32 \<Rightarrow> bool" where
  "empty_dir m pgdir \<longleftrightarrow> (\<forall>i < 1024. \<not> present (load32 m (pgdir + 4 * of_nat i)))"

lemma empty_dir_PDX: "empty_dir m pgdir \<Longrightarrow> \<not> present (load32 m (pgdir + 4 * PDX a))"
proof -
  assume "empty_dir m pgdir"
  then have "\<not> present (load32 m (pgdir + 4 * of_nat (unat (PDX a))))"
    using PDX_less [of a] unfolding empty_dir_def by blast
  then show ?thesis by simp
qed

lemma deallocuvm_loop_empty:
  assumes "unat oldsz \<le> 0x80000000" "empty_dir (ram s) pgdir"
  shows "deallocuvm_loop c pgdir a oldsz s = Ret () s"
proof (induction "0x80000000 - unat a" arbitrary: a rule: less_induct)
  case less
  show ?case
  proof (cases "a < oldsz")
    case False
    then show ?thesis by (simp add: deallocuvm_loop.simps)
  next
    case True
    then have a: "unat a < 0x80000000"
      using assms(1) by (simp add: word_less_nat_alt)
    let ?a' = "PGADDR (PDX a + 1) 0 0"
    have "unat a < (unat a div 2 ^ 22 + 1) * 2 ^ 22"
      using div_mult_mod_eq [of "unat a" "2 ^ 22"] mod_less_divisor [of "2 ^ 22" "unat a"] by simp
    then have up: "unat a < unat ?a'"
      by (simp add: next_table [OF a])
    then have "deallocuvm_loop c pgdir ?a' oldsz s = Ret () s"
      using a by (intro less) simp
    moreover have "walkpgdir c pgdir a False s = Ret 0 s"
      using empty_dir_PDX [OF assms(2)] by (simp add: walkpgdir_def Let_def)
    ultimately show ?thesis
      using True up by (subst deallocuvm_loop.simps) (simp add: Let_def word_le_nat_alt)
  qed
qed

lemma free_tables_empty:
  "n \<le> 1024 \<Longrightarrow> empty_dir (ram s) pgdir \<Longrightarrow> free_tables n c pgdir s = Ret () s"
proof (induction n)
  case (Suc n)
  then have "\<not> present (load32 (ram s) (pgdir + 4 * of_nat (1024 - Suc n)))"
    by (simp only: empty_dir_def) simp
  then show ?case
    using Suc by (simp only: free_tables.simps NPDENTRIES_def Let_def) simp
qed simp

lemma freevm_empty:
  assumes "empty_dir (ram s) pgdir" "pgdir \<noteq> 0"
  shows "freevm c pgdir s = kfree c pgdir s"
proof -
  have "deallocuvm_loop c pgdir (PGROUNDUP 0) KERNBASE s = Ret () s"
    by (rule deallocuvm_loop_empty [OF _ assms(1)]) (simp add: KERNBASE_def)
  then show ?thesis
    using assms free_tables_empty [of 1024 s pgdir c]
    by (simp add: freevm_def deallocuvm_def KERNBASE_def NPDENTRIES_def)
qed

lemma load32_dir_frame:
  assumes "x mod PGSIZE = 0" "v mod PGSIZE = 0" "x \<noteq> v" "i < 1024"
    and "\<And>y. 4096 \<le> unat (y - v) \<Longrightarrow> m' y = m y"
  shows "load32 m' (x + 4 * of_nat i) = load32 m (x + 4 * of_nat i)"
proof -
  have "m' (x + 4 * of_nat i + of_nat k) = m (x + 4 * of_nat i + of_nat k)" if "k < 4" for k
    using page_disjoint [OF assms(1-3), of "4 * i + k"] that assms(4)
    by (intro assms(5)) (simp add: algebra_simps)
  from this [of 0] this [of 1] this [of 2] this [of 3] show ?thesis
    by (intro load32_cong) simp_all
qed

lemma empty_dir_frame:
  assumes "x mod PGSIZE = 0" "v mod PGSIZE = 0" "x \<noteq> v"
    and "\<And>y. 4096 \<le> unat (y - v) \<Longrightarrow> m' y = m y"
  shows "empty_dir m' x = empty_dir m x"
  using load32_dir_frame [OF assms(1-3) _ assms(4)] by (simp add: empty_dir_def)

end
