(* ===== verification/Proc_Wait.thy ===== *)
theory Proc_Wait
  imports Proc_Atomic VM_Frame
begin

text \<open>
  \<open>wait\<close> (src/proc.c).  The loop over the table with the performance records full, where no zombie is
  collected, and with a free record, where the first zombie child is collected: its stack and address
  space are freed and its slot becomes unused.
\<close>

subsection \<open>Finalizing the metrics keeps the process\<close>

lemma finalize_metrics_fields [simp]:
  "p_state (finalize_metrics t p) = p_state p" "p_parent (finalize_metrics t p) = p_parent p"
  "p_pid (finalize_metrics t p) = p_pid p" "p_killed (finalize_metrics t p) = p_killed p"
  "p_kstack (finalize_metrics t p) = p_kstack p" "p_pgdir (finalize_metrics t p) = p_pgdir p"
  "p_enqueue_time (finalize_metrics t p) = (if 0 <s p_enqueue_time p then 0 else p_enqueue_time p)"
  by (simp_all add: finalize_metrics_def charge_ready_def Let_def)

definition perf_full :: "'a pst_scheme \<Rightarrow> bool" where
  "perf_full s \<longleftrightarrow> (\<forall>d \<in> set (perf_data s). pd_valid d)"

lemma perf_full_fields [simp]:
  "perf_full (updp i f s) = perf_full s" "perf_full (settle c s) = perf_full s"
  "perf_full (entered c l s) = perf_full s"
  by (simp_all add: perf_full_def)

lemma store_perf_full: "perf_full s \<Longrightarrow> store_perf i s = (False, s)"
proof -
  assume "perf_full s"
  then have "scan (\<lambda>d. \<not> pd_valid d) (perf_data s) = None"
    by (simp add: perf_full_def)
  then show ?thesis
    by (simp add: store_perf_def del: scan_None_iff)
qed

subsection \<open>A pass with full records\<close>

fun finalize_zombies :: "nat \<Rightarrow> nat list \<Rightarrow> 'a pst_scheme \<Rightarrow> 'a pst_scheme" where
  "finalize_zombies cur [] s = s"
| "finalize_zombies cur (i # is) s = finalize_zombies cur is
     (if p_parent (procs s ! i) = Some cur \<and> p_state (procs s ! i) = ZOMBIE
      then updp i (finalize_metrics (ticks s)) s else s)"

lemma nth_updp:
  "procs (updp i f s) ! j = (if i = j \<and> j < length (procs s) then f (procs s ! j) else procs s ! j)"
  by (cases "i < length (procs s)") (auto simp: list_update_beyond)

lemma finalize_zombies_proc:
  "p_state (procs (finalize_zombies cur is s) ! j) = p_state (procs s ! j)"
  "p_parent (procs (finalize_zombies cur is s) ! j) = p_parent (procs s ! j)"
  "p_killed (procs (finalize_zombies cur is s) ! j) = p_killed (procs s ! j)"
  "p_pid (procs (finalize_zombies cur is s) ! j) = p_pid (procs s ! j)"
  by (induction "is" arbitrary: s) (simp_all add: nth_updp del: updp_fields(8))

lemma finalize_zombies_fields [simp]:
  "cpus (finalize_zombies cur is s) = cpus s" "locks (finalize_zombies cur is s) = locks s"
  "length (procs (finalize_zombies cur is s)) = length (procs s)"
  "perf_data (finalize_zombies cur is s) = perf_data s" "ticks (finalize_zombies cur is s) = ticks s"
  by (induction "is" arbitrary: s) simp_all

lemma running_on_finalize_zombies [simp]:
  "running_on c p (finalize_zombies cur is s) = running_on c p s"
  using quiet_cong [of "finalize_zombies cur is s" s c] by (simp add: running_on_def curproc_def)

lemma wait_scan_full:
  "quiet c s \<Longrightarrow> perf_full s \<Longrightarrow> wait_scan c cur is hk (entered c Lk_ptable s) =
     Ret (None, hk \<or> (\<exists>i \<in> set is. p_parent (procs s ! i) = Some cur))
       (entered c Lk_ptable (finalize_zombies cur is s))"
proof (induction "is" arbitrary: s hk)
  case (Cons i "is")
  have st: "p_parent (procs (updp i (finalize_metrics t) s) ! j) = p_parent (procs s ! j)" for t j
    by (simp add: nth_updp del: updp_fields(8))
  show ?case
  proof (cases "p_parent (procs s ! i) = Some cur \<and> p_state (procs s ! i) = ZOMBIE")
    case True
    let ?s = "updp i (finalize_metrics (ticks s)) s"
    have "wait_scan c cur is True (entered c Lk_ptable ?s) =
       Ret (None, True \<or> (\<exists>i \<in> set is. p_parent (procs ?s ! i) = Some cur))
       (entered c Lk_ptable (finalize_zombies cur is ?s))"
      using Cons.prems by (intro Cons.IH) simp_all
    moreover have "acquire c Lk_perf (entered c Lk_ptable ?s) = Ret () (entered c Lk_perf (entered c Lk_ptable ?s))"
        "release c Lk_perf (entered c Lk_perf (entered c Lk_ptable ?s)) = Ret () (entered c Lk_ptable ?s)"
      using Cons.prems by (simp_all add: locking)
    ultimately show ?thesis
      using True Cons.prems store_perf_full [of ?s i]
      by (simp add: Let_def upd_under_entered store_perf_locking st)
  next
    case False
    then show ?thesis
      using Cons.IH [OF Cons.prems, of hk] Cons.IH [OF Cons.prems, of True] by auto
  qed
qed simp

lemma wait_full:
  assumes r: "running_on c cur s" and f: "perf_full s"
  shows "wait c s =
    (let t = finalize_zombies cur [0..<NPROC] s in
     if (\<forall>i < NPROC. p_parent (procs s ! i) \<noteq> Some cur) \<or> p_killed (procs s ! cur)
     then Ret (- 1) (settle c t)
     else Sleep (entered c Lk_ptable (updp cur (asleep (Ch_proc cur) (ticks s)) t)))"
proof -
  let ?t = "finalize_zombies cur [0..<NPROC] s"
  have t: "running_on c cur ?t" "quiet c ?t" "quiet c s" "quiet c (settle c s)"
    using r running_onD [OF r] quiet_cong [of ?t s c] by simp_all
  have scan: "wait_scan c cur [0..<NPROC] False (entered c Lk_ptable s) =
     Ret (None, \<exists>i < NPROC. p_parent (procs s ! i) = Some cur) (entered c Lk_ptable ?t)"
    using wait_scan_full [OF t(3) f, of cur "[0..<NPROC]" False] by auto
  have "sleep c (Ch_proc cur) (Some Lk_ptable) (entered c Lk_ptable ?t) =
      Sleep (entered c Lk_ptable (updp cur (asleep (Ch_proc cur) (ticks s)) ?t))"
    using sleep_eq [OF t(1), of "Ch_proc cur" Lk_ptable] by simp
  then show ?thesis
    using t running_onD(2) [OF r] scan
    by (simp add: wait_def wait_round_def myproc_quiet acquire_quiet entered_settle release_quiet
        finalize_zombies_proc Let_def)
qed

subsection \<open>A pass that collects a child\<close>

definition reaped :: "proc \<Rightarrow> proc" where
  "reaped p = p\<lparr>p_kstack := 0, p_pid := 0, p_parent := None, p_name := [], p_killed := False,
     p_state := UNUSED\<rparr>"

lemma wait_scan_skip:
  assumes "\<forall>i \<in> set js. p_parent (procs s ! i) = Some cur \<longrightarrow> p_state (procs s ! i) \<noteq> ZOMBIE"
  shows "\<exists>hk'. wait_scan c cur (js @ is) hk s = wait_scan c cur is hk' s"
  using assms by (induction js arbitrary: hk) auto

text \<open>The state in which the memory of the zombie in slot \<open>i\<close> is freed.\<close>

definition reap_start :: "nat \<Rightarrow> 'a pst_scheme \<Rightarrow> 'a pst_scheme" where
  "reap_start i s = snd (store_perf i (updp i (finalize_metrics (ticks s)) s))"

lemma reap_start_fields:
  "cpus (reap_start i s) = cpus s" "locks (reap_start i s) = locks s"
  "procs (reap_start i s) = (procs s)[i := finalize_metrics (ticks s) (procs s ! i)]"
  by (simp_all add: reap_start_def store_perf_def split: option.splits)

lemma store_perf_free: "\<not> perf_full s \<Longrightarrow> fst (store_perf i s)"
proof -
  assume "\<not> perf_full s"
  then have "scan (\<lambda>d. \<not> pd_valid d) (perf_data s) \<noteq> None"
    by (auto simp: perf_full_def)
  then show ?thesis
    by (auto simp: store_perf_def simp del: scan_None_iff)
qed

lemma mem_only_pst:
  assumes "mem_only s (t :: 'a pst_scheme)"
  shows "cpus t = cpus s" "locks t = locks s" "procs t = procs s" "perf_data t = perf_data s"
    "nextpid t = nextpid s" "ticks t = ticks s" "initproc t = initproc s"
  using assms by (cases s; cases t; simp add: mem_only_def)+

lemma release_mem_only:
  assumes q: "quiet c s" and m: "mem_only (entered c l s) t"
  shows "\<exists>u. release c l (updp i f t) = Ret () u \<and> mem_only (settle c (updp i f s)) u"
proof -
  obtain m' h where "t = (entered c l s)\<lparr>ram := m', kmem_freelist := h\<rparr>"
    using m by (auto simp: mem_only_def)
  then have t: "t = entered c l (s\<lparr>ram := m', kmem_freelist := h\<rparr>)" (is "_ = entered c l ?s")
    by (simp add: entered_def upd_cpu_def upd_lock_def)
  have "quiet c ?s"
    using q quiet_cong [of ?s s c] by simp
  then have "release c l (updp i f t) = Ret () (settle c (updp i f ?s))"
    by (simp add: t locking)
  moreover have "settle c (updp i f ?s) = (settle c (updp i f s))\<lparr>ram := m', kmem_freelist := h\<rparr>"
    by (simp add: settle_def upd_cpu_def updp_def)
  ultimately show ?thesis by simp
qed

lemma wait_scan_reap:
  fixes s :: "'a pst_scheme"
  assumes q: "quiet c s" and p: "p_parent (procs s ! i) = Some cur" "p_state (procs s ! i) = ZOMBIE"
    and i: "i < length (procs s)" and nf: "\<not> perf_full s"
    and k: "kfree c (p_kstack (procs s ! i)) (entered c Lk_ptable (reap_start i s)) = Ret () s1"
    and v: "freevm c (p_pgdir (procs s ! i)) (updp i (\<lambda>p. p\<lparr>p_kstack := 0\<rparr>) s1) = Ret () s2"
  shows "\<exists>t. wait_scan c cur (i # is) hk (entered c Lk_ptable s) = Ret (Some (p_pid (procs s ! i)), True) t \<and>
     mem_only (settle c (updp i reaped (reap_start i s))) t"
proof -
  let ?s = "updp i (finalize_metrics (ticks s)) s" and ?r = "reap_start i s"
  let ?f = "\<lambda>p :: proc. p\<lparr>p_kstack := 0\<rparr>"
  let ?g = "\<lambda>p. p\<lparr>p_pid := 0, p_parent := None, p_name := [], p_killed := False, p_state := UNUSED\<rparr>"
  have qr: "quiet c ?r"
    using q quiet_cong [of ?r s c] by (simp add: reap_start_fields)
  have sec: "in_section c (entered c Lk_ptable ?r)"
    using qr by (simp add: in_section_def inside_entered lock_clear_entered quiet_def)
  have m1: "mem_only (entered c Lk_ptable ?r) s1"
    by (rule kfree_frame [OF sec k])
  have p1: "procs s1 = procs ?r" "i < length (procs ?r)"
    using mem_only_pst(3) [OF m1] i by (simp_all add: reap_start_fields)
  have "mem_only (updp i ?f (entered c Lk_ptable ?r)) (updp i ?f s1)"
    using m1 p1 by (cases s1; cases "entered c Lk_ptable ?r") (simp add: mem_only_def updp_def)
  moreover have "in_section c (updp i ?f s1)"
    using in_section_mem_only [OF m1 sec] by (simp add: in_section_def)
  ultimately have m2: "mem_only (entered c Lk_ptable (updp i ?f ?r)) s2"
    using freevm_frame [OF _ v] mem_only_trans by (fastforce simp: upd_under_entered)
  obtain u where u: "release c Lk_ptable (updp i ?g s2) = Ret () u"
    "mem_only (settle c (updp i ?g (updp i ?f ?r))) u"
    using release_mem_only [OF _ m2, of i ?g] qr by auto
  have "updp i ?g (updp i ?f ?r) = updp i reaped ?r"
    using p1 by (simp add: updp_comp) (rule updp_cong, simp add: reaped_def)
  moreover have st: "store_perf i ?s = (True, ?r)"
    using store_perf_free [of ?s i] nf by (simp add: reap_start_def prod_eq_iff)
  have pd: "p_pgdir (procs s1 ! i) = p_pgdir (procs s ! i)" "p_kstack (procs ?r ! i) = p_kstack (procs s ! i)"
    using i p1 by (simp_all add: reap_start_fields)
  have acq: "acquire c Lk_perf (entered c Lk_ptable ?s) = Ret () (entered c Lk_perf (entered c Lk_ptable ?s))"
      "release c Lk_perf (entered c Lk_perf (entered c Lk_ptable ?r)) = Ret () (entered c Lk_ptable ?r)"
    using q qr by (simp_all add: locking)
  have v': "freevm c (p_pgdir (procs (updp i ?f s1) ! i)) (updp i ?f s1) = Ret () s2"
    using v pd p1 by simp
  have "wait_scan c cur (i # is) hk (entered c Lk_ptable s) = Ret (Some (p_pid (procs s ! i)), True) u"
    using p k u(1) v' pd st acq
    by (simp add: Let_def upd_under_entered store_perf_locking del: updp_fields(8))
  ultimately show ?thesis
    using u(2) by auto
qed

end
