(* ===== verification/Proc_Props.thy ===== *)
theory Proc_Props
  imports Proc_Wait
begin

text \<open>
  Correctness of the process operations: allocation, sleep and wakeup, kill, exit, wait and the
  metric queries.  Each property is read off the atomic form of the operation.
\<close>

subsection \<open>Reparenting\<close>

lemma wakeup1_nth:
  "j < length (procs s) \<Longrightarrow> procs (wakeup1 ch s) ! j =
     (if p_state (procs s ! j) = SLEEPING \<and> p_chan (procs s ! j) = ch
      then (procs s ! j)\<lparr>p_state := RUNNABLE, p_enqueue_time := ticks s\<rparr> else procs s ! j)"
  by (simp add: wakeup1_def)

lemma wakeup1_parent [simp]:
  "j < length (procs s) \<Longrightarrow> p_parent (procs (wakeup1 ch s) ! j) = p_parent (procs s ! j)"
  by (simp add: wakeup1_nth)

lemma wakeup1_state_cases:
  "j < length (procs s) \<Longrightarrow> p_state (procs (wakeup1 ch s) ! j) =
     (if p_state (procs s ! j) = SLEEPING \<and> p_chan (procs s ! j) = ch then RUNNABLE else p_state (procs s ! j))"
  by (simp add: wakeup1_nth)

lemma reparent_parent:
  assumes "\<forall>i \<in> set is. i < length (procs s)" "distinct is" "j < length (procs s)" "initproc s \<noteq> Some cur"
  shows "p_parent (procs (reparent cur is s) ! j) =
     (if j \<in> set is \<and> p_parent (procs s ! j) = Some cur then initproc s else p_parent (procs s ! j))"
  using assms
proof (induction "is" arbitrary: s)
  case (Cons i "is")
  let ?s = "updp i (\<lambda>p. p\<lparr>p_parent := initproc s\<rparr>) s"
  let ?t = "if p_state (procs ?s ! i) = ZOMBIE then wakeup1 (map_option Ch_proc (initproc ?s)) ?s else ?s"
  have t: "initproc ?t = initproc s" "length (procs ?t) = length (procs s)"
    by simp_all
  have par: "p_parent (procs ?t ! j) = (if i = j then initproc s else p_parent (procs s ! j))"
    using Cons.prems by (simp add: nth_list_update)
  show ?case
  proof (cases "p_parent (procs s ! i) = Some cur")
    case True
    have "p_parent (procs (reparent cur is ?t) ! j) =
       (if j \<in> set is \<and> p_parent (procs ?t ! j) = Some cur then initproc ?t else p_parent (procs ?t ! j))"
      using Cons.prems t by (intro Cons.IH) simp_all
    moreover have "reparent cur (i # is) s = reparent cur is ?t"
      using True by (simp add: Let_def)
    ultimately show ?thesis
      using True Cons.prems by (simp only: par t) auto
  next
    case False
    then show ?thesis
      using Cons.IH [of s] Cons.prems by auto
  qed
qed simp

lemma reparent_state:
  assumes "\<forall>i \<in> set is. i < length (procs s)" "j < length (procs s)"
  shows "p_state (procs (reparent cur is s) ! j) = p_state (procs s ! j) \<or>
    (p_state (procs s ! j) = SLEEPING \<and> p_chan (procs s ! j) = map_option Ch_proc (initproc s) \<and>
     p_state (procs (reparent cur is s) ! j) = RUNNABLE)"
  using assms
proof (induction "is" arbitrary: s)
  case (Cons i "is")
  let ?s = "updp i (\<lambda>p. p\<lparr>p_parent := initproc s\<rparr>) s"
  let ?t = "if p_state (procs ?s ! i) = ZOMBIE then wakeup1 (map_option Ch_proc (initproc ?s)) ?s else ?s"
  have st: "p_state (procs ?s ! j) = p_state (procs s ! j)" "p_chan (procs ?s ! j) = p_chan (procs s ! j)"
    using Cons.prems by (simp_all add: nth_list_update)
  have t: "p_state (procs ?t ! j) = p_state (procs s ! j) \<and> p_chan (procs ?t ! j) = p_chan (procs s ! j) \<or>
      (p_state (procs s ! j) = SLEEPING \<and> p_chan (procs s ! j) = map_option Ch_proc (initproc s) \<and>
       p_state (procs ?t ! j) = RUNNABLE)"
    using Cons.prems st by (auto simp: wakeup1_nth)
  have len: "length (procs ?t) = length (procs s)" "initproc ?t = initproc s" by simp_all
  show ?case
  proof (cases "p_parent (procs s ! i) = Some cur")
    case True
    have eq: "reparent cur (i # is) s = reparent cur is ?t"
      using True by (simp add: Let_def)
    show ?thesis
      using Cons.IH [of ?t] Cons.prems t unfolding eq len by fastforce
  next
    case False
    then show ?thesis
      using Cons.IH [of s] Cons.prems by simp
  qed
qed simp

subsection \<open>States for concrete instances\<close>

definition blank_proc :: proc where
  "blank_proc = \<lparr>p_sz = 0, p_pgdir = 0, p_kstack = 0, p_state = UNUSED, p_pid = 0, p_parent = None,
     p_tf = 0, p_frame = zero_trapframe, p_ret = 0, p_context = 0,
     p_ctx = \<lparr>cx_edi = 0, cx_esi = 0, cx_ebx = 0, cx_ebp = 0, cx_eip = 0\<rparr>, p_chan = None,
     p_killed = False, p_runticks = 0, p_ofile = [], p_cwd = None, p_name = [], p_tickets = 0,
     p_enqueue_time = 0, p_creation_time = 0, p_start_time = 0, p_completion_time = 0,
     p_total_run_time = 0, p_total_ready_time = 0\<rparr>"

definition proc_in :: "procstate \<Rightarrow> i32 \<Rightarrow> nat option \<Rightarrow> proc" where
  "proc_in st pid par = blank_proc\<lparr>p_state := st, p_pid := pid, p_parent := par\<rparr>"

definition blank_perf :: perfdata where
  "blank_perf = \<lparr>pd_pid = 0, pd_creation_time = 0, pd_start_time = 0, pd_completion_time = 0,
     pd_total_run_time = 0, pd_total_ready_time = 0, pd_valid = False\<rparr>"

text \<open>Process 0 runs on processor 0; process 1 is \<open>init\<close>; one page is free.\<close>

definition demo :: "proc list \<Rightarrow> perfdata list \<Rightarrow> pst" where
  "demo ps perf = \<lparr>cpus = [(cpu_at 0)\<lparr>cproc := Some 0\<rparr>, cpu_at 1], locks = (\<lambda>_. free_lock),
     kmem_use_lock = True, kmem_freelist = 0x80200000, ram = (\<lambda>_. 0), kend = 0x80100000,
     kdata = 0x80108000, kpgdir = 0, procs = ps @ replicate (64 - length ps) blank_proc,
     perf_data = perf, last_completion_time = 0, initproc = Some 1, nextpid = 5, ticks = 100,
     rseed = 1, sym_trapret = 0x80105000, sym_forkret = 0x80104000\<rparr>"

lemma demo_quiet: "c < 2 \<Longrightarrow> quiet c (demo ps perf)"
  by (auto simp: quiet_def on_cpu_def lock_clear_def demo_def cpu_at_def cli_ok_def free_lock_def
      less_2_cases_iff)

lemma demo_running: "running_on 0 0 (demo (p # ps) perf)"
  by (simp add: running_on_def demo_quiet) (simp add: demo_def curproc_def cpu_at_def)

subsection \<open>Allocation\<close>

text \<open>
  C19.  \<open>allocproc\<close>: with no unused slot it returns NULL and changes nothing; out of memory it returns
  NULL and the slot is unused again; otherwise it returns the first unused slot as an embryo with the
  next pid, a fresh kernel stack, and a context that starts in \<open>forkret\<close> and returns to \<open>trapret\<close>.  No
  other slot changes.
\<close>

theorem allocproc_correct:
  assumes "quiet c s"
  shows "case scan (\<lambda>p. p_state p = UNUSED) (procs s) of
      None \<Rightarrow> (\<exists>t. allocproc c s = Ret None t \<and> procs t = procs s \<and> nextpid t = nextpid s)
    | Some i \<Rightarrow>
        if kmem_freelist s = 0 then
          (\<exists>t. allocproc c s = Ret None t \<and> p_state (procs t ! i) = UNUSED \<and>
             (\<forall>j. j \<noteq> i \<longrightarrow> procs t ! j = procs s ! j))
        else
          (\<exists>t. allocproc c s = Ret (Some i) t \<and> p_state (procs t ! i) = EMBRYO \<and>
             p_pid (procs t ! i) = nextpid s \<and> nextpid t = nextpid s + 1 \<and>
             p_kstack (procs t ! i) = kmem_freelist s \<and>
             p_context (procs t ! i) + sizeof_context + 4 = p_tf (procs t ! i) \<and>
             p_tf (procs t ! i) + sizeof_trapframe = kmem_freelist s + KSTACKSIZE \<and>
             cx_eip (p_ctx (procs t ! i)) = sym_forkret s \<and> p_ret (procs t ! i) = sym_trapret s \<and>
             (\<forall>j. j \<noteq> i \<longrightarrow> procs t ! j = procs s ! j))"
proof (cases "scan (\<lambda>p. p_state p = UNUSED) (procs s)")
  case None
  then show ?thesis
    using allocproc_eq [OF assms] by (simp add: allocproc_spec_def del: scan_None_iff)
next
  case (Some i)
  then have "i < length (procs s)" by (simp add: scan_Some_iff)
  with Some show ?thesis
    using allocproc_eq [OF assms]
    by (simp add: allocproc_spec_def embryo_def kernel_stack_def sizeof_context_def
        sizeof_trapframe_def KSTACKSIZE_def)
qed

theorem allocproc_correct_witness:
  "\<exists>t. allocproc 1 (demo [proc_in RUNNING 1 None, proc_in RUNNABLE 2 None] []) = Ret (Some 2) t \<and>
     p_pid (procs t ! 2) = 5 \<and> p_kstack (procs t ! 2) = 0x80200000"
proof -
  let ?s = "demo [proc_in RUNNING 1 None, proc_in RUNNABLE 2 None] []"
  have p: "procs ?s = [proc_in RUNNING 1 None, proc_in RUNNABLE 2 None] @ replicate 62 blank_proc"
    by (simp add: demo_def)
  then have "scan (\<lambda>p. p_state p = UNUSED) (procs ?s) = Some 2"
    by (simp add: scan_Some_iff less_2_cases_iff proc_in_def blank_proc_def nth_append nth_Cons')
  then show ?thesis
    using allocproc_correct [OF demo_quiet, of 1 "[proc_in RUNNING 1 None, proc_in RUNNABLE 2 None]" "[]"]
    by (simp add: demo_def) blast
qed

subsection \<open>Sleep and wakeup\<close>



text \<open>
  A process that gave up the processor comes back with what it had: \<open>sleep\<close> returns holding the
  lock it was called with, with the channel cleared, and \<open>yield\<close> returns with no lock held and the
  interrupt flag it had, on whichever processor it is resumed.
\<close>

theorem resume_restores:
  assumes "quiet c s" "ncli (cpus s ! c) = 0" "l \<noteq> Lk_ptable" "p < length (procs s)"
  shows "(\<exists>t. sleep_resume c p l b (entered c Lk_ptable s) = Ret () t \<and> lock_held c l t \<and>
      lock_clear Lk_ptable t \<and> p_chan (procs t ! p) = None) \<and>
    (\<exists>t. yield_resume c b (entered c Lk_ptable s) = Ret () t \<and> quiet c t \<and> if_flag (cpus t ! c) = b)"
proof -
  let ?x = "set_flag c b (updp p (\<lambda>q. q\<lparr>p_chan := None\<rparr>) s)"
  have x: "quiet c ?x"
    using quiet_set_flag [of c "updp p (\<lambda>q. q\<lparr>p_chan := None\<rparr>) s" b] assms by simp
  have "lock_held c l (entered c l ?x)"
    using x by (intro lock_held_entered) (simp add: quiet_def)
  moreover have "lock_clear Lk_ptable (entered c l ?x)"
    using x assms(3) by (simp add: lock_clear_entered quiet_def)
  moreover have "if_flag (cpus (set_flag c b s) ! c) = b"
    using assms(1) by (simp add: set_flag_def quiet_def on_cpu_def)
  ultimately show ?thesis
    using sleep_resume_eq [OF assms(1-3), of p b] yield_resume_eq [OF assms(1,2), of b]
      quiet_set_flag [OF assms(1,2), of b] assms(4) by simp
qed

theorem resume_restores_witness:
  "(\<exists>t. sleep_resume 1 0 Lk_ticks True (entered 1 Lk_ptable (demo [proc_in RUNNING 1 None] [])) = Ret () t \<and>
      lock_held 1 Lk_ticks t) \<and>
   (\<exists>t. yield_resume 1 True (entered 1 Lk_ptable (demo [proc_in RUNNING 1 None] [])) = Ret () t \<and>
      if_flag (cpus t ! 1))"
proof -
  let ?s = "demo [proc_in RUNNING 1 None] []"
  have "quiet 1 ?s" "ncli (cpus ?s ! 1) = 0" "0 < length (procs ?s)"
    by (simp_all add: demo_quiet) (simp_all add: demo_def cpu_at_def)
  then show ?thesis
    using resume_restores [of 1 ?s Lk_ticks 0 True] by auto
qed

text \<open>
  \<open>wakeup\<close> makes runnable exactly the processes asleep on the channel, stamping the time they
  became ready, and changes no other process; it leaves every lock free.
\<close>

theorem wakeup_exact:
  assumes "quiet c s" "j < length (procs s)"
  shows "\<exists>t. wakeup c ch s = Ret () t \<and> quiet c t \<and>
    procs t ! j = (if p_state (procs s ! j) = SLEEPING \<and> p_chan (procs s ! j) = ch
      then (procs s ! j)\<lparr>p_state := RUNNABLE, p_enqueue_time := ticks s\<rparr> else procs s ! j)"
proof -
  have "quiet c (settle c (wakeup1 ch s))"
    using assms(1) quiet_cong [of "wakeup1 ch s" s c] by simp
  then show ?thesis
    using wakeup_eq [OF assms(1), of ch] assms(2) by (simp add: wakeup1_nth)
qed

theorem wakeup_exact_witness:
  "\<exists>t. wakeup 0 (Some Ch_ticks) (demo [(proc_in SLEEPING 3 None)\<lparr>p_chan := Some Ch_ticks\<rparr>] []) = Ret () t \<and>
     p_state (procs t ! 0) = RUNNABLE \<and> p_enqueue_time (procs t ! 0) = 100"
proof -
  let ?s = "demo [(proc_in SLEEPING 3 None)\<lparr>p_chan := Some Ch_ticks\<rparr>] []"
  have l: "0 < length (procs ?s)" by (simp add: demo_def)
  have p: "p_state (procs ?s ! 0) = SLEEPING" "p_chan (procs ?s ! 0) = Some Ch_ticks" "ticks ?s = 100"
    by (simp_all add: demo_def proc_in_def)
  show ?thesis
    using wakeup_exact [OF demo_quiet l, of 0 "Some Ch_ticks"] by (auto simp: p)
qed

subsection \<open>Kill\<close>



text \<open>
  C40.  Unused slots have pid 0, and \<open>kill\<close> does not look at the state: \<open>kill(0)\<close> succeeds and marks an
  unused slot, and since \<open>allocproc\<close> does not clear the mark, a process later allocated there is
  killed from birth.
\<close>

theorem kill_zero_hits_unused:
  assumes "quiet c s" "scan (\<lambda>p. p_pid p = 0) (procs s) = Some i"
    and "scan (\<lambda>p. p_state p = UNUSED) (procs s) = Some i" "kmem_freelist s \<noteq> 0"
  shows "\<exists>t u. kill c 0 s = Ret 0 t \<and> allocproc c t = Ret (Some i) u \<and> p_killed (procs u ! i)"
proof -
  let ?f = "\<lambda>p. p\<lparr>p_killed := True, p_state := if p_state p = SLEEPING then RUNNABLE else p_state p\<rparr>"
  let ?t = "settle c (updp i ?f s)"
  have i: "i < length (procs s)" "p_state (procs s ! i) = UNUSED"
    using assms(3) by (auto simp: scan_Some_iff)
  have k: "kill c 0 s = Ret 0 ?t"
    using kill_eq [OF assms(1), of 0] assms(2) by (simp add: kill_spec_def)
  have q: "quiet c ?t" using assms(1) by simp
  have "scan (\<lambda>p. p_state p = UNUSED) (procs ?t) = Some i"
    using assms(3) i by (auto simp: scan_Some_iff nth_list_update)
  then show ?thesis
    using k allocproc_eq [OF q] i assms(4)
    by (simp add: allocproc_spec_def embryo_def kernel_stack_def)
qed

theorem kill_zero_hits_unused_witness:
  "\<exists>t u. kill 0 0 (demo [proc_in RUNNING 1 None] []) = Ret 0 t \<and> allocproc 0 t = Ret (Some 1) u \<and>
     p_killed (procs u ! 1)"
proof -
  let ?s = "demo [proc_in RUNNING 1 None] []"
  have "procs ?s = proc_in RUNNING 1 None # replicate 63 blank_proc" by (simp add: demo_def)
  then have "scan (\<lambda>p. p_pid p = 0) (procs ?s) = Some 1" "scan (\<lambda>p. p_state p = UNUSED) (procs ?s) = Some 1"
    by (simp_all add: scan_Some_iff proc_in_def blank_proc_def)
  moreover have "kmem_freelist ?s \<noteq> 0" by (simp add: demo_def)
  ultimately show ?thesis
    using kill_zero_hits_unused [OF demo_quiet, of 0] by simp
qed

subsection \<open>Exit\<close>

text \<open>
  C18.  The last part of \<open>exit\<close> reaches the scheduler (no panic) with the process a zombie, its children
  and only they handed to \<open>init\<close>, and its parent runnable if it was waiting.
\<close>

theorem exit_zombie_correct:
  assumes "running_on c cur s" "length (procs s) = NPROC" "initproc s \<noteq> Some cur"
  shows "\<exists>t. exit_zombie c cur s = Sleep t \<and> p_state (procs t ! cur) = ZOMBIE \<and>
    (\<forall>j < NPROC. p_parent (procs t ! j) =
       (if p_parent (procs s ! j) = Some cur then initproc s else p_parent (procs s ! j))) \<and>
    (\<forall>q < NPROC. p_parent (procs s ! cur) = Some q \<and> q \<noteq> cur \<and> p_state (procs s ! q) = SLEEPING \<and>
       p_chan (procs s ! q) = Some (Ch_proc q) \<longrightarrow> p_state (procs t ! q) = RUNNABLE)"
proof -
  let ?w = "wakeup1 (map_option Ch_proc (p_parent (procs s ! cur))) s"
  let ?r = "reparent cur [0..<NPROC] ?w"
  let ?t = "exit_spec cur s"
  have cur: "cur < NPROC" using running_onD(3) [OF assms(1)] assms(2) by simp
  have nth: "procs ?t ! j = (if j = cur then (procs ?r ! cur)\<lparr>p_state := ZOMBIE\<rparr> else procs ?r ! j)"
    if "j < NPROC" for j
    using that assms(2) by (auto simp: exit_spec_def nth_list_update)
  have len: "\<forall>i \<in> set [0..<NPROC]. i < length (procs ?w)" "length (procs ?w) = NPROC"
    using assms(2) by simp_all
  have par: "p_parent (procs ?t ! j) =
       (if p_parent (procs s ! j) = Some cur then initproc s else p_parent (procs s ! j))"
    if "j < NPROC" for j
    using reparent_parent [OF len(1) distinct_upt, of j cur] that assms(2,3) nth [OF that]
    by (cases "j = cur") simp_all
  have "p_state (procs ?t ! q) = RUNNABLE"
    if "q < NPROC" "p_parent (procs s ! cur) = Some q" "q \<noteq> cur" "p_state (procs s ! q) = SLEEPING"
      "p_chan (procs s ! q) = Some (Ch_proc q)" for q
  proof -
    have "p_state (procs ?w ! q) = RUNNABLE"
      using that assms(2) by (simp add: wakeup1_nth)
    then have "p_state (procs ?r ! q) = RUNNABLE"
      using reparent_state [OF len(1), of q cur] that(1) len(2) by auto
    then show ?thesis
      using nth [OF that(1)] that(3) by simp
  qed
  moreover have "p_state (procs ?t ! cur) = ZOMBIE"
    using nth [OF cur] by simp
  ultimately show ?thesis
    using exit_zombie_eq [OF assms(1)] par by simp
qed

theorem exit_zombie_correct_witness:
  "\<exists>t. exit_zombie 0 0 (demo [proc_in RUNNING 3 (Some 1),
       (proc_in SLEEPING 1 None)\<lparr>p_chan := Some (Ch_proc 1)\<rparr>, proc_in RUNNABLE 4 (Some 0)] []) = Sleep t \<and>
     p_state (procs t ! 0) = ZOMBIE \<and> p_parent (procs t ! 2) = Some 1 \<and> p_state (procs t ! 1) = RUNNABLE"
proof -
  let ?ps = "[proc_in RUNNING 3 (Some 1), (proc_in SLEEPING 1 None)\<lparr>p_chan := Some (Ch_proc 1)\<rparr>,
    proc_in RUNNABLE 4 (Some 0)]"
  let ?s = "demo ?ps []"
  have s: "length (procs ?s) = NPROC" "initproc ?s = Some 1" "p_parent (procs ?s ! 0) = Some 1"
    "p_parent (procs ?s ! 2) = Some 0" "p_state (procs ?s ! 1) = SLEEPING" "p_chan (procs ?s ! 1) = Some (Ch_proc 1)"
    by (simp_all add: demo_def NPROC_def proc_in_def)
  obtain t where t: "exit_zombie 0 0 ?s = Sleep t" "p_state (procs t ! 0) = ZOMBIE"
    and par: "\<forall>j < NPROC. p_parent (procs t ! j) =
       (if p_parent (procs ?s ! j) = Some 0 then initproc ?s else p_parent (procs ?s ! j))"
    and wk: "\<forall>q < NPROC. p_parent (procs ?s ! 0) = Some q \<and> q \<noteq> 0 \<and> p_state (procs ?s ! q) = SLEEPING \<and>
       p_chan (procs ?s ! q) = Some (Ch_proc q) \<longrightarrow> p_state (procs t ! q) = RUNNABLE"
    using exit_zombie_correct [OF demo_running s(1)] s(2) by auto
  have "2 < NPROC" "1 < NPROC" by (simp_all add: NPROC_def)
  then have "p_parent (procs t ! 2) = Some 1" "p_state (procs t ! 1) = RUNNABLE"
    using par wk s by auto
  with t show ?thesis by blast
qed

text \<open>
  Performance records are kept for the queries: after the first part of \<open>exit\<close>, with a record
  free and none yet for this pid, the record of the process holds its final metrics, and once its slot
  is gone the query \<open>get_total_run_time\<close> returns the recorded value.
\<close>

theorem metrics_survive_exit:
  assumes "running_on c p s" "initproc s \<noteq> Some p" "\<not> perf_full s" "find_perf (p_pid (procs s ! p)) s = None"
    and "quiet d u" "perf_data u = perf_data t" "find_pid (p_pid (procs s ! p)) u = None"
    and "exit_metrics c s = Ret q t"
  shows "find_perf (p_pid (procs s ! p)) t = Some (perf_entry (finalize_metrics (ticks s) (procs s ! p))) \<and>
    (\<exists>w. get_total_run_time d (p_pid (procs s ! p)) u =
       Ret (p_total_run_time (finalize_metrics (ticks s) (procs s ! p))) w)"
proof -
  let ?s = "updp p (finalize_metrics (ticks s)) s" and ?pid = "p_pid (procs s ! p)"
  have p: "p < length (procs s)" by (rule running_onD(3) [OF assms(1)])
  have t: "perf_data t = perf_data (snd (store_perf p ?s))"
    using exit_metrics_eq [OF assms(1,2)] assms(8) by auto
  obtain j where j: "scan (\<lambda>d. \<not> pd_valid d) (perf_data s) = Some j"
    using assms(3) by (cases "scan (\<lambda>d. \<not> pd_valid d) (perf_data s)") (auto simp: perf_full_def)
  let ?e = "perf_entry (finalize_metrics (ticks s) (procs s ! p))"
  have pd: "perf_data t = (perf_data s)[j := ?e]"
    using t j p by (simp add: store_perf_def)
  have jl: "j < length (perf_data s)"
    using j by (simp add: scan_Some_iff)
  have none: "\<not> (pd_valid d \<and> pd_pid d = ?pid)" if "d \<in> set (perf_data s)" for d
    using assms(4) that by (simp add: find_perf_def find_None_iff)
  have find: "find_perf ?pid t = Some ?e"
    unfolding find_perf_def pd find_Some_iff
    using jl none by (intro exI [of _ j]) (auto simp: nth_list_update perf_entry_def)
  moreover have "find_perf ?pid u = Some ?e"
    using find assms(6) by (simp add: find_perf_def)
  then have "metric_spec p_total_run_time pd_total_run_time ?pid u = pd_total_run_time ?e"
    using assms(7) by (simp add: metric_spec_def)
  ultimately show ?thesis
    using get_metric_eq [OF assms(5)] by (simp add: get_total_run_time_def perf_entry_def)
qed

theorem metrics_survive_exit_witness:
  "\<exists>t. exit_metrics 0 (demo [proc_in RUNNING 3 (Some 1)] [blank_perf]) = Ret 0 t \<and>
     (\<exists>w. get_total_run_time 1 3 (t\<lparr>procs := []\<rparr>) = Ret 1 w)"
proof -
  let ?s = "demo [proc_in RUNNING 3 (Some 1)] [blank_perf]"
  let ?t = "settle 0 (snd (store_perf 0 (updp 0 (finalize_metrics (ticks ?s)) ?s)))"
  have a: "initproc ?s \<noteq> Some 0" "\<not> perf_full ?s" "find_perf (p_pid (procs ?s ! 0)) ?s = None"
    by (simp_all add: demo_def perf_full_def find_perf_def blank_perf_def)
  have e: "exit_metrics 0 ?s = Ret 0 ?t"
    by (rule exit_metrics_eq [OF demo_running a(1)])
  have "quiet 1 ?t"
    using demo_quiet [of 1 "[proc_in RUNNING 3 (Some 1)]" "[blank_perf]"]
    by (simp add: quiet_def lock_clear_def store_perf_def settle_def on_cpu_def demo_def
        cpu_at_def cli_ok_def blank_perf_def)
  then have q: "quiet 1 (?t\<lparr>procs := []\<rparr>)" by simp
  have "p_pid (procs ?s ! 0) = 3" "p_total_run_time (finalize_metrics (ticks ?s) (procs ?s ! 0)) = 1"
    by (simp_all add: demo_def proc_in_def blank_proc_def finalize_metrics_def Let_def)
  then show ?thesis
    using metrics_survive_exit [OF demo_running a q _ _ e] e by (auto simp: find_pid_def)
qed

subsection \<open>Wait\<close>



text \<open>
  C22.  The store of performance records has no way to free an entry, and \<open>wait\<close> skips a zombie it cannot
  record.  Once the records are full, a parent waiting for a finished child is put to sleep although
  the child is a zombie, and the zombie keeps its slot.
\<close>

theorem wait_stuck_when_records_full:
  assumes "running_on c cur s" "perf_full s" "i < NPROC" "p_parent (procs s ! i) = Some cur"
    and "p_state (procs s ! i) = ZOMBIE" "\<not> p_killed (procs s ! cur)" "i \<noteq> cur"
  shows "\<exists>t. wait c s = Sleep t \<and> p_state (procs t ! i) = ZOMBIE \<and> p_parent (procs t ! i) = Some cur \<and>
    p_state (procs t ! cur) = SLEEPING \<and> perf_full t"
proof -
  let ?z = "finalize_zombies cur [0..<NPROC] s"
  have "wait c s = Sleep (entered c Lk_ptable (updp cur (asleep (Ch_proc cur) (ticks s)) ?z))"
    using wait_full [OF assms(1,2)] assms(3,4,6) by (auto simp: Let_def)
  moreover have "perf_full ?z"
    using assms(2) by (simp add: perf_full_def)
  ultimately show ?thesis
    using assms(4,5,7) running_onD(3) [OF assms(1)]
    by (simp add: finalize_zombies_proc asleep_def)
qed

theorem wait_stuck_when_records_full_witness:
  "\<exists>t. wait 0 (demo [proc_in RUNNING 3 (Some 1), proc_in ZOMBIE 4 (Some 0)]
         (replicate 64 (blank_perf\<lparr>pd_valid := True\<rparr>))) = Sleep t \<and>
     p_state (procs t ! 1) = ZOMBIE"
proof -
  let ?s = "demo [proc_in RUNNING 3 (Some 1), proc_in ZOMBIE 4 (Some 0)]
    (replicate 64 (blank_perf\<lparr>pd_valid := True\<rparr>))"
  have "perf_full ?s" "1 < NPROC" "p_parent (procs ?s ! 1) = Some 0" "p_state (procs ?s ! 1) = ZOMBIE"
    "\<not> p_killed (procs ?s ! 0)" "(1 :: nat) \<noteq> 0"
    by (simp_all add: demo_def perf_full_def NPROC_def proc_in_def blank_proc_def)
  from wait_stuck_when_records_full [OF demo_running this] show ?thesis by blast
qed

subsection \<open>Lock order\<close>

text \<open>
  C21.  The timer interrupt calls \<open>wakeup\<close> with the tick lock held, so it takes the table lock second;
  \<open>allocproc\<close> takes the tick lock while it holds the table lock.  If the interrupt has taken the tick
  lock on one processor when another one calls \<open>allocproc\<close>, each spins on the lock the other holds.
\<close>

theorem allocproc_timer_deadlock:
  assumes "quiet c s" "quiet d s" "c \<noteq> d" "scan (\<lambda>p. p_state p = UNUSED) (procs s) = Some i"
  shows "\<exists>t u. allocproc c (entered d Lk_ticks s) = Spin Lk_ticks t \<and>
    wakeup d (Some Ch_ticks) t = Spin Lk_ptable u \<and>
    lk_cpu (locks u Lk_ticks) = Some d \<and> lk_cpu (locks u Lk_ptable) = Some c"
proof -
  let ?a = "entered d Lk_ticks s"
  let ?b = "updp i (\<lambda>p. p\<lparr>p_state := EMBRYO, p_pid := nextpid s, p_runticks := 0,
    p_tickets := DEFAULT_TICKETS\<rparr>) ?a"
  let ?e = "entered c Lk_ptable (?b\<lparr>nextpid := nextpid s + 1\<rparr>)"
  have cd: "c < length (cpus s)" "d < length (cpus s)" "cli_ok (cpus s ! c)" "cli_ok (cpus s ! d)"
      "distinct (map apicid (cpus s))"
    using assms(1,2) by (auto simp: quiet_def on_cpu_def)
  have on: "on_cpu c ?a"
    using cd assms(3) by (simp add: on_cpu_def entered_def distinct_apicid_upd)
  have one: "on_cpu c ?e"
    using on by (intro on_cpu_entered) (simp add: on_cpu_def)
  have "acquire c Lk_ptable ?a = Ret () (entered c Lk_ptable ?a)"
    using on assms(1) by (intro acquire_free) (simp_all add: entered_def quiet_def lock_clear_def)
  moreover have "acquire c Lk_ticks ?e =
      Spin Lk_ticks (upd_lock Lk_ticks (\<lambda>k. k\<lparr>lk_locked := 1\<rparr>) (upd_cpu c pushed ?e))" (is "_ = Spin _ ?t")
    using acquire_cases [OF one, of Lk_ticks] assms(3) by (simp add: holds_def entered_def)
  ultimately have 1: "allocproc c ?a = Spin Lk_ticks ?t"
    using assms(4) by (simp add: allocproc_def Let_def upd_under_entered)
  have "on_cpu d ?t"
    using cd assms(3) by (simp add: on_cpu_def entered_def distinct_apicid_upd)
  from acquire_cases [OF this, of Lk_ptable] have
    2: "wakeup d (Some Ch_ticks) ?t =
      Spin Lk_ptable (upd_lock Lk_ptable (\<lambda>k. k\<lparr>lk_locked := 1\<rparr>) (upd_cpu d pushed ?t))"
    using assms(3) by (simp add: wakeup_def holds_def entered_def)
  show ?thesis
    using 1 2 by (simp add: entered_def)
qed

theorem allocproc_timer_deadlock_witness:
  "\<exists>t u. allocproc 1 (entered 0 Lk_ticks (demo [] [])) = Spin Lk_ticks t \<and>
     wakeup 0 (Some Ch_ticks) t = Spin Lk_ptable u \<and>
     lk_cpu (locks u Lk_ticks) = Some 0 \<and> lk_cpu (locks u Lk_ptable) = Some 1"
proof -
  have "scan (\<lambda>p. p_state p = UNUSED) (procs (demo [] [])) = Some 0"
    by (simp add: scan_Some_iff demo_def blank_proc_def)
  then show ?thesis
    using allocproc_timer_deadlock [OF demo_quiet demo_quiet, of 1 0] by simp
qed

end
