(* ===== verification/Scheduler_Props.thy ===== *)
theory Scheduler_Props
  imports Scheduler Proc_Props "HOL-Library.Sublist"
begin

text \<open>
  The schedulers.  For the lottery: the draw always finds a process, each process wins for exactly as
  many tickets as it holds, and the 15-bit generator limits which tickets are drawn.  For the default
  build: a turn runs every process that was ready when the turn began.
\<close>

subsection \<open>The lottery draw\<close>

definition weight :: "proc \<Rightarrow> nat" where
  "weight p = (if p_state p = RUNNABLE then unat (p_tickets p) else 0)"

definition tickets_ok :: "proc list \<Rightarrow> bool" where
  "tickets_ok ps \<longleftrightarrow> (\<forall>p \<in> set ps. p_state p = RUNNABLE \<longrightarrow> 0 <s p_tickets p) \<and> sum_list (map weight ps) < 2 ^ 31"

text \<open>The tickets of the ready processes before slot \<open>i\<close>.\<close>

definition before :: "proc list \<Rightarrow> nat \<Rightarrow> nat" where
  "before ps i = sum_list (map weight (take i ps))"

lemma before_Suc: "before (p # ps) (Suc i) = weight p + before ps i"
  by (simp add: before_def)

lemma before_0 [simp]: "before ps 0 = 0"
  by (simp add: before_def)

lemma weight_le_total: "i < length ps \<Longrightarrow> before ps i + weight (ps ! i) \<le> sum_list (map weight ps)"
proof -
  assume "i < length ps"
  then have "ps = take i ps @ ps ! i # drop (Suc i) ps"
    by (simp add: id_take_nth_drop)
  then have "sum_list (map weight ps) = sum_list (map weight (take i ps @ ps ! i # drop (Suc i) ps))"
    by simp
  then show ?thesis by (simp only: before_def map_append list.map sum_list.append sum_list.Cons)
qed

lemma total_tickets_fold:
  "unat t0 + sum_list (map weight ps) < 2 ^ 32 \<Longrightarrow>
   unat (foldl (\<lambda>t p. if p_state p = RUNNABLE then t + p_tickets p else t) t0 ps) =
     unat t0 + sum_list (map weight ps)"
proof (induction ps arbitrary: t0)
  case (Cons p ps)
  then show ?case
    by (auto simp: weight_def unat_word_ariths)
qed simp

lemma total_tickets_eq:
  "sum_list (map weight ps) < 2 ^ 31 \<Longrightarrow> unat (total_tickets ps) = sum_list (map weight ps)"
  using total_tickets_fold [of 0 ps] by (simp add: total_tickets_def)

lemma lottery_winner_iff:
  assumes "\<forall>p \<in> set ps. p_state p = RUNNABLE \<longrightarrow> 0 <s p_tickets p"
    and "unat count + sum_list (map weight ps) < 2 ^ 31" "unat ticket < 2 ^ 31" "unat count \<le> unat ticket"
  shows "lottery_winner ticket count ps = Some i \<longleftrightarrow> i < length ps \<and> p_state (ps ! i) = RUNNABLE \<and>
    unat count + before ps i \<le> unat ticket \<and> unat ticket < unat count + before ps i + weight (ps ! i)"
  using assms
proof (induction ps arbitrary: count i)
  case (Cons p ps)
  show ?case
  proof (cases "p_state p = RUNNABLE")
    case False
    then show ?thesis
      using Cons.IH [of count "i - 1"] Cons.prems
      by (cases i) (auto simp: weight_def before_Suc)
  next
    case True
    have w: "weight p = unat (p_tickets p)" using True by (simp add: weight_def)
    have c: "unat (count + p_tickets p) = unat count + weight p"
      using Cons.prems(2) w by (simp add: unat_word_ariths)
    have lt: "ticket <s count + p_tickets p \<longleftrightarrow> unat ticket < unat count + weight p"
      using Cons.prems c by (subst sless_small) simp_all
    show ?thesis
    proof (cases "unat ticket < unat count + weight p")
      case t: True
      then show ?thesis
        using True lt Cons.prems(4) by (cases i) (auto simp: before_Suc)
    next
      case t: False
      then have "lottery_winner ticket (count + p_tickets p) ps = Some j \<longleftrightarrow>
          j < length ps \<and> p_state (ps ! j) = RUNNABLE \<and>
          unat count + weight p + before ps j \<le> unat ticket \<and>
          unat ticket < unat count + weight p + before ps j + weight (ps ! j)" for j
        using Cons.IH [of "count + p_tickets p" j] Cons.prems c by simp
      then show ?thesis
        using True lt t by (cases i) (auto simp: before_Suc add.assoc)
    qed
  qed
qed simp

lemma lottery_winner_exists:
  assumes "\<forall>p \<in> set ps. p_state p = RUNNABLE \<longrightarrow> 0 <s p_tickets p"
    and "unat count + sum_list (map weight ps) < 2 ^ 31" "unat ticket < unat count + sum_list (map weight ps)"
    and "unat count \<le> unat ticket"
  shows "lottery_winner ticket count ps \<noteq> None"
  using assms
proof (induction ps arbitrary: count)
  case (Cons p ps)
  show ?case
  proof (cases "p_state p = RUNNABLE")
    case False
    then show ?thesis using Cons by (simp add: weight_def)
  next
    case True
    have w: "weight p = unat (p_tickets p)" using True by (simp add: weight_def)
    have c: "unat (count + p_tickets p) = unat count + weight p"
      using Cons.prems(2) w by (simp add: unat_word_ariths)
    have lt: "ticket <s count + p_tickets p \<longleftrightarrow> unat ticket < unat count + weight p"
      using Cons.prems c by (subst sless_small) simp_all
    show ?thesis
      using True lt c Cons.IH [of "count + p_tickets p"] Cons.prems by (auto simp: not_less)
  qed
qed simp

lemma winner_from_zero:
  assumes "tickets_ok ps" "unat ticket < 2 ^ 31"
  shows "lottery_winner ticket 0 ps = Some i \<longleftrightarrow> i < length ps \<and> p_state (ps ! i) = RUNNABLE \<and>
    before ps i \<le> unat ticket \<and> unat ticket < before ps i + weight (ps ! i)"
  using lottery_winner_iff [of ps 0 ticket i] assms by (simp add: tickets_ok_def)

text \<open>
  C17.  The lottery is proportional: of the tickets \<open>0 \<dots> total - 1\<close> exactly as many select a ready process
  as it holds, provided tickets are positive and their sum fits an \<open>int\<close>.
\<close>

theorem lottery_proportional:
  assumes "tickets_ok ps" "i < length ps" "p_state (ps ! i) = RUNNABLE"
  shows "card {t. t < unat (total_tickets ps) \<and> lottery_winner (of_nat t) 0 ps = Some i} = unat (p_tickets (ps ! i))"
proof -
  have tot: "unat (total_tickets ps) = sum_list (map weight ps)" "sum_list (map weight ps) < 2 ^ 31"
    using assms(1) total_tickets_eq by (simp_all add: tickets_ok_def)
  have w: "weight (ps ! i) = unat (p_tickets (ps ! i))"
    using assms(3) by (simp add: weight_def)
  have "{t. t < unat (total_tickets ps) \<and> lottery_winner (of_nat t) 0 ps = Some i} =
      {before ps i ..< before ps i + weight (ps ! i)}"
  proof (intro set_eqI iffI)
    fix t assume t: "t \<in> {t. t < unat (total_tickets ps) \<and> lottery_winner (of_nat t) 0 ps = Some i}"
    then have "unat (of_nat t :: i32) = t"
      using tot by (simp add: unat_of_nat)
    with t show "t \<in> {before ps i ..< before ps i + weight (ps ! i)}"
      using winner_from_zero [OF assms(1), of "of_nat t" i] tot by simp
  next
    fix t assume t: "t \<in> {before ps i ..< before ps i + weight (ps ! i)}"
    then have lt: "t < sum_list (map weight ps)"
      using weight_le_total [OF assms(2)] by simp
    then have "unat (of_nat t :: i32) = t"
      using tot by (simp add: unat_of_nat)
    then show "t \<in> {t. t < unat (total_tickets ps) \<and> lottery_winner (of_nat t) 0 ps = Some i}"
      using winner_from_zero [OF assms(1), of "of_nat t" i] t lt tot assms(2,3) by simp
  qed
  then show ?thesis by (simp add: w)
qed

theorem lottery_proportional_witness:
  "let ps = [(proc_in RUNNABLE 1 None)\<lparr>p_tickets := 10\<rparr>, proc_in SLEEPING 2 None,
     (proc_in RUNNABLE 3 None)\<lparr>p_tickets := 30\<rparr>] in
   tickets_ok ps \<and>
   card {t. t < unat (total_tickets ps) \<and> lottery_winner (of_nat t) 0 ps = Some 2} = 30"
proof -
  let ?ps = "[(proc_in RUNNABLE 1 None)\<lparr>p_tickets := 10\<rparr>, proc_in SLEEPING 2 None,
     (proc_in RUNNABLE 3 None)\<lparr>p_tickets := 30\<rparr>]"
  have ok: "tickets_ok ?ps"
    by (simp add: tickets_ok_def weight_def proc_in_def word_sless_alt)
  show ?thesis
    using lottery_proportional [OF ok, of 2] ok unfolding Let_def by (simp add: proc_in_def)
qed

text \<open>
  With a positive total the draw always succeeds and always lands on a ready process: the random
  number lies in the range of the tickets, and the search stops inside the table.
\<close>

theorem lottery_draw_finds:
  assumes "tickets_ok ps" "0 <s total_tickets ps"
  shows "\<exists>r i. get_random 0 (total_tickets ps) seed = Some (r, next_seed seed) \<and>
    lottery_winner r 0 ps = Some i \<and> i < length ps \<and> p_state (ps ! i) = RUNNABLE"
proof -
  have tot: "unat (total_tickets ps) = sum_list (map weight ps)" "sum_list (map weight ps) < 2 ^ 31"
    using assms(1) total_tickets_eq by (simp_all add: tickets_ok_def)
  obtain r where r: "get_random 0 (total_tickets ps) seed = Some (r, next_seed seed)"
    "unat r < unat (total_tickets ps)"
    using get_random_zero [OF assms(2)] by blast
  obtain i where i: "lottery_winner r 0 ps = Some i"
    using lottery_winner_exists [of ps 0 r] assms(1) r(2) tot by (auto simp: tickets_ok_def)
  have "i < length ps" "p_state (ps ! i) = RUNNABLE"
    using winner_from_zero [OF assms(1), of r i] i r(2) tot by simp_all
  with r(1) i show ?thesis by blast
qed

theorem lottery_draw_finds_witness:
  "\<exists>r i. get_random 0 (total_tickets [(proc_in RUNNABLE 1 None)\<lparr>p_tickets := 10\<rparr>]) 1 = Some (r, next_seed 1) \<and>
     lottery_winner r 0 [(proc_in RUNNABLE 1 None)\<lparr>p_tickets := 10\<rparr>] = Some i"
proof -
  let ?ps = "[(proc_in RUNNABLE 1 None)\<lparr>p_tickets := 10\<rparr>]"
  have "tickets_ok ?ps" "0 <s total_tickets ?ps"
    by (simp_all add: tickets_ok_def weight_def total_tickets_def proc_in_def word_sless_alt)
  from lottery_draw_finds [OF this] show ?thesis by blast
qed

text \<open>
  C37.  The generator yields 15-bit numbers, so only the first 32768 tickets are ever drawn: a ready process
  whose tickets all lie beyond them is never chosen, whatever the seed.
\<close>

theorem lottery_starves_beyond_32768:
  assumes "tickets_ok ps" "0 <s total_tickets ps" "32768 \<le> before ps i"
  shows "\<exists>r. get_random 0 (total_tickets ps) seed = Some (r, next_seed seed) \<and> lottery_winner r 0 ps \<noteq> Some i"
proof -
  obtain r where r: "get_random 0 (total_tickets ps) seed = Some (r, next_seed seed)" "unat r \<le> 32767"
    using get_random_zero [OF assms(2)] by blast
  then show ?thesis
    using winner_from_zero [OF assms(1), of r i] assms(3) by auto
qed

theorem lottery_starves_beyond_32768_witness:
  "let ps = [(proc_in RUNNABLE 1 None)\<lparr>p_tickets := 32768\<rparr>, (proc_in RUNNABLE 2 None)\<lparr>p_tickets := 1000000\<rparr>] in
   \<exists>r. get_random 0 (total_tickets ps) 1 = Some (r, next_seed 1) \<and> lottery_winner r 0 ps \<noteq> Some 1"
proof -
  let ?ps = "[(proc_in RUNNABLE 1 None)\<lparr>p_tickets := 32768\<rparr>, (proc_in RUNNABLE 2 None)\<lparr>p_tickets := 1000000\<rparr>]"
  have "tickets_ok ?ps" "0 <s total_tickets ?ps" "32768 \<le> before ?ps 1"
    by (simp_all add: tickets_ok_def weight_def total_tickets_def proc_in_def word_sless_alt before_def)
  from lottery_starves_beyond_32768 [OF this] show ?thesis
    unfolding Let_def by blast
qed

subsection \<open>Processor registers under a lock\<close>

text \<open>Changes of the current process and of the address-space registers commute with locking.\<close>

definition soft :: "(cpu \<Rightarrow> cpu) \<Rightarrow> bool" where
  "soft f \<longleftrightarrow> (\<forall>k. pushed (f k) = f (pushed k) \<and> apicid (f k) = apicid k \<and> ncli (f k) = ncli k \<and>
     if_flag (f k) = if_flag k)"

lemma soft_upd [simp]:
  "soft (\<lambda>k. k\<lparr>cproc := x\<rparr>)" "soft (\<lambda>k. k\<lparr>cr3 := v\<rparr>)" "soft (\<lambda>k. k\<lparr>ts_esp0 := e, cr3 := v\<rparr>)"
  by (simp_all add: soft_def pushed_def)

lemma upd_cpu_entered:
  "soft f \<Longrightarrow> c < length (cpus s) \<Longrightarrow> upd_cpu c f (entered c l s) = entered c l (upd_cpu c f s)"
  by (simp add: soft_def entered_def upd_cpu_def upd_lock_def)

lemma quiet_upd_cpu: "soft f \<Longrightarrow> quiet c s \<Longrightarrow> quiet c (upd_cpu c f s)"
  by (auto simp: quiet_def soft_def on_cpu_def cli_ok_def lock_clear_def distinct_apicid_upd)

lemma quiet_len: "quiet c s \<Longrightarrow> c < length (cpus s)"
  by (simp add: quiet_def on_cpu_def)

lemma upd_cpu_pst [simp]:
  "procs (upd_cpu c f s) = procs s" "ticks (upd_cpu c f s) = ticks s"
  "last_completion_time (upd_cpu c f s) = last_completion_time s" "kpgdir (upd_cpu c f t) = kpgdir t"
  by (simp_all add: upd_cpu_def)

lemma switchuvm_entered:
  assumes q: "quiet c s" and m: "p_kstack (procs s ! p) \<noteq> 0" "p_pgdir (procs s ! p) \<noteq> 0"
  shows "switchuvm c (Some p) (entered c l s) = Ret () (entered c l (upd_cpu c
    (\<lambda>k. k\<lparr>ts_esp0 := p_kstack (procs s ! p) + KSTACKSIZE, cr3 := V2P (p_pgdir (procs s ! p))\<rparr>) s))"
proof -
  let ?e = "p_kstack (procs s ! p) + KSTACKSIZE" and ?v = "V2P (p_pgdir (procs s ! p))"
  let ?s = "entered c l s"
  let ?a = "upd_cpu c pushed ?s"
  let ?b = "upd_cpu c (\<lambda>k. k\<lparr>cr3 := ?v\<rparr>) (upd_cpu c (\<lambda>k. k\<lparr>ts_esp0 := ?e\<rparr>) ?a)"
  have on: "on_cpu c ?s" using q by (intro on_cpu_entered) (simp add: quiet_def)
  have c: "c < length (cpus s)" "0 \<le> ncli (cpus s ! c)"
    using q by (auto simp: quiet_def on_cpu_def cli_ok_def)
  have a: "c < length (cpus ?a)" "distinct (map apicid (cpus ?a))" "\<not> if_flag (cpus ?a ! c)"
    using on_cpu_pushed [OF on] c by (auto simp: on_cpu_def entered_def)
  have "popcli c ?b = Ret () (upd_cpu c popped ?b)"
    using a c by (intro popcli_eq) (auto simp: map_list_update_id entered_def)
  also have "upd_cpu c popped ?b = entered c l (upd_cpu c (\<lambda>k. k\<lparr>ts_esp0 := ?e, cr3 := ?v\<rparr>) s)"
  proof -
    have "popped ((pushed (pushed k))\<lparr>ts_esp0 := ?e, cr3 := ?v\<rparr>) = pushed (k\<lparr>ts_esp0 := ?e, cr3 := ?v\<rparr>)"
      if "0 \<le> ncli k" for k
      using that by (cases k) (simp add: popped_def pushed_def)
    with c show ?thesis
      by (simp add: entered_def upd_cpu_lock_comm) (rule upd_cpu_cong, simp)
  qed
  finally show ?thesis
    using m on mycpu_self [OF a] by (simp add: switchuvm_def pushcli_eq Let_def)
qed

subsection \<open>One dispatch of the default build\<close>

text \<open>A ready process has a kernel stack and an address space.\<close>

definition runnable_ok :: "'a pst_scheme \<Rightarrow> bool" where
  "runnable_ok s \<longleftrightarrow> (\<forall>p \<in> set (procs s). p_state p = RUNNABLE \<longrightarrow> p_kstack p \<noteq> 0 \<and> p_pgdir p \<noteq> 0)"

lemma default_enter_ok:
  assumes q: "quiet c s" and p: "p < length (procs s)" "p_state (procs s ! p) = RUNNABLE" and ok: "runnable_ok s"
  shows "\<exists>t q'. default_enter c p (entered c Lk_ptable s) = Ret (ticks s) (entered c Lk_ptable t) \<and> quiet c t \<and>
    curproc c t = Some p \<and> procs t = (procs s)[p := q'] \<and> p_state q' = RUNNING"
proof -
  let ?f = "\<lambda>k. k\<lparr>ts_esp0 := p_kstack (procs s ! p) + KSTACKSIZE, cr3 := V2P (p_pgdir (procs s ! p))\<rparr>"
  let ?s1 = "upd_cpu c (\<lambda>k. k\<lparr>cproc := Some p\<rparr>) s"
  let ?s2 = "upd_cpu c ?f ?s1"
  let ?s3 = "updp p (\<lambda>q. q\<lparr>p_state := RUNNING\<rparr>) ?s2"
  let ?s4 = "if p_start_time (procs ?s3 ! p) = 0 then updp p (\<lambda>q. q\<lparr>p_start_time := last_completion_time ?s3\<rparr>) ?s3 else ?s3"
  let ?s5 = "if 0 <s p_enqueue_time (procs ?s4 ! p) then updp p (charge_ready (ticks ?s4)) ?s4 else ?s4"
  have c: "c < length (cpus s)" by (rule quiet_len [OF q])
  have m: "p_kstack (procs ?s1 ! p) \<noteq> 0" "p_pgdir (procs ?s1 ! p) \<noteq> 0"
    using ok p by (auto simp: runnable_ok_def)
  have q2: "quiet c ?s1" "quiet c ?s2"
    using q by (simp_all add: quiet_upd_cpu)
  have "upd_cpu c (\<lambda>k. k\<lparr>cproc := Some p\<rparr>) (entered c Lk_ptable s) = entered c Lk_ptable ?s1"
    by (rule upd_cpu_entered [OF soft_upd(1) c])
  then have "default_enter c p (entered c Lk_ptable s) = Ret (ticks s) (entered c Lk_ptable ?s5)"
    using switchuvm_entered [OF q2(1) m, of Lk_ptable] q2(2)
    by (simp add: default_enter_def Let_def locking if_distrib [of procs] if_distrib [of ticks])
  moreover have "quiet c ?s5" "curproc c ?s5 = Some p"
    using q2(2) c by (simp_all add: curproc_def)
  moreover have "\<exists>q'. procs ?s5 = (procs s)[p := q'] \<and> p_state q' = RUNNING"
    using p(1) by (intro exI [of _ "procs ?s5 ! p"]) (simp add: charge_ready_def)
  ultimately show ?thesis by blast
qed

lemma default_leave_ok:
  assumes q: "quiet c s" and p: "p < length (procs s)"
  shows "\<exists>t q'. default_leave c p r (entered c Lk_ptable s) = Ret () (entered c Lk_ptable t) \<and> quiet c t \<and>
    procs t = (procs s)[p := q'] \<and> p_state q' = p_state (procs s ! p) \<and> p_kstack q' = p_kstack (procs s ! p) \<and>
    p_pgdir q' = p_pgdir (procs s ! p)"
proof -
  let ?s1 = "upd_cpu c (\<lambda>k. k\<lparr>cr3 := V2P (kpgdir s)\<rparr>) s"
  let ?s2 = "updp p (\<lambda>q. q\<lparr>p_total_run_time := p_total_run_time q + (ticks s - r)\<rparr>) ?s1"
  have c: "c < length (cpus s)" by (rule quiet_len [OF q])
  have kp: "kpgdir (entered c Lk_ptable s) = kpgdir s"
    by (simp add: entered_def upd_cpu_def upd_lock_def)
  have q2: "quiet c ?s2" using q by (simp add: quiet_upd_cpu)
  have sk: "switchkvm c (entered c Lk_ptable s) = entered c Lk_ptable ?s1"
    unfolding switchkvm_def kp by (rule upd_cpu_entered [OF soft_upd(2) c])
  let ?z = "updp p (\<lambda>q. q\<lparr>p_completion_time := ticks s\<rparr>) ?s2"
  let ?s3 = "if p_state (procs s ! p) = ZOMBIE \<or> p_state (procs s ! p) = UNUSED
    then ?z\<lparr>last_completion_time := ticks s\<rparr> else ?s2"
  have q3: "quiet c ?s3" using q2 by simp
  have c3: "c < length (cpus ?s3)" by (rule quiet_len [OF q3])
  have "default_leave c p r (entered c Lk_ptable s) =
      Ret () (upd_cpu c (\<lambda>k. k\<lparr>cproc := None\<rparr>) (entered c Lk_ptable ?s3))"
    using q2 p by (simp add: default_leave_def sk locking Let_def)
  also have "\<dots> = Ret () (entered c Lk_ptable (upd_cpu c (\<lambda>k. k\<lparr>cproc := None\<rparr>) ?s3))"
    by (simp only: upd_cpu_entered [OF soft_upd(1) c3])
  finally have "default_leave c p r (entered c Lk_ptable s) =
      Ret () (entered c Lk_ptable (upd_cpu c (\<lambda>k. k\<lparr>cproc := None\<rparr>) ?s3))" .
  moreover have "quiet c (upd_cpu c (\<lambda>k. k\<lparr>cproc := None\<rparr>) ?s3)"
    by (rule quiet_upd_cpu [OF soft_upd(1) q3])
  moreover have "procs (upd_cpu c (\<lambda>k. k\<lparr>cproc := None\<rparr>) ?s3) = procs ?s3"
    by (rule upd_cpu_pst(1))
  ultimately obtain t where t: "default_leave c p r (entered c Lk_ptable s) = Ret () (entered c Lk_ptable t)"
      "quiet c t" "procs t = procs ?s3"
    by blast
  have "procs ?s3 = (procs s)[p := procs ?s3 ! p]" "p_state (procs ?s3 ! p) = p_state (procs s ! p)"
      "p_kstack (procs ?s3 ! p) = p_kstack (procs s ! p)" "p_pgdir (procs ?s3 ! p) = p_pgdir (procs s ! p)"
    using p by simp_all
  note q' = this
  show ?thesis
    by (rule exI [of _ t], rule exI [of _ "procs ?s3 ! p"], intro conjI) (fact t q' trans [OF t(3) q'(1)])+
qed

subsection \<open>A turn of the default build\<close>

text \<open>
  What the scheduler relies on of the process it switches to: it comes back with the table lock held
  as it found it, and until then no ready process is taken by another processor or loses its memory.
\<close>

definition comes_back :: "nat \<Rightarrow> (nat \<Rightarrow> 'a pst_scheme \<Rightarrow> 'a pst_scheme) \<Rightarrow> bool" where
  "comes_back c run \<longleftrightarrow> (\<forall>p s. quiet c s \<and> curproc c s = Some p \<and> p < length (procs s) \<and> runnable_ok s \<longrightarrow>
     (\<exists>t. run p (entered c Lk_ptable s) = entered c Lk_ptable t \<and> quiet c t \<and> runnable_ok t \<and>
        length (procs t) = length (procs s) \<and>
        (\<forall>j < length (procs s). j \<noteq> p \<and> p_state (procs s ! j) = RUNNABLE \<longrightarrow> p_state (procs t ! j) = RUNNABLE)))"

lemma runnable_ok_update:
  assumes "runnable_ok s" "procs t = (procs s)[p := q']" "p < length (procs s)"
    and "p_state q' = RUNNABLE \<longrightarrow> p_kstack q' \<noteq> 0 \<and> p_pgdir q' \<noteq> 0"
  shows "runnable_ok t"
  using assms by (auto simp: runnable_ok_def dest!: set_update_subset_insert [THEN subsetD])

lemma dispatch_ok:
  assumes run: "comes_back c run" and q: "quiet c s" and ok: "runnable_ok s"
    and p: "p < length (procs s)" "p_state (procs s ! p) = RUNNABLE"
  shows "\<exists>r s1 t. default_enter c p (entered c Lk_ptable s) = Ret r s1 \<and>
    default_leave c p r (run p s1) = Ret () (entered c Lk_ptable t) \<and> quiet c t \<and> runnable_ok t \<and>
    length (procs t) = length (procs s) \<and>
    (\<forall>j < length (procs s). j \<noteq> p \<and> p_state (procs s ! j) = RUNNABLE \<longrightarrow> p_state (procs t ! j) = RUNNABLE)"
proof -
  obtain a qa where a: "default_enter c p (entered c Lk_ptable s) = Ret (ticks s) (entered c Lk_ptable a)"
    "quiet c a" "curproc c a = Some p" "procs a = (procs s)[p := qa]" "p_state qa = RUNNING"
    using default_enter_ok [OF q p ok] by blast
  have oka: "runnable_ok a"
    by (rule runnable_ok_update [OF ok a(4) p(1)]) (simp add: a(5))
  have len: "length (procs a) = length (procs s)" by (simp add: a(4))
  obtain b where b: "run p (entered c Lk_ptable a) = entered c Lk_ptable b" "quiet c b" "runnable_ok b"
    "length (procs b) = length (procs s)"
    "\<forall>j < length (procs s). j \<noteq> p \<and> p_state (procs a ! j) = RUNNABLE \<longrightarrow> p_state (procs b ! j) = RUNNABLE"
    using run [unfolded comes_back_def, THEN spec, THEN spec, THEN mp, of a p] a(2,3) oka p(1) len by auto
  have pb: "p < length (procs b)" using p(1) b(4) by simp
  obtain t qt where t: "default_leave c p (ticks s) (entered c Lk_ptable b) = Ret () (entered c Lk_ptable t)"
    "quiet c t" "procs t = (procs b)[p := qt]" "p_state qt = p_state (procs b ! p)"
    "p_kstack qt = p_kstack (procs b ! p)" "p_pgdir qt = p_pgdir (procs b ! p)"
    using default_leave_ok [OF b(2) pb, of "ticks s"] by blast
  have "p_state qt = RUNNABLE \<longrightarrow> p_kstack qt \<noteq> 0 \<and> p_pgdir qt \<noteq> 0"
    using b(3) pb t(4-6) by (simp add: runnable_ok_def)
  then have "runnable_ok t"
    by (rule runnable_ok_update [OF b(3) t(3) pb])
  moreover have "p_state (procs t ! j) = RUNNABLE"
    if "j < length (procs s)" "j \<noteq> p" "p_state (procs s ! j) = RUNNABLE" for j
    using that b(5) by (simp add: t(3) a(4))
  ultimately show ?thesis
    using a(1) b(1,4) t(1-3) by (intro exI [of _ "ticks s"] exI [of _ "entered c Lk_ptable a"] exI [of _ t]) simp
qed

lemma default_pass_ok:
  "comes_back c run \<Longrightarrow> quiet c s \<Longrightarrow> runnable_ok s \<Longrightarrow> \<forall>i \<in> set is. i < length (procs s) \<Longrightarrow> distinct is \<Longrightarrow>
   \<exists>chosen t. default_pass run c is (entered c Lk_ptable s) = Ret chosen (entered c Lk_ptable t) \<and>
     quiet c t \<and> subseq chosen is \<and> (\<forall>i \<in> set is. p_state (procs s ! i) = RUNNABLE \<longrightarrow> i \<in> set chosen)"
proof (induction "is" arbitrary: s)
  case Nil
  then show ?case by auto
next
  case (Cons p "is")
  show ?case
  proof (cases "p_state (procs s ! p) = RUNNABLE")
    case False
    obtain chosen t where "default_pass run c is (entered c Lk_ptable s) = Ret chosen (entered c Lk_ptable t)"
      "quiet c t" "subseq chosen is" "\<forall>i \<in> set is. p_state (procs s ! i) = RUNNABLE \<longrightarrow> i \<in> set chosen"
      using Cons.IH [OF Cons.prems(1-3)] Cons.prems(4,5) by auto
    with False show ?thesis
      by (intro exI [of _ chosen] exI [of _ t]) (auto intro: subseq_Cons')
  next
    case True
    obtain r s1 t where t: "default_enter c p (entered c Lk_ptable s) = Ret r s1"
      "default_leave c p r (run p s1) = Ret () (entered c Lk_ptable t)" "quiet c t" "runnable_ok t"
      "length (procs t) = length (procs s)"
      "\<forall>j < length (procs s). j \<noteq> p \<and> p_state (procs s ! j) = RUNNABLE \<longrightarrow> p_state (procs t ! j) = RUNNABLE"
      using dispatch_ok [OF Cons.prems(1-3) _ True] Cons.prems(4) by auto
    obtain chosen u where u: "default_pass run c is (entered c Lk_ptable t) = Ret chosen (entered c Lk_ptable u)"
      "quiet c u" "subseq chosen is" "\<forall>i \<in> set is. p_state (procs t ! i) = RUNNABLE \<longrightarrow> i \<in> set chosen"
      using Cons.IH [OF Cons.prems(1) t(3,4)] Cons.prems(4,5) t(5) by auto
    have "\<forall>i \<in> set (p # is). p_state (procs s ! i) = RUNNABLE \<longrightarrow> i \<in> set (p # chosen)"
      using u(4) t(6) Cons.prems(4,5) by auto
    then show ?thesis
      using True t(1,2) u(1-3) by (intro exI [of _ "p # chosen"] exI [of _ u]) simp
  qed
qed


text \<open>A process that goes to sleep as soon as it runs.\<close>

lemma sleeper_comes_back: "comes_back c (\<lambda>p. updp p (\<lambda>q. q\<lparr>p_state := SLEEPING\<rparr>))"
  unfolding comes_back_def
proof (intro allI impI)
  fix p and s :: "'a pst_scheme"
  assume a: "quiet c s \<and> curproc c s = Some p \<and> p < length (procs s) \<and> runnable_ok s"
  let ?t = "updp p (\<lambda>q. q\<lparr>p_state := SLEEPING\<rparr>) s"
  have "runnable_ok ?t"
    using a by (intro runnable_ok_update [of s ?t p "(procs s ! p)\<lparr>p_state := SLEEPING\<rparr>"]) simp_all
  then show "\<exists>t. updp p (\<lambda>q. q\<lparr>p_state := SLEEPING\<rparr>) (entered c Lk_ptable s) = entered c Lk_ptable t \<and>
      quiet c t \<and> runnable_ok t \<and> length (procs t) = length (procs s) \<and>
      (\<forall>j < length (procs s). j \<noteq> p \<and> p_state (procs s ! j) = RUNNABLE \<longrightarrow> p_state (procs t ! j) = RUNNABLE)"
    using a by (intro exI [of _ ?t]) (simp add: upd_under_entered)
qed


end
