(* ===== verification/Grep.thy ===== *)
theory Grep
  imports Prelude
begin

text \<open>
  The user program \<open>grep\<close> (src/grep.c).  A C string is the list of its characters before the NUL, and
  a pointer into a string is the suffix it points to, so that \<open>re[0] == '\0'\<close> is \<open>re = []\<close>.  The
  matcher is shown equivalent to a declarative reading of patterns, and the line loop to selecting
  the matching lines of the input, however the reads cut it into pieces.
\<close>

subsection \<open>The matcher\<close>

function (sequential) matchhere :: "string \<Rightarrow> string \<Rightarrow> bool"
  and matchstar :: "char \<Rightarrow> string \<Rightarrow> string \<Rightarrow> bool" where
  "matchhere re text =
     (case re of
        [] \<Rightarrow> True
      | r0 # re1 \<Rightarrow>
          if re1 \<noteq> [] \<and> hd re1 = CHR ''*'' then matchstar r0 (tl re1) text
          else if r0 = CHR ''$'' \<and> re1 = [] then text = []
          else (case text of
                  [] \<Rightarrow> False
                | t # ts \<Rightarrow> if r0 = CHR ''.'' \<or> r0 = t then matchhere re1 ts else False))"
| "matchstar c re text =
     (if matchhere re text then True
      else (case text of
              [] \<Rightarrow> False
            | t # ts \<Rightarrow> if t = c \<or> c = CHR ''.'' then matchstar c re ts else False))"
  by pat_completeness auto
termination
  by (relation "measures [\<lambda>x. case x of Inl (re, text) \<Rightarrow> 2 * length re | Inr (c, re, text) \<Rightarrow> 2 * length re + 1,
      \<lambda>x. case x of Inl (re, text) \<Rightarrow> length text | Inr (c, re, text) \<Rightarrow> length text]") auto

declare matchhere.simps [simp del] matchstar.simps [simp del]

fun match_from :: "string \<Rightarrow> string \<Rightarrow> bool" where
  "match_from re text =
     (if matchhere re text then True
      else (case text of [] \<Rightarrow> False | t # ts \<Rightarrow> match_from re ts))"

declare match_from.simps [simp del]

definition match :: "string \<Rightarrow> string \<Rightarrow> bool" where
  "match re text =
     (case re of
        c # re' \<Rightarrow> if c = CHR ''^'' then matchhere re' text else match_from re text
      | [] \<Rightarrow> match_from re text)"

subsection \<open>The line loop\<close>

text \<open>
  \<open>grep_lines\<close> is the inner loop: it writes the matching lines of the buffer and returns what is left
  behind the last newline, with a flag for \<open>p == buf\<close>.  \<open>strchr\<close> stops at a NUL.
\<close>

definition find_newline :: "string \<Rightarrow> nat option" where
  "find_newline b = scan (\<lambda>c. c = CHR 0x0A) (takeWhile (\<lambda>c. c \<noteq> CHR 0x00) b)"

lemma find_newline_less: "find_newline b = Some i \<Longrightarrow> i < length b"
  using length_takeWhile_le [of "\<lambda>c. c \<noteq> CHR 0x00" b]
  by (auto simp: find_newline_def scan_Some_iff)

function grep_lines :: "string \<Rightarrow> bool \<Rightarrow> string \<Rightarrow> string \<times> bool \<times> string" where
  "grep_lines pattern first p =
     (case find_newline p of
        None \<Rightarrow> ([], first, p)
      | Some q \<Rightarrow>
          let (out, f, rest) = grep_lines pattern False (drop (Suc q) p) in
          (if match pattern (take q p) then take (Suc q) p @ out else out, f, rest))"
  by pat_completeness auto
termination
  by (relation "measure (\<lambda>(pattern, first, p). length p)") (auto dest: find_newline_less)

declare grep_lines.simps [simp del]

text \<open>
  The outer loop.  \<open>rd\<close> is the system call \<open>read\<close>: the number of bytes it delivers for a request of
  the given size when the given input is left; the call delivers nothing only at the end of the
  input.  \<open>b\<close> is the part of the buffer in use.
\<close>

definition read_ok :: "(nat \<Rightarrow> string \<Rightarrow> nat) \<Rightarrow> bool" where
  "read_ok rd \<longleftrightarrow> (\<forall>n inp. rd n inp \<le> n \<and> rd n inp \<le> length inp \<and> (0 < n \<and> inp \<noteq> [] \<longrightarrow> 0 < rd n inp))"

definition bufsize :: nat where "bufsize = 1024"

function grep_loop :: "(nat \<Rightarrow> string \<Rightarrow> nat) \<Rightarrow> string \<Rightarrow> string \<Rightarrow> string \<Rightarrow> string" where
  "grep_loop rd pattern b inp =
     (let n = min (rd (bufsize - length b - 1) inp) (length inp) in
      if n = 0 then []
      else
        let b = b @ take n inp; (out, at_start, rest) = grep_lines pattern True b in
        out @ grep_loop rd pattern (if at_start then [] else rest) (drop n inp))"
  by pat_completeness auto
termination
  by (relation "measure (\<lambda>(rd, pattern, b, inp). length inp)") auto

declare grep_loop.simps [simp del]

definition grep :: "(nat \<Rightarrow> string \<Rightarrow> nat) \<Rightarrow> string \<Rightarrow> string \<Rightarrow> string" where
  "grep rd pattern inp = grep_loop rd pattern [] inp"

subsection \<open>What a pattern means\<close>

datatype item = One char | Many char

definition fits :: "char \<Rightarrow> char \<Rightarrow> bool" where
  "fits c t \<longleftrightarrow> c = CHR ''.'' \<or> c = t"

text \<open>A pattern is a list of items, anchored at the end of the line or not.\<close>

fun items :: "string \<Rightarrow> item list \<times> bool" where
  "items [] = ([], False)"
| "items [c] = (if c = CHR ''$'' then ([], True) else ([One c], False))"
| "items (c # d # re) =
     (if d = CHR ''*'' then let (is, e) = items re in (Many c # is, e)
      else let (is, e) = items (d # re) in (One c # is, e))"

fun words_of :: "item list \<Rightarrow> string \<Rightarrow> bool" where
  "words_of [] u \<longleftrightarrow> u = []"
| "words_of (One c # is) u \<longleftrightarrow> (\<exists>t v. u = t # v \<and> fits c t \<and> words_of is v)"
| "words_of (Many c # is) u \<longleftrightarrow> (\<exists>v w. u = v @ w \<and> (\<forall>t \<in> set v. fits c t) \<and> words_of is w)"

definition matches_prefix :: "string \<Rightarrow> string \<Rightarrow> bool" where
  "matches_prefix re text \<longleftrightarrow> (\<exists>u v. text = u @ v \<and> words_of (fst (items re)) u \<and> (snd (items re) \<longrightarrow> v = []))"

lemma matches_prefix_Nil: "matches_prefix [] text"
  by (simp add: matches_prefix_def)

lemma matches_prefix_End: "matches_prefix [CHR ''$''] text \<longleftrightarrow> text = []"
  by (simp add: matches_prefix_def)

lemma items_step:
  "re1 = [] \<or> hd re1 \<noteq> CHR ''*'' \<Longrightarrow> \<not> (r = CHR ''$'' \<and> re1 = []) \<Longrightarrow>
   items (r # re1) = (One r # fst (items re1), snd (items re1))"
  by (cases re1) (auto simp: split_def Let_def)

lemma items_star: "items (c # CHR ''*'' # re) = (Many c # fst (items re), snd (items re))"
  by (simp add: split_def Let_def)

lemma matches_prefix_One:
  assumes "re1 = [] \<or> hd re1 \<noteq> CHR ''*''" "\<not> (r = CHR ''$'' \<and> re1 = [])"
  shows "matches_prefix (r # re1) text \<longleftrightarrow> (\<exists>t ts. text = t # ts \<and> fits r t \<and> matches_prefix re1 ts)"
  unfolding matches_prefix_def items_step [OF assms] by (auto simp: Cons_eq_append_conv) blast+

lemma matches_prefix_run:
  "matches_prefix (c # CHR ''*'' # re) text \<longleftrightarrow>
   (\<exists>v w. text = v @ w \<and> (\<forall>t \<in> set v. fits c t) \<and> matches_prefix re w)"
  (is "?L \<longleftrightarrow> ?R")
proof
  assume ?L
  then obtain v w y where *: "text = (v @ w) @ y" "\<forall>t \<in> set v. fits c t" "words_of (fst (items re)) w"
      "snd (items re) \<longrightarrow> y = []"
    unfolding matches_prefix_def items_star fst_conv snd_conv words_of.simps by blast
  then have "matches_prefix re (w @ y)" unfolding matches_prefix_def by blast
  then show ?R using * by (intro exI [of _ v] exI [of _ "w @ y"]) simp
next
  assume ?R
  then obtain v w y where *: "text = v @ w @ y" "\<forall>t \<in> set v. fits c t" "words_of (fst (items re)) w"
      "snd (items re) \<longrightarrow> y = []"
    unfolding matches_prefix_def by blast
  then have "words_of (Many c # fst (items re)) (v @ w)" unfolding words_of.simps by blast
  then show ?L
    unfolding matches_prefix_def items_star fst_conv snd_conv using * by (intro exI [of _ "v @ w"] exI [of _ y]) simp
qed

lemma matches_prefix_Many:
  "matches_prefix (c # CHR ''*'' # re) text \<longleftrightarrow>
   matches_prefix re text \<or> (\<exists>t ts. text = t # ts \<and> fits c t \<and> matches_prefix (c # CHR ''*'' # re) ts)"
  (is "?L \<longleftrightarrow> ?R")
proof
  assume ?L
  then obtain v w where "text = v @ w" "\<forall>t \<in> set v. fits c t" "matches_prefix re w"
    by (auto simp: matches_prefix_run)
  then show ?R
    by (cases v) (auto simp: matches_prefix_run)
next
  assume ?R
  then show ?L
    by (auto simp: matches_prefix_run intro: exI [of _ "[]"]) (metis append_Cons set_ConsD)
qed

lemma matcher_prefix:
  "matchhere re text \<longleftrightarrow> matches_prefix re text"
  "matchstar c re text \<longleftrightarrow> matches_prefix (c # CHR ''*'' # re) text"
proof (induction re "text" and c re "text" rule: matchhere_matchstar.induct)
  case (1 re "text")
  show ?case
  proof (cases re)
    case Nil
    then show ?thesis by (subst matchhere.simps) (simp add: matches_prefix_Nil)
  next
    case (Cons r re1)
    consider "re1 \<noteq> [] \<and> hd re1 = CHR ''*''"
      | "re1 = [] \<and> r = CHR ''$''"
      | "re1 = [] \<or> hd re1 \<noteq> CHR ''*''" "\<not> (r = CHR ''$'' \<and> re1 = [])"
      by blast
    then show ?thesis
    proof cases
      case 1
      then have "re = r # CHR ''*'' # tl re1" using Cons by (cases re1) auto
      then show ?thesis using 1 Cons "1.IH"(1) [OF Cons] by (subst matchhere.simps) simp
    next
      case 2
      then show ?thesis using Cons by (subst matchhere.simps) (simp add: matches_prefix_End)
    next
      case 3
      then show ?thesis
        using Cons "1.IH"(2) [OF Cons]
        by (subst matchhere.simps) (auto simp: matches_prefix_One fits_def split: list.split)
    qed
  qed
next
  case (2 c re "text")
  then show ?case
    by (subst matches_prefix_Many)
      (auto simp: matchstar.simps [of c re "text"] fits_def split: list.split)
qed

lemma match_from_suffix: "match_from re text \<longleftrightarrow> (\<exists>u v. text = u @ v \<and> matches_prefix re v)"
proof (induction re "text" rule: match_from.induct)
  case (1 re "text")
  then show ?case
    by (subst match_from.simps)
      (cases "text", auto simp: matcher_prefix Cons_eq_append_conv)
qed

text \<open>
  C14. The recursive matcher \<open>match\<close> terminates and decides exactly the patterns' meaning: with
  \<open>words_of\<close> the words of the item list (a character, \<open>.\<close> for any, \<open>c*\<close> for a run), the line matches iff
  it contains a word of the pattern, at its beginning if the pattern starts with \<open>^\<close> and up to its
  end if it ends with \<open>$\<close>.
\<close>

theorem match_correct:
  "match re text \<longleftrightarrow>
     (let anchored = (re \<noteq> [] \<and> hd re = CHR ''^'');
          (is, at_end) = items (if anchored then tl re else re) in
      \<exists>a u b. text = a @ u @ b \<and> words_of is u \<and> (anchored \<longrightarrow> a = []) \<and> (at_end \<longrightarrow> b = []))"
  by (auto simp: match_def Let_def split_def matcher_prefix match_from_suffix matches_prefix_def split: list.split)

theorem match_correct_witness:
  "match ''^ab*c$'' ''abbbc'' \<and> \<not> match ''b*d'' ''abc'' \<and>
   (\<exists>a u b. ''abbbc'' = a @ u @ b \<and> words_of [One (CHR ''a''), Many (CHR ''b''), One (CHR ''c'')] u \<and> a = [] \<and> b = [])"
proof -
  have m: "match ''^ab*c$'' ''abbbc''" "\<not> match ''b*d'' ''abc''"
    by code_simp+
  show ?thesis
    using m match_correct [of "''^ab*c$''" "''abbbc''"] by (simp del: words_of.simps)
qed

subsection \<open>The lines of a file\<close>

text \<open>\<open>cut_lines cur inp\<close> reads the input with the beginning \<open>cur\<close> of a line at hand: the complete lines
  without their newline, and the unfinished rest.\<close>

fun cut_lines :: "string \<Rightarrow> string \<Rightarrow> string list \<times> string" where
  "cut_lines cur [] = ([], cur)"
| "cut_lines cur (c # cs) =
     (if c = CHR 0x0A then let (ls, r) = cut_lines [] cs in (cur # ls, r) else cut_lines (cur @ [c]) cs)"

definition selected :: "string \<Rightarrow> string list \<Rightarrow> string" where
  "selected pattern ls = concat (map (\<lambda>l. l @ [CHR 0x0A]) (filter (match pattern) ls))"

lemma selected_simps [simp]:
  "selected pattern [] = []"
  "selected pattern (l # ls) = (if match pattern l then l @ CHR 0x0A # selected pattern ls else selected pattern ls)"
  "selected pattern (ks @ ls) = selected pattern ks @ selected pattern ls"
  by (simp_all add: selected_def)

lemma cut_lines_append:
  "cut_lines cur (a @ b) = (fst (cut_lines cur a) @ fst (cut_lines (snd (cut_lines cur a)) b), snd (cut_lines (snd (cut_lines cur a)) b))"
  by (induction cur a rule: cut_lines.induct) (auto simp: Let_def split_def)

lemma cut_lines_no_newline: "CHR 0x0A \<notin> set a \<Longrightarrow> cut_lines cur a = ([], cur @ a)"
  by (induction a arbitrary: cur) auto

lemma cut_lines_rest: "CHR 0x0A \<notin> set cur \<Longrightarrow> CHR 0x0A \<notin> set (snd (cut_lines cur a))"
  by (induction cur a rule: cut_lines.induct) (auto simp: Let_def split_def)

lemma cut_lines_rest_length: "length (snd (cut_lines cur a)) \<le> length cur + length a"
  by (induction cur a rule: cut_lines.induct) (auto simp: Let_def split_def)

lemma cut_lines_rest_set: "x \<in> set (snd (cut_lines cur a)) \<Longrightarrow> x \<in> set cur \<or> x \<in> set a"
  by (induction cur a rule: cut_lines.induct) (auto simp: Let_def split_def split: if_splits)

lemma cut_lines_first_line: "CHR 0x0A \<in> set a \<Longrightarrow> fst (cut_lines cur a) \<noteq> []"
  by (induction a arbitrary: cur) (auto simp: Let_def split_def)

lemma cut_lines_first_length:
  "CHR 0x0A \<notin> set a \<Longrightarrow> fst (cut_lines cur (a @ b)) = l # ls \<Longrightarrow> length cur + length a \<le> length l"
proof (induction a arbitrary: cur)
  case Nil
  then show ?case
  proof (induction b arbitrary: cur)
    case (Cons c b)
    then show ?case by (auto simp: Let_def split_def split: if_splits) (metis Suc_leD length_append_singleton)
  qed simp
qed force

lemma cut_lines_takes:
  assumes "CHR 0x0A \<in> set p"
  shows "cut_lines [] p = (takeWhile (\<lambda>c. c \<noteq> CHR 0x0A) p # fst (cut_lines [] (tl (dropWhile (\<lambda>c. c \<noteq> CHR 0x0A) p))),
    snd (cut_lines [] (tl (dropWhile (\<lambda>c. c \<noteq> CHR 0x0A) p))))"
proof -
  let ?l = "takeWhile (\<lambda>c. c \<noteq> CHR 0x0A) p" and ?d = "dropWhile (\<lambda>c. c \<noteq> CHR 0x0A) p"
  obtain t where d: "?d = CHR 0x0A # t"
    using assms hd_dropWhile [of "\<lambda>c. c \<noteq> CHR 0x0A" p] by (cases ?d) (auto simp: dropWhile_eq_Nil_conv)
  have "CHR 0x0A \<notin> set ?l" by (auto dest: set_takeWhileD)
  then have "cut_lines [] (?l @ ?d) = (?l # fst (cut_lines [] t), snd (cut_lines [] t))"
    by (subst cut_lines_append) (simp add: cut_lines_no_newline d Let_def split_def)
  then show ?thesis unfolding takeWhile_dropWhile_id by (simp add: d)
qed

lemma find_newline_plain:
  assumes "CHR 0x00 \<notin> set p"
  shows "find_newline p = (if CHR 0x0A \<in> set p then Some (length (takeWhile (\<lambda>c. c \<noteq> CHR 0x0A) p)) else None)"
proof -
  have "takeWhile (\<lambda>c. c \<noteq> CHR 0x00) p = p" using assms by (auto simp: takeWhile_eq_all_conv)
  moreover have "scan (\<lambda>c. c = CHR 0x0A) p =
      (if CHR 0x0A \<in> set p then Some (length (takeWhile (\<lambda>c. c \<noteq> CHR 0x0A) p)) else None)"
    by (induction p) auto
  ultimately show ?thesis by (simp only: find_newline_def)
qed

lemma grep_lines_eq:
  "CHR 0x00 \<notin> set p \<Longrightarrow>
   grep_lines pattern first p = (selected pattern (fst (cut_lines [] p)), first \<and> CHR 0x0A \<notin> set p, snd (cut_lines [] p))"
proof (induction pattern first p rule: grep_lines.induct)
  case (1 pattern first p)
  let ?l = "takeWhile (\<lambda>c. c \<noteq> CHR 0x0A) p" and ?d = "dropWhile (\<lambda>c. c \<noteq> CHR 0x0A) p"
  show ?case
  proof (cases "CHR 0x0A \<in> set p")
    case False
    then show ?thesis using 1(2)
      by (subst grep_lines.simps) (simp add: find_newline_plain cut_lines_no_newline)
  next
    case True
    have f: "find_newline p = Some (length ?l)" using True 1(2) by (simp add: find_newline_plain)
    have d: "drop (Suc (length ?l)) p = tl ?d"
      by (metis drop_Suc drop_tl dropWhile_eq_drop)
    have t: "take (Suc (length ?l)) p = ?l @ [CHR 0x0A]"
    proof -
      have "length ?l < length p" by (rule find_newline_less [OF f])
      moreover have "p ! length ?l = CHR 0x0A" using nth_length_takeWhile [OF calculation] by simp
      ultimately show ?thesis by (metis take_Suc_conv_app_nth takeWhile_eq_take)
    qed
    have "CHR 0x00 \<notin> set (tl ?d)" using 1(2) d by (metis in_set_dropD)
    from 1(1) [OF f, unfolded d, OF this] have
      "grep_lines pattern False (tl ?d) = (selected pattern (fst (cut_lines [] (tl ?d))), False, snd (cut_lines [] (tl ?d)))" by simp
    then show ?thesis using True
      by (subst grep_lines.simps) (simp add: f d t cut_lines_takes [OF True] flip: takeWhile_eq_take)
  qed
qed

text \<open>Reading a regular file delivers all that is asked for and left.\<close>

definition file_read :: "nat \<Rightarrow> string \<Rightarrow> nat" where
  "file_read n inp = min n (length inp)"

lemma file_read_ok: "read_ok file_read"
  by (auto simp: read_ok_def file_read_def)

lemma cut_lines_rest_shorter:
  "CHR 0x0A \<in> set a \<Longrightarrow> length (snd (cut_lines cur a)) < length cur + length a"
proof (induction a arbitrary: cur)
  case (Cons c a)
  then show ?case
    using cut_lines_rest_length [of "[]" a] Cons.IH [of "cur @ [c]"] by (auto simp: Let_def split_def)
qed simp

lemma cut_lines_resume:
  "fst (cut_lines [] (p @ q)) = fst (cut_lines [] p) @ fst (cut_lines [] (snd (cut_lines [] p) @ q))"
proof -
  have "CHR 0x0A \<notin> set (snd (cut_lines [] p))" by (simp add: cut_lines_rest)
  then have "cut_lines [] (snd (cut_lines [] p) @ q) = cut_lines (snd (cut_lines [] p)) q"
    by (simp add: cut_lines_append cut_lines_no_newline)
  then show ?thesis by (simp add: cut_lines_append)
qed

lemma cut_lines_none: "fst (cut_lines cur a) = [] \<longleftrightarrow> CHR 0x0A \<notin> set a"
  using cut_lines_first_line [of a cur] cut_lines_no_newline [of a cur] by auto

lemma grep_loop_file:
  assumes "CHR 0x0A \<notin> set b" "CHR 0x00 \<notin> set (b @ inp)" "length b \<le> 1022"
    "\<forall>l \<in> set (fst (cut_lines [] (b @ inp))). length l \<le> 1022"
  shows "grep_loop file_read pattern b inp = selected pattern (fst (cut_lines [] (b @ inp)))"
  using assms
proof (induction "length inp" arbitrary: b inp rule: less_induct)
  case less
  define n where "n = min (file_read (bufsize - length b - 1) inp) (length inp)"
  define b' where "b' = b @ take n inp"
  define inp' where "inp' = drop n inp"
  have bi: "b @ inp = b' @ inp'" by (simp add: b'_def inp'_def)
  have plain: "CHR 0x00 \<notin> set b'" "CHR 0x00 \<notin> set inp'" using less.prems(2) unfolding bi by auto
  show ?case
  proof (cases "n = 0")
    case True
    then have "inp = []" using less.prems(3) by (auto simp: n_def file_read_def bufsize_def min_def split: if_splits)
    then show ?thesis using less.prems(1)
      by (subst grep_loop.simps) (simp add: cut_lines_no_newline)
  next
    case False
    have len: "length b' \<le> 1023" "inp' \<noteq> [] \<Longrightarrow> length b' = 1023" and short: "length inp' < length inp"
      using False less.prems(3) by (auto simp: b'_def inp'_def n_def file_read_def bufsize_def min_def split: if_splits)
    have step: "grep_loop file_read pattern b inp = selected pattern (fst (cut_lines [] b')) @
        grep_loop file_read pattern (if CHR 0x0A \<in> set b' then snd (cut_lines [] b') else []) inp'"
      unfolding grep_loop.simps [of file_read pattern b inp] n_def [symmetric] Let_def
        b'_def [symmetric] inp'_def [symmetric]
      using False plain(1) by (simp add: grep_lines_eq)
    show ?thesis
    proof (cases "CHR 0x0A \<in> set b'")
      case True
      have "grep_loop file_read pattern (snd (cut_lines [] b')) inp' =
          selected pattern (fst (cut_lines [] (snd (cut_lines [] b') @ inp')))"
      proof (rule less.hyps [OF short])
        show "CHR 0x0A \<notin> set (snd (cut_lines [] b'))" by (simp add: cut_lines_rest)
        show "CHR 0x00 \<notin> set (snd (cut_lines [] b') @ inp')" using plain by (auto dest: cut_lines_rest_set)
        show "length (snd (cut_lines [] b')) \<le> 1022" using cut_lines_rest_shorter [OF True, of "[]"] len(1) by simp
        show "\<forall>l \<in> set (fst (cut_lines [] (snd (cut_lines [] b') @ inp'))). length l \<le> 1022"
          using less.prems(4) unfolding bi cut_lines_resume [of b' inp'] by auto
      qed
      then show ?thesis using True unfolding step bi cut_lines_resume [of b' inp'] by simp
    next
      case nonl: False
      have "CHR 0x0A \<notin> set inp'"
      proof
        assume "CHR 0x0A \<in> set inp'"
        then obtain l ls where l: "fst (cut_lines [] (b' @ inp')) = l # ls"
          using cut_lines_first_line [of "b' @ inp'" "[]"] by (cases "fst (cut_lines [] (b' @ inp'))") auto
        have "inp' \<noteq> []" using \<open>CHR 0x0A \<in> set inp'\<close> by auto
        then show False using l cut_lines_first_length [OF nonl l] len(2) less.prems(4) unfolding bi by auto
      qed
      then show ?thesis using nonl less.hyps [OF short, of "[]"] plain unfolding step bi
        by (simp add: cut_lines_no_newline)
    qed
  qed
qed

text \<open>
  C32. \<open>grep\<close> on a regular file without NUL bytes, all of whose lines fit the buffer (at most 1022
  characters and the newline), terminates and writes exactly the lines that match the pattern, in
  order.  A last line without newline is not examined.
\<close>

theorem grep_correct:
  assumes "CHR 0x00 \<notin> set inp" "\<forall>l \<in> set (fst (cut_lines [] inp)). length l \<le> 1022"
  shows "grep file_read pattern inp =
    concat (map (\<lambda>l. l @ [CHR 0x0A]) (filter (match pattern) (fst (cut_lines [] inp))))"
  using grep_loop_file [of "[]" inp pattern] assms by (simp add: grep_def selected_def)

theorem grep_correct_witness:
  "grep file_read ''b$'' (''ab'' @ CHR 0x0A # ''bc'' @ CHR 0x0A # ''b'' @ CHR 0x0A # ''ab'') = ''ab'' @ CHR 0x0A # ''b'' @ [CHR 0x0A]"
proof -
  let ?inp = "''ab'' @ CHR 0x0A # ''bc'' @ CHR 0x0A # ''b'' @ CHR 0x0A # ''ab''"
  have c: "fst (cut_lines [] ?inp) = [''ab'', ''bc'', ''b'']" by simp
  have m: "match ''b$'' ''ab''" "\<not> match ''b$'' ''bc''" "match ''b$'' ''b''" by code_simp+
  show ?thesis
    using grep_correct [of ?inp "''b$''"] unfolding c by (simp add: m)
qed

text \<open>
  With reads shorter than a line, as a pipe or the console delivers them, \<open>if(p == buf) m = 0\<close> throws
  the beginning of the line away: the matching line is not found.
\<close>

theorem grep_short_read_loses_text:
  "read_ok (\<lambda>n inp. min 1 (min n (length inp))) \<and>
   grep (\<lambda>n inp. min 1 (min n (length inp))) ''ab'' (''ab'' @ [CHR 0x0A]) = [] \<and>
   grep file_read ''ab'' (''ab'' @ [CHR 0x0A]) = ''ab'' @ [CHR 0x0A]"
proof (intro conjI)
  show "read_ok (\<lambda>n inp. min 1 (min n (length inp)))" by (auto simp: read_ok_def)
  show "grep (\<lambda>n inp. min 1 (min n (length inp))) ''ab'' (''ab'' @ [CHR 0x0A]) = []" by code_simp
  show "grep file_read ''ab'' (''ab'' @ [CHR 0x0A]) = ''ab'' @ [CHR 0x0A]" by code_simp
qed

end
