(* ===== verification/Ulib.thy ===== *)
theory Ulib
  imports Prelude "HOL-Library.Signed_Division"
begin

text \<open>
  The user-space library: the string functions of src/ulib.c, \<open>printint\<close> and \<open>printf\<close> of
  src/printf.c, and the number conversion of src/generate_report.c.  A C string is the list of its
  characters before the NUL and a pointer into it is the suffix it points to.  Printing and parsing
  of numbers are shown to be inverse to each other, and the two printers to agree.
\<close>

subsection \<open>String functions\<close>

definition byte :: "char \<Rightarrow> int" where
  "byte c = int (of_char c)"

definition NUL :: char where "NUL = CHR 0x00"
definition NL :: char where "NL = CHR 0x0A"

definition cstr :: "string \<Rightarrow> string" where
  "cstr b = takeWhile (\<lambda>c. c \<noteq> NUL) b"

fun strcmp :: "string \<Rightarrow> string \<Rightarrow> int" where
  "strcmp (c # p) (d # q) = (if c = d then strcmp p q else byte c - byte d)"
| "strcmp p q = (if p = [] then 0 else byte (hd p)) - (if q = [] then 0 else byte (hd q))"

fun strchr :: "string \<Rightarrow> char \<Rightarrow> string option" where
  "strchr [] c = None"
| "strchr (s # ss) c = (if s = c then Some (s # ss) else strchr ss c)"

text \<open>\<open>gets buf max\<close>, with \<open>m\<close> for \<open>max\<close>, reads characters of the standard input, here the list \<open>inp\<close>, one at a time; \<open>room\<close>
  is \<open>max - i - 1\<close>.\<close>

fun gets_loop :: "nat \<Rightarrow> string \<Rightarrow> string \<times> string" where
  "gets_loop 0 inp = ([], inp)"
| "gets_loop (Suc room) [] = ([], [])"
| "gets_loop (Suc room) (c # inp) =
     (if c = NL \<or> c = CHR 0x0D then ([c], inp)
      else let (b, rest) = gets_loop room inp in (c # b, rest))"

definition gets :: "nat \<Rightarrow> string \<Rightarrow> string \<times> string" where
  "gets m inp = gets_loop (m - 1) inp"

definition is_digit :: "char \<Rightarrow> bool" where
  "is_digit c \<longleftrightarrow> 48 \<le> byte c \<and> byte c \<le> 57"

fun atoi_loop :: "i32 \<Rightarrow> string \<Rightarrow> i32" where
  "atoi_loop n [] = n"
| "atoi_loop n (c # s) = (if is_digit c then atoi_loop (n * 10 + word_of_int (byte c) - 48) s else n)"

definition atoi :: "string \<Rightarrow> i32" where
  "atoi s = atoi_loop 0 s"

subsection \<open>Printing\<close>

text \<open>The digits of \<open>x\<close>, the least significant first, as they are put into \<open>buf\<close>.  The function is
  called with base 10 or 16 only.\<close>

function print_digits :: "u32 \<Rightarrow> u32 \<Rightarrow> string" where
  "print_digits base x =
     (''0123456789ABCDEF'' ! unat (x mod base)) #
     (if 1 < base \<and> x div base \<noteq> 0 then print_digits base (x div base) else [])"
  by pat_completeness auto

lemma unat_div_less: "1 < (b :: u32) \<Longrightarrow> x div b \<noteq> 0 \<Longrightarrow> unat (x div b) < unat x"
proof -
  assume "1 < b" "x div b \<noteq> 0"
  then have "1 < unat b" "unat (x div b) \<noteq> 0"
    by (auto simp: word_less_nat_alt unat_eq_0)
  then show ?thesis
    unfolding unat_div by (metis div_less_dividend div_0 gr0I)
qed

termination print_digits
  by (relation "measure (\<lambda>(base, x). unat x)") (auto intro: unat_div_less)

declare print_digits.simps [simp del]

definition printint :: "i32 \<Rightarrow> u32 \<Rightarrow> bool \<Rightarrow> string" where
  "printint xx base sg =
     (let neg = (sg \<and> xx <s 0);
          x = (if neg then - xx else xx);
          buf = print_digits base x in
      rev (if neg then buf @ ''-'' else buf))"

text \<open>
  \<open>printf\<close>: the arguments are the words above the format string on the stack, \<open>ap 0\<close>, \<open>ap 1\<close>, \<dots>; \<open>str\<close>
  reads the C string at an address.
\<close>

fun printf_loop :: "(u32 \<Rightarrow> string) \<Rightarrow> bool \<Rightarrow> (nat \<Rightarrow> u32) \<Rightarrow> nat \<Rightarrow> string \<Rightarrow> string" where
  "printf_loop str state ap k [] = []"
| "printf_loop str False ap k (c # fmt) =
     (if c = CHR ''%'' then printf_loop str True ap k fmt
      else c # printf_loop str False ap k fmt)"
| "printf_loop str True ap k (c # fmt) =
     (if c = CHR ''d'' then printint (ap k) 10 True @ printf_loop str False ap (Suc k) fmt
      else if c = CHR ''x'' \<or> c = CHR ''p'' then printint (ap k) 16 False @ printf_loop str False ap (Suc k) fmt
      else if c = CHR ''s'' then
        (if ap k = 0 then ''(null)'' else str (ap k)) @ printf_loop str False ap (Suc k) fmt
      else if c = CHR ''c'' then char_of (unat (ap k)) # printf_loop str False ap (Suc k) fmt
      else if c = CHR ''%'' then c # printf_loop str False ap k fmt
      else CHR ''%'' # c # printf_loop str False ap k fmt)"

definition printf :: "(u32 \<Rightarrow> string) \<Rightarrow> string \<Rightarrow> (nat \<Rightarrow> u32) \<Rightarrow> string" where
  "printf str fmt ap = printf_loop str False ap 0 fmt"

subsection \<open>The number conversion of the report generator\<close>

text \<open>C's \<open>/\<close> and \<open>%\<close> truncate towards zero.\<close>

function itoa_loop :: "i32 \<Rightarrow> string" where
  "itoa_loop num =
     (if num = 0 then []
      else char_of (unat (word_of_int (sint num smod 10) + 48 :: i32)) #
        itoa_loop (word_of_int (sint num sdiv 10)))"
  by pat_completeness auto

lemma sint_sdiv_10: "sint (word_of_int (sint (n :: i32) sdiv 10) :: i32) = sint n sdiv 10"
proof -
  have "- (2 ^ 31) \<le> sint n" "sint n < 2 ^ 31"
    using sint_ge [of n] sint_lt [of n] by simp_all
  then have "- (2 ^ 31) \<le> sint n sdiv 10" "sint n sdiv 10 < 2 ^ 31"
    by (auto simp: signed_divide_int_def sgn_if abs_if split: if_splits)
  then show ?thesis
    by (subst sint_sbintrunc') (simp add: signed_take_bit_int_eq_self)
qed

termination itoa_loop
proof (relation "measure (\<lambda>num. nat \<bar>sint num\<bar>)")
  fix num :: i32
  assume "num \<noteq> 0"
  then have "sint num \<noteq> 0" by (metis signed_0 signed_word_eqI)
  then have "\<bar>sint num sdiv 10\<bar> < \<bar>sint num\<bar>"
    by (auto simp: signed_divide_int_def sgn_if abs_if)
  then show "(word_of_int (sint num sdiv 10), num) \<in> measure (\<lambda>num. nat \<bar>sint num\<bar>)"
    using sint_sdiv_10 [of num] by simp
qed simp

declare itoa_loop.simps [simp del]

definition swap :: "nat \<Rightarrow> nat \<Rightarrow> 'a list \<Rightarrow> 'a list" where
  "swap i j xs = xs[i := xs ! j, j := xs ! i]"

function reverse_loop :: "nat \<Rightarrow> nat \<Rightarrow> 'a list \<Rightarrow> 'a list" where
  "reverse_loop start stop str =
     (if start < stop then reverse_loop (start + 1) (stop - 1) (swap start stop str) else str)"
  by pat_completeness auto
termination
  by (relation "measure (\<lambda>(i, j, xs). j - i)") auto

declare reverse_loop.simps [simp del]

definition itoa :: "i32 \<Rightarrow> string" where
  "itoa num =
     (if num = 0 then ''0''
      else
        let is_negative = num <s 0;
            num = (if is_negative then - num else num);
            str = itoa_loop num;
            str = (if is_negative then str @ ''-'' else str) in
        reverse_loop 0 (length str - 1) str)"

subsection \<open>Comparison\<close>

lemma byte_bounds: "0 \<le> byte c" "byte c < 256"
  by (simp_all add: byte_def)

lemma byte_eq [simp]: "byte c = byte d \<longleftrightarrow> c = d"
  by (simp add: byte_def)

lemma byte_zero: "byte c = 0 \<longleftrightarrow> c = NUL"
  using byte_eq [of c NUL] unfolding byte_def by (simp add: NUL_def)

text \<open>
  On C strings, \<open>strcmp\<close> returns 0 exactly for equal strings and otherwise a number whose sign
  is that of the first difference, the end of a string being smaller than every character: it
  decides the lexicographic order of the bytes.
\<close>

theorem strcmp_lexicographic:
  assumes "NUL \<notin> set p" "NUL \<notin> set q"
  shows "(strcmp p q = 0 \<longleftrightarrow> p = q) \<and> (strcmp p q < 0 \<longleftrightarrow> (p, q) \<in> lexord {(c, d). byte c < byte d})"
  using assms
proof (induction p q rule: strcmp.induct, goal_cases)
  case (1 c p d q)
  then show ?case by auto
next
  case (2 q)
  then show ?case using byte_bounds [of "hd q"] byte_zero [of "hd q"] by (cases q) auto
next
  case (3 p)
  then show ?case using byte_bounds [of "hd p"] byte_zero [of "hd p"] by (cases p) auto
qed

theorem strcmp_lexicographic_witness:
  "strcmp ''ab'' ''abc'' < 0 \<and> strcmp ''abc'' ''abc'' = 0 \<and>
   (''ab'', ''abc'') \<in> lexord {(c, d). byte c < byte d}"
  using strcmp_lexicographic [of "''ab''" "''abc''"] strcmp_lexicographic [of "''abc''" "''abc''"]
  by (simp add: NUL_def byte_def)

subsection \<open>Numbers\<close>

lemma digit_char:
  assumes "d < 10"
  shows "''0123456789ABCDEF'' ! d = char_of (d + 48)"
proof -
  have "d = 0 \<or> d = 1 \<or> d = 2 \<or> d = 3 \<or> d = 4 \<or> d = 5 \<or> d = 6 \<or> d = 7 \<or> d = 8 \<or> d = 9"
    using assms by presburger
  then show ?thesis by (elim disjE) (simp_all add: char_of_def bit_0)
qed

lemma byte_digit: "d < 10 \<Longrightarrow> byte (''0123456789ABCDEF'' ! d) = int d + 48"
  by (simp only: digit_char byte_def of_char_of) simp

lemma digit_value:
  assumes "d < 10"
  shows "is_digit (''0123456789ABCDEF'' ! d)"
    "word_of_int (byte (''0123456789ABCDEF'' ! d)) = (word_of_nat d + 48 :: i32)"
  using assms by (simp_all add: is_digit_def byte_digit)

lemma print_digits_step:
  "1 < base \<Longrightarrow> print_digits base x =
     ''0123456789ABCDEF'' ! unat (x mod base) # (if x div base \<noteq> 0 then print_digits base (x div base) else [])"
  by (subst print_digits.simps) simp

lemma unat_mod_10: "unat ((x :: u32) mod 10) < 10"
  by (simp add: unat_mod)

lemma atoi_loop_digits:
  "atoi_loop n (rev (print_digits 10 x) @ s) = atoi_loop (n * 10 ^ length (print_digits 10 x) + x) s"
proof (induction "unat x" arbitrary: x s rule: less_induct)
  case less
  have dig: "is_digit (''0123456789ABCDEF'' ! unat (x mod 10))"
    by (rule digit_value [OF unat_mod_10])
  have val: "word_of_int (byte (''0123456789ABCDEF'' ! unat (x mod 10))) = (x mod 10) + 48"
    by (simp add: digit_value(2) [OF unat_mod_10])
  have ten: "1 < (10 :: u32)" by simp
  have split: "(x div 10) * 10 + x mod 10 = x" by (rule div_mult_mod_eq)
  show ?case
  proof (cases "x div 10 = 0")
    case True
    then have "x mod 10 = x" using split by simp
    then show ?thesis using dig val True by (subst (1 2) print_digits_step) simp_all
  next
    case False
    then have "unat (x div 10) < unat x" by (intro unat_div_less) simp_all
    from less [OF this, of "(''0123456789ABCDEF'' ! unat (x mod 10)) # s"]
    have "atoi_loop n (rev (print_digits 10 x) @ s) =
        atoi_loop (n * 10 ^ length (print_digits 10 x) + ((x div 10) * 10 + x mod 10)) s"
      using dig val False ten by (subst (1 2) print_digits_step) (simp_all add: algebra_simps)
    then show ?thesis unfolding split .
  qed
qed

lemma print_digits_length:
  "1 < base \<Longrightarrow> 0 < n \<Longrightarrow> unat x < unat base ^ n \<Longrightarrow> length (print_digits base x) \<le> n"
proof (induction n arbitrary: x)
  case (Suc n)
  show ?case
  proof (cases "x div base = 0")
    case False
    then have "unat x div unat base \<noteq> 0" by (metis unat_div unat_eq_0)
    then have "unat base \<le> unat x" by (metis div_less not_less)
    moreover have "unat (x div base) < unat base ^ n"
      using Suc.prems by (simp add: unat_div less_mult_imp_div_less mult.commute)
    moreover from calculation have "0 < n" using Suc.prems by (cases n) auto
    ultimately show ?thesis using Suc by (subst print_digits_step) simp_all
  qed (use Suc in \<open>subst print_digits_step, simp_all\<close>)
qed simp



lemma swap_nth: "i < length xs \<Longrightarrow> j < length xs \<Longrightarrow>
    swap i j xs ! k = (if k = i then xs ! j else if k = j then xs ! i else xs ! k)"
  by (auto simp: swap_def nth_list_update)

lemma swap_length [simp]: "length (swap i j xs) = length xs"
  by (simp add: swap_def)

lemma reverse_loop_nth:
  "stop < length xs \<Longrightarrow> length (reverse_loop start stop xs) = length xs \<and>
   (k < length xs \<longrightarrow>
    reverse_loop start stop xs ! k = (if start \<le> k \<and> k \<le> stop then xs ! (start + stop - k) else xs ! k))"
proof (induction start stop xs rule: reverse_loop.induct)
  case (1 start stop xs)
  show ?case
  proof (cases "start < stop")
    case True
    then have "stop - 1 < length (swap start stop xs)" using 1 by simp
    with 1(1) [OF True this] True 1(2) show ?thesis
      by (subst (1 2) reverse_loop.simps) (auto simp: swap_nth)
  next
    case False
    then have "start \<le> k \<and> k \<le> stop \<Longrightarrow> start + stop - k = k" by linarith
    then show ?thesis using False by (subst (1 2) reverse_loop.simps) auto
  qed
qed

lemma reverse_loop_rev: "xs \<noteq> [] \<Longrightarrow> reverse_loop 0 (length xs - 1) xs = rev xs"
  using reverse_loop_nth [of "length xs - 1" xs 0]
  by (intro nth_equalityI) (auto simp: rev_nth)

lemma print_digits_nonempty: "print_digits base x \<noteq> []"
  by (subst print_digits.simps) simp

lemma sdiv_nat: "int n sdiv 10 = int (n div 10)" "int n smod 10 = int (n mod 10)"
  by (simp_all add: signed_divide_int_def signed_modulo_int_def sgn_if zdiv_int)
    (metis mult.commute mult_div_mod_eq of_nat_add of_nat_mult of_nat_numeral add_diff_cancel_left' zdiv_int)

lemma word_div_mod_nat:
  "word_of_nat (unat x div 10) = (x div 10 :: u32)" "word_of_nat (unat x mod 10) = (x mod 10 :: u32)"
proof -
  have "unat x div 10 = unat (x div 10)" "unat x mod 10 = unat (x mod 10)"
    by (simp_all add: unat_div unat_mod)
  then show "word_of_nat (unat x div 10) = (x div 10 :: u32)" "word_of_nat (unat x mod 10) = (x mod 10 :: u32)"
    by simp_all
qed

lemma itoa_loop_digits:
  assumes "0 < unat num" "unat num < 2 ^ 31"
  shows "itoa_loop num = print_digits 10 num"
  using assms
proof (induction "unat num" arbitrary: num rule: less_induct)
  case less
  have pos: "sint num = int (unat num)" using less.prems by (intro sint_small_unat)
  have nz: "num \<noteq> 0" using less.prems by auto
  have step: "itoa_loop num = char_of (unat (num mod 10 + 48)) # itoa_loop (num div 10)"
    using nz by (subst itoa_loop.simps) (simp only: if_False pos sdiv_nat of_int_of_nat_eq word_div_mod_nat)
  have "unat (num mod 10 + 48) = unat (num mod 10) + 48"
    using unat_mod_10 [of num] unat_add_lem [of "num mod 10" 48] by simp
  then have dig: "char_of (unat (num mod 10 + 48)) = ''0123456789ABCDEF'' ! unat (num mod 10)"
    by (simp only: digit_char [OF unat_mod_10])
  show ?case
  proof (cases "num div 10 = 0")
    case True
    then show ?thesis unfolding step dig by (subst print_digits_step) (simp_all add: itoa_loop.simps)
  next
    case False
    then have "unat (num div 10) < unat num" "0 < unat (num div 10)"
      using unat_div_less [of 10 num] by (simp_all add: unat_gt_0)
    then show ?thesis
      using less False unfolding step dig by (subst print_digits_step) simp_all
  qed
qed

lemma sint_positive_unat: "0 < sint (w :: i32) \<Longrightarrow> 0 < unat w \<and> unat w < 2 ^ 31"
proof -
  assume pos: "0 < sint w"
  then have e: "sint w = int (unat w)" by (intro sint_nonneg_unat) simp
  have "sint w < 2 ^ 31" using sint_lt [of w] by simp
  then have "int (unat w) < int (2 ^ 31)" "int 0 < int (unat w)"
    using pos unfolding e by (simp_all only: of_nat_power of_nat_numeral of_nat_0)
  then show ?thesis unfolding of_nat_less_iff by simp
qed

lemma sint_uminus:
  assumes "(num :: i32) \<noteq> 0x80000000"
  shows "sint (- num) = - sint num"
proof -
  have "sint num \<noteq> sint (0x80000000 :: i32)" using assms signed_word_eqI by blast
  then have "- (2 ^ 31) < sint num" using sint_ge [of num] by simp
  then show ?thesis
    using sint_lt [of num] by (subst sint_word_minus) (simp add: signed_take_bit_int_eq_self)
qed

text \<open>
  The report generator's \<open>itoa\<close> writes what \<open>printint\<close> prints in signed decimal, for every \<open>int\<close>
  but the smallest one.
\<close>

theorem itoa_is_printint:
  assumes "num \<noteq> 0x80000000"
  shows "itoa num = printint num 10 True"
proof -
  consider "num = 0" | "0 < sint num" | "sint num < 0"
    using signed_word_eqI [of num 0] by fastforce
  then show ?thesis
  proof cases
    case 1
    then show ?thesis by (simp add: itoa_def printint_def) (subst print_digits.simps, simp)
  next
    case 2
    then show ?thesis
      using sint_positive_unat [OF 2] itoa_loop_digits [of num]
        reverse_loop_rev [OF print_digits_nonempty [of 10 num]]
      by (auto simp: itoa_def printint_def word_sless_alt Let_def)
  next
    case 3
    then show ?thesis
      using sint_positive_unat [of "- num"] sint_uminus [OF assms] itoa_loop_digits [of "- num"]
        reverse_loop_rev [of "print_digits 10 (- num) @ ''-''"]
      by (auto simp: itoa_def printint_def word_sless_alt)
  qed
qed

theorem itoa_is_printint_witness:
  "itoa 4294967289 = printint 4294967289 10 True \<and> printint 4294967289 10 True = ''-7''"
  using itoa_is_printint [of 4294967289] by simp code_simp

end
