(* ===== verification/Texttools.thy ===== *)
theory Texttools
  imports Grep Ulib
begin

text \<open>
  The user programs \<open>wc\<close> (src/wc.c) and \<open>uniq\<close> (src/uniq.c).  The counters of \<open>wc\<close> are shown to be the
  numbers of newlines, words and characters however the input is cut into reads; \<open>uniq\<close> is shown to
  collapse the runs of equal adjacent lines, up to the first empty line, where it stops.
\<close>

subsection \<open>wc\<close>

record wc_state =
  wl :: i32
  ww :: i32
  wch :: i32
  inword :: bool

definition wc_char :: "char \<Rightarrow> wc_state \<Rightarrow> wc_state" where
  "wc_char ch s =
     (let s = s\<lparr>wch := wch s + 1\<rparr>;
          s = (if ch = NL then s\<lparr>wl := wl s + 1\<rparr> else s) in
      if strchr [CHR '' '', CHR 0x0D, CHR 0x09, NL, CHR 0x0B] ch \<noteq> None then s\<lparr>inword := False\<rparr>
      else if \<not> inword s then s\<lparr>ww := ww s + 1, inword := True\<rparr>
      else s)"

text \<open>\<open>rd\<close> is the system call \<open>read\<close>: \<open>None\<close> for -1, otherwise the number of bytes delivered.\<close>

function wc_loop :: "(nat \<Rightarrow> string \<Rightarrow> nat option) \<Rightarrow> wc_state \<Rightarrow> string \<Rightarrow> (i32 \<times> i32 \<times> i32) option" where
  "wc_loop rd s inp =
     (case rd 512 inp of
        None \<Rightarrow> None
      | Some k \<Rightarrow>
          let n = min k (length inp) in
          if n = 0 then Some (wl s, ww s, wch s)
          else wc_loop rd (fold wc_char (take n inp) s) (drop n inp))"
  by pat_completeness auto
termination
  by (relation "measure (\<lambda>(rd, s, inp). length inp)") auto

declare wc_loop.simps [simp del]

definition wc :: "(nat \<Rightarrow> string \<Rightarrow> nat option) \<Rightarrow> string \<Rightarrow> (i32 \<times> i32 \<times> i32) option" where
  "wc rd inp = wc_loop rd \<lparr>wl = 0, ww = 0, wch = 0, inword = False\<rparr> inp"

definition is_blank :: "char \<Rightarrow> bool" where
  "is_blank c \<longleftrightarrow> c \<in> {CHR '' '', CHR 0x0D, CHR 0x09, NL, CHR 0x0B}"

text \<open>A word begins at a non-blank character that is the first one or follows a blank.\<close>

definition word_starts :: "string \<Rightarrow> nat set" where
  "word_starts s = {i. i < length s \<and> \<not> is_blank (s ! i) \<and> (i = 0 \<or> is_blank (s ! (i - 1)))}"

fun count_words :: "bool \<Rightarrow> string \<Rightarrow> nat" where
  "count_words inw [] = 0"
| "count_words inw (c # s) = (if \<not> is_blank c \<and> \<not> inw then 1 else 0) + count_words (\<not> is_blank c) s"

lemma wc_char_eq:
  "wc_char ch s = s\<lparr>wch := wch s + 1, wl := wl s + (if ch = NL then 1 else 0),
     ww := ww s + (if \<not> is_blank ch \<and> \<not> inword s then 1 else 0), inword := \<not> is_blank ch\<rparr>"
  by (cases s) (auto simp: wc_char_def is_blank_def Let_def NL_def)

lemma wc_fold:
  "fold wc_char inp s = s\<lparr>wch := wch s + word_of_nat (length inp),
     wl := wl s + word_of_nat (count_list inp NL),
     ww := ww s + word_of_nat (count_words (inword s) inp),
     inword := (if inp = [] then inword s else \<not> is_blank (last inp))\<rparr>"
  by (induction inp arbitrary: s) (auto simp: wc_char_eq)

lemma word_starts_card:
  "card {i. i < length s \<and> \<not> is_blank (s ! i) \<and> (if i = 0 then \<not> inw else is_blank (s ! (i - 1)))} = count_words inw s"
    (is "card (?W inw s) = _")
proof (induction s arbitrary: inw)
  case (Cons c s)
  have "?W inw (c # s) = (if \<not> is_blank c \<and> \<not> inw then {0} else {}) \<union> Suc ` ?W (\<not> is_blank c) s"
    (is "?L = ?R")
  proof (rule set_eqI)
    show "x \<in> ?L \<longleftrightarrow> x \<in> ?R" for x
      by (cases x; cases "x - 1") (auto simp: image_iff)
  qed
  moreover have "finite (?W (\<not> is_blank c) s)" by simp
  ultimately show ?case using Cons [of "\<not> is_blank c"]
    by (subst \<open>?W inw (c # s) = _\<close>, subst card_Un_disjoint) (auto simp: card_image)
qed simp

lemma wc_loop_eq:
  assumes "\<And>n s. \<exists>k. rd n s = Some k \<and> k \<le> n \<and> (0 < n \<and> s \<noteq> [] \<longrightarrow> 0 < k)"
  shows "wc_loop rd s inp = Some (let s = fold wc_char inp s in (wl s, ww s, wch s))"
proof (induction "length inp" arbitrary: s inp rule: less_induct)
  case less
  obtain k where k: "rd 512 inp = Some k" "inp \<noteq> [] \<Longrightarrow> 0 < k" using assms [of 512 inp] by auto
  show ?case
  proof (cases "inp = []")
    case True
    then show ?thesis using k by (subst wc_loop.simps) simp
  next
    case False
    define n where "n = min k (length inp)"
    have "length (drop n inp) < length inp" "n \<noteq> 0" using False k by (auto simp: n_def)
    then have "wc_loop rd s inp = Some (let s = fold wc_char (drop n inp) (fold wc_char (take n inp) s) in (wl s, ww s, wch s))"
      using less.hyps [of "drop n inp"] k(1)
      by (subst wc_loop.simps) (simp add: n_def [symmetric] Let_def)
    then show ?thesis by (metis append_take_drop_id comp_apply fold_append)
  qed
qed

text \<open>
  C35. \<open>wc\<close> terminates and, however \<open>read\<close> cuts the input into pieces, prints the number of newlines,
  the number of positions at which a word begins and the number of characters (as C integers).
\<close>

theorem wc_correct:
  assumes "\<And>n s. \<exists>k. rd n s = Some k \<and> k \<le> n \<and> (0 < n \<and> s \<noteq> [] \<longrightarrow> 0 < k)"
  shows "wc rd inp =
    Some (word_of_nat (count_list inp NL), word_of_nat (card (word_starts inp)), word_of_nat (length inp))"
proof -
  have "card (word_starts inp) = count_words False inp"
    unfolding word_starts_card [of inp False, symmetric] word_starts_def
    by (rule arg_cong [where f = card]) auto
  then show ?thesis by (simp add: wc_def wc_loop_eq [OF assms] wc_fold)
qed

theorem wc_correct_witness:
  "wc (\<lambda>n s. Some (min n (length s))) (''ab c'' @ [NL]) = Some (1, 2, 5) \<and>
   wc (\<lambda>n s. Some (min 1 (min n (length s)))) (''ab c'' @ [NL]) = Some (1, 2, 5)"
proof -
  have "word_starts (''ab c'' @ [NL]) = {0, 3}"
    by (auto simp: word_starts_def is_blank_def NL_def less_Suc_eq nth_Cons' split: if_splits)
  then show ?thesis
    using wc_correct [of "\<lambda>n s. Some (min n (length s))" "''ab c'' @ [NL]"]
      wc_correct [of "\<lambda>n s. Some (min 1 (min n (length s)))" "''ab c'' @ [NL]"]
    by (simp add: NL_def)
qed

subsection \<open>uniq\<close>

text \<open>\<open>room\<close> is \<open>size - 1 - i\<close>; the result is what is put into \<open>buf\<close>, and the input left.\<close>

fun read_line_loop :: "nat \<Rightarrow> string \<Rightarrow> string \<times> string" where
  "read_line_loop 0 inp = ([], inp)"
| "read_line_loop (Suc room) [] = ([], [])"
| "read_line_loop (Suc room) (c # inp) =
     (if c = NL then ([], inp) else let (b, rest) = read_line_loop room inp in (c # b, rest))"

definition read_line :: "nat \<Rightarrow> string \<Rightarrow> string \<times> string" where
  "read_line n inp = read_line_loop (n - 1) inp"

text \<open>\<open>char\<close> is signed.\<close>

definition schar :: "char \<Rightarrow> int" where
  "schar c = (if byte c < 128 then byte c else byte c - 256)"

definition fold_case :: "char \<Rightarrow> int" where
  "fold_case c = (if 65 \<le> schar c \<and> schar c \<le> 90 then schar c + 32 else schar c)"

fun strcasecmp :: "string \<Rightarrow> string \<Rightarrow> int" where
  "strcasecmp (c # s1) (d # s2) =
     (if fold_case c \<noteq> fold_case d then fold_case c - fold_case d else strcasecmp s1 s2)"
| "strcasecmp s1 s2 = (if s1 = [] then 0 else schar (hd s1)) - (if s2 = [] then 0 else schar (hd s2))"

definition MAX_LINE :: nat where "MAX_LINE = 1024"

definition uniq_emit :: "bool \<Rightarrow> bool \<Rightarrow> i32 \<Rightarrow> string \<Rightarrow> string" where
  "uniq_emit count_flag duplicates count prev_line =
     (if \<not> duplicates \<or> 1 <s count then
        (if count_flag then printint count 10 True @ '' '' else []) @ cstr prev_line @ [NL]
      else [])"

lemma read_line_shorter: "fst (read_line n inp) \<noteq> [] \<Longrightarrow> length (snd (read_line n inp)) < length inp"
proof -
  have "length (snd (read_line_loop k inp)) + length (fst (read_line_loop k inp)) \<le> length inp" for k
    by (induction k inp rule: read_line_loop.induct) (auto simp: Let_def split_def)
  from this [of "n - 1"] show "fst (read_line n inp) \<noteq> [] \<Longrightarrow> ?thesis"
    by (cases "fst (read_line n inp)") (auto simp: read_line_def)
qed

function uniq_loop :: "bool \<Rightarrow> bool \<Rightarrow> bool \<Rightarrow> bool \<Rightarrow> string \<Rightarrow> i32 \<Rightarrow> string \<Rightarrow> string" where
  "uniq_loop count_flag ignore_case duplicates first_line prev_line count inp =
     (let (current_line, rest) = read_line MAX_LINE inp in
      if current_line = [] then
        (if \<not> first_line then uniq_emit count_flag duplicates count prev_line else [])
      else if first_line \<or>
          (if ignore_case then strcasecmp (cstr current_line) (cstr prev_line)
           else strcmp (cstr current_line) (cstr prev_line)) \<noteq> 0 then
        (if \<not> first_line then uniq_emit count_flag duplicates count prev_line else []) @
        uniq_loop count_flag ignore_case duplicates False current_line 1 rest
      else uniq_loop count_flag ignore_case duplicates first_line prev_line (count + 1) rest)"
  by pat_completeness auto
termination
  by (relation "measure (\<lambda>(cf, ic, dup, fl, prev, count, inp). length inp)")
    (auto dest: read_line_shorter [of MAX_LINE] simp: eq_commute [of "(_, _)" "read_line _ _"],
     (metis fst_conv snd_conv read_line_shorter)+)

declare uniq_loop.simps [simp del]

definition process_uniq :: "bool \<Rightarrow> bool \<Rightarrow> bool \<Rightarrow> string \<Rightarrow> string" where
  "process_uniq count_flag ignore_case duplicates inp =
     uniq_loop count_flag ignore_case duplicates True [] 0 inp"

text \<open>The runs of equal adjacent lines, each with its first line and its length.\<close>

function runs :: "('a \<Rightarrow> 'a \<Rightarrow> bool) \<Rightarrow> 'a list \<Rightarrow> ('a \<times> nat) list" where
  "runs eq [] = []"
| "runs eq (l # ls) = (l, Suc (length (takeWhile (eq l) ls))) # runs eq (dropWhile (eq l) ls)"
  by pat_completeness auto
termination
  by (relation "measure (\<lambda>(eq, ls). length ls)") (auto simp: length_dropWhile_le less_Suc_eq_le)

definition same_line :: "bool \<Rightarrow> string \<Rightarrow> string \<Rightarrow> bool" where
  "same_line ignore_case a b \<longleftrightarrow> (if ignore_case then map fold_case a = map fold_case b else a = b)"

definition all_lines :: "string \<Rightarrow> string list" where
  "all_lines inp = fst (cut_lines [] inp) @ [snd (cut_lines [] inp)]"

lemma schar_zero: "schar c = 0 \<longleftrightarrow> c = NUL"
  using byte_bounds [of c] byte_zero [of c] by (auto simp: schar_def)

lemma strcasecmp_zero:
  "NUL \<notin> set a \<Longrightarrow> NUL \<notin> set b \<Longrightarrow> strcasecmp a b = 0 \<longleftrightarrow> map fold_case a = map fold_case b"
proof (induction a b rule: strcasecmp.induct, goal_cases)
  case (2 s2)
  then show ?case by (cases s2) (auto simp: schar_zero)
next
  case (3 s1)
  then show ?case by (cases s1) (auto simp: schar_zero)
qed auto

lemma strcmp_zero: "NUL \<notin> set a \<Longrightarrow> NUL \<notin> set b \<Longrightarrow> strcmp a b = 0 \<longleftrightarrow> a = b"
proof (induction a b rule: strcmp.induct, goal_cases)
  case (2 q)
  then show ?case by (cases q) (auto simp: byte_zero)
next
  case (3 p)
  then show ?case by (cases p) (auto simp: byte_zero)
qed auto

lemma same_line_compare:
  assumes "NUL \<notin> set a" "NUL \<notin> set b"
  shows "(if ic then strcasecmp (cstr a) (cstr b) else strcmp (cstr a) (cstr b)) = 0 \<longleftrightarrow> same_line ic b a"
proof -
  have "cstr a = a" "cstr b = b"
    using assms by (auto simp: cstr_def takeWhile_eq_all_conv)
  then show ?thesis
    using strcasecmp_zero [OF assms] strcmp_zero [OF assms] by (auto simp: same_line_def)
qed

lemma read_line_loop_eq:
  "length (takeWhile (\<lambda>c. c \<noteq> NL) inp) < k \<Longrightarrow>
   read_line_loop k inp = (takeWhile (\<lambda>c. c \<noteq> NL) inp, tl (dropWhile (\<lambda>c. c \<noteq> NL) inp))"
  by (induction k inp rule: read_line_loop.induct) auto

lemma all_lines_eq:
  "all_lines inp = takeWhile (\<lambda>c. c \<noteq> NL) inp #
     (if NL \<in> set inp then all_lines (tl (dropWhile (\<lambda>c. c \<noteq> NL) inp)) else [])"
proof (cases "NL \<in> set inp")
  case True
  then show ?thesis using cut_lines_takes [of inp] by (simp add: all_lines_def NL_def)
next
  case False
  then have t: "takeWhile (\<lambda>c. c \<noteq> NL) inp = inp" by (auto simp: takeWhile_eq_all_conv)
  show ?thesis unfolding t using False by (simp add: all_lines_def cut_lines_no_newline NL_def)
qed

lemma read_line_lines:
  assumes "\<forall>l \<in> set (all_lines inp). length l \<le> 1022"
  obtains rest where "read_line MAX_LINE inp = (hd (all_lines inp), rest)"
    "takeWhile (\<lambda>l. l \<noteq> []) (all_lines inp) =
       (if hd (all_lines inp) = [] then [] else hd (all_lines inp) # takeWhile (\<lambda>l. l \<noteq> []) (all_lines rest))"
    "\<forall>l \<in> set (all_lines rest). length l \<le> 1022" "set rest \<subseteq> set inp"
proof
  let ?rest = "tl (dropWhile (\<lambda>c. c \<noteq> NL) inp)"
  have hd: "hd (all_lines inp) = takeWhile (\<lambda>c. c \<noteq> NL) inp" by (subst all_lines_eq) simp
  have "takeWhile (\<lambda>c. c \<noteq> NL) inp \<in> set (all_lines inp)" by (subst all_lines_eq) simp
  then show "read_line MAX_LINE inp = (hd (all_lines inp), ?rest)"
    using assms unfolding hd read_line_def MAX_LINE_def by (intro read_line_loop_eq) auto
  have none: "NL \<notin> set inp \<Longrightarrow> ?rest = []"
    by (metis (mono_tags, lifting) dropWhile_eq_Nil_conv list.sel(2))
  have nil: "all_lines [] = [[]]" by (simp add: all_lines_def)
  show "takeWhile (\<lambda>l. l \<noteq> []) (all_lines inp) =
      (if hd (all_lines inp) = [] then [] else hd (all_lines inp) # takeWhile (\<lambda>l. l \<noteq> []) (all_lines ?rest))"
    unfolding hd using none nil by (subst all_lines_eq) auto
  show "\<forall>l \<in> set (all_lines ?rest). length l \<le> 1022"
    using assms none nil by (cases "NL \<in> set inp") (auto simp: all_lines_eq [of inp])
  show "set ?rest \<subseteq> set inp"
    by (metis list.set_sel(2) set_dropWhileD subsetI tl_Nil)
qed

lemma uniq_loop_runs:
  assumes "\<forall>l \<in> set (all_lines inp). length l \<le> 1022" "NUL \<notin> set inp" "NUL \<notin> set prev"
  shows "uniq_loop cf ic dup False prev count inp =
    (let ls = takeWhile (\<lambda>l. l \<noteq> []) (all_lines inp) in
     uniq_emit cf dup (count + word_of_nat (length (takeWhile (same_line ic prev) ls))) prev @
     concat (map (\<lambda>(l, n). uniq_emit cf dup (word_of_nat n) l) (runs (same_line ic) (dropWhile (same_line ic prev) ls))))"
  using assms
proof (induction "length inp" arbitrary: prev count inp rule: less_induct)
  case less
  obtain rest where r: "read_line MAX_LINE inp = (hd (all_lines inp), rest)"
    "takeWhile (\<lambda>l. l \<noteq> []) (all_lines inp) =
       (if hd (all_lines inp) = [] then [] else hd (all_lines inp) # takeWhile (\<lambda>l. l \<noteq> []) (all_lines rest))"
    "\<forall>l \<in> set (all_lines rest). length l \<le> 1022" "set rest \<subseteq> set inp"
    using read_line_lines [OF less.prems(1)] .
  define l where "l = hd (all_lines inp)"
  show ?case
  proof (cases "l = []")
    case True
    then show ?thesis using r(1,2) by (subst uniq_loop.simps) (simp add: l_def)
  next
    case False
    then have short: "length rest < length inp" using read_line_shorter [of MAX_LINE inp] r(1) by (simp add: l_def)
    have "l = takeWhile (\<lambda>c. c \<noteq> NL) inp" unfolding l_def by (subst all_lines_eq) simp
    then have nul: "NUL \<notin> set l" using less.prems(2) by (auto dest: set_takeWhileD)
    have "NUL \<notin> set rest" using r(4) less.prems(2) by auto
    note IH = less.hyps [OF short r(3) this]
    show ?thesis
      unfolding r(2) l_def [symmetric] using False IH [OF nul] IH [OF less.prems(3)] r(1)
      by (subst uniq_loop.simps)
        (simp add: l_def [symmetric] same_line_compare [OF nul less.prems(3)] Let_def algebra_simps)
  qed
qed

lemma process_uniq_runs:
  assumes "\<forall>l \<in> set (all_lines inp). length l \<le> 1022" "NUL \<notin> set inp"
  shows "process_uniq cf ic dup inp =
    concat (map (\<lambda>(l, n). uniq_emit cf dup (word_of_nat n) l) (runs (same_line ic) (takeWhile (\<lambda>l. l \<noteq> []) (all_lines inp))))"
proof -
  obtain rest where r: "read_line MAX_LINE inp = (hd (all_lines inp), rest)"
    "takeWhile (\<lambda>l. l \<noteq> []) (all_lines inp) =
       (if hd (all_lines inp) = [] then [] else hd (all_lines inp) # takeWhile (\<lambda>l. l \<noteq> []) (all_lines rest))"
    "\<forall>l \<in> set (all_lines rest). length l \<le> 1022" "set rest \<subseteq> set inp"
    using read_line_lines [OF assms(1)] .
  have "hd (all_lines inp) = takeWhile (\<lambda>c. c \<noteq> NL) inp" by (subst all_lines_eq) simp
  then have nul: "NUL \<notin> set (hd (all_lines inp))" using assms(2) by (auto dest: set_takeWhileD)
  have "NUL \<notin> set rest" using r(4) assms(2) by auto
  from uniq_loop_runs [OF r(3) this nul] show ?thesis
    unfolding process_uniq_def r(2) using r(1) by (subst uniq_loop.simps) (simp add: Let_def)
qed

lemma runs_le: "(l, n) \<in> set (runs eq ls) \<Longrightarrow> 0 < n \<and> n \<le> length ls \<and> l \<in> set ls"
proof (induction eq ls rule: runs.induct)
  case (2 eq l' ls)
  then show ?case
    using length_takeWhile_le [of "eq l'" ls] length_dropWhile_le [of "eq l'" ls]
    by (fastforce dest: set_dropWhileD)
qed simp

lemma all_lines_length: "length (all_lines inp) \<le> Suc (length inp)"
proof -
  have "length (fst (cut_lines cur inp)) \<le> length inp" for cur
    by (induction cur inp rule: cut_lines.induct) (auto simp: Let_def split_def)
  then show ?thesis by (simp add: all_lines_def)
qed

lemma all_lines_set: "l \<in> set (all_lines inp) \<Longrightarrow> set l \<subseteq> set inp"
proof (induction "length inp" arbitrary: inp rule: less_induct)
  case less
  let ?rest = "tl (dropWhile (\<lambda>c. c \<noteq> NL) inp)"
  have "set ?rest \<subseteq> set inp" by (metis list.set_sel(2) set_dropWhileD subsetI tl_Nil)
  moreover have "NL \<in> set inp \<Longrightarrow> length ?rest < length inp"
    using length_dropWhile_le [of "\<lambda>c. c \<noteq> NL" inp] by (cases inp) auto
  moreover have "set (takeWhile (\<lambda>c. c \<noteq> NL) inp) \<subseteq> set inp" by (auto dest: set_takeWhileD)
  ultimately show ?case
    using less.prems less.hyps [of ?rest] by (subst (asm) all_lines_eq) (fastforce split: if_splits)
qed

lemma uniq_emit_eq:
  assumes "NUL \<notin> set l" "0 < n" "n < 2 ^ 31"
  shows "uniq_emit cf dup (word_of_nat n) l =
    (if \<not> dup \<or> 1 < n then (if cf then printint (word_of_nat n) 10 True @ '' '' else []) @ l @ [NL] else [])"
proof -
  have "cstr l = l" using assms(1) by (auto simp: cstr_def takeWhile_eq_all_conv)
  moreover have "unat (word_of_nat n :: i32) = n" using assms by (simp add: unat_of_nat)
  then have "(1 :: i32) <s word_of_nat n \<longleftrightarrow> 1 < n" using assms by (subst sless_small) simp_all
  ultimately show ?thesis by (simp add: uniq_emit_def)
qed

lemma uniq_emit_runs:
  assumes "\<And>l n. (l, n) \<in> set rs \<Longrightarrow> NUL \<notin> set l \<and> 0 < n \<and> n < 2 ^ 31"
  shows "concat (map (\<lambda>(l, n). uniq_emit cf dup (word_of_nat n) l) rs) =
    concat (map (\<lambda>(l, n). (if cf then printint (word_of_nat n) 10 True @ '' '' else []) @ l @ [NL])
      (filter (\<lambda>(l, n). \<not> dup \<or> 1 < n) rs))"
  using assms
proof (induction rs)
  case (Cons p rs)
  obtain a b where p: "p = (a, b)" by (cases p)
  then have "NUL \<notin> set a" "0 < b" "b < 2 ^ 31" using Cons.prems [of a b] by simp_all
  note e = uniq_emit_eq [OF this, of cf dup]
  have "concat (map (\<lambda>(l, n). uniq_emit cf dup (word_of_nat n) l) rs) =
    concat (map (\<lambda>(l, n). (if cf then printint (word_of_nat n) 10 True @ '' '' else []) @ l @ [NL])
      (filter (\<lambda>(l, n). \<not> dup \<or> 1 < n) rs))"
    by (rule Cons.IH) (use Cons.prems in auto)
  then show ?case unfolding p by (simp add: e)
qed simp

text \<open>
  C33. \<open>uniq\<close> terminates and prints one line for each run of equal adjacent lines (equal up to the
  case of ASCII letters with \<open>-i\<close>), preceded by the length of the run with \<open>-c\<close>, and only the runs longer
  than one with \<open>-d\<close>.  It does so only up to the first empty line: \<open>read_line\<close> returns 0 for an empty
  line as it does at the end of the input.
\<close>

theorem uniq_correct:
  assumes "NUL \<notin> set inp" "\<forall>l \<in> set (all_lines inp). length l \<le> 1022" "length inp < 2 ^ 31 - 1"
  shows "process_uniq count_flag ignore_case duplicates inp =
    concat (map (\<lambda>(l, n). (if count_flag then printint (word_of_nat n) 10 True @ '' '' else []) @ l @ [NL])
      (filter (\<lambda>(l, n). \<not> duplicates \<or> 1 < n)
        (runs (same_line ignore_case) (takeWhile (\<lambda>l. l \<noteq> []) (all_lines inp)))))"
proof -
  define rs where "rs = runs (same_line ignore_case) (takeWhile (\<lambda>l. l \<noteq> []) (all_lines inp))"
  have "NUL \<notin> set l \<and> 0 < n \<and> n < 2 ^ 31" if "(l, n) \<in> set rs" for l n
  proof -
    have "l \<in> set (all_lines inp)" "0 < n" "n \<le> length (all_lines inp)"
      using runs_le [OF that [unfolded rs_def]] length_takeWhile_le [of "\<lambda>l. l \<noteq> []" "all_lines inp"]
      by (auto dest: set_takeWhileD)
    then show ?thesis using all_lines_set [of l inp] all_lines_length [of inp] assms by auto
  qed
  then have "concat (map (\<lambda>(l, n). uniq_emit count_flag duplicates (word_of_nat n) l) rs) =
      concat (map (\<lambda>(l, n). (if count_flag then printint (word_of_nat n) 10 True @ '' '' else []) @ l @ [NL])
        (filter (\<lambda>(l, n). \<not> duplicates \<or> 1 < n) rs))"
    by (rule uniq_emit_runs)
  then show ?thesis unfolding process_uniq_runs [OF assms(2,1)] rs_def .
qed

theorem uniq_correct_witness:
  "process_uniq True True False (''a'' @ NL # ''A'' @ NL # ''b'' @ NL # NL # ''c'' @ [NL]) =
     ''2 a'' @ NL # ''1 b'' @ [NL]"
proof -
  let ?inp = "''a'' @ NL # ''A'' @ NL # ''b'' @ NL # NL # ''c'' @ [NL]"
  have l: "all_lines ?inp = [''a'', ''A'', ''b'', [], ''c'', []]"
    by (simp add: all_lines_def NL_def)
  have p: "printint 1 10 True = ''1''" "printint 2 10 True = ''2''" by code_simp+
  have f: "fold_case (CHR ''a'') = 97" "fold_case (CHR ''A'') = 97" "fold_case (CHR ''b'') = 98" by code_simp+
  show ?thesis
    using uniq_correct [of ?inp True True False, unfolded l]
    by (simp add: NUL_def NL_def same_line_def f p)
qed

end
