(* ===== verification/Sh.thy ===== *)
theory Sh
  imports Ulib "HOL-Library.Sublist"
begin

text \<open>
  The command parser of the shell (src/sh.c).  A pointer into the command line is the suffix of the
  line it points to, \<open>es\<close> is the empty suffix, and \<open>*s\<close> at \<open>es\<close> is NUL.  A parsed command holds pointers
  to the beginning and the end of its words; \<open>nulterminate\<close> writes a NUL at the ends.  The mutually
  recursive parser functions count their nested calls down; the count used by \<open>parsecmd\<close> is shown to
  be enough for every line.
\<close>

unbundle bit_operations_syntax

subsection \<open>Commands\<close>

text \<open>\<open>'a\<close> is what stands for a word: a pair of pointers in the parser, a string in specifications.\<close>

datatype 'a cmd =
    EXEC "'a list"
  | REDIR "'a cmd" 'a u32 u32
  | PIPE "'a cmd" "'a cmd"
  | LIST "'a cmd" "'a cmd"
  | BACK "'a cmd"

type_synonym ptr = string
type_synonym word_ptrs = "ptr \<times> ptr"

datatype 'a presult = Ok 'a | Stop string | Fuel

fun pthen :: "'a presult \<Rightarrow> ('a \<Rightarrow> 'b presult) \<Rightarrow> 'b presult" where
  "pthen (Ok x) f = f x"
| "pthen (Stop m) f = Stop m"
| "pthen Fuel f = Fuel"

definition MAXARGS :: nat where "MAXARGS = 10"
definition O_RDONLY :: u32 where "O_RDONLY = 0"
definition O_WRONLY :: u32 where "O_WRONLY = 1"
definition O_CREATE :: u32 where "O_CREATE = 0x200"

subsection \<open>Tokens\<close>

definition whitespace :: string where
  "whitespace = [CHR '' '', CHR 0x09, CHR 0x0D, CHR 0x0A, CHR 0x0B]"

definition symbols :: string where
  "symbols = ''<|>&;()''"

fun skip_ws :: "ptr \<Rightarrow> ptr" where
  "skip_ws [] = []"
| "skip_ws (c # s) = (if strchr whitespace c \<noteq> None then skip_ws s else c # s)"

fun skip_word :: "ptr \<Rightarrow> ptr" where
  "skip_word [] = []"
| "skip_word (c # s) = (if strchr whitespace c = None \<and> strchr symbols c = None then skip_word s else c # s)"

text \<open>The \<open>switch\<close> of \<open>gettoken\<close>: the token at \<open>q\<close> and the pointer behind it.\<close>

definition token_at :: "ptr \<Rightarrow> char \<times> ptr" where
  "token_at q =
     (case q of
        [] \<Rightarrow> (NUL, q)
      | c # s \<Rightarrow>
          if c \<in> set ''|();&<'' then (c, s)
          else if c = CHR ''>'' then
            (case s of [] \<Rightarrow> (c, s) | d # s' \<Rightarrow> if d = CHR ''>'' then (CHR ''+'', s') else (c, s))
          else if c = NUL then (NUL, q)
          else (CHR ''a'', skip_word q))"

text \<open>The result is the token, \<open>*q\<close>, \<open>*eq\<close> and the new \<open>*ps\<close>.\<close>

definition gettoken :: "ptr \<Rightarrow> char \<times> ptr \<times> ptr \<times> ptr" where
  "gettoken ps = (let q = skip_ws ps; (ret, eq) = token_at q in (ret, q, eq, skip_ws eq))"

definition peek :: "ptr \<Rightarrow> string \<Rightarrow> bool \<times> ptr" where
  "peek ps toks =
     (let s = skip_ws ps in
      (case s of [] \<Rightarrow> False | c # _ \<Rightarrow> c \<noteq> NUL \<and> strchr toks c \<noteq> None, s))"

definition token_rest :: "ptr \<Rightarrow> ptr" where
  "token_rest s = (case gettoken s of (tok, q, eq, s') \<Rightarrow> s')"

lemma skip_ws_suffix: "suffix (skip_ws s) s"
  by (induction s) (auto intro: suffix_ConsI)

lemma skip_word_suffix: "suffix (skip_word s) s"
  by (induction s) (auto intro: suffix_ConsI)

lemma skip_ws_idem [simp]: "skip_ws (skip_ws s) = skip_ws s"
  by (induction s) auto

lemma peek_eq: "peek s toks = (skip_ws s \<noteq> [] \<and> hd (skip_ws s) \<noteq> NUL \<and> hd (skip_ws s) \<in> set toks, skip_ws s)"
proof -
  have "strchr toks c \<noteq> None \<longleftrightarrow> c \<in> set toks" for c by (induction toks) auto
  then show ?thesis by (auto simp: peek_def Let_def split: list.split)
qed

lemma gettoken_eq: "gettoken s = (fst (token_at (skip_ws s)), skip_ws s, snd (token_at (skip_ws s)), skip_ws (snd (token_at (skip_ws s))))"
  by (simp add: gettoken_def Let_def split_def)

lemma token_at_suffix: "suffix (snd (token_at q)) q"
proof (cases q)
  case (Cons c s)
  then show ?thesis
    using skip_word_suffix [of q] by (cases s) (simp_all add: token_at_def suffix_ConsI)
qed (simp add: token_at_def)

lemma gettoken_suffix:
  assumes "gettoken s = (tok, q, eq, s')"
  shows "suffix q s" "suffix eq q" "suffix s' eq"
  using assms token_at_suffix [of q] by (auto simp: gettoken_eq skip_ws_suffix)

lemma gettoken_length: "gettoken s = (tok, q, eq, s') \<Longrightarrow> length s' \<le> length s"
  by (meson gettoken_suffix suffix_length_le order_trans)

lemma token_rest_suffix: "suffix (token_rest s) s"
proof -
  obtain tok q eq s' where t: "gettoken s = (tok, q, eq, s')" by (metis prod_cases4)
  from gettoken_suffix [OF t] show ?thesis
    unfolding token_rest_def t by (auto intro: suffix_order.trans)
qed

lemma skip_ws_head: "skip_ws s = c # s1 \<Longrightarrow> strchr whitespace c = None"
  by (induction s) (auto split: if_splits)

lemma skip_ws_length: "length (skip_ws s) \<le> length s"
  by (rule suffix_length_le [OF skip_ws_suffix])

lemma skip_word_length: "length (skip_word s) \<le> length s"
  by (rule suffix_length_le [OF skip_word_suffix])

lemma symbol_cases:
  "strchr symbols c \<noteq> None \<longleftrightarrow> c \<in> set ''|();&<'' \<or> c = CHR ''>''"
  by (auto simp: symbols_def split: if_splits)

lemma token_rest_Cons:
  assumes "strchr whitespace c = None" "c \<noteq> NUL"
  shows "length (token_rest (c # s)) \<le> length s"
proof -
  have q: "skip_ws (c # s) = c # s" using assms by simp
  have "length (snd (token_at (c # s))) \<le> length s"
  proof (cases "strchr symbols c = None")
    case True
    then have "\<not> (c \<in> set ''|();&<'')" "c \<noteq> CHR ''>''" "skip_word (c # s) = skip_word s"
      using symbol_cases [of c] assms by auto
    then show ?thesis using skip_word_length [of s] assms(2) by (simp add: token_at_def)
  next
    case False
    then have "c \<in> set ''|();&<'' \<or> c = CHR ''>''" using symbol_cases [of c] by simp
    then show ?thesis by (elim disjE) (cases s; simp add: token_at_def)+
  qed
  then show ?thesis
    using skip_ws_length [of "snd (token_at (c # s))"] unfolding token_rest_def gettoken_eq q by simp
qed

lemma token_rest_shorter:
  assumes "fst (peek s toks)"
  shows "length (token_rest (snd (peek s toks))) < length s"
proof -
  obtain c s1 where s1: "skip_ws s = c # s1" and "c \<noteq> NUL"
    using assms by (cases "skip_ws s") (auto simp: peek_eq)
  then show ?thesis
    using token_rest_Cons [OF skip_ws_head [OF s1], of s1] skip_ws_length [of s] by (simp add: peek_eq)
qed

subsection \<open>The parser\<close>

text \<open>\<open>while(peek(ps, es, "&"))\<close> of \<open>parseline\<close>.\<close>

function parsebacks :: "'a cmd \<Rightarrow> ptr \<Rightarrow> 'a cmd \<times> ptr" where
  "parsebacks cmd s =
     (let (b, s1) = peek s ''&'' in
      if b then parsebacks (BACK cmd) (token_rest s1) else (cmd, s1))"
  by pat_completeness auto
termination
  by (relation "measure (\<lambda>(cmd, s). length s)") (auto, metis fst_conv snd_conv token_rest_shorter)

declare parsebacks.simps [simp del]

lemma redir_shorter:
  "peek s toks = (True, s1) \<Longrightarrow> gettoken s1 = (tok, q0, eq0, s2) \<Longrightarrow> gettoken s2 = (t, q, eq, s3) \<Longrightarrow> length s3 < length s"
  using token_rest_shorter [of s toks] gettoken_length [of s2 t q eq s3] by (simp add: token_rest_def)

function parseredirs :: "word_ptrs cmd \<Rightarrow> ptr \<Rightarrow> (word_ptrs cmd \<times> ptr) presult" where
  "parseredirs cmd s =
     (case peek s ''<>'' of (b, s1) \<Rightarrow>
      if b then
        (case gettoken s1 of (tok, _, _, s2) \<Rightarrow>
         case gettoken s2 of (t, q, eq, s3) \<Rightarrow>
         if t \<noteq> CHR ''a'' then Stop ''missing file for redirection''
         else if tok = CHR ''<'' then parseredirs (REDIR cmd (q, eq) O_RDONLY 0) s3
         else if tok = CHR ''>'' then parseredirs (REDIR cmd (q, eq) (O_WRONLY OR O_CREATE) 1) s3
         else if tok = CHR ''+'' then parseredirs (REDIR cmd (q, eq) (O_WRONLY OR O_CREATE) 1) s3
         else parseredirs cmd s3)
      else Ok (cmd, s1))"
  by pat_completeness auto
termination
  by (relation "measure (\<lambda>(cmd, s). length s)") (simp_all, (metis redir_shorter)+)

declare parseredirs.simps [simp del]

text \<open>\<open>cmd->argv[argc] = q; cmd->eargv[argc] = eq\<close>: the word is added to the \<open>execcmd\<close> below the
  redirections that have been wrapped around it.\<close>

primrec add_arg :: "'a \<Rightarrow> 'a cmd \<Rightarrow> 'a cmd" where
  "add_arg w (EXEC args) = EXEC (args @ [w])"
| "add_arg w (REDIR cmd f mode fd) = REDIR (add_arg w cmd) f mode fd"
| "add_arg w (PIPE l r) = PIPE l r"
| "add_arg w (LIST l r) = LIST l r"
| "add_arg w (BACK cmd) = BACK cmd"

function parseargs :: "word_ptrs cmd \<Rightarrow> nat \<Rightarrow> ptr \<Rightarrow> (word_ptrs cmd \<times> ptr) presult" where
  "parseargs ret argc s =
     (case peek s ''|)&;'' of (b, s1) \<Rightarrow>
      if b then Ok (ret, s1)
      else
        (case gettoken s1 of (tok, q, eq, s2) \<Rightarrow>
         if tok = NUL then Ok (ret, s2)
         else if tok \<noteq> CHR ''a'' then Stop ''syntax''
         else if argc + 1 \<ge> MAXARGS then Stop ''too many args''
         else pthen (parseredirs (add_arg (q, eq) ret) s2) (\<lambda>(ret, s3). parseargs ret (argc + 1) s3)))"
  by pat_completeness auto
termination
  by (relation "measure (\<lambda>(ret, argc, s). MAXARGS - argc)") auto

declare parseargs.simps [simp del]

fun parseline :: "nat \<Rightarrow> ptr \<Rightarrow> (word_ptrs cmd \<times> ptr) presult"
  and parsepipe :: "nat \<Rightarrow> ptr \<Rightarrow> (word_ptrs cmd \<times> ptr) presult"
  and parseblock :: "nat \<Rightarrow> ptr \<Rightarrow> (word_ptrs cmd \<times> ptr) presult"
  and parseexec :: "nat \<Rightarrow> ptr \<Rightarrow> (word_ptrs cmd \<times> ptr) presult" where
  "parseline 0 s = Fuel"
| "parseline (Suc fuel) s =
     pthen (parsepipe fuel s) (\<lambda>(cmd, s).
       case parsebacks cmd s of (cmd, s) \<Rightarrow>
       case peek s '';'' of (b, s) \<Rightarrow>
       if b then pthen (parseline fuel (token_rest s)) (\<lambda>(right, s). Ok (LIST cmd right, s))
       else Ok (cmd, s))"
| "parsepipe 0 s = Fuel"
| "parsepipe (Suc fuel) s =
     pthen (parseexec fuel s) (\<lambda>(cmd, s).
       case peek s ''|'' of (b, s) \<Rightarrow>
       if b then pthen (parsepipe fuel (token_rest s)) (\<lambda>(right, s). Ok (PIPE cmd right, s))
       else Ok (cmd, s))"
| "parseblock 0 s = Fuel"
| "parseblock (Suc fuel) s =
     (case peek s ''('' of (b, s) \<Rightarrow>
      if \<not> b then Stop ''parseblock''
      else pthen (parseline fuel (token_rest s)) (\<lambda>(cmd, s).
        case peek s '')'' of (b, s) \<Rightarrow>
        if \<not> b then Stop ''syntax - missing )''
        else parseredirs cmd (token_rest s)))"
| "parseexec 0 s = Fuel"
| "parseexec (Suc fuel) s =
     (case peek s ''('' of (b, s) \<Rightarrow>
      if b then parseblock fuel s
      else pthen (parseredirs (EXEC []) s) (\<lambda>(ret, s). parseargs ret 0 s))"

definition enough_fuel :: "ptr \<Rightarrow> nat" where
  "enough_fuel s = 4 * length s + 4"

definition nul_at :: "string \<Rightarrow> ptr \<Rightarrow> string" where
  "nul_at buf p = buf[length buf - length p := NUL]"

primrec nulterminate :: "word_ptrs cmd \<Rightarrow> string \<Rightarrow> string" where
  "nulterminate (EXEC args) buf = fold (\<lambda>(q, eq) buf. nul_at buf eq) args buf"
| "nulterminate (REDIR cmd f mode fd) buf = nul_at (nulterminate cmd buf) (snd f)"
| "nulterminate (PIPE l r) buf = nulterminate r (nulterminate l buf)"
| "nulterminate (LIST l r) buf = nulterminate r (nulterminate l buf)"
| "nulterminate (BACK cmd) buf = nulterminate cmd buf"

text \<open>The result is the command and the command line with the NULs in it.\<close>

definition parsecmd :: "string \<Rightarrow> (word_ptrs cmd \<times> string) presult" where
  "parsecmd s =
     pthen (parseline (enough_fuel s) s) (\<lambda>(cmd, s').
       case peek s' [] of (b, s') \<Rightarrow>
       if s' \<noteq> [] then Stop ''syntax'' else Ok (cmd, nulterminate cmd s))"

subsection \<open>The parser consumes the line and always ends\<close>

lemma pthen_Ok_iff: "pthen m f = Ok y \<longleftrightarrow> (\<exists>x. m = Ok x \<and> f x = Ok y)"
  by (cases m) auto

lemma pthen_Fuel_iff: "pthen m f = Fuel \<longleftrightarrow> m = Fuel \<or> (\<exists>x. m = Ok x \<and> f x = Fuel)"
  by (cases m) auto

lemma peek_suffix: "peek s toks = (b, s1) \<Longrightarrow> suffix s1 s"
  using skip_ws_suffix [of s] by (auto simp: peek_eq)

lemma parsebacks_suffix: "parsebacks cmd s = (cmd', s') \<Longrightarrow> suffix s' s"
proof (induction cmd s rule: parsebacks.induct)
  case (1 cmd s)
  obtain b s1 where p: "peek s ''&'' = (b, s1)" by (metis surj_pair)
  show ?case
  proof (cases b)
    case True
    then have "parsebacks (BACK cmd) (token_rest s1) = (cmd', s')"
      using "1.prems" p by (subst (asm) parsebacks.simps) simp
    from "1.IH" [OF refl p [symmetric] True this] show ?thesis
      using peek_suffix [OF p] token_rest_suffix [of s1] by (meson suffix_order.trans)
  next
    case False
    then show ?thesis using "1.prems" p peek_suffix [OF p] by (subst (asm) parsebacks.simps) simp
  qed
qed

lemma peek_redir_token:
  assumes "peek s ''<>'' = (True, s1)" "gettoken s1 = (tok, q, eq, s2)"
  shows "tok = CHR ''<'' \<or> tok = CHR ''>'' \<or> tok = CHR ''+''"
proof -
  have "skip_ws s1 = s1" "s1 \<noteq> []" "hd s1 = CHR ''<'' \<or> hd s1 = CHR ''>''"
    using assms(1) by (auto simp: peek_eq)
  then show ?thesis
    using assms(2) by (cases s1) (auto simp: gettoken_eq token_at_def split: list.splits if_splits)
qed

text \<open>The modes and descriptors of \<open>parseredirs\<close>.\<close>

definition redir_mode :: "u32 \<Rightarrow> u32 \<Rightarrow> bool" where
  "redir_mode mode fd \<longleftrightarrow> (mode, fd) \<in> {(O_RDONLY, 0), (O_WRONLY OR O_CREATE, 1)}"

lemma parseredirs_induct:
  assumes stop: "\<And>cmd s s1. peek s ''<>'' = (False, s1) \<Longrightarrow> P cmd s (Ok (cmd, s1))"
    and bad: "\<And>cmd s s1 tok q0 eq0 s2 m. peek s ''<>'' = (True, s1) \<Longrightarrow> gettoken s1 = (tok, q0, eq0, s2) \<Longrightarrow>
      fst (gettoken s2) \<noteq> CHR ''a'' \<Longrightarrow> P cmd s (Stop m)"
    and more: "\<And>cmd s s1 tok q0 eq0 s2 q eq s3 mode fd r. peek s ''<>'' = (True, s1) \<Longrightarrow>
      gettoken s1 = (tok, q0, eq0, s2) \<Longrightarrow> gettoken s2 = (CHR ''a'', q, eq, s3) \<Longrightarrow> redir_mode mode fd \<Longrightarrow>
      P (REDIR cmd (q, eq) mode fd) s3 r \<Longrightarrow> P cmd s r"
  shows "P cmd s (parseredirs cmd s)"
proof (induction "length s" arbitrary: cmd s rule: less_induct)
  case less
  obtain b s1 where p: "peek s ''<>'' = (b, s1)" by (metis surj_pair)
  obtain tok q0 eq0 s2 where t: "gettoken s1 = (tok, q0, eq0, s2)" by (metis prod_cases4)
  obtain t' q eq s3 where u: "gettoken s2 = (t', q, eq, s3)" by (metis prod_cases4)
  consider "\<not> b" | "b" "t' \<noteq> CHR ''a''" | "b" "t' = CHR ''a''" by blast
  then show ?case
  proof cases
    case 1
    then show ?thesis using p stop by (subst parseredirs.simps) simp
  next
    case 2
    then show ?thesis using p t u bad [of s s1 tok q0 eq0 s2] by (subst parseredirs.simps) simp
  next
    case 3
    have short: "length s3 < length s" using redir_shorter [OF _ t u] p 3 by simp
    have "parseredirs cmd s = (if tok = CHR ''<'' then parseredirs (REDIR cmd (q, eq) O_RDONLY 0) s3
        else parseredirs (REDIR cmd (q, eq) (O_WRONLY OR O_CREATE) 1) s3)"
      using p t u 3 peek_redir_token [of s s1 tok q0 eq0 s2] by (subst parseredirs.simps) auto
    moreover have "P cmd s (parseredirs (REDIR cmd (q, eq) mode fd) s3)" if "redir_mode mode fd" for mode fd
      by (rule more [OF p [unfolded eqTrueI [OF 3(1)]] t u [unfolded 3(2)] that less [OF short]])
    ultimately show ?thesis by (auto simp: redir_mode_def)
  qed
qed

lemma parseargs_induct:
  assumes stop: "\<And>ret argc s s1. peek s ''|)&;'' = (True, s1) \<Longrightarrow> P ret argc s (Ok (ret, s1))"
    and nul: "\<And>ret argc s s1 q eq s2. peek s ''|)&;'' = (False, s1) \<Longrightarrow> gettoken s1 = (NUL, q, eq, s2) \<Longrightarrow>
      P ret argc s (Ok (ret, s2))"
    and bad: "\<And>ret argc s m. P ret argc s (Stop m)"
    and none: "\<And>ret s w. parseredirs (add_arg w ret) s \<noteq> Fuel"
    and more: "\<And>ret argc s s1 q eq s2 ret' s3 r. peek s ''|)&;'' = (False, s1) \<Longrightarrow>
      gettoken s1 = (CHR ''a'', q, eq, s2) \<Longrightarrow> argc + 1 < MAXARGS \<Longrightarrow>
      parseredirs (add_arg (q, eq) ret) s2 = Ok (ret', s3) \<Longrightarrow> P ret' (argc + 1) s3 r \<Longrightarrow> P ret argc s r"
  shows "P ret argc s (parseargs ret argc s)"
proof (induction "MAXARGS - argc" arbitrary: ret argc s rule: less_induct)
  case less
  obtain b s1 where p: "peek s ''|)&;'' = (b, s1)" by (metis surj_pair)
  obtain tok q eq s2 where t: "gettoken s1 = (tok, q, eq, s2)" by (metis prod_cases4)
  consider "b" | "\<not> b" "tok = NUL" | "\<not> b" "tok \<noteq> NUL" "tok \<noteq> CHR ''a'' \<or> argc + 1 \<ge> MAXARGS"
    | "\<not> b" "tok = CHR ''a''" "argc + 1 < MAXARGS" by fastforce
  then show ?case
  proof cases
    case 4
    have "tok \<noteq> NUL" using 4 by (simp add: NUL_def)
    then have e: "parseargs ret argc s =
        pthen (parseredirs (add_arg (q, eq) ret) s2) (\<lambda>(ret, s3). parseargs ret (argc + 1) s3)"
      using p t 4 by (subst parseargs.simps) simp
    show ?thesis
    proof (cases "parseredirs (add_arg (q, eq) ret) s2")
      case (Ok x)
      obtain ret' s3 where x: "x = (ret', s3)" by (cases x)
      have "P ret' (argc + 1) s3 (parseargs ret' (argc + 1) s3)" using 4 by (intro less) simp
      then show ?thesis
        unfolding e Ok x using more [of s s1 q eq s2 argc ret ret' s3] p t 4 Ok x by simp
    qed (use e bad none in auto)
  qed (use p t stop nul bad in \<open>subst parseargs.simps, auto\<close>)+
qed

lemma parseredirs_no_fuel: "parseredirs cmd s \<noteq> Fuel"
  by (rule parseredirs_induct) auto

lemmas parseargs_induct' = parseargs_induct [OF _ _ _ parseredirs_no_fuel, consumes 0]

lemma gettoken_rest_suffix: "gettoken s = (tok, q, eq, s') \<Longrightarrow> suffix s' s"
  by (meson gettoken_suffix suffix_order.trans)

text \<open>
  A word of a command on the line \<open>S\<close>: it is not empty, has no separators in it and is followed by a
  separator or the end of the line.
\<close>

definition separator :: "char \<Rightarrow> bool" where
  "separator c \<longleftrightarrow> c \<in> set whitespace \<or> c \<in> set symbols"

definition tok_text :: "word_ptrs \<Rightarrow> string" where
  "tok_text w = take (length (fst w) - length (snd w)) (fst w)"

definition good_word :: "string \<Rightarrow> word_ptrs \<Rightarrow> bool" where
  "good_word S w \<longleftrightarrow> suffix (fst w) S \<and> fst w = tok_text w @ snd w \<and> tok_text w \<noteq> [] \<and>
     (\<forall>c \<in> set (tok_text w). \<not> separator c) \<and> (snd w = [] \<or> separator (hd (snd w)))"

lemma strchr_iff: "strchr toks c \<noteq> None \<longleftrightarrow> c \<in> set toks"
  by (induction toks) auto

lemma separator_iff: "\<not> separator c \<longleftrightarrow> strchr whitespace c = None \<and> strchr symbols c = None"
  using strchr_iff [of whitespace c] strchr_iff [of symbols c] by (auto simp: separator_def)

lemma skip_word_eq: "skip_word s = dropWhile (\<lambda>c. \<not> separator c) s"
  by (induction s) (auto simp: separator_iff)

lemma gettoken_good:
  assumes "gettoken s = (CHR ''a'', q, eq, s')" "suffix s S"
  shows "good_word S (q, eq)"
proof -
  let ?P = "\<lambda>c. \<not> separator c"
  have q: "q = skip_ws s" and t: "token_at q = (CHR ''a'', eq)"
    using assms(1) by (auto simp: gettoken_eq prod_eq_iff)
  obtain c r where c: "q = c # r" and eq: "eq = dropWhile ?P q" and "strchr symbols c = None"
    using t symbol_cases [of "hd q"] unfolding token_at_def skip_word_eq
    by (cases q) (auto simp: NUL_def split: list.splits if_splits)
  then have sep: "\<not> separator c" using skip_ws_head [of s c r] q c by (simp add: separator_iff)
  have tt: "tok_text (q, eq) = takeWhile ?P q"
  proof -
    have "length q - length eq = length (takeWhile ?P q)" unfolding eq
      by (metis add_diff_cancel_right' length_append takeWhile_dropWhile_id)
    then show ?thesis by (simp add: tok_text_def flip: takeWhile_eq_take)
  qed
  have "suffix q S" using assms(2) skip_ws_suffix [of s] q by (metis suffix_order.trans)
  moreover have "eq = [] \<or> separator (hd eq)" using hd_dropWhile [of ?P q] unfolding eq by blast
  ultimately show ?thesis
    using sep unfolding good_word_def tt by (auto simp: eq c dest: set_takeWhileD)
qed

definition parses :: "string \<Rightarrow> ptr \<Rightarrow> (word_ptrs cmd \<times> ptr) presult \<Rightarrow> bool" where
  "parses S s r \<longleftrightarrow> (\<forall>cmd s'. r = Ok (cmd, s') \<longrightarrow> suffix s' s \<and> (\<forall>w \<in> set_cmd cmd. good_word S w))"

lemma parses_intros:
  "suffix s' s \<Longrightarrow> \<forall>w \<in> set_cmd cmd. good_word S w \<Longrightarrow> parses S s (Ok (cmd, s'))"
  "parses S s (Stop m)" "parses S s Fuel"
  by (simp_all add: parses_def)

lemma parses_suffix: "parses S s1 r \<Longrightarrow> suffix s1 s \<Longrightarrow> parses S s r"
  by (auto simp: parses_def intro: suffix_order.trans)

lemma parses_pthen:
  assumes "parses S s m" "suffix s S"
    "\<And>cmd s'. suffix s' s \<Longrightarrow> suffix s' S \<Longrightarrow> \<forall>w \<in> set_cmd cmd. good_word S w \<Longrightarrow> parses S s' (f (cmd, s'))"
  shows "parses S s (pthen m f)"
proof (cases m)
  case (Ok x)
  obtain cmd s' where x: "x = (cmd, s')" by (cases x)
  then have "suffix s' s" "\<forall>w \<in> set_cmd cmd. good_word S w" using assms(1) Ok by (auto simp: parses_def)
  with assms(2,3) show ?thesis unfolding Ok x by (auto intro: parses_suffix suffix_order.trans)
qed (simp_all add: parses_def)

lemma parseredirs_parses:
  assumes "suffix s S" "\<forall>w \<in> set_cmd cmd. good_word S w"
  shows "parses S s (parseredirs cmd s)"
proof -
  have "suffix s S \<longrightarrow> (\<forall>w \<in> set_cmd cmd. good_word S w) \<longrightarrow> parses S s (parseredirs cmd s)"
  proof (rule parseredirs_induct [where P = "\<lambda>cmd s r. suffix s S \<longrightarrow> (\<forall>w \<in> set_cmd cmd. good_word S w) \<longrightarrow> parses S s r"])
    fix cmd s s1 tok q0 eq0 s2 q eq s3 mode fd r
    assume a: "peek s ''<>'' = (True, s1)" "gettoken s1 = (tok, q0, eq0, s2)" "gettoken s2 = (CHR ''a'', q, eq, s3)"
      and IH: "suffix s3 S \<longrightarrow> (\<forall>w \<in> set_cmd (REDIR cmd (q, eq) mode fd). good_word S w) \<longrightarrow> parses S s3 r"
    have "suffix s2 s" "suffix s3 s"
      using a peek_suffix gettoken_rest_suffix by (blast intro: suffix_order.trans)+
    then show "suffix s S \<longrightarrow> (\<forall>w \<in> set_cmd cmd. good_word S w) \<longrightarrow> parses S s r"
      using IH gettoken_good [OF a(3), of S] by (auto intro: parses_suffix suffix_order.trans)
  qed (auto intro: parses_intros peek_suffix)
  with assms show ?thesis by blast
qed

lemma parseargs_no_fuel: "parseargs ret argc s \<noteq> Fuel"
  by (rule parseargs_induct' [where P = "\<lambda>ret argc s r. r \<noteq> Fuel"]) auto

lemma set_add_arg: "set_cmd (add_arg w cmd) \<subseteq> insert w (set_cmd cmd)"
  by (induction cmd) auto

lemma parseargs_parses:
  assumes "suffix s S" "\<forall>w \<in> set_cmd ret. good_word S w"
  shows "parses S s (parseargs ret argc s)"
proof -
  have "suffix s S \<longrightarrow> (\<forall>w \<in> set_cmd ret. good_word S w) \<longrightarrow> parses S s (parseargs ret argc s)"
  proof (rule parseargs_induct' [where P = "\<lambda>ret argc s r. suffix s S \<longrightarrow> (\<forall>w \<in> set_cmd ret. good_word S w) \<longrightarrow> parses S s r"])
    fix ret s s1 q eq s2 ret' s3 r and argc :: nat
    assume a: "peek s ''|)&;'' = (False, s1)" "gettoken s1 = (CHR ''a'', q, eq, s2)"
        "parseredirs (add_arg (q, eq) ret) s2 = Ok (ret', s3)"
      and IH: "suffix s3 S \<longrightarrow> (\<forall>w \<in> set_cmd ret'. good_word S w) \<longrightarrow> parses S s3 r"
    have s: "suffix s1 s" "suffix s2 s" using a peek_suffix gettoken_rest_suffix by (blast intro: suffix_order.trans)+
    show "suffix s S \<longrightarrow> (\<forall>w \<in> set_cmd ret. good_word S w) \<longrightarrow> parses S s r"
    proof (intro impI)
      assume b: "suffix s S" "\<forall>w \<in> set_cmd ret. good_word S w"
      then have "good_word S (q, eq)" using gettoken_good [OF a(2)] s by (blast intro: suffix_order.trans)
      then have "parses S s2 (Ok (ret', s3))"
        using parseredirs_parses [of s2 S "add_arg (q, eq) ret"] set_add_arg [of "(q, eq)" ret] a(3) b s
        by (auto intro: suffix_order.trans)
      then show "parses S s r"
        using IH b s by (auto simp: parses_def intro: suffix_order.trans)
    qed
  qed (auto intro!: parses_intros dest!: peek_suffix gettoken_rest_suffix intro: suffix_order.trans)
  with assms show ?thesis by blast
qed

lemma parsebacks_set: "set_cmd (fst (parsebacks cmd s)) = set_cmd cmd"
proof (induction cmd s rule: parsebacks.induct)
  case (1 cmd s)
  obtain b s1 where p: "peek s ''&'' = (b, s1)" by (metis surj_pair)
  show ?case using "1.IH" [OF refl p [symmetric]] p by (subst parsebacks.simps) auto
qed

lemma parses_rest: "parses S (token_rest s1) r \<Longrightarrow> peek s toks = (b, s1) \<Longrightarrow> parses S s r"
  using peek_suffix token_rest_suffix by (blast intro: parses_suffix)

lemma rest_suffix: "suffix s S \<Longrightarrow> peek s toks = (b, s1) \<Longrightarrow> suffix (token_rest s1) S"
  using peek_suffix token_rest_suffix by (blast intro: suffix_order.trans)

lemma parses_list:
  assumes "\<And>s. suffix s S \<Longrightarrow> parses S s (pl s)" "suffix s S" "\<forall>w \<in> set_cmd cmd. good_word S w"
  shows "parses S s (case parsebacks cmd s of (cmd, s) \<Rightarrow> case peek s '';'' of (b, s) \<Rightarrow>
    if b then pthen (pl (token_rest s)) (\<lambda>(right, s). Ok (LIST cmd right, s)) else Ok (cmd, s))"
proof -
  obtain cmd' s2 where b: "parsebacks cmd s = (cmd', s2)" by (metis surj_pair)
  have c': "\<forall>w \<in> set_cmd cmd'. good_word S w" using assms(3) parsebacks_set [of cmd s] b by simp
  have s2: "suffix s2 s" "suffix s2 S" using parsebacks_suffix [OF b] assms(2) by (auto intro: suffix_order.trans)
  obtain p s3 where p: "peek s2 '';'' = (p, s3)" by (metis surj_pair)
  have "parses S (token_rest s3) (pthen (pl (token_rest s3)) (\<lambda>(right, s). Ok (LIST cmd' right, s)))"
    using c' by (intro parses_pthen assms(1) rest_suffix [OF s2(2) p]) (auto simp: parses_def)
  then show ?thesis
    using parses_suffix [OF parses_rest [OF _ p] s2(1)]
      parses_intros(1) [OF suffix_order.trans [OF peek_suffix [OF p] s2(1)] c']
    by (simp add: b p)
qed

lemma parses_pipe:
  assumes "\<And>s. suffix s S \<Longrightarrow> parses S s (pp s)" "suffix s S" "\<forall>w \<in> set_cmd cmd. good_word S w"
  shows "parses S s (case peek s ''|'' of (b, s) \<Rightarrow>
    if b then pthen (pp (token_rest s)) (\<lambda>(right, s). Ok (PIPE cmd right, s)) else Ok (cmd, s))"
proof -
  obtain p s3 where p: "peek s ''|'' = (p, s3)" by (metis surj_pair)
  have "parses S (token_rest s3) (pthen (pp (token_rest s3)) (\<lambda>(right, s). Ok (PIPE cmd right, s)))"
    using assms(3) by (intro parses_pthen assms(1) rest_suffix [OF assms(2) p]) (auto simp: parses_def)
  then show ?thesis
    using parses_rest [OF _ p] parses_intros(1) [OF peek_suffix [OF p] assms(3)] by (simp add: p)
qed

lemma parses_block:
  assumes "suffix s S" "\<forall>w \<in> set_cmd cmd. good_word S w"
  shows "parses S s (case peek s '')'' of (b, s) \<Rightarrow>
    if \<not> b then Stop ''syntax - missing )'' else parseredirs cmd (token_rest s))"
proof -
  obtain p s3 where p: "peek s '')'' = (p, s3)" by (metis surj_pair)
  show ?thesis
    using parses_rest [OF parseredirs_parses [OF rest_suffix [OF assms(1) p] assms(2)] p]
    by (simp add: p parses_intros)
qed

lemma parses_line:
  "suffix s S \<Longrightarrow> parses S s (parseline f s)"
  "suffix s S \<Longrightarrow> parses S s (parsepipe f s)"
  "suffix s S \<Longrightarrow> parses S s (parseblock f s)"
  "suffix s S \<Longrightarrow> parses S s (parseexec f s)"
proof (induction f arbitrary: s)
  case (Suc f)
  {
    case 1
    then show ?case
      unfolding parseline.simps by (intro parses_pthen) (auto simp only: prod.case intro: parses_list Suc.IH)
  next
    case 2
    then show ?case
      unfolding parsepipe.simps by (intro parses_pthen) (auto simp only: prod.case intro: parses_pipe Suc.IH)
  next
    case 3
    obtain p s1 where p: "peek s ''('' = (p, s1)" by (metis surj_pair)
    have "parses S (token_rest s1) (pthen (parseline f (token_rest s1)) (\<lambda>(cmd, s).
        case peek s '')'' of (b, s) \<Rightarrow> if \<not> b then Stop ''syntax - missing )'' else parseredirs cmd (token_rest s)))"
      using rest_suffix [OF 3 p] by (intro parses_pthen) (auto simp only: prod.case intro: parses_block Suc.IH)
    then show ?case using parses_rest [OF _ p] by (simp add: p parses_intros)
  next
    case 4
    obtain p s1 where p: "peek s ''('' = (p, s1)" by (metis surj_pair)
    have s1: "suffix s1 S" using peek_suffix [OF p] 4 by (auto intro: suffix_order.trans)
    have "parses S s1 (pthen (parseredirs (EXEC []) s1) (\<lambda>(ret, s). parseargs ret 0 s))"
      using s1 by (intro parses_pthen parseredirs_parses) (auto intro: parseargs_parses)
    then show ?case using parses_suffix [OF _ peek_suffix [OF p]] Suc.IH(3) [OF s1] by (simp add: p)
  }
qed (simp_all add: parses_intros)

lemma parse_length:
  "parseline f s = Ok (cmd, s') \<Longrightarrow> length s' \<le> length s"
  "parsepipe f s = Ok (cmd, s') \<Longrightarrow> length s' \<le> length s"
  "parseexec f s = Ok (cmd, s') \<Longrightarrow> length s' \<le> length s"
  using parses_line [of s s f] by (auto simp: parses_def intro: suffix_length_le)

lemma token_rest_peek: "peek s toks = (True, s1) \<Longrightarrow> Suc (length (token_rest s1)) \<le> length s"
  using token_rest_shorter [of s toks] by simp

lemma peek_length: "peek s toks = (b, s1) \<Longrightarrow> length s1 \<le> length s"
  by (rule suffix_length_le [OF peek_suffix])

lemma parsebacks_length: "parsebacks cmd s = (cmd', s1) \<Longrightarrow> length s1 \<le> length s"
  by (rule suffix_length_le [OF parsebacks_suffix])

lemma parse_fuel:
  "4 * length s + 4 \<le> f \<Longrightarrow> parseline f s \<noteq> Fuel"
  "4 * length s + 3 \<le> f \<Longrightarrow> parsepipe f s \<noteq> Fuel"
  "4 * length s + 1 \<le> f \<Longrightarrow> parseblock f s \<noteq> Fuel"
  "4 * length s + 2 \<le> f \<Longrightarrow> parseexec f s \<noteq> Fuel"
proof (induction f arbitrary: s)
  case (Suc f)
  {
    case 1
    have "parseline f (token_rest s3) \<noteq> Fuel"
      if "parsepipe f s = Ok (cmd, s1)" "parsebacks cmd s1 = (cmd', s2)" "peek s2 '';'' = (True, s3)" for cmd s1 cmd' s2 s3
      using parse_length(2) [OF that(1)] parsebacks_length [OF that(2)] token_rest_peek [OF that(3)] 1
      by (intro Suc.IH) simp
    then show ?case using Suc.IH(2) [of s] 1 by (auto simp: pthen_Fuel_iff split: prod.splits if_splits)
  next
    case 2
    have "parsepipe f (token_rest s3) \<noteq> Fuel"
      if "parseexec f s = Ok (cmd, s1)" "peek s1 ''|'' = (True, s3)" for cmd s1 s3
      using parse_length(3) [OF that(1)] token_rest_peek [OF that(2)] 2 by (intro Suc.IH) simp
    then show ?case using Suc.IH(4) [of s] 2 by (auto simp: pthen_Fuel_iff split: prod.splits if_splits)
  next
    case 3
    have "parseline f (token_rest s3) \<noteq> Fuel" if "peek s ''('' = (True, s3)" for s3
      using token_rest_peek [OF that] 3 by (intro Suc.IH) simp
    then show ?case by (auto simp: pthen_Fuel_iff parseredirs_no_fuel split: prod.splits if_splits)
  next
    case 4
    then show ?case
      using peek_length [of s "''(''"] Suc.IH(3)
      by (fastforce simp: pthen_Fuel_iff parseredirs_no_fuel parseargs_no_fuel split: prod.splits if_splits)
  }
qed simp_all

subsection \<open>The words of a parsed command\<close>

lemma nul_at_nth:
  "length (nul_at buf p) = length buf"
  "i < length buf \<Longrightarrow> nul_at buf p ! i = (if i = length buf - length p then NUL else buf ! i)"
  by (simp_all add: nul_at_def)

lemma nul_args:
  "length (fold (\<lambda>(q, eq) buf. nul_at buf eq) args buf) = length buf \<and>
   (\<forall>i < length buf. fold (\<lambda>(q, eq) buf. nul_at buf eq) args buf ! i =
     (if \<exists>w \<in> set args. i = length buf - length (snd w) then NUL else buf ! i))"
proof (induction args arbitrary: buf)
  case (Cons w args)
  show ?case using Cons [of "nul_at buf (snd w)"] by (simp add: nul_at_nth split_def)
qed simp

lemma nulterminate_nth:
  "length (nulterminate cmd buf) = length buf \<and>
   (\<forall>i < length buf. nulterminate cmd buf ! i =
     (if \<exists>w \<in> set_cmd cmd. i = length buf - length (snd w) then NUL else buf ! i))"
proof (induction cmd arbitrary: buf)
  case (EXEC args)
  then show ?case using nul_args [of args buf] by simp
next
  case (REDIR cmd f mode fd)
  then show ?case by (auto simp: nul_at_nth)
next
  case (PIPE l r)
  then show ?case by auto
next
  case (LIST l r)
  then show ?case by auto
qed simp

lemma good_word_nth:
  assumes "good_word S w" "snd w \<noteq> []"
  shows "separator (S ! (length S - length (snd w)))"
proof -
  obtain pre where "S = (pre @ tok_text w) @ snd w"
    using assms(1) by (auto simp: good_word_def suffix_def)
  then show ?thesis
    using assms by (metis add_diff_cancel_right' good_word_def hd_conv_nth length_append nth_append_length_plus add.right_neutral)
qed

lemma nulterminate_word:
  assumes good: "\<forall>w \<in> set_cmd cmd. good_word S w" and "w \<in> set_cmd cmd" "NUL \<notin> set S"
  shows "cstr (drop (length S - length (fst w)) (nulterminate cmd S)) = tok_text w"
proof -
  have w: "good_word S w" using assms by blast
  then obtain pre where S: "S = pre @ tok_text w @ snd w"
    by (auto simp: good_word_def suffix_def)
  have f: "fst w = tok_text w @ snd w" using w by (simp add: good_word_def)
  have pre: "length S - length (fst w) = length pre" using S f by (metis add_diff_cancel_right' length_append)
  let ?buf = "nulterminate cmd S" and ?n = "length (tok_text w)"
  have len: "length ?buf = length S" using nulterminate_nth [of cmd S] by blast
  have inside: "?buf ! (length pre + i) = tok_text w ! i" if "i < ?n" for i
  proof -
    have c: "S ! (length pre + i) = tok_text w ! i" and l: "length pre + i < length S"
      using that S by (metis nth_append nth_append_length_plus, metis S add_less_cancel_left length_append trans_less_add1)
    then have "\<not> separator (S ! (length pre + i))" using w that by (auto simp: good_word_def)
    then have "length pre + i \<noteq> length S - length (snd v)" if "v \<in> set_cmd cmd" for v
      using good_word_nth [of S v] good that l by (cases "snd v = []") auto
    then show ?thesis using nulterminate_nth [of cmd S] l c by auto
  qed
  have "cstr (drop (length pre) ?buf) = take ?n (drop (length pre) ?buf)"
    unfolding cstr_def
  proof (rule takeWhile_eq_take_P_nth)
    show "drop (length pre) ?buf ! i \<noteq> NUL" if "i < ?n" for i
      using inside [OF that] that S len assms(3) nth_mem [OF that] by (metis UnI1 UnI2 add_leD1 len length_append nth_drop le_add1 set_append)
    assume "?n < length (drop (length pre) ?buf)"
    then have "length pre + ?n < length S" "length pre + ?n = length S - length (snd w)"
      using len arg_cong [OF S, of length] by simp_all
    then show "\<not> drop (length pre) ?buf ! ?n \<noteq> NUL"
      using nulterminate_nth [of cmd S] assms(2) len by (auto simp: nth_drop)
  qed
  also have "\<dots> = tok_text w"
    using inside len arg_cong [OF S, of length] by (intro nth_equalityI) auto
  finally show ?thesis unfolding pre .
qed

text \<open>
  C25. The shell's parser always ends (the nesting bound \<open>enough_fuel\<close> is never reached), and after
  \<open>nulterminate\<close> has written its NULs into the command line every word pointer of the parsed command
  reads, as a C string, exactly the word the parser delimited: a non-empty text without blanks and
  operators that extends to the next blank or operator.
\<close>

theorem parsecmd_words:
  "parsecmd s \<noteq> Fuel \<and>
   (parsecmd s = Ok (cmd, buf) \<and> NUL \<notin> set s \<longrightarrow>
     (\<forall>w \<in> set_cmd cmd. good_word s w \<and> cstr (drop (length s - length (fst w)) buf) = tok_text w))"
proof -
  have "parsecmd s \<noteq> Fuel"
    using parse_fuel(1) [of s "enough_fuel s"]
    by (auto simp: parsecmd_def enough_fuel_def pthen_Fuel_iff split: prod.splits if_splits)
  moreover have "\<forall>w \<in> set_cmd cmd. good_word s w" "buf = nulterminate cmd s" if "parsecmd s = Ok (cmd, buf)"
    using that parses_line(1) [of s s "enough_fuel s"]
    by (auto simp: parsecmd_def parses_def pthen_Ok_iff peek_eq split: if_splits)
  ultimately show ?thesis using nulterminate_word by blast
qed

theorem parsecmd_words_witness:
  "\<exists>cmd buf. parsecmd ''ls a>b&'' = Ok (cmd, buf) \<and> map_cmd tok_text cmd = BACK (REDIR (EXEC [''ls'', ''a'']) ''b'' 0x201 1) \<and>
     (\<forall>w \<in> set_cmd cmd. cstr (drop (7 - length (fst w)) buf) = tok_text w)"
proof -
  let ?c = "BACK (REDIR (EXEC [(''ls a>b&'', '' a>b&''), (''a>b&'', ''>b&'')]) (''b&'', ''&'') 0x201 1)"
  let ?b = "''ls'' @ [NUL] @ ''a'' @ [NUL] @ ''b'' @ [NUL]"
  have "parsecmd ''ls a>b&'' = Ok (?c, ?b)" by code_simp
  moreover have "NUL \<notin> set ''ls a>b&''" by code_simp
  ultimately show ?thesis
    using parsecmd_words [of "''ls a>b&''" ?c ?b]
    by (intro exI [of _ ?c] exI [of _ ?b]) (simp add: tok_text_def)
qed

end
