(* ===== verification/Sh_Print.thy ===== *)
theory Sh_Print
  imports Sh
begin

text \<open>
  Parsing of printed commands: every command with proper words is the parse of its text.  The printer
  \<open>pr\<close> is the specification of the shell's grammar; its first argument is the level of the grammar
  (0 line, 1 background, 2 pipe, 3 simple command or block), and a command above its level is put in
  parentheses.
\<close>

unbundle bit_operations_syntax

definition pr_redir :: "string \<times> u32 \<times> u32 \<Rightarrow> string" where
  "pr_redir r = (case r of (f, mode, fd) \<Rightarrow> (if fd = 0 then ''<'' else ''>'') @ f @ '' '')"

primrec pr :: "nat \<Rightarrow> string cmd \<Rightarrow> string" where
  "pr k (EXEC args) = concat (map (\<lambda>a. a @ '' '') args)"
| "pr k (REDIR c f mode fd) = pr 3 c @ pr_redir (f, mode, fd)"
| "pr k (PIPE l r) = (let t = pr 3 l @ ''|'' @ pr 2 r in if k \<le> 2 then t else ''('' @ t @ '')'')"
| "pr k (LIST l r) = (let t = pr 1 l @ '';'' @ pr 0 r in if k = 0 then t else ''('' @ t @ '')'')"
| "pr k (BACK c) = (let t = pr 1 c @ ''&'' in if k \<le> 1 then t else ''('' @ t @ '')'')"

definition plain_word :: "string \<Rightarrow> bool" where
  "plain_word a \<longleftrightarrow> a \<noteq> [] \<and> (\<forall>c \<in> set a. \<not> separator c \<and> c \<noteq> NUL)"

primrec wf_cmd :: "string cmd \<Rightarrow> bool" where
  "wf_cmd (EXEC args) \<longleftrightarrow> length args < MAXARGS \<and> (\<forall>a \<in> set args. plain_word a)"
| "wf_cmd (REDIR c f mode fd) \<longleftrightarrow> wf_cmd c \<and> plain_word f \<and> redir_mode mode fd"
| "wf_cmd (PIPE l r) \<longleftrightarrow> wf_cmd l \<and> wf_cmd r"
| "wf_cmd (LIST l r) \<longleftrightarrow> wf_cmd l \<and> wf_cmd r"
| "wf_cmd (BACK c) \<longleftrightarrow> wf_cmd c"

text \<open>What may follow a phrase.\<close>

definition follows :: "string \<Rightarrow> string \<Rightarrow> bool" where
  "follows toks rest \<longleftrightarrow> rest = [] \<or> hd rest \<in> set toks"

definition no_blank :: "string \<Rightarrow> bool" where
  "no_blank s \<longleftrightarrow> s = [] \<or> hd s \<notin> set whitespace"

lemma skip_ws_no_blank: "no_blank s \<Longrightarrow> skip_ws s = s"
  using strchr_iff [of whitespace] by (cases s) (auto simp: no_blank_def)

lemma follows_no_blank: "follows toks rest \<Longrightarrow> set toks \<subseteq> set symbols \<Longrightarrow> no_blank rest"
  by (cases rest) (auto simp: follows_def no_blank_def symbols_def whitespace_def)

lemma peek_no_blank: "no_blank s \<Longrightarrow> peek s toks = (s \<noteq> [] \<and> hd s \<noteq> NUL \<and> hd s \<in> set toks, s)"
  by (simp add: peek_eq skip_ws_no_blank)

lemma peek_not: "no_blank s \<Longrightarrow> s = [] \<or> hd s \<notin> set toks \<Longrightarrow> peek s toks = (False, s)"
  by (auto simp: peek_no_blank)

lemma token_rest_symbol:
  assumes "c \<in> set ''|();&<''" "no_blank s"
  shows "token_rest (c # s) = s"
proof -
  have "strchr whitespace c = None" using assms(1) by (auto simp: whitespace_def)
  then show ?thesis
    using assms by (simp add: token_rest_def gettoken_eq token_at_def skip_ws_no_blank)
qed

lemma gettoken_word:
  assumes "plain_word a" "no_blank s"
  shows "gettoken (a @ '' '' @ s) = (CHR ''a'', a @ '' '' @ s, '' '' @ s, s)"
proof -
  obtain c a' where a: "a = c # a'" using assms(1) by (cases a) (auto simp: plain_word_def)
  have c: "strchr whitespace c = None" "strchr symbols c = None" "c \<noteq> NUL"
    using assms(1) a by (auto simp: plain_word_def separator_iff)
  have "skip_word (a @ '' '' @ s) = '' '' @ s"
    unfolding skip_word_eq using assms(1) by (subst dropWhile_append2) (auto simp: plain_word_def separator_def whitespace_def)
  moreover have "skip_ws ('' '' @ s) = s" using skip_ws_no_blank [OF assms(2)] by (simp add: whitespace_def)
  moreover have "\<not> (c \<in> set ''|();&<'')" "c \<noteq> CHR ''>''" using symbol_cases [of c] c(2) by auto
  ultimately show ?thesis using c by (simp add: gettoken_eq token_at_def a)
qed

lemma tok_text_word: "tok_text (a @ s, s) = a"
  by (simp add: tok_text_def)

lemma plain_word_no_blank: "plain_word a \<Longrightarrow> no_blank (a @ s)"
  by (cases a) (auto simp: plain_word_def no_blank_def separator_def)

subsection \<open>Redirections and arguments\<close>

definition wrap :: "'a cmd \<Rightarrow> ('a \<times> u32 \<times> u32) list \<Rightarrow> 'a cmd" where
  "wrap c rs = foldl (\<lambda>c (f, mode, fd). REDIR c f mode fd) c rs"

definition wf_redirs :: "(string \<times> u32 \<times> u32) list \<Rightarrow> bool" where
  "wf_redirs rs \<longleftrightarrow> (\<forall>(f, mode, fd) \<in> set rs. plain_word f \<and> redir_mode mode fd)"

lemma wrap_simps [simp]:
  "wrap c [] = c" "wrap c ((f, mode, fd) # rs) = wrap (REDIR c f mode fd) rs"
  by (simp_all add: wrap_def)

lemma map_wrap: "map_cmd g (wrap c rs) = wrap (map_cmd g c) (map (\<lambda>(f, m). (g f, m)) rs)"
  by (induction rs arbitrary: c) (auto simp: wrap_def)

lemma add_arg_wrap: "add_arg w (wrap c rs) = wrap (add_arg w c) rs"
  by (induction rs arbitrary: c) (auto simp: wrap_def)

lemma redirs_no_blank: "no_blank rest \<Longrightarrow> no_blank (concat (map pr_redir rs) @ rest)"
  by (cases rs) (auto simp: pr_redir_def no_blank_def whitespace_def split: prod.splits)

lemma parseredirs_none:
  "no_blank s \<Longrightarrow> s = [] \<or> hd s \<notin> set ''<>'' \<Longrightarrow> parseredirs c s = Ok (c, s)"
  by (subst parseredirs.simps) (auto simp: peek_no_blank)

lemma parseredirs_one:
  assumes "plain_word f" "redir_mode mode fd" "no_blank s"
  shows "parseredirs c (pr_redir (f, mode, fd) @ s) = parseredirs (REDIR c (f @ '' '' @ s, '' '' @ s) mode fd) s"
proof -
  let ?t = "if fd = 0 then CHR ''<'' else CHR ''>''"
  have nb: "no_blank (f @ '' '' @ s)" by (rule plain_word_no_blank [OF assms(1)])
  obtain d f' where f: "f = d # f'" "d \<noteq> CHR ''>''"
    using assms(1) by (cases f) (auto simp: plain_word_def separator_def symbols_def)
  have p: "pr_redir (f, mode, fd) @ s = ?t # f @ '' '' @ s" by (simp add: pr_redir_def)
  have "no_blank (?t # f @ '' '' @ s)" by (simp add: no_blank_def whitespace_def)
  then have "peek (?t # f @ '' '' @ s) ''<>'' = (True, ?t # f @ '' '' @ s)"
    by (simp add: peek_no_blank NUL_def)
  moreover have "skip_ws (?t # f @ '' '' @ s) = ?t # f @ '' '' @ s"
    by (rule skip_ws_no_blank) (simp add: no_blank_def whitespace_def)
  then have "gettoken (?t # f @ '' '' @ s) = (?t, ?t # f @ '' '' @ s, f @ '' '' @ s, f @ '' '' @ s)"
    using skip_ws_no_blank [OF nb] f by (simp add: gettoken_eq token_at_def)
  moreover note gettoken_word [OF assms(1,3)]
  ultimately show ?thesis
    unfolding p using assms(2) by (subst parseredirs.simps) (auto simp: redir_mode_def O_RDONLY_def)
qed

lemma parseredirs_wrap:
  assumes "wf_redirs rs" "no_blank rest" "rest = [] \<or> hd rest \<notin> set ''<>''"
  shows "\<exists>rs'. parseredirs c (concat (map pr_redir rs) @ rest) = Ok (wrap c rs', rest) \<and>
    map (\<lambda>(f, m). (tok_text f, m)) rs' = rs"
  using assms(1)
proof (induction rs arbitrary: c)
  case Nil
  then show ?case using parseredirs_none [OF assms(2,3)] by (intro exI [of _ "[]"]) simp
next
  case (Cons r rs)
  obtain f mode fd where r: "r = (f, mode, fd)" by (cases r)
  let ?s = "concat (map pr_redir rs) @ rest" and ?w = "(f @ '' '' @ concat (map pr_redir rs) @ rest, '' '' @ concat (map pr_redir rs) @ rest)"
  have "wf_redirs rs" "plain_word f" "redir_mode mode fd" using Cons.prems r by (auto simp: wf_redirs_def)
  moreover obtain rs' where "parseredirs (REDIR c ?w mode fd) ?s = Ok (wrap (REDIR c ?w mode fd) rs', rest)"
      "map (\<lambda>(f, m). (tok_text f, m)) rs' = rs"
    using Cons.IH [OF calculation(1)] by blast
  ultimately show ?case
    using parseredirs_one [of f mode fd ?s c] redirs_no_blank [OF assms(2)] tok_text_word [of f "'' '' @ ?s"]
    by (intro exI [of _ "(?w, mode, fd) # rs'"]) (simp add: r)
qed

lemma parseargs_end:
  assumes "follows ''|)&;'' rest"
  shows "parseargs ret argc rest = Ok (ret, rest)"
proof (cases rest)
  case Nil
  then show ?thesis
    by (subst parseargs.simps) (simp add: peek_eq gettoken_eq token_at_def)
next
  case (Cons c s)
  then show ?thesis
    using assms peek_no_blank [OF follows_no_blank [OF assms]]
    by (subst parseargs.simps) (auto simp: follows_def symbols_def NUL_def)
qed

lemma parseargs_one:
  assumes "plain_word a" "no_blank s" "argc + 1 < MAXARGS"
  shows "parseargs ret argc (a @ '' '' @ s) =
    pthen (parseredirs (add_arg (a @ '' '' @ s, '' '' @ s) ret) s) (\<lambda>(ret, s). parseargs ret (argc + 1) s)"
proof -
  have "hd (a @ '' '' @ s) \<notin> set ''|)&;''"
    using assms(1) by (cases a) (auto simp: plain_word_def separator_def symbols_def)
  then have "peek (a @ '' '' @ s) ''|)&;'' = (False, a @ '' '' @ s)"
    unfolding peek_no_blank [OF plain_word_no_blank [OF assms(1)]] by blast
  then show ?thesis
    using gettoken_word [OF assms(1,2)] assms(3)
    by (subst parseargs.simps) (simp del: append_Cons add: NUL_def)
qed

lemma args_no_blank:
  "\<forall>a \<in> set args. plain_word a \<Longrightarrow> no_blank s \<Longrightarrow> no_blank (concat (map (\<lambda>a. a @ '' '') args) @ s)"
  using plain_word_no_blank by (cases args) auto

lemma args_head:
  "plain_word a \<Longrightarrow> hd (a @ s) \<notin> set symbols \<and> a @ s \<noteq> [] \<and> hd (a @ s) \<noteq> NUL"
  by (cases a) (auto simp: plain_word_def separator_def)

lemma parseargs_words:
  assumes "follows ''|)&;'' rest" "wf_redirs rs"
  shows "args \<noteq> [] \<Longrightarrow> \<forall>a \<in> set args. plain_word a \<Longrightarrow> argc + length args < MAXARGS \<Longrightarrow>
    \<exists>ws rs'. parseargs (EXEC vs) argc (concat (map (\<lambda>a. a @ '' '') args) @ concat (map pr_redir rs) @ rest) =
        Ok (wrap (EXEC (vs @ ws)) rs', rest) \<and>
      map tok_text ws = args \<and> map (\<lambda>(f, m). (tok_text f, m)) rs' = rs"
proof (induction args arbitrary: vs argc)
  case (Cons a args)
  note IH = Cons.IH and prems = Cons.prems
  have nb: "no_blank rest" using follows_no_blank [OF assms(1)] by (simp add: symbols_def)
  let ?s = "concat (map (\<lambda>a. a @ '' '') args) @ concat (map pr_redir rs) @ rest"
  let ?w = "(a @ '' '' @ concat (map (\<lambda>a. a @ '' '') args) @ concat (map pr_redir rs) @ rest, '' '' @ concat (map (\<lambda>a. a @ '' '') args) @ concat (map pr_redir rs) @ rest)"
  have "parseargs (EXEC vs) argc (a @ '' '' @ ?s) =
      pthen (parseredirs (EXEC (vs @ [?w])) ?s) (\<lambda>(ret, s). parseargs ret (argc + 1) s)"
    using Cons.prems args_no_blank [OF _ redirs_no_blank [OF nb]] by (subst parseargs_one) auto
  moreover have "\<exists>ws rs'. pthen (parseredirs (EXEC (vs @ [?w])) ?s) (\<lambda>(ret, s). parseargs ret (argc + 1) s) =
        Ok (wrap (EXEC (vs @ [?w] @ ws)) rs', rest) \<and>
      map tok_text ws = args \<and> map (\<lambda>(f, m). (tok_text f, m)) rs' = rs"
  proof (cases args)
    case Nil
    have "rest = [] \<or> hd rest \<notin> set ''<>''" using assms(1) by (auto simp: follows_def)
    from parseredirs_wrap [OF assms(2) nb this, of "EXEC (vs @ [?w])"] obtain rs' where
      "parseredirs (EXEC (vs @ [?w])) (concat (map pr_redir rs) @ rest) = Ok (wrap (EXEC (vs @ [?w])) rs', rest)"
      "map (\<lambda>(f, m). (tok_text f, m)) rs' = rs" by blast
    then show ?thesis using parseargs_end [OF assms(1)] Nil by (intro exI [of _ "[]"] exI [of _ rs']) simp
  next
    case (Cons b bs)
    have "parseredirs (EXEC (vs @ [?w])) ?s = Ok (EXEC (vs @ [?w]), ?s)"
    proof (rule parseredirs_none)
      show "no_blank ?s" using prems by (intro args_no_blank redirs_no_blank nb) simp
      show "?s = [] \<or> hd ?s \<notin> set ''<>''"
        using args_head [of b "'' '' @ concat (map (\<lambda>a. a @ '' '') bs) @ concat (map pr_redir rs) @ rest"] prems Cons
        by (simp add: symbols_def)
    qed
    moreover have "\<exists>ws rs'. parseargs (EXEC (vs @ [?w])) (argc + 1) ?s = Ok (wrap (EXEC ((vs @ [?w]) @ ws)) rs', rest) \<and>
        map tok_text ws = args \<and> map (\<lambda>(f, m). (tok_text f, m)) rs' = rs"
      using prems Cons by (intro IH) auto
    ultimately show ?thesis by simp
  qed
  ultimately obtain ws rs' where
    "parseargs (EXEC vs) argc (a @ '' '' @ ?s) = Ok (wrap (EXEC (vs @ ?w # ws)) rs', rest)"
    "map tok_text ws = args" "map (\<lambda>(f, m). (tok_text f, m)) rs' = rs" by auto
  then show ?case using tok_text_word [of a "'' '' @ ?s"] by (intro exI [of _ "?w # ws"] exI [of _ rs']) simp
qed simp

subsection \<open>The levels of the grammar\<close>

definition exec_ok :: "string cmd \<Rightarrow> bool" where
  "exec_ok c \<longleftrightarrow> (\<forall>rest fuel. follows ''|)&;'' rest \<longrightarrow> 4 * length (pr 3 c @ rest) + 2 \<le> fuel \<longrightarrow>
     (\<exists>c'. parseexec fuel (pr 3 c @ rest) = Ok (c', rest) \<and> map_cmd tok_text c' = c))"

definition pipe_ok :: "string cmd \<Rightarrow> bool" where
  "pipe_ok c \<longleftrightarrow> (\<forall>rest fuel. follows '')&;'' rest \<longrightarrow> 4 * length (pr 2 c @ rest) + 3 \<le> fuel \<longrightarrow>
     (\<exists>c'. parsepipe fuel (pr 2 c @ rest) = Ok (c', rest) \<and> map_cmd tok_text c' = c))"

definition back_ok :: "string cmd \<Rightarrow> bool" where
  "back_ok c \<longleftrightarrow> (\<forall>n rest fuel. follows '');'' rest \<longrightarrow>
     4 * length (pr 1 c @ replicate n (CHR ''&'') @ rest) + 3 \<le> fuel \<longrightarrow>
     (\<exists>c1 s1 c'. parsepipe fuel (pr 1 c @ replicate n (CHR ''&'') @ rest) = Ok (c1, s1) \<and>
        parsebacks c1 s1 = ((BACK ^^ n) c', rest) \<and> map_cmd tok_text c' = c))"

definition line_ok :: "string cmd \<Rightarrow> bool" where
  "line_ok c \<longleftrightarrow> (\<forall>rest fuel. follows '')'' rest \<longrightarrow> 4 * length (pr 0 c @ rest) + 4 \<le> fuel \<longrightarrow>
     (\<exists>c'. parseline fuel (pr 0 c @ rest) = Ok (c', rest) \<and> map_cmd tok_text c' = c))"

lemma no_blank_symbols:
  "no_blank (CHR ''|'' # s)" "no_blank (CHR '';'' # s)" "no_blank (CHR ''&'' # s)" "no_blank (CHR ''('' # s)"
  "no_blank (CHR '')'' # s)"
  by (simp_all add: no_blank_def whitespace_def)

lemma pr_no_blank: "wf_cmd c \<Longrightarrow> no_blank rest \<Longrightarrow> no_blank (pr k c @ rest)"
proof (induction c arbitrary: k rest)
  case (EXEC args)
  then show ?case using args_no_blank by simp
next
  case (REDIR c f mode fd)
  then show ?case using redirs_no_blank [of rest "[(f, mode, fd)]"] by simp
next
  case (PIPE l r)
  then show ?case by (simp add: Let_def no_blank_symbols)
next
  case (LIST l r)
  then show ?case by (simp add: Let_def no_blank_symbols)
next
  case (BACK c)
  then show ?case by (simp add: Let_def no_blank_symbols)
qed

lemma parsebacks_run:
  assumes "follows '');'' rest"
  shows "parsebacks c (replicate n (CHR ''&'') @ rest) = ((BACK ^^ n) c, rest)"
proof (induction n arbitrary: c)
  case 0
  have "no_blank rest" using follows_no_blank [OF assms] by (simp add: symbols_def)
  moreover have "\<not> (rest \<noteq> [] \<and> hd rest \<in> set ''&'')" using assms by (auto simp: follows_def)
  ultimately show ?case by (subst parsebacks.simps) (auto simp: peek_no_blank)
next
  case (Suc n)
  have "no_blank rest" using follows_no_blank [OF assms] by (simp add: symbols_def)
  then have nb: "no_blank (replicate n (CHR ''&'') @ rest)" "no_blank (CHR ''&'' # replicate n (CHR ''&'') @ rest)"
    by (cases n; simp add: no_blank_def whitespace_def)+
  show ?case
    using Suc [of "BACK c"] token_rest_symbol [of "CHR ''&''", OF _ nb(1)]
    by (subst parsebacks.simps) (simp add: peek_no_blank [OF nb(2)] NUL_def funpow_swap1)
qed

lemma pr_wrap: "pr 3 (wrap c rs) = pr 3 c @ concat (map pr_redir rs)"
  by (induction rs arbitrary: c) (auto simp: wrap_def)

lemma exec_ok_simple:
  assumes "\<forall>a \<in> set args. plain_word a" "length args < MAXARGS" "wf_redirs rs"
  shows "exec_ok (wrap (EXEC args) rs)"
  unfolding exec_ok_def pr_wrap
proof (intro allI impI)
  fix rest fuel
  let ?s = "(pr 3 (EXEC args) @ concat (map pr_redir rs)) @ rest"
  assume follow: "follows ''|)&;'' rest" and "4 * length ?s + 2 \<le> fuel"
  then obtain f where f: "fuel = Suc f" by (cases fuel) auto
  have nb: "no_blank rest" using follows_no_blank [OF follow] by (simp add: symbols_def)
  then have nbs: "no_blank ?s" using args_no_blank [OF assms(1) redirs_no_blank [OF nb]] by simp
  have head: "?s = [] \<or> hd ?s \<noteq> CHR ''('' \<and> (args \<noteq> [] \<longrightarrow> hd ?s \<notin> set ''<>'')"
  proof (cases args)
    case Nil
    then show ?thesis using follow by (cases rs) (auto simp: follows_def pr_redir_def split: prod.splits)
  next
    case (Cons a as)
    then show ?thesis
      using assms(1) args_head [of a "'' '' @ concat (map (\<lambda>a. a @ '' '') as) @ concat (map pr_redir rs) @ rest"]
      by (auto simp: symbols_def)
  qed
  have exec: "parseexec fuel ?s = pthen (parseredirs (EXEC []) ?s) (\<lambda>(ret, s). parseargs ret 0 s)"
  proof -
    have "peek ?s ''('' = (False, ?s)" using head by (intro peek_not [OF nbs]) force
    then show ?thesis unfolding f parseexec.simps by simp
  qed
  show "\<exists>c'. parseexec fuel ?s = Ok (c', rest) \<and> map_cmd tok_text c' = wrap (EXEC args) rs"
  proof (cases "args = []")
    case True
    have "rest = [] \<or> hd rest \<notin> set ''<>''" using follow by (auto simp: follows_def)
    from parseredirs_wrap [OF assms(3) nb this, of "EXEC []"] show ?thesis
      unfolding exec using True parseargs_end [OF follow] by (auto simp: map_wrap)
  next
    case False
    then have "parseredirs (EXEC []) ?s = Ok (EXEC [], ?s)" using head nbs by (intro parseredirs_none) auto
    with parseargs_words [OF follow assms(3) False assms(1), of 0 "[]"] show ?thesis
      unfolding exec using assms(2) by (auto simp: map_wrap)
  qed
qed

lemma exec_ok_block:
  assumes "line_ok b" "wf_cmd b" "pr 3 b = ''('' @ pr 0 b @ '')''" "wf_redirs rs"
  shows "exec_ok (wrap b rs)"
  unfolding exec_ok_def pr_wrap
proof (intro allI impI)
  fix rest fuel
  let ?r = "concat (map pr_redir rs) @ rest"
  let ?l = "pr 0 b @ CHR '')'' # ?r"
  assume follow: "follows ''|)&;'' rest" and "4 * length ((pr 3 b @ concat (map pr_redir rs)) @ rest) + 2 \<le> fuel"
  then obtain f where f: "fuel = Suc (Suc f)" "4 * length ?l + 4 \<le> f"
    by (cases fuel; cases "fuel - 1") (auto simp: assms(3))
  have nb: "no_blank rest" using follows_no_blank [OF follow] by (simp add: symbols_def)
  have s: "(pr 3 b @ concat (map pr_redir rs)) @ rest = CHR ''('' # ?l" by (simp add: assms(3))
  have nl: "no_blank ?l" by (intro pr_no_blank assms no_blank_symbols)
  obtain b' where b': "parseline f ?l = Ok (b', CHR '')'' # ?r)" "map_cmd tok_text b' = b"
    using assms(1) [unfolded line_ok_def, rule_format, OF _ f(2)] by (auto simp: follows_def)
  have "rest = [] \<or> hd rest \<notin> set ''<>''" using follow by (auto simp: follows_def)
  then obtain rs' where rs': "parseredirs b' ?r = Ok (wrap b' rs', rest)" "map (\<lambda>(f, m). (tok_text f, m)) rs' = rs"
    using parseredirs_wrap [OF assms(4) nb, of b'] by blast
  have "parseexec fuel (CHR ''('' # ?l) = Ok (wrap b' rs', rest)"
    using b'(1) rs'(1) token_rest_symbol [OF _ nl, of "CHR ''(''"]
      token_rest_symbol [OF _ redirs_no_blank [OF nb], of "CHR '')''" rs]
    unfolding f(1) by (simp add: peek_no_blank no_blank_symbols NUL_def)
  then show "\<exists>c'. parseexec fuel ((pr 3 b @ concat (map pr_redir rs)) @ rest) = Ok (c', rest) \<and> map_cmd tok_text c' = wrap b rs"
    unfolding s using b'(2) rs'(2) by (auto simp: map_wrap)
qed

lemma pipe_ok_exec:
  assumes "exec_ok c" "pr 2 c = pr 3 c"
  shows "pipe_ok c"
  unfolding pipe_ok_def assms(2)
proof (intro allI impI)
  fix rest fuel
  assume follow: "follows '')&;'' rest" and "4 * length (pr 3 c @ rest) + 3 \<le> fuel"
  then obtain f where f: "fuel = Suc f" "4 * length (pr 3 c @ rest) + 2 \<le> f" by (cases fuel) auto
  have "follows ''|)&;'' rest" using follow by (auto simp: follows_def)
  from assms(1) [unfolded exec_ok_def, rule_format, OF this f(2)] obtain c' where
    "parseexec f (pr 3 c @ rest) = Ok (c', rest)" "map_cmd tok_text c' = c" by blast
  moreover have "peek rest ''|'' = (False, rest)"
    using follow follows_no_blank [OF follow] by (intro peek_not) (auto simp: follows_def symbols_def)
  ultimately show "\<exists>c'. parsepipe fuel (pr 3 c @ rest) = Ok (c', rest) \<and> map_cmd tok_text c' = c"
    by (simp add: f(1))
qed

lemma pipe_ok_pipe:
  assumes "exec_ok l" "pipe_ok r" "wf_cmd r"
  shows "pipe_ok (PIPE l r)"
  unfolding pipe_ok_def
proof (intro allI impI)
  fix rest fuel
  let ?r = "pr 2 r @ rest"
  assume follow: "follows '')&;'' rest" and "4 * length (pr 2 (PIPE l r) @ rest) + 3 \<le> fuel"
  then obtain f where f: "fuel = Suc f" "4 * length (pr 3 l @ CHR ''|'' # ?r) + 2 \<le> f" "4 * length ?r + 3 \<le> f"
    by (cases fuel) auto
  have nb: "no_blank ?r"
    using assms(3) follows_no_blank [OF follow] by (intro pr_no_blank) (auto simp: symbols_def)
  obtain l' where l': "parseexec f (pr 3 l @ CHR ''|'' # ?r) = Ok (l', CHR ''|'' # ?r)" "map_cmd tok_text l' = l"
    using assms(1) [unfolded exec_ok_def, rule_format, OF _ f(2)] by (auto simp: follows_def)
  obtain r' where r': "parsepipe f ?r = Ok (r', rest)" "map_cmd tok_text r' = r"
    using assms(2) [unfolded pipe_ok_def, rule_format, OF follow f(3)] by blast
  have "parsepipe fuel (pr 3 l @ CHR ''|'' # ?r) = Ok (PIPE l' r', rest)"
    using l'(1) r'(1) token_rest_symbol [OF _ nb, of "CHR ''|''"]
    by (simp add: f(1) peek_no_blank no_blank_symbols NUL_def)
  then show "\<exists>c'. parsepipe fuel (pr 2 (PIPE l r) @ rest) = Ok (c', rest) \<and> map_cmd tok_text c' = PIPE l r"
    using l'(2) r'(2) by simp
qed

lemma back_ok_pipe:
  assumes "pipe_ok c" "pr 1 c = pr 2 c"
  shows "back_ok c"
  unfolding back_ok_def assms(2)
proof (intro allI impI)
  fix n rest fuel
  assume follow: "follows '');'' rest" and fuel: "4 * length (pr 2 c @ replicate n (CHR ''&'') @ rest) + 3 \<le> fuel"
  have "follows '')&;'' (replicate n (CHR ''&'') @ rest)" using follow by (cases n) (auto simp: follows_def)
  from assms(1) [unfolded pipe_ok_def, rule_format, OF this fuel] parsebacks_run [OF follow]
  show "\<exists>c1 s1 c'. parsepipe fuel (pr 2 c @ replicate n (CHR ''&'') @ rest) = Ok (c1, s1) \<and>
      parsebacks c1 s1 = ((BACK ^^ n) c', rest) \<and> map_cmd tok_text c' = c"
    by blast
qed

lemma back_ok_back:
  assumes "back_ok c"
  shows "back_ok (BACK c)"
  unfolding back_ok_def
proof (intro allI impI)
  fix n rest fuel
  have s: "pr 1 (BACK c) @ replicate n (CHR ''&'') @ rest = pr 1 c @ replicate (Suc n) (CHR ''&'') @ rest" by simp
  assume "follows '');'' rest" "4 * length (pr 1 (BACK c) @ replicate n (CHR ''&'') @ rest) + 3 \<le> fuel"
  from assms [unfolded back_ok_def, rule_format, OF this(1) this(2) [unfolded s]] obtain c1 s1 c' where
    "parsepipe fuel (pr 1 c @ replicate (Suc n) (CHR ''&'') @ rest) = Ok (c1, s1)"
    "parsebacks c1 s1 = ((BACK ^^ n) (BACK c'), rest)" "map_cmd tok_text (BACK c') = BACK c"
    by (auto simp: funpow_swap1)
  then show "\<exists>c1 s1 c'. parsepipe fuel (pr 1 (BACK c) @ replicate n (CHR ''&'') @ rest) = Ok (c1, s1) \<and>
      parsebacks c1 s1 = ((BACK ^^ n) c', rest) \<and> map_cmd tok_text c' = BACK c"
    unfolding s by blast
qed

lemma line_ok_back:
  assumes "back_ok c" "pr 0 c = pr 1 c"
  shows "line_ok c"
  unfolding line_ok_def assms(2)
proof (intro allI impI)
  fix rest fuel
  assume follow: "follows '')'' rest" and "4 * length (pr 1 c @ rest) + 4 \<le> fuel"
  then obtain f where f: "fuel = Suc f" "4 * length (pr 1 c @ replicate 0 (CHR ''&'') @ rest) + 3 \<le> f"
    by (cases fuel) auto
  have "follows '');'' rest" using follow by (auto simp: follows_def)
  from assms(1) [unfolded back_ok_def, rule_format, OF this f(2)] obtain c1 s1 c' where
    "parsepipe f (pr 1 c @ rest) = Ok (c1, s1)" "parsebacks c1 s1 = (c', rest)" "map_cmd tok_text c' = c"
    by auto
  moreover have "peek rest '';'' = (False, rest)"
    using follow follows_no_blank [OF follow] by (intro peek_not) (auto simp: follows_def symbols_def)
  ultimately show "\<exists>c'. parseline fuel (pr 1 c @ rest) = Ok (c', rest) \<and> map_cmd tok_text c' = c"
    by (simp add: f(1))
qed

lemma line_ok_list:
  assumes "back_ok l" "line_ok r" "wf_cmd r"
  shows "line_ok (LIST l r)"
  unfolding line_ok_def
proof (intro allI impI)
  fix rest fuel
  let ?r = "pr 0 r @ rest"
  assume follow: "follows '')'' rest" and "4 * length (pr 0 (LIST l r) @ rest) + 4 \<le> fuel"
  then obtain f where f: "fuel = Suc f" "4 * length (pr 1 l @ replicate 0 (CHR ''&'') @ CHR '';'' # ?r) + 3 \<le> f"
      "4 * length ?r + 4 \<le> f"
    by (cases fuel) auto
  have nb: "no_blank ?r"
    using assms(3) follows_no_blank [OF follow] by (intro pr_no_blank) (auto simp: symbols_def)
  obtain c1 s1 l' where l': "parsepipe f (pr 1 l @ CHR '';'' # ?r) = Ok (c1, s1)"
      "parsebacks c1 s1 = (l', CHR '';'' # ?r)" "map_cmd tok_text l' = l"
    using assms(1) [unfolded back_ok_def, rule_format, OF _ f(2)] by (auto simp: follows_def)
  obtain r' where r': "parseline f ?r = Ok (r', rest)" "map_cmd tok_text r' = r"
    using assms(2) [unfolded line_ok_def, rule_format, OF follow f(3)] by blast
  have "parseline fuel (pr 1 l @ CHR '';'' # ?r) = Ok (LIST l' r', rest)"
    using l'(1,2) r'(1) token_rest_symbol [OF _ nb, of "CHR '';''"]
    by (simp add: f(1) peek_no_blank no_blank_symbols NUL_def)
  then show "\<exists>c'. parseline fuel (pr 0 (LIST l r) @ rest) = Ok (c', rest) \<and> map_cmd tok_text c' = LIST l r"
    using l'(3) r'(2) by simp
qed

lemma all_levels:
  "wf_cmd c \<Longrightarrow> (\<forall>rs. wf_redirs rs \<longrightarrow> exec_ok (wrap c rs)) \<and> pipe_ok c \<and> back_ok c \<and> line_ok c"
proof (induction c)
  case (EXEC args)
  then have e: "wf_redirs rs \<Longrightarrow> exec_ok (wrap (EXEC args) rs)" for rs by (intro exec_ok_simple) auto
  then have "pipe_ok (EXEC args)" using e [of "[]"] by (intro pipe_ok_exec) (auto simp: wf_redirs_def)
  then show ?case using e by (simp add: back_ok_pipe line_ok_back)
next
  case (REDIR c f mode fd)
  then have e: "wf_redirs rs \<Longrightarrow> exec_ok (wrap (REDIR c f mode fd) rs)" for rs
    using REDIR.IH by (auto simp: wf_redirs_def dest!: spec [of _ "(f, mode, fd) # rs"])
  then have "pipe_ok (REDIR c f mode fd)" using e [of "[]"] by (intro pipe_ok_exec) (auto simp: wf_redirs_def)
  then show ?case using e by (simp add: back_ok_pipe line_ok_back)
next
  case (PIPE l r)
  moreover have "wf_redirs []" by (simp add: wf_redirs_def)
  ultimately have "exec_ok (wrap l [])" unfolding wf_cmd.simps by blast
  then have p: "pipe_ok (PIPE l r)" using PIPE by (intro pipe_ok_pipe) auto
  then have b: "back_ok (PIPE l r)" by (simp add: back_ok_pipe)
  then have "line_ok (PIPE l r)" by (simp add: line_ok_back)
  then show ?case using p b PIPE.prems exec_ok_block [of "PIPE l r"] by simp
next
  case (LIST l r)
  then have l: "line_ok (LIST l r)" by (simp add: line_ok_list)
  then have e: "wf_redirs rs \<Longrightarrow> exec_ok (wrap (LIST l r) rs)" for rs
    using LIST.prems exec_ok_block [of "LIST l r"] by simp
  then have "pipe_ok (LIST l r)" using e [of "[]"] by (intro pipe_ok_exec) (auto simp: wf_redirs_def)
  then show ?case using l e by (simp add: back_ok_pipe)
next
  case (BACK c)
  then have b: "back_ok (BACK c)" by (simp add: back_ok_back)
  then have l: "line_ok (BACK c)" by (simp add: line_ok_back)
  then have e: "wf_redirs rs \<Longrightarrow> exec_ok (wrap (BACK c) rs)" for rs
    using BACK.prems exec_ok_block [of "BACK c"] by simp
  then have "pipe_ok (BACK c)" using e [of "[]"] by (intro pipe_ok_exec) (auto simp: wf_redirs_def)
  then show ?case using l b e by simp
qed

text \<open>
  C13. Round trip of the shell's grammar: for every command tree with plain words, at most nine
  arguments in a simple command and the redirections the shell knows, parsing its text gives the tree
  back; pipes, lists, background and redirection nest as the parentheses of the text say.
\<close>

theorem parsecmd_print:
  assumes "wf_cmd c"
  shows "\<exists>cmd. parsecmd (pr 0 c) = Ok (cmd, nulterminate cmd (pr 0 c)) \<and> map_cmd tok_text cmd = c"
proof -
  have "line_ok c" using all_levels [OF assms] by blast
  then obtain cmd where "parseline (enough_fuel (pr 0 c)) (pr 0 c) = Ok (cmd, [])" "map_cmd tok_text cmd = c"
    unfolding line_ok_def enough_fuel_def by (metis append_Nil2 follows_def order_refl)
  then show ?thesis by (intro exI [of _ cmd]) (simp add: parsecmd_def peek_eq)
qed

theorem parsecmd_print_witness:
  "\<exists>cmd. parsecmd ''(ls |wc )>f ;x &'' = Ok (cmd, nulterminate cmd ''(ls |wc )>f ;x &'') \<and>
     map_cmd tok_text cmd = LIST (REDIR (PIPE (EXEC [''ls'']) (EXEC [''wc''])) ''f'' (O_WRONLY OR O_CREATE) 1) (BACK (EXEC [''x'']))"
proof -
  let ?c = "LIST (REDIR (PIPE (EXEC [''ls'']) (EXEC [''wc''])) ''f'' (O_WRONLY OR O_CREATE) 1) (BACK (EXEC [''x'']))"
  have "wf_cmd ?c"
    by (simp add: MAXARGS_def plain_word_def separator_def whitespace_def symbols_def NUL_def redir_mode_def)
  moreover have "pr 0 ?c = ''(ls |wc )>f ;x &''" by (simp add: pr_redir_def)
  ultimately show ?thesis using parsecmd_print [of ?c] by simp
qed

end
