(* ===== verification/Bio.thy ===== *)
theory Bio
  imports Prelude
begin

text \<open>
  Sleep-locks, the disk driver and the buffer cache (src/sleeplock.c, src/memide.c, src/bio.c).

  The code is followed as one process, of process identifier \<open>curpid\<close>, executes it.  Every section
  between \<open>acquire\<close> and \<open>release\<close> of a spin lock is one step, as mutual exclusion of spin locks allows
  (see the theory of spin locks); a sleep-lock that is taken makes the process give up the processor,
  the outcome \<open>Sleep\<close>.  A buffer pointer is an index into the table \<open>bufs\<close>; the circular list through
  \<open>prev\<close>/\<open>next\<close> is the list \<open>mru\<close> of the indices met from \<open>head.next\<close> on.  The two bits of \<open>flags\<close> are the
  two fields \<open>bvalid\<close> and \<open>bdirty\<close>.  \<open>dwrites\<close> records the writes to the disk in their order; the code
  does not read it, it serves to speak about a crash after any of them.
\<close>

subsection \<open>Sleep-locks\<close>

record sleeplock =
  slocked :: bool
  spid :: i32

definition initsleeplock :: sleeplock where
  "initsleeplock = \<lparr>slocked = False, spid = 0\<rparr>"

text \<open>\<open>None\<close>: the lock is taken and the process sleeps on it.\<close>

definition acquiresleep :: "i32 \<Rightarrow> sleeplock \<Rightarrow> sleeplock option" where
  "acquiresleep pid lk = (if slocked lk then None else Some (lk\<lparr>slocked := True, spid := pid\<rparr>))"

definition releasesleep :: "sleeplock \<Rightarrow> sleeplock" where
  "releasesleep lk = lk\<lparr>slocked := False, spid := 0\<rparr>"

definition holdingsleep :: "i32 \<Rightarrow> sleeplock \<Rightarrow> bool" where
  "holdingsleep pid lk \<longleftrightarrow> slocked lk \<and> spid lk = pid"

subsection \<open>State\<close>

type_synonym block = "u8 list"

definition BSIZE :: nat where "BSIZE = 512"
definition NBUF :: nat where "NBUF = 30"

record buf =
  bvalid :: bool
  bdirty :: bool
  bdev :: u32
  blockno :: u32
  block_lock :: sleeplock
  brefcnt :: u32
  bdata :: block

record dstate =
  disk :: "u32 \<Rightarrow> block"
  disksize :: u32
  dwrites :: "(u32 \<times> block) list"
  bufs :: "buf list"
  mru :: "nat list"
  curpid :: i32

type_synonym ('a, 's) io = "('a, unit, 's) outcome"

definition bufp :: "'a dstate_scheme \<Rightarrow> nat \<Rightarrow> buf" where
  "bufp s i = bufs s ! i"

definition upd_buf :: "nat \<Rightarrow> (buf \<Rightarrow> buf) \<Rightarrow> 'a dstate_scheme \<Rightarrow> 'a dstate_scheme" where
  "upd_buf i f s = s\<lparr>bufs := (bufs s)[i := f (bufs s ! i)]\<rparr>"

definition zero_buf :: buf where
  "zero_buf = \<lparr>bvalid = False, bdirty = False, bdev = 0, blockno = 0, block_lock = initsleeplock,
     brefcnt = 0, bdata = replicate BSIZE 0\<rparr>"

subsection \<open>The disk driver\<close>

definition iderw :: "nat \<Rightarrow> 'a dstate_scheme \<Rightarrow> (unit, 'a dstate_scheme) io" where
  "iderw b s =
     (if \<not> holdingsleep (curpid s) (block_lock (bufp s b)) then Panic ''iderw: buf not locked'' s
      else if bvalid (bufp s b) \<and> \<not> bdirty (bufp s b) then Panic ''iderw: nothing to do'' s
      else if bdev (bufp s b) \<noteq> 1 then Panic ''iderw: request not for disk 1'' s
      else if blockno (bufp s b) \<ge> disksize s then Panic ''iderw: block out of range'' s
      else
        let p = blockno (bufp s b) in
        if bdirty (bufp s b) then
          let s = upd_buf b (\<lambda>x. x\<lparr>bdirty := False\<rparr>) s;
              s = s\<lparr>disk := (disk s)(p := bdata (bufp s b)), dwrites := dwrites s @ [(p, bdata (bufp s b))]\<rparr> in
          Ret () (upd_buf b (\<lambda>x. x\<lparr>bvalid := True\<rparr>) s)
        else
          let s = upd_buf b (\<lambda>x. x\<lparr>bdata := disk s p\<rparr>) s in
          Ret () (upd_buf b (\<lambda>x. x\<lparr>bvalid := True\<rparr>) s))"

subsection \<open>The buffer cache\<close>

definition binit :: "'a dstate_scheme \<Rightarrow> 'a dstate_scheme" where
  "binit s =
     fold (\<lambda>b s. (upd_buf b (\<lambda>x. x\<lparr>block_lock := initsleeplock\<rparr>) s)\<lparr>mru := b # mru s\<rparr>) [0..<NBUF] (s\<lparr>mru := []\<rparr>)"

definition lock_buf :: "nat \<Rightarrow> 'a dstate_scheme \<Rightarrow> (nat, 'a dstate_scheme) io" where
  "lock_buf b s =
     (case acquiresleep (curpid s) (block_lock (bufp s b)) of
        None \<Rightarrow> Sleep s
      | Some lk \<Rightarrow> Ret b (upd_buf b (\<lambda>x. x\<lparr>block_lock := lk\<rparr>) s))"

text \<open>The first index of a list whose buffer satisfies a condition.\<close>

definition find_buf :: "(buf \<Rightarrow> bool) \<Rightarrow> nat list \<Rightarrow> 'a dstate_scheme \<Rightarrow> nat option" where
  "find_buf P is s = map_option (\<lambda>k. is ! k) (scan (\<lambda>i. P (bufp s i)) is)"

definition bget :: "u32 \<Rightarrow> u32 \<Rightarrow> 'a dstate_scheme \<Rightarrow> (nat, 'a dstate_scheme) io" where
  "bget dev no s =
     (case find_buf (\<lambda>x. bdev x = dev \<and> blockno x = no) (mru s) s of
        Some b \<Rightarrow> lock_buf b (upd_buf b (\<lambda>x. x\<lparr>brefcnt := brefcnt x + 1\<rparr>) s)
      | None \<Rightarrow>
          (case find_buf (\<lambda>x. brefcnt x = 0 \<and> \<not> bdirty x) (rev (mru s)) s of
             Some b \<Rightarrow>
               lock_buf b (upd_buf b (\<lambda>x. x\<lparr>bdev := dev, blockno := no, bvalid := False, bdirty := False, brefcnt := 1\<rparr>) s)
           | None \<Rightarrow> Panic ''bget: no buffers'' s))"

definition bread :: "u32 \<Rightarrow> u32 \<Rightarrow> 'a dstate_scheme \<Rightarrow> (nat, 'a dstate_scheme) io" where
  "bread dev no s =
     andthen (bget dev no s) (\<lambda>b s.
       if \<not> bvalid (bufp s b) then andthen (iderw b s) (\<lambda>_ s. Ret b s) else Ret b s)"

definition bwrite :: "nat \<Rightarrow> 'a dstate_scheme \<Rightarrow> (unit, 'a dstate_scheme) io" where
  "bwrite b s =
     (if \<not> holdingsleep (curpid s) (block_lock (bufp s b)) then Panic ''bwrite'' s
      else iderw b (upd_buf b (\<lambda>x. x\<lparr>bdirty := True\<rparr>) s))"

definition brelse :: "nat \<Rightarrow> 'a dstate_scheme \<Rightarrow> (unit, 'a dstate_scheme) io" where
  "brelse b s =
     (if \<not> holdingsleep (curpid s) (block_lock (bufp s b)) then Panic ''brelse'' s
      else
        let s = upd_buf b (\<lambda>x. x\<lparr>block_lock := releasesleep (block_lock x)\<rparr>) s;
            s = upd_buf b (\<lambda>x. x\<lparr>brefcnt := brefcnt x - 1\<rparr>) s in
        if brefcnt (bufp s b) = 0 then Ret () (s\<lparr>mru := b # remove1 b (mru s)\<rparr>) else Ret () s)"

text \<open>\<open>memmove\<close> of a whole block into a buffer the process holds.\<close>

definition set_data :: "nat \<Rightarrow> block \<Rightarrow> 'a dstate_scheme \<Rightarrow> 'a dstate_scheme" where
  "set_data b d s = upd_buf b (\<lambda>x. x\<lparr>bdata := d\<rparr>) s"

subsection \<open>What the cache stands for\<close>

text \<open>
  The process works on the device 1.  \<open>cached s no i\<close>: buffer \<open>i\<close> is the one of block \<open>no\<close>.  The view is the
  contents of the blocks as the process sees them, through the cache.
\<close>

definition cached :: "'a dstate_scheme \<Rightarrow> u32 \<Rightarrow> nat \<Rightarrow> bool" where
  "cached s no i \<longleftrightarrow> i < length (bufs s) \<and> bdev (bufp s i) = 1 \<and> blockno (bufp s i) = no"

definition view :: "'a dstate_scheme \<Rightarrow> u32 \<Rightarrow> block" where
  "view s no =
     (case scan (\<lambda>x. bdev x = 1 \<and> blockno x = no \<and> bvalid x) (bufs s) of
        Some i \<Rightarrow> bdata (bufp s i)
      | None \<Rightarrow> disk s no)"

definition dirty :: "'a dstate_scheme \<Rightarrow> u32 set" where
  "dirty s = {no. \<exists>i. cached s no i \<and> bdirty (bufp s i)}"

definition held :: "'a dstate_scheme \<Rightarrow> u32 set" where
  "held s = {no. \<exists>i. cached s no i \<and> slocked (block_lock (bufp s i))}"

text \<open>
  The invariant of the cache for a process that runs alone: a buffer is referenced exactly if the
  process holds it, no block has two buffers, and a buffer that nobody holds and that is not dirty
  agrees with the disk.
\<close>

definition buf_ok :: "'a dstate_scheme \<Rightarrow> buf \<Rightarrow> bool" where
  "buf_ok s x \<longleftrightarrow>
     brefcnt x = (if slocked (block_lock x) then 1 else 0) \<and>
     (slocked (block_lock x) \<longrightarrow> spid (block_lock x) = curpid s \<and> bdev x = 1 \<and> bvalid x) \<and>
     (bdirty x \<longrightarrow> bvalid x) \<and> (bvalid x \<longrightarrow> bdev x = 1 \<and> blockno x < disksize s) \<and>
     (bvalid x \<and> \<not> bdirty x \<and> \<not> slocked (block_lock x) \<longrightarrow> bdata x = disk s (blockno x)) \<and>
     length (bdata x) = BSIZE"

definition cache_inv :: "'a dstate_scheme \<Rightarrow> bool" where
  "cache_inv s \<longleftrightarrow>
     length (bufs s) = NBUF \<and> distinct (mru s) \<and> set (mru s) = {..<NBUF} \<and>
     (\<forall>x \<in> set (bufs s). buf_ok s x) \<and>
     (\<forall>no i j. cached s no i \<and> cached s no j \<longrightarrow> i = j) \<and> (\<forall>no. length (disk s no) = BSIZE)"

subsection \<open>Updates of one buffer\<close>

definition setb :: "nat \<Rightarrow> buf \<Rightarrow> 'a dstate_scheme \<Rightarrow> 'a dstate_scheme" where
  "setb b x s = s\<lparr>bufs := (bufs s)[b := x]\<rparr>"

named_theorems bufs \<open>normal form of buffer updates\<close>

lemma upd_buf_setb [bufs]: "upd_buf b f s = setb b (f (bufp s b)) s"
  by (simp add: upd_buf_def setb_def bufp_def)

lemma setb_setb [bufs]: "setb b x (setb b y s) = setb b x s"
  by (simp add: setb_def)

lemma setb_fields [bufs]:
  "disk (setb b x s) = disk s" "disksize (setb b x s) = disksize s" "dwrites (setb b x s) = dwrites s"
  "mru (setb b x s) = mru s" "curpid (setb b x s) = curpid s" "length (bufs (setb b x s)) = length (bufs s)"
  "dstate.more (setb b x s) = dstate.more s"
  by (simp_all add: setb_def)

lemma setb_moves [bufs]:
  "(setb b x s)\<lparr>disk := d\<rparr> = setb b x (s\<lparr>disk := d\<rparr>)"
  "(setb b x s)\<lparr>dwrites := w\<rparr> = setb b x (s\<lparr>dwrites := w\<rparr>)"
  "(setb b x s)\<lparr>mru := m\<rparr> = setb b x (s\<lparr>mru := m\<rparr>)"
  by (simp_all add: setb_def)

lemma bufp_other [bufs]:
  "bufp (s\<lparr>disk := d\<rparr>) = bufp s" "bufp (s\<lparr>dwrites := w\<rparr>) = bufp s" "bufp (s\<lparr>mru := m\<rparr>) = bufp s"
  by (simp_all add: bufp_def fun_eq_iff)

lemma bufp_setb: "b < length (bufs s) \<Longrightarrow> bufp (setb b x s) i = (if i = b then x else bufp s i)"
  by (simp add: setb_def bufp_def nth_list_update)

lemma cached_setb:
  "b < length (bufs s) \<Longrightarrow>
   cached (setb b x s) no i \<longleftrightarrow> (if i = b then bdev x = 1 \<and> blockno x = no else cached s no i)"
  by (auto simp: cached_def bufp_setb bufs)

lemma cached_unique: "cache_inv s \<Longrightarrow> cached s no i \<Longrightarrow> cached s no j \<Longrightarrow> i = j"
  by (auto simp: cache_inv_def)

lemma cache_len: "cache_inv s \<Longrightarrow> length (bufs s) = NBUF"
  by (simp add: cache_inv_def)

lemma cached_less: "cache_inv s \<Longrightarrow> cached s no i \<Longrightarrow> i < NBUF"
  by (simp add: cached_def cache_len)

lemma buf_okD: "cache_inv s \<Longrightarrow> i < NBUF \<Longrightarrow> buf_ok s (bufp s i)"
  by (simp add: cache_inv_def bufp_def)

lemma scan_view:
  "scan (\<lambda>x. bdev x = 1 \<and> blockno x = no \<and> bvalid x) (bufs s) = Some i \<Longrightarrow> cached s no i \<and> bvalid (bufp s i)"
  by (auto simp: scan_Some_iff cached_def bufp_def)

lemma view_cached:
  assumes "cache_inv s" "cached s no i" "bvalid (bufp s i)"
  shows "view s no = bdata (bufp s i)"
proof -
  have "scan (\<lambda>x. bdev x = 1 \<and> blockno x = no \<and> bvalid x) (bufs s) \<noteq> None"
    using assms(2,3) by (auto simp: cached_def bufp_def)
  then obtain j where j: "scan (\<lambda>x. bdev x = 1 \<and> blockno x = no \<and> bvalid x) (bufs s) = Some j" by blast
  then have "j = i" using scan_view cached_unique assms by blast
  then show ?thesis using j by (simp add: view_def)
qed

lemma view_uncached:
  assumes "\<And>i. cached s no i \<Longrightarrow> \<not> bvalid (bufp s i)"
  shows "view s no = disk s no"
  using assms scan_view [of no s] by (auto simp: view_def split: option.split)

text \<open>A buffer may take the place of another one when no other buffer is for its block.\<close>

definition may_set :: "nat \<Rightarrow> buf \<Rightarrow> 'a dstate_scheme \<Rightarrow> bool" where
  "may_set b x s \<longleftrightarrow> b < NBUF \<and> buf_ok s x \<and> (bdev x = 1 \<longrightarrow> (\<forall>j. cached s (blockno x) j \<longrightarrow> j = b))"

lemma buf_ok_setb [bufs]: "buf_ok (setb b x s) = buf_ok s"
  by (simp add: buf_ok_def bufs fun_eq_iff)

lemma setb_inv:
  assumes "cache_inv s" "may_set b x s"
  shows "cache_inv (setb b x s)"
proof -
  have b: "b < length (bufs s)" using assms by (simp add: cache_len may_set_def)
  have "set (bufs (setb b x s)) \<subseteq> insert x (set (bufs s))"
    by (simp add: setb_def set_update_subset_insert)
  moreover have "cached (setb b x s) no i \<and> cached (setb b x s) no j \<longrightarrow> i = j" for no i j
    using assms by (auto simp: cached_setb [OF b] may_set_def cache_inv_def)
  ultimately show ?thesis
    using assms unfolding cache_inv_def by (auto simp: bufs may_set_def)
qed

lemma view_setb:
  assumes "cache_inv s" "may_set b x s"
  shows "view (setb b x s) no =
    (if bdev x = 1 \<and> blockno x = no then (if bvalid x then bdata x else disk s no)
     else if cached s no b then disk s no else view s no)"
proof -
  have b: "b < length (bufs s)" using assms by (simp add: cache_len may_set_def)
  note inv = setb_inv [OF assms]
  have c: "cached (setb b x s) no i \<longleftrightarrow> (if i = b then bdev x = 1 \<and> blockno x = no else cached s no i)" for i
    by (rule cached_setb [OF b])
  consider "bdev x = 1 \<and> blockno x = no \<and> bvalid x" | "bdev x = 1 \<and> blockno x = no \<and> \<not> bvalid x"
    | "\<not> (bdev x = 1 \<and> blockno x = no)" "cached s no b"
    | i where "\<not> (bdev x = 1 \<and> blockno x = no)" "\<not> cached s no b" "cached s no i" "bvalid (bufp s i)"
    | "\<not> (bdev x = 1 \<and> blockno x = no)" "\<not> cached s no b" "\<forall>i. cached s no i \<longrightarrow> \<not> bvalid (bufp s i)"
    by blast
  then show ?thesis
  proof cases
    case 1
    then show ?thesis using view_cached [OF inv, of no b] c by (simp add: bufp_setb [OF b])
  next
    case 2
    then have "\<And>i. cached (setb b x s) no i \<Longrightarrow> i = b" using assms(2) c by (auto simp: may_set_def split: if_splits)
    then show ?thesis using 2 view_uncached [of "setb b x s" no] by (auto simp: bufp_setb [OF b] bufs)
  next
    case 3
    then have "\<And>i. \<not> cached (setb b x s) no i" using c cached_unique [OF assms(1)] by (auto split: if_splits)
    then show ?thesis using 3 view_uncached [of "setb b x s" no] by (auto simp: bufs)
  next
    case 4
    then have "i \<noteq> b" by blast
    then show ?thesis
      using 4 view_cached [OF inv, of no i] view_cached [OF assms(1), of no i] c by (auto simp: bufp_setb [OF b])
  next
    case 5
    then have "\<not> bvalid (bufp (setb b x s) i)" if "cached (setb b x s) no i" for i
      using that c by (auto simp: bufp_setb [OF b] split: if_splits)
    then have "view (setb b x s) no = disk s no" using view_uncached [of "setb b x s" no] by (simp add: bufs)
    then show ?thesis using 5 view_uncached [of s no] by auto
  qed
qed

lemma dirty_setb:
  "b < length (bufs s) \<Longrightarrow> cache_inv s \<Longrightarrow>
   dirty (setb b x s) = {no \<in> dirty s. \<not> cached s no b} \<union> (if bdev x = 1 \<and> bdirty x then {blockno x} else {})"
  unfolding dirty_def
  by (auto simp: cached_setb bufp_setb split: if_splits dest: cached_unique)

lemma held_setb:
  "b < length (bufs s) \<Longrightarrow> cache_inv s \<Longrightarrow>
   held (setb b x s) = {no \<in> held s. \<not> cached s no b} \<union>
     (if bdev x = 1 \<and> slocked (block_lock x) then {blockno x} else {})"
  unfolding held_def
  by (auto simp: cached_setb bufp_setb split: if_splits dest: cached_unique)

lemma view_clean: "cache_inv s \<Longrightarrow> no \<notin> dirty s \<Longrightarrow> no \<notin> held s \<Longrightarrow> view s no = disk s no"
proof (cases "\<exists>i. cached s no i \<and> bvalid (bufp s i)")
  case True
  then obtain i where i: "cached s no i" "bvalid (bufp s i)" by blast
  assume a: "cache_inv s" "no \<notin> dirty s" "no \<notin> held s"
  then have "buf_ok s (bufp s i)" using buf_okD cached_less i by blast
  moreover have "\<not> bdirty (bufp s i)" "\<not> slocked (block_lock (bufp s i))" "blockno (bufp s i) = no"
    using a i by (auto simp: dirty_def held_def cached_def)
  ultimately show ?thesis using i view_cached [OF a(1) i] by (simp add: buf_ok_def)
qed (use view_uncached in blast)

subsection \<open>The operations of the cache\<close>

lemma find_buf_Some: "find_buf P is s = Some b \<Longrightarrow> b \<in> set is \<and> P (bufp s b)"
  by (auto simp: find_buf_def scan_Some_iff)

lemma find_buf_None: "find_buf P is s = None \<longleftrightarrow> (\<forall>i \<in> set is. \<not> P (bufp s i))"
  by (simp add: find_buf_def)

lemma free_buffer:
  assumes "cache_inv s" "card (dirty s \<union> held s) < NBUF"
  shows "\<exists>i \<in> set (mru s). brefcnt (bufp s i) = 0 \<and> \<not> bdirty (bufp s i)"
proof (rule ccontr)
  assume no: "\<not> ?thesis"
  let ?f = "\<lambda>i. blockno (bufp s i)"
  have use: "cached s (?f i) i \<and> (bdirty (bufp s i) \<or> slocked (block_lock (bufp s i)))" if "i < NBUF" for i
  proof -
    have "brefcnt (bufp s i) \<noteq> 0 \<or> bdirty (bufp s i)" using no that assms(1) by (auto simp: cache_inv_def)
    then show ?thesis
      using buf_okD [OF assms(1) that] that cache_len [OF assms(1)] by (auto simp: buf_ok_def cached_def)
  qed
  have "inj_on ?f {..<NBUF}"
  proof (rule inj_onI)
    fix i j assume "i \<in> {..<NBUF}" "j \<in> {..<NBUF}" "?f i = ?f j"
    then show "i = j" using use [of i] use [of j] cached_unique [OF assms(1), of "?f i" i j] by simp
  qed
  moreover have "?f ` {..<NBUF} = dirty s \<union> held s"
  proof
    show "?f ` {..<NBUF} \<subseteq> dirty s \<union> held s" using use by (auto simp: dirty_def held_def)
    show "dirty s \<union> held s \<subseteq> ?f ` {..<NBUF}"
    proof
      fix no assume "no \<in> dirty s \<union> held s"
      then obtain i where "cached s no i" by (auto simp: dirty_def held_def)
      then show "no \<in> ?f ` {..<NBUF}" using cached_less [OF assms(1)] by (auto simp: cached_def)
    qed
  qed
  ultimately have "card (dirty s \<union> held s) = NBUF" by (metis card_image card_lessThan)
  then show False using assms(2) by simp
qed

text \<open>What a successful \<open>bread\<close> puts in the place of buffer \<open>b\<close>.\<close>

definition read_into :: "u32 \<Rightarrow> nat \<Rightarrow> buf \<Rightarrow> 'a dstate_scheme \<Rightarrow> bool" where
  "read_into no b x s \<longleftrightarrow> may_set b x s \<and> bdev x = 1 \<and> blockno x = no \<and> bvalid x \<and>
     holdingsleep (curpid s) (block_lock x) \<and> bdata x = view s no \<and> (bdirty x \<longleftrightarrow> no \<in> dirty s) \<and>
     (\<forall>no'. cached s no' b \<longrightarrow> no' \<notin> held s \<and> (no' = no \<or> no' \<notin> dirty s))"

lemma bread_cached:
  assumes inv: "cache_inv s" and no: "no \<notin> held s" "no < disksize s" and c: "cached s no b"
  shows "\<exists>x. bread 1 no s = Ret b (setb b x s) \<and> read_into no b x s"
proof -
  have b: "b < NBUF" "b < length (bufs s)" using cached_less [OF inv c] cache_len [OF inv] by simp_all
  let ?x = "bufp s b"
  have ok: "buf_ok s ?x" by (rule buf_okD [OF inv b(1)])
  have f: "bdev ?x = 1" "blockno ?x = no" "\<not> slocked (block_lock ?x)" using c no by (auto simp: cached_def held_def)
  have "find_buf (\<lambda>x. bdev x = 1 \<and> blockno x = no) (mru s) s \<noteq> None"
    using b f inv by (auto simp: find_buf_None cache_inv_def)
  then have find: "find_buf (\<lambda>x. bdev x = 1 \<and> blockno x = no) (mru s) s = Some b"
  proof -
    obtain j where j: "find_buf (\<lambda>x. bdev x = 1 \<and> blockno x = no) (mru s) s = Some j"
      using \<open>find_buf _ _ _ \<noteq> None\<close> by blast
    have "cached s no j" using find_buf_Some [OF j] inv by (auto simp: cached_def cache_inv_def)
    then show ?thesis using j cached_unique [OF inv c] by blast
  qed
  have d: "no \<in> dirty s \<longleftrightarrow> bdirty ?x"
    using c cached_unique [OF inv c] unfolding dirty_def mem_Collect_eq by blast
  have v: "view s no = (if bvalid ?x then bdata ?x else disk s no)"
  proof (cases "bvalid ?x")
    case False
    then have "\<not> bvalid (bufp s i)" if "cached s no i" for i using cached_unique [OF inv c that] by simp
    then show ?thesis using False view_uncached [of s no] by simp
  qed (simp add: view_cached [OF inv c])
  define z where "z = ?x\<lparr>brefcnt := 1, block_lock := (block_lock ?x)\<lparr>slocked := True, spid := curpid s\<rparr>\<rparr>"
  define y where "y = (if bvalid ?x then z else z\<lparr>bdata := disk s no, bvalid := True\<rparr>)"
  have "bget 1 no s = Ret b (setb b z s)"
    using ok f find by (simp add: bget_def lock_buf_def acquiresleep_def bufp_setb [OF b(2)] bufs z_def buf_ok_def)
  moreover have "iderw b (setb b z s) = Ret () (setb b y s)" if "\<not> bvalid ?x"
    using that ok f no b(2)
    by (simp add: iderw_def holdingsleep_def bufp_setb bufs z_def y_def buf_ok_def Let_def not_le)
  ultimately have "bread 1 no s = Ret b (setb b y s)"
    using b(2) by (auto simp: bread_def bufp_setb y_def z_def)
  moreover have "read_into no b y s"
    unfolding read_into_def
  proof (intro conjI allI impI)
    show "may_set b y s"
      using ok f no b cached_unique [OF inv c] inv
      by (auto simp: may_set_def y_def z_def buf_ok_def cache_inv_def)
    show "no' \<notin> held s" "no' = no \<or> no' \<notin> dirty s" if "cached s no' b" for no'
      using that f no by (auto simp: cached_def)
    show "bdirty y \<longleftrightarrow> no \<in> dirty s" using d by (simp add: y_def z_def)
  qed (use f v in \<open>auto simp: y_def z_def holdingsleep_def\<close>)
  ultimately show ?thesis by blast
qed

lemma bread_uncached:
  assumes inv: "cache_inv s" and no: "no \<notin> held s" "no < disksize s" and free: "card (dirty s \<union> held s) < NBUF"
    and c: "\<And>i. \<not> cached s no i"
  shows "\<exists>b x. bread 1 no s = Ret b (setb b x s) \<and> read_into no b x s"
proof -
  have find: "find_buf (\<lambda>x. bdev x = 1 \<and> blockno x = no) (mru s) s = None"
    using c inv by (auto simp: find_buf_None cached_def cache_inv_def)
  have "find_buf (\<lambda>x. brefcnt x = 0 \<and> \<not> bdirty x) (rev (mru s)) s \<noteq> None"
    using free_buffer [OF inv free] by (auto simp: find_buf_None)
  then obtain b where find': "find_buf (\<lambda>x. brefcnt x = 0 \<and> \<not> bdirty x) (rev (mru s)) s = Some b" by blast
  let ?x = "bufp s b"
  have b: "b < NBUF" "b < length (bufs s)" and f: "brefcnt ?x = 0" "\<not> bdirty ?x"
    using find_buf_Some [OF find'] inv cache_len [OF inv] by (auto simp: cache_inv_def)
  have ok: "buf_ok s ?x" by (rule buf_okD [OF inv b(1)])
  have lk: "\<not> slocked (block_lock ?x)" using ok f by (auto simp: buf_ok_def)
  have v: "view s no = disk s no" using c view_uncached [of s no] by blast
  define z where "z = ?x\<lparr>bdev := 1, blockno := no, bvalid := False, bdirty := False, brefcnt := 1,
      block_lock := (block_lock ?x)\<lparr>slocked := True, spid := curpid s\<rparr>\<rparr>"
  define y where "y = z\<lparr>bdata := disk s no, bvalid := True\<rparr>"
  have "bget 1 no s = Ret b (setb b z s)"
    using lk find find' by (simp add: bget_def lock_buf_def acquiresleep_def bufp_setb [OF b(2)] bufs z_def)
  moreover have "iderw b (setb b z s) = Ret () (setb b y s)"
    using no b(2) by (simp add: iderw_def holdingsleep_def bufp_setb bufs z_def y_def Let_def not_le)
  ultimately have "bread 1 no s = Ret b (setb b y s)"
    using b(2) by (auto simp: bread_def bufp_setb y_def z_def)
  moreover have "read_into no b y s"
    unfolding read_into_def
  proof (intro conjI allI impI)
    show "may_set b y s"
      using ok no b c inv by (auto simp: may_set_def y_def z_def buf_ok_def cache_inv_def)
    show "no' \<notin> held s" "no' = no \<or> no' \<notin> dirty s" if "cached s no' b" for no'
      using that lk f(2) cached_unique [OF inv that] unfolding held_def dirty_def mem_Collect_eq by blast+
    show "bdirty y \<longleftrightarrow> no \<in> dirty s" using c by (simp add: y_def z_def dirty_def)
  qed (simp_all add: y_def z_def holdingsleep_def v)
  ultimately show ?thesis by blast
qed

text \<open>The parts of the state the cache leaves alone, and the buffers of the blocks that are held.\<close>

definition frame :: "'a dstate_scheme \<Rightarrow> 'a dstate_scheme \<Rightarrow> bool" where
  "frame s t \<longleftrightarrow> disksize t = disksize s \<and> curpid t = curpid s \<and> dstate.more t = dstate.more s"

definition holds :: "'a dstate_scheme \<Rightarrow> u32 \<Rightarrow> nat \<Rightarrow> bool" where
  "holds s no b \<longleftrightarrow> cached s no b \<and> slocked (block_lock (bufp s b))"

lemma frame_refl [simp]: "frame s s"
  by (simp add: frame_def)

lemma frame_trans: "frame s t \<Longrightarrow> frame t u \<Longrightarrow> frame s u"
  by (simp add: frame_def)

lemma holdsD:
  assumes "cache_inv s" "holds s no b"
  shows "b < NBUF" "b < length (bufs s)" "bdev (bufp s b) = 1" "blockno (bufp s b) = no" "bvalid (bufp s b)"
    "brefcnt (bufp s b) = 1" "slocked (block_lock (bufp s b))" "spid (block_lock (bufp s b)) = curpid s" "no \<in> held s"
    "no < disksize s" "view s no = bdata (bufp s b)" "length (view s no) = BSIZE"
    "holdingsleep (curpid s) (block_lock (bufp s b))" "no \<in> dirty s \<longleftrightarrow> bdirty (bufp s b)"
proof -
  have c: "cached s no b" and l: "slocked (block_lock (bufp s b))" using assms by (auto simp: holds_def)
  show b: "b < NBUF" "b < length (bufs s)" using cached_less [OF assms(1) c] cache_len [OF assms(1)] by simp_all
  have ok: "buf_ok s (bufp s b)" by (rule buf_okD [OF assms(1) b(1)])
  show f: "bdev (bufp s b) = 1" "blockno (bufp s b) = no" "bvalid (bufp s b)" "brefcnt (bufp s b) = 1"
    "slocked (block_lock (bufp s b))" "spid (block_lock (bufp s b)) = curpid s" "no < disksize s"
    using c l ok by (auto simp: cached_def buf_ok_def)
  show "no \<in> held s" using c l by (auto simp: held_def)
  show v: "view s no = bdata (bufp s b)" by (rule view_cached [OF assms(1) c f(3)])
  show "length (view s no) = BSIZE" using v ok by (simp add: buf_ok_def)
  show "holdingsleep (curpid s) (block_lock (bufp s b))" using f by (simp add: holdingsleep_def)
  show "no \<in> dirty s \<longleftrightarrow> bdirty (bufp s b)"
    using c cached_unique [OF assms(1) c] unfolding dirty_def mem_Collect_eq by blast
qed

lemma read_into_effects:
  assumes inv: "cache_inv s" and r: "read_into no b x s"
  defines "t \<equiv> setb b x s"
  shows "cache_inv t" "view t = view s" "dirty t = dirty s" "held t = insert no (held s)" "holds t no b"
    "\<And>no' j. holds s no' j \<Longrightarrow> holds t no' j"
proof -
  have m: "may_set b x s" and x: "bdev x = 1" "blockno x = no" "bvalid x" "slocked (block_lock x)" "bdata x = view s no"
    "bdirty x \<longleftrightarrow> no \<in> dirty s" and old: "\<And>no'. cached s no' b \<Longrightarrow> no' \<notin> held s \<and> (no' = no \<or> no' \<notin> dirty s)"
    using r by (auto simp: read_into_def holdingsleep_def)
  have b: "b < length (bufs s)" using m cache_len [OF inv] by (simp add: may_set_def)
  show "cache_inv t" unfolding t_def by (rule setb_inv [OF inv m])
  show "view t = view s"
  proof
    fix no'
    show "view t no' = view s no'"
      unfolding t_def view_setb [OF inv m] using x old [of no'] view_clean [OF inv, of no'] by auto
  qed
  show "dirty t = dirty s"
    unfolding t_def dirty_setb [OF b inv] using x old by (auto simp: dirty_def)
  show "held t = insert no (held s)"
    unfolding t_def held_setb [OF b inv] using x old by auto
  show "holds t no b" using x by (simp add: t_def holds_def cached_setb [OF b] bufp_setb [OF b])
  show "holds t no' j" if "holds s no' j" for no' j
  proof -
    have "j \<noteq> b" using that old [of no'] by (auto simp: holds_def held_def)
    then show ?thesis using that by (simp add: t_def holds_def cached_setb [OF b] bufp_setb [OF b])
  qed
qed

subsection \<open>Refinement of an abstract block store\<close>

text \<open>
  The abstract state: the contents of the blocks as the process sees them, the disk and the sequence
  of writes to it, the blocks whose buffer is dirty and those the process holds.
\<close>

record store =
  aview :: "u32 \<Rightarrow> block"
  adisk :: "u32 \<Rightarrow> block"
  awrites :: "(u32 \<times> block) list"
  adirty :: "u32 set"
  aheld :: "u32 set"

definition absc :: "'a dstate_scheme \<Rightarrow> store" where
  "absc s = \<lparr>aview = view s, adisk = disk s, awrites = dwrites s, adirty = dirty s, aheld = held s\<rparr>"

text \<open>\<open>refines s f\<close>: from \<open>s\<close>, which satisfies the invariant, the code reaches a state that satisfies it,
  is the image of the abstract operation \<open>f\<close> and leaves the rest of the state and the buffers of the
  other held blocks alone.\<close>

definition refines :: "'a dstate_scheme \<Rightarrow> u32 \<Rightarrow> (store \<Rightarrow> store) \<Rightarrow> 'a dstate_scheme \<Rightarrow> bool" where
  "refines s no f t \<longleftrightarrow> cache_inv t \<and> absc t = f (absc s) \<and> frame s t \<and>
     (\<forall>no' j. no' \<noteq> no \<and> holds s no' j \<longrightarrow> holds t no' j)"

lemma bread_refines:
  assumes "cache_inv s" "no \<notin> held s" "no < disksize s" "no \<in> dirty s \<or> card (dirty s \<union> held s) < NBUF"
  obtains b t where "bread 1 no s = Ret b t" "refines s no (aheld_update (insert no)) t" "holds t no b"
proof -
  obtain b x where r: "bread 1 no s = Ret b (setb b x s)" "read_into no b x s"
  proof (cases "\<exists>b. cached s no b")
    case True
    then show ?thesis using that bread_cached [OF assms(1,2,3)] by blast
  next
    case False
    then have "card (dirty s \<union> held s) < NBUF" using assms(4) by (auto simp: dirty_def)
    then show ?thesis using that False bread_uncached [OF assms(1,2,3)] by blast
  qed
  note e = read_into_effects [OF assms(1) r(2)]
  have "refines s no (aheld_update (insert no)) (setb b x s)"
    using e by (simp add: refines_def absc_def frame_def bufs)
  then show ?thesis using that r(1) e(5) by blast
qed

lemma disk_update_fields [bufs]:
  "bufs (s\<lparr>disk := d\<rparr>) = bufs s" "cached (s\<lparr>disk := d\<rparr>) = cached s" "cached (s\<lparr>dwrites := w\<rparr>) = cached s"
  "cached (s\<lparr>mru := m\<rparr>) = cached s" "dirty (s\<lparr>disk := d\<rparr>) = dirty s" "dirty (s\<lparr>dwrites := w\<rparr>) = dirty s"
  "dirty (s\<lparr>mru := m\<rparr>) = dirty s" "held (s\<lparr>disk := d\<rparr>) = held s" "held (s\<lparr>dwrites := w\<rparr>) = held s"
  "held (s\<lparr>mru := m\<rparr>) = held s" "view (s\<lparr>dwrites := w\<rparr>) = view s" "view (s\<lparr>mru := m\<rparr>) = view s"
  by (simp_all add: cached_def dirty_def held_def view_def bufp_def fun_eq_iff cong: option.case_cong)

lemma write_disk_inv:
  assumes "cache_inv s" "holds s no b" "length d = BSIZE"
  shows "cache_inv (s\<lparr>disk := (disk s)(no := d), dwrites := w\<rparr>)"
proof -
  have "buf_ok (s\<lparr>disk := (disk s)(no := d), dwrites := w\<rparr>) x" if x: "x \<in> set (bufs s)" for x
  proof -
    obtain i where i: "i < NBUF" "x = bufp s i"
      using x cache_len [OF assms(1)] by (auto simp: in_set_conv_nth bufp_def)
    have "\<not> slocked (block_lock x) \<and> bvalid x \<longrightarrow> blockno x \<noteq> no"
      using assms(2) i buf_okD [OF assms(1) i(1)] cached_unique [OF assms(1), of no i b] cache_len [OF assms(1)]
      by (auto simp: holds_def cached_def buf_ok_def)
    then show ?thesis using buf_okD [OF assms(1) i(1)] by (auto simp: buf_ok_def i(2))
  qed
  then show ?thesis using assms by (auto simp: cache_inv_def bufs)
qed

lemma view_write_disk:
  assumes "cache_inv s" "holds s no b" "length d = BSIZE"
  shows "view (s\<lparr>disk := (disk s)(no := d), dwrites := w\<rparr>) = view s"
proof
  fix no'
  let ?t = "s\<lparr>disk := (disk s)(no := d), dwrites := w\<rparr>"
  show "view ?t no' = view s no'"
  proof (cases "\<exists>i. cached s no' i \<and> bvalid (bufp s i)")
    case True
    then show ?thesis
      using view_cached [OF assms(1)] view_cached [OF write_disk_inv [OF assms, of w]] by (fastforce simp: bufs)
  next
    case False
    then have "no' \<noteq> no" using assms(2) holdsD [OF assms(1,2)] by (auto simp: holds_def)
    then show ?thesis
      using False view_uncached [of s no'] view_uncached [of ?t no'] by (auto simp: bufs)
  qed
qed

lemma bwrite_refines:
  assumes "cache_inv s" "holds s no b"
  obtains t where "bwrite b s = Ret () t"
    "refines s no (\<lambda>a. a\<lparr>adisk := (adisk a)(no := aview a no), awrites := awrites a @ [(no, aview a no)],
       adirty := adirty a - {no}\<rparr>) t"
    "holds t no b"
proof -
  note h = holdsD [OF assms]
  let ?s = "s\<lparr>disk := (disk s)(no := view s no), dwrites := dwrites s @ [(no, view s no)]\<rparr>"
  let ?x = "(bufp s b)\<lparr>bdirty := False, bvalid := True\<rparr>"
  have inv: "cache_inv ?s" by (rule write_disk_inv [OF assms h(12)])
  have len: "b < length (bufs ?s)" using h(2) by simp
  have c: "cached ?s no b" using assms(2) by (simp add: holds_def bufs)
  have only: "j = b" if "cached ?s no j" for j by (rule cached_unique [OF inv that c])
  have "buf_ok ?s (bufp s b)" using buf_okD [OF inv h(1)] by (simp add: bufs)
  then have "buf_ok ?s ?x" using h by (simp add: buf_ok_def)
  then have m: "may_set b ?x ?s" unfolding may_set_def using h(1,4) only by (simp add: bufs)
  have "bwrite b s = Ret () (setb b ?x ?s)"
    using h by (simp add: bwrite_def iderw_def bufs bufp_setb Let_def not_le)
  moreover have v: "view (setb b ?x ?s) = view s"
  proof
    fix no'
    show "view (setb b ?x ?s) no' = view s no'"
      unfolding view_setb [OF inv m] view_write_disk [OF assms h(12)] using h(3,4,5,11)
      by (auto simp: cached_def bufs)
  qed
  have d: "dirty (setb b ?x ?s) = dirty s - {no}" "held (setb b ?x ?s) = held s"
    unfolding dirty_setb [OF len inv] held_setb [OF len inv] using h c by (auto simp: bufs cached_def)
  have "holds (setb b ?x ?s) no b" using h by (simp add: holds_def cached_setb bufp_setb)
  moreover have "refines s no (\<lambda>a. a\<lparr>adisk := (adisk a)(no := aview a no), awrites := awrites a @ [(no, aview a no)],
       adirty := adirty a - {no}\<rparr>) (setb b ?x ?s)"
    using v d setb_inv [OF inv m]
    by (auto simp: refines_def absc_def frame_def bufs holds_def cached_setb [OF len] bufp_setb [OF len] cached_def
        split: if_splits)
  ultimately show ?thesis using that by blast
qed

lemma set_mru_inv: "cache_inv s \<Longrightarrow> distinct m \<Longrightarrow> set m = {..<NBUF} \<Longrightarrow> cache_inv (s\<lparr>mru := m\<rparr>)"
  by (auto simp: cache_inv_def bufs buf_ok_def)

lemma brelse_refines:
  assumes "cache_inv s" "holds s no b" "no \<in> dirty s \<or> view s no = disk s no"
  obtains t where "brelse b s = Ret () t" "refines s no (aheld_update (\<lambda>h. h - {no})) t"
proof -
  note h = holdsD [OF assms(1,2)]
  let ?m = "b # remove1 b (mru s)"
  let ?s = "s\<lparr>mru := ?m\<rparr>"
  let ?x = "(bufp s b)\<lparr>block_lock := releasesleep (block_lock (bufp s b)), brefcnt := 0\<rparr>"
  have mru: "distinct (mru s)" "set (mru s) = {..<NBUF}" using assms(1) by (auto simp: cache_inv_def)
  then have inv: "cache_inv ?s" using h(1) by (intro set_mru_inv [OF assms(1)]) auto
  have len: "b < length (bufs ?s)" using h(2) by simp
  have c: "cached ?s no b" using assms(2) by (simp add: holds_def bufs)
  have only: "j = b" if "cached ?s no j" for j by (rule cached_unique [OF inv that c])
  have "buf_ok ?s (bufp s b)" using buf_okD [OF inv h(1)] by (simp add: bufs)
  then have "buf_ok ?s ?x" using h assms(3) by (auto simp: buf_ok_def releasesleep_def)
  then have m: "may_set b ?x ?s" unfolding may_set_def using h(1,4) only by (simp add: bufs)
  have "brelse b s = Ret () (setb b ?x ?s)"
    using h by (simp add: brelse_def bufs bufp_setb Let_def)
  moreover have v: "view (setb b ?x ?s) = view s"
  proof
    fix no'
    show "view (setb b ?x ?s) no' = view s no'"
      unfolding view_setb [OF inv m] using h(3,4,5,11) by (auto simp: cached_def bufs)
  qed
  have d: "dirty (setb b ?x ?s) = dirty s" "held (setb b ?x ?s) = held s - {no}"
    unfolding dirty_setb [OF len inv] held_setb [OF len inv] using h c by (auto simp: bufs cached_def releasesleep_def)
  have "refines s no (aheld_update (\<lambda>h. h - {no})) (setb b ?x ?s)"
    using v d setb_inv [OF inv m] h(4)
    by (auto simp: refines_def absc_def frame_def bufs holds_def cached_setb [OF len] bufp_setb [OF len] cached_def
        split: if_splits)
  ultimately show ?thesis using that by blast
qed

lemma set_data_refines:
  assumes "cache_inv s" "holds s no b" "length d = BSIZE"
  shows "refines s no (\<lambda>a. a\<lparr>aview := (aview a)(no := d)\<rparr>) (set_data b d s)" "holds (set_data b d s) no b"
proof -
  note h = holdsD [OF assms(1,2)]
  let ?x = "(bufp s b)\<lparr>bdata := d\<rparr>"
  have c: "cached s no b" using assms(2) by (simp add: holds_def)
  have only: "j = b" if "cached s no j" for j by (rule cached_unique [OF assms(1) that c])
  have "buf_ok s ?x" using buf_okD [OF assms(1) h(1)] h assms(3) by (simp add: buf_ok_def)
  then have m: "may_set b ?x s" unfolding may_set_def using h(1,4) only by simp
  have e: "set_data b d s = setb b ?x s" by (simp add: set_data_def bufs)
  have v: "view (setb b ?x s) = (view s)(no := d)"
  proof
    fix no'
    show "view (setb b ?x s) no' = ((view s)(no := d)) no'"
      unfolding view_setb [OF assms(1) m] using h(3,4,5) by (auto simp: cached_def)
  qed
  have d: "dirty (setb b ?x s) = dirty s" "held (setb b ?x s) = held s"
    unfolding dirty_setb [OF h(2) assms(1)] held_setb [OF h(2) assms(1)] using h c by (auto simp: cached_def)
  show "holds (set_data b d s) no b" using h by (simp add: e holds_def cached_setb [OF h(2)] bufp_setb [OF h(2)])
  show "refines s no (\<lambda>a. a\<lparr>aview := (aview a)(no := d)\<rparr>) (set_data b d s)"
    using v d setb_inv [OF assms(1) m] unfolding e
    by (auto simp: refines_def absc_def frame_def bufs holds_def cached_setb [OF h(2)] bufp_setb [OF h(2)] cached_def
        split: if_splits)
qed

text \<open>Marking a held buffer dirty, as \<open>log_write\<close> does.\<close>

lemma mark_dirty_refines:
  assumes "cache_inv s" "holds s no b"
  defines "t \<equiv> upd_buf b (\<lambda>x. x\<lparr>bdirty := True\<rparr>) s"
  shows "refines s no (adirty_update (insert no)) t" "holds t no b"
proof -
  note h = holdsD [OF assms(1,2)]
  let ?x = "(bufp s b)\<lparr>bdirty := True\<rparr>"
  have c: "cached s no b" using assms(2) by (simp add: holds_def)
  have only: "j = b" if "cached s no j" for j by (rule cached_unique [OF assms(1) that c])
  have "buf_ok s ?x" using buf_okD [OF assms(1) h(1)] h by (simp add: buf_ok_def)
  then have m: "may_set b ?x s" unfolding may_set_def using h(1,4) only by simp
  have e: "t = setb b ?x s" by (simp add: t_def bufs)
  have v: "view (setb b ?x s) = view s"
  proof
    fix no'
    show "view (setb b ?x s) no' = view s no'"
      unfolding view_setb [OF assms(1) m] using h(3,4,5,11) by (auto simp: cached_def)
  qed
  have d: "dirty (setb b ?x s) = insert no (dirty s)" "held (setb b ?x s) = held s"
    unfolding dirty_setb [OF h(2) assms(1)] held_setb [OF h(2) assms(1)] using h c by (auto simp: cached_def)
  show "holds t no b" using h by (simp add: e holds_def cached_setb [OF h(2)] bufp_setb [OF h(2)])
  show "refines s no (adirty_update (insert no)) t"
    using v d setb_inv [OF assms(1) m] unfolding e
    by (auto simp: refines_def absc_def frame_def bufs holds_def cached_setb [OF h(2)] bufp_setb [OF h(2)] cached_def
        split: if_splits)
qed

subsection \<open>The interface of the cache\<close>

text \<open>A block is given new contents, in the cache and on the disk.\<close>

definition wrote :: "u32 \<Rightarrow> block \<Rightarrow> store \<Rightarrow> store" where
  "wrote no d a = a\<lparr>aview := (aview a)(no := d), adisk := (adisk a)(no := d), awrites := awrites a @ [(no, d)],
     adirty := adirty a - {no}\<rparr>"

text \<open>
  What the code above the cache relies on: reading takes a buffer, writing puts the view of a held
  block on the disk, releasing a block that is dirty or agrees with the disk gives it up, and each
  touches nothing else.  \<open>get\<close> and \<open>put\<close> access the data of a held buffer.
\<close>

locale block_store =
  fixes inv :: "'s \<Rightarrow> bool" and ab :: "'s \<Rightarrow> store" and fr :: "'s \<Rightarrow> 's \<Rightarrow> bool"
    and hold :: "'s \<Rightarrow> u32 \<Rightarrow> nat \<Rightarrow> bool" and sz :: "'s \<Rightarrow> u32"
    and rd :: "u32 \<Rightarrow> 's \<Rightarrow> (nat, 's) io" and wr :: "nat \<Rightarrow> 's \<Rightarrow> (unit, 's) io" and rl :: "nat \<Rightarrow> 's \<Rightarrow> (unit, 's) io"
    and get :: "'s \<Rightarrow> nat \<Rightarrow> block" and put :: "nat \<Rightarrow> block \<Rightarrow> 's \<Rightarrow> 's"
  assumes fr_refl: "fr s s" and fr_trans: "fr s t \<Longrightarrow> fr t u \<Longrightarrow> fr s u" and fr_sz: "fr s t \<Longrightarrow> sz t = sz s"
    and get_law: "inv s \<Longrightarrow> hold s no b \<Longrightarrow> get s b = aview (ab s) no"
    and view_len: "inv s \<Longrightarrow> hold s no b \<Longrightarrow> length (aview (ab s) no) = BSIZE"
    and rd_law: "inv s \<Longrightarrow> no \<notin> aheld (ab s) \<Longrightarrow> no < sz s \<Longrightarrow>
      no \<in> adirty (ab s) \<or> card (adirty (ab s) \<union> aheld (ab s)) < NBUF \<Longrightarrow>
      \<exists>b t. rd no s = Ret b t \<and> inv t \<and> ab t = aheld_update (insert no) (ab s) \<and> fr s t \<and> hold t no b \<and>
        (\<forall>no' j. no' \<noteq> no \<and> hold s no' j \<longrightarrow> hold t no' j)"
    and wr_law: "inv s \<Longrightarrow> hold s no b \<Longrightarrow>
      \<exists>t. wr b s = Ret () t \<and> inv t \<and> ab t = (ab s)\<lparr>adisk := (adisk (ab s))(no := aview (ab s) no),
          awrites := awrites (ab s) @ [(no, aview (ab s) no)], adirty := adirty (ab s) - {no}\<rparr> \<and> fr s t \<and> hold t no b \<and>
        (\<forall>no' j. no' \<noteq> no \<and> hold s no' j \<longrightarrow> hold t no' j)"
    and rl_law: "inv s \<Longrightarrow> hold s no b \<Longrightarrow> no \<in> adirty (ab s) \<or> aview (ab s) no = adisk (ab s) no \<Longrightarrow>
      \<exists>t. rl b s = Ret () t \<and> inv t \<and> ab t = aheld_update (\<lambda>h. h - {no}) (ab s) \<and> fr s t \<and>
        (\<forall>no' j. no' \<noteq> no \<and> hold s no' j \<longrightarrow> hold t no' j)"
    and put_law: "inv s \<Longrightarrow> hold s no b \<Longrightarrow> length d = BSIZE \<Longrightarrow>
      inv (put b d s) \<and> ab (put b d s) = (ab s)\<lparr>aview := (aview (ab s))(no := d)\<rparr> \<and> fr s (put b d s) \<and> hold (put b d s) no b \<and>
        (\<forall>no' j. no' \<noteq> no \<and> hold s no' j \<longrightarrow> hold (put b d s) no' j)"
begin

lemma update_block:
  assumes "inv s" "no \<notin> aheld (ab s)" "no < sz s" "no \<in> adirty (ab s) \<or> card (adirty (ab s) \<union> aheld (ab s)) < NBUF"
    "length (f (aview (ab s) no)) = BSIZE"
    and r: "r1 s = rd no s" "\<And>t. fr s t \<Longrightarrow> F t = f"
  shows "\<exists>t. andthen (r1 s) (\<lambda>b s. let s = put b (F s (get s b)) s in andthen (wr b s) (\<lambda>_ s. rl b s)) = Ret () t \<and>
    inv t \<and> ab t = wrote no (f (aview (ab s) no)) (ab s) \<and> fr s t"
proof -
  let ?d = "f (aview (ab s) no)"
  obtain b s1 where 1: "rd no s = Ret b s1" "inv s1" "ab s1 = aheld_update (insert no) (ab s)" "fr s s1" "hold s1 no b"
    using rd_law [OF assms(1-4)] by blast
  have g: "get s1 b = aview (ab s) no" using get_law [OF 1(2,5)] by (simp add: 1(3))
  let ?s2 = "put b ?d s1"
  have 2: "inv ?s2" "ab ?s2 = (ab s1)\<lparr>aview := (aview (ab s1))(no := ?d)\<rparr>" "fr s1 ?s2" "hold ?s2 no b"
    using put_law [OF 1(2,5), of ?d] assms(5) by auto
  obtain s3 where 3: "wr b ?s2 = Ret () s3" "inv s3" "ab s3 = wrote no ?d (aheld_update (insert no) (ab s))" "fr ?s2 s3" "hold s3 no b"
    using wr_law [OF 2(1,4)] by (auto simp: 2(2) 1(3) wrote_def)
  obtain t where 4: "rl b s3 = Ret () t" "inv t" "ab t = aheld_update (\<lambda>h. h - {no}) (ab s3)" "fr s3 t"
    using rl_law [OF 3(2,5)] by (auto simp: 3(3) wrote_def)
  have "ab t = wrote no ?d (ab s)" using assms(2) by (simp add: 4(3) 3(3) wrote_def)
  then show ?thesis
    using 1 2 3 4 by (intro exI [of _ t]) (auto simp: g r intro: fr_trans)
qed

lemma read_two:
  assumes "inv s" "aheld (ab s) = {}" "no1 < sz s" "no2 < sz s" "no1 \<noteq> no2" "card (adirty (ab s)) < NBUF"
    "no2 \<in> adirty (ab s) \<or> card (insert no1 (adirty (ab s))) < NBUF"
  obtains l s1 d s2 where "rd no1 s = Ret l s1" "fr s s1" "rd no2 s1 = Ret d s2" "inv s2" "ab s2 = (ab s)\<lparr>aheld := {no1, no2}\<rparr>"
    "fr s s2" "hold s2 no1 l" "hold s2 no2 d"
proof -
  have "card (adirty (ab s) \<union> aheld (ab s)) < NBUF" using assms(2,6) by simp
  then obtain l s1 where 1: "rd no1 s = Ret l s1" "inv s1" "ab s1 = (ab s)\<lparr>aheld := {no1}\<rparr>" "fr s s1" "hold s1 no1 l"
    using rd_law [OF assms(1) _ assms(3)] assms(2) by auto
  then obtain d s2 where 2: "rd no2 s1 = Ret d s2" "inv s2" "ab s2 = aheld_update (insert no2) (ab s1)" "fr s1 s2"
      "hold s2 no2 d" "\<forall>no' j. no' \<noteq> no2 \<and> hold s1 no' j \<longrightarrow> hold s2 no' j"
    using rd_law [OF 1(2), of no2] assms(4,5,7) fr_sz [OF 1(4)] by auto
  have "ab s2 = (ab s)\<lparr>aheld := {no1, no2}\<rparr>"
    by (cases "ab s") (simp add: 2(3) 1(3) insert_commute)
  then show ?thesis
    using 1 2 assms(5) by (intro that [of l s1 d s2]) (auto intro: fr_trans)
qed

lemma release_two:
  assumes "inv s" "hold s no1 l" "hold s no2 d" "no1 \<noteq> no2" "aheld (ab s) = {no1, no2}"
    "no1 \<in> adirty (ab s) \<or> aview (ab s) no1 = adisk (ab s) no1"
    "no2 \<in> adirty (ab s) \<or> aview (ab s) no2 = adisk (ab s) no2"
  shows "\<exists>t. andthen (rl l s) (\<lambda>_ s. rl d s) = Ret () t \<and> inv t \<and> ab t = (ab s)\<lparr>aheld := {}\<rparr> \<and> fr s t"
proof -
  obtain s1 where 1: "rl l s = Ret () s1" "inv s1" "ab s1 = aheld_update (\<lambda>h. h - {no1}) (ab s)" "fr s s1" "hold s1 no2 d"
    using rl_law [OF assms(1,2,6)] assms(3) assms(4) [symmetric] by blast
  obtain t where 2: "rl d s1 = Ret () t" "inv t" "ab t = aheld_update (\<lambda>h. h - {no2}) (ab s1)" "fr s1 t"
    using rl_law [OF 1(2,5)] assms(7) by (auto simp: 1(3))
  have "ab t = (ab s)\<lparr>aheld := {}\<rparr>" using assms(4,5) by (simp add: 1(3) 2(3))
  then show ?thesis using 1 2 by (auto intro: fr_trans)
qed

text \<open>One pass of a copying loop: the second block is copied to the first, or the first to the second.\<close>

lemma copy_to_first:
  assumes "inv s" "aheld (ab s) = {}" "no1 < sz s" "no2 < sz s" "no1 \<noteq> no2" "card (adirty (ab s)) < NBUF"
    "no2 \<in> adirty (ab s) \<or> card (insert no1 (adirty (ab s))) < NBUF"
    "no2 \<in> adirty (ab s) \<or> aview (ab s) no2 = adisk (ab s) no2"
    and r: "r1 s = rd no1 s" "\<And>t. fr s t \<Longrightarrow> r2 t = rd no2 t"
  shows "\<exists>t. andthen (r1 s) (\<lambda>l s. andthen (r2 s) (\<lambda>d s. let s = put l (get s d) s in
      andthen (wr l s) (\<lambda>_ s. andthen (rl d s) (\<lambda>_ s. rl l s)))) = Ret () t \<and>
    inv t \<and> ab t = wrote no1 (aview (ab s) no2) (ab s) \<and> fr s t"
proof -
  obtain l s1 d s2 where 0: "fr s s1" and 1: "rd no1 s = Ret l s1" "rd no2 s1 = Ret d s2" "inv s2"
    "ab s2 = (ab s)\<lparr>aheld := {no1, no2}\<rparr>" "fr s s2" "hold s2 no1 l" "hold s2 no2 d" using read_two [OF assms(1-7)] .
  let ?v = "aview (ab s) no2"
  have g: "get s2 d = ?v" "length ?v = BSIZE" using get_law [OF 1(3,7)] view_len [OF 1(3,7)] by (simp_all add: 1(4))
  let ?s3 = "put l ?v s2"
  have 2: "inv ?s3" "ab ?s3 = (ab s2)\<lparr>aview := (aview (ab s2))(no1 := ?v)\<rparr>" "fr s2 ?s3" "hold ?s3 no1 l" "hold ?s3 no2 d"
    using put_law [OF 1(3,6) g(2)] 1(7) assms(5) by auto
  obtain s4 where 3: "wr l ?s3 = Ret () s4" "inv s4" "ab s4 = wrote no1 ?v ((ab s)\<lparr>aheld := {no1, no2}\<rparr>)" "fr ?s3 s4"
      "hold s4 no1 l" "hold s4 no2 d"
    using wr_law [OF 2(1,4)] 2(5) assms(5) by (auto simp: 2(2) 1(4) wrote_def)
  have "\<exists>t. andthen (rl d s4) (\<lambda>_ s. rl l s) = Ret () t \<and> inv t \<and> ab t = (ab s4)\<lparr>aheld := {}\<rparr> \<and> fr s4 t"
    by (rule release_two [OF 3(2,6,5)]) (use assms(5,8) in \<open>auto simp: 3(3) wrote_def\<close>)
  then obtain t where "andthen (rl d s4) (\<lambda>_ s. rl l s) = Ret () t" "inv t" "ab t = (ab s4)\<lparr>aheld := {}\<rparr>" "fr s4 t" by blast
  then show ?thesis
    using 1 2 3 assms(2) by (intro exI [of _ t]) (auto simp: g r 0 wrote_def intro: fr_trans)
qed

lemma copy_to_second:
  assumes "inv s" "aheld (ab s) = {}" "no1 < sz s" "no2 < sz s" "no1 \<noteq> no2" "card (adirty (ab s)) < NBUF"
    "no2 \<in> adirty (ab s) \<or> card (insert no1 (adirty (ab s))) < NBUF"
    "no1 \<in> adirty (ab s) \<or> aview (ab s) no1 = adisk (ab s) no1"
    and r: "r1 s = rd no1 s" "\<And>t. fr s t \<Longrightarrow> r2 t = rd no2 t"
  shows "\<exists>t. andthen (r1 s) (\<lambda>l s. andthen (r2 s) (\<lambda>d s. let s = put d (get s l) s in
      andthen (wr d s) (\<lambda>_ s. andthen (rl l s) (\<lambda>_ s. rl d s)))) = Ret () t \<and>
    inv t \<and> ab t = wrote no2 (aview (ab s) no1) (ab s) \<and> fr s t"
proof -
  obtain l s1 d s2 where 0: "fr s s1" and 1: "rd no1 s = Ret l s1" "rd no2 s1 = Ret d s2" "inv s2"
    "ab s2 = (ab s)\<lparr>aheld := {no1, no2}\<rparr>" "fr s s2" "hold s2 no1 l" "hold s2 no2 d" using read_two [OF assms(1-7)] .
  let ?v = "aview (ab s) no1"
  have g: "get s2 l = ?v" "length ?v = BSIZE" using get_law [OF 1(3,6)] view_len [OF 1(3,6)] by (simp_all add: 1(4))
  let ?s3 = "put d ?v s2"
  have 2: "inv ?s3" "ab ?s3 = (ab s2)\<lparr>aview := (aview (ab s2))(no2 := ?v)\<rparr>" "fr s2 ?s3" "hold ?s3 no2 d" "hold ?s3 no1 l"
    using put_law [OF 1(3,7) g(2)] 1(6) assms(5) by auto
  obtain s4 where 3: "wr d ?s3 = Ret () s4" "inv s4" "ab s4 = wrote no2 ?v ((ab s)\<lparr>aheld := {no1, no2}\<rparr>)" "fr ?s3 s4"
      "hold s4 no2 d" "hold s4 no1 l"
    using wr_law [OF 2(1,4)] 2(5) assms(5) by (auto simp: 2(2) 1(4) wrote_def)
  have "\<exists>t. andthen (rl l s4) (\<lambda>_ s. rl d s) = Ret () t \<and> inv t \<and> ab t = (ab s4)\<lparr>aheld := {}\<rparr> \<and> fr s4 t"
    by (rule release_two [OF 3(2,6,5)]) (use assms(5,8) in \<open>auto simp: 3(3) wrote_def\<close>)
  then obtain t where "andthen (rl l s4) (\<lambda>_ s. rl d s) = Ret () t" "inv t" "ab t = (ab s4)\<lparr>aheld := {}\<rparr>" "fr s4 t" by blast
  then show ?thesis
    using 1 2 3 assms(2) by (intro exI [of _ t]) (auto simp: g r 0 wrote_def intro: fr_trans)
qed

end

interpretation bc: block_store cache_inv absc frame holds disksize "bread 1" bwrite brelse "\<lambda>s b. bdata (bufp s b)" set_data
proof
  fix s t u :: "'a dstate_scheme" and no b and d :: block
  show "frame s s" by simp
  show "frame s t \<Longrightarrow> frame t u \<Longrightarrow> frame s u" by (rule frame_trans)
  show "frame s t \<Longrightarrow> disksize t = disksize s" by (simp add: frame_def)
  show "cache_inv s \<Longrightarrow> holds s no b \<Longrightarrow> bdata (bufp s b) = aview (absc s) no"
    by (simp add: absc_def holdsD(11))
  show "cache_inv s \<Longrightarrow> holds s no b \<Longrightarrow> length (aview (absc s) no) = BSIZE"
    using holdsD(12) [of s no b] by (simp add: absc_def)
  show "\<exists>b t. bread 1 no s = Ret b t \<and> cache_inv t \<and> absc t = aheld_update (insert no) (absc s) \<and> frame s t \<and> holds t no b \<and>
      (\<forall>no' j. no' \<noteq> no \<and> holds s no' j \<longrightarrow> holds t no' j)"
    if "cache_inv s" "no \<notin> aheld (absc s)" "no < disksize s"
      "no \<in> adirty (absc s) \<or> card (adirty (absc s) \<union> aheld (absc s)) < NBUF"
  proof -
    have "no \<notin> held s" "no \<in> dirty s \<or> card (dirty s \<union> held s) < NBUF" using that by (simp_all add: absc_def)
    from bread_refines [OF that(1) this(1) that(3) this(2)] obtain b t where
      "bread 1 no s = Ret b t" "refines s no (aheld_update (insert no)) t" "holds t no b" .
    then show ?thesis unfolding refines_def by blast
  qed
  show "\<exists>t. bwrite b s = Ret () t \<and> cache_inv t \<and> absc t = (absc s)\<lparr>adisk := (adisk (absc s))(no := aview (absc s) no),
        awrites := awrites (absc s) @ [(no, aview (absc s) no)], adirty := adirty (absc s) - {no}\<rparr> \<and> frame s t \<and> holds t no b \<and>
      (\<forall>no' j. no' \<noteq> no \<and> holds s no' j \<longrightarrow> holds t no' j)"
    if "cache_inv s" "holds s no b"
    using bwrite_refines [OF that] unfolding refines_def by metis
  show "\<exists>t. brelse b s = Ret () t \<and> cache_inv t \<and> absc t = aheld_update (\<lambda>h. h - {no}) (absc s) \<and> frame s t \<and>
      (\<forall>no' j. no' \<noteq> no \<and> holds s no' j \<longrightarrow> holds t no' j)"
    if "cache_inv s" "holds s no b" "no \<in> adirty (absc s) \<or> aview (absc s) no = adisk (absc s) no"
    using brelse_refines [OF that(1,2)] that(3) unfolding refines_def by (metis absc_def store.select_convs(1,2,4))
  show "cache_inv (set_data b d s) \<and> absc (set_data b d s) = (absc s)\<lparr>aview := (aview (absc s))(no := d)\<rparr> \<and>
      frame s (set_data b d s) \<and> holds (set_data b d s) no b \<and> (\<forall>no' j. no' \<noteq> no \<and> holds s no' j \<longrightarrow> holds (set_data b d s) no' j)"
    if "cache_inv s" "holds s no b" "length d = BSIZE"
    using set_data_refines [OF that] by (simp add: refines_def)
qed

subsection \<open>The cache after a boot\<close>

text \<open>The table is static data, all zero when the kernel starts.\<close>

definition boot_cache :: "'a dstate_scheme \<Rightarrow> 'a dstate_scheme" where
  "boot_cache s = binit (s\<lparr>bufs := replicate NBUF zero_buf\<rparr>)"

lemma boot_cache_eq: "boot_cache s = s\<lparr>bufs := replicate NBUF zero_buf, mru := rev [0..<NBUF]\<rparr>"
proof -
  let ?f = "\<lambda>b s. (upd_buf b (\<lambda>x. x\<lparr>block_lock := initsleeplock\<rparr>) s)\<lparr>mru := b # mru s\<rparr>"
  have "fold ?f [0..<k] (s\<lparr>bufs := replicate NBUF zero_buf, mru := []\<rparr>) =
      s\<lparr>bufs := replicate NBUF zero_buf, mru := rev [0..<k]\<rparr>" if "k \<le> NBUF" for k
    using that
  proof (induction k)
    case (Suc k)
    have "zero_buf\<lparr>block_lock := initsleeplock\<rparr> = zero_buf" by (simp add: zero_buf_def)
    moreover have "(replicate NBUF zero_buf)[k := zero_buf] = replicate NBUF zero_buf"
      using Suc.prems by (intro nth_equalityI) (auto simp: nth_list_update)
    ultimately show ?case using Suc by (simp add: upd_buf_def)
  qed simp
  from this [of NBUF] show ?thesis by (simp add: boot_cache_def binit_def)
qed

lemma boot_cache_inv:
  assumes "\<And>no. length (disk s no) = BSIZE"
  shows "cache_inv (boot_cache s)" "absc (boot_cache s) = \<lparr>aview = disk s, adisk = disk s, awrites = dwrites s, adirty = {}, aheld = {}\<rparr>"
    "frame s (boot_cache s)"
proof -
  have none: "\<not> cached (boot_cache s) no i" for no i
    by (auto simp: cached_def boot_cache_eq bufp_def zero_buf_def)
  have "view (boot_cache s) no = disk s no" for no
    using view_uncached [of "boot_cache s" no] none by (auto simp: boot_cache_eq)
  then show "absc (boot_cache s) = \<lparr>aview = disk s, adisk = disk s, awrites = dwrites s, adirty = {}, aheld = {}\<rparr>"
    using none by (auto simp: absc_def dirty_def held_def boot_cache_eq)
  show "cache_inv (boot_cache s)"
    using none assms by (auto simp: cache_inv_def buf_ok_def boot_cache_eq zero_buf_def initsleeplock_def)
  show "frame s (boot_cache s)" by (simp add: frame_def boot_cache_eq)
qed

text \<open>
  C8. The buffer cache refines a block store: from a state that satisfies the cache invariant, \<open>bread\<close>
  returns a locked buffer with the contents of the block and never runs out of buffers while fewer
  than \<open>NBUF\<close> blocks are dirty or held, \<open>bwrite\<close> puts exactly that block on the disk, \<open>brelse\<close> gives the
  block up, and each keeps the invariant (no block has two buffers, clean buffers agree with the disk)
  and changes nothing else the process can see.
\<close>

theorem buffer_cache_refines:
  assumes "cache_inv s"
  shows "(no \<notin> held s \<and> no < disksize s \<and> card (dirty s \<union> held s) < NBUF \<longrightarrow>
      (\<exists>b t. bread 1 no s = Ret b t \<and> bdata (bufp t b) = view s no \<and> holds t no b \<and> refines s no (aheld_update (insert no)) t)) \<and>
    (holds s no b \<longrightarrow>
      (\<exists>t. bwrite b s = Ret () t \<and> refines s no (\<lambda>a. a\<lparr>adisk := (adisk a)(no := aview a no),
         awrites := awrites a @ [(no, aview a no)], adirty := adirty a - {no}\<rparr>) t)) \<and>
    (holds s no b \<and> (no \<in> dirty s \<or> view s no = disk s no) \<longrightarrow>
      (\<exists>t. brelse b s = Ret () t \<and> refines s no (aheld_update (\<lambda>h. h - {no})) t))"
proof (intro conjI impI)
  assume "no \<notin> held s \<and> no < disksize s \<and> card (dirty s \<union> held s) < NBUF"
  then obtain b t where t: "bread 1 no s = Ret b t" "refines s no (aheld_update (insert no)) t" "holds t no b"
    using bread_refines [OF assms, of no] by blast
  moreover have "bdata (bufp t b) = view s no"
    using t holdsD(11) [of t no b] by (simp add: refines_def absc_def)
  ultimately show "\<exists>b t. bread 1 no s = Ret b t \<and> bdata (bufp t b) = view s no \<and> holds t no b \<and>
      refines s no (aheld_update (insert no)) t" by blast
next
  assume "holds s no b"
  from bwrite_refines [OF assms this] obtain t where "bwrite b s = Ret () t" "refines s no (\<lambda>a. a\<lparr>adisk := (adisk a)(no := aview a no),
      awrites := awrites a @ [(no, aview a no)], adirty := adirty a - {no}\<rparr>) t" .
  then show "\<exists>t. bwrite b s = Ret () t \<and> refines s no (\<lambda>a. a\<lparr>adisk := (adisk a)(no := aview a no),
      awrites := awrites a @ [(no, aview a no)], adirty := adirty a - {no}\<rparr>) t" by blast
next
  assume "holds s no b \<and> (no \<in> dirty s \<or> view s no = disk s no)"
  then have h: "holds s no b" "no \<in> dirty s \<or> view s no = disk s no" by blast+
  from brelse_refines [OF assms h] obtain t where "brelse b s = Ret () t" "refines s no (aheld_update (\<lambda>h. h - {no})) t" .
  then show "\<exists>t. brelse b s = Ret () t \<and> refines s no (aheld_update (\<lambda>h. h - {no})) t" by blast
qed

definition demo_disk :: dstate where
  "demo_disk = boot_cache \<lparr>disk = \<lambda>no. replicate BSIZE (ucast no), disksize = 1000, dwrites = [], bufs = [], mru = [], curpid = 1\<rparr>"

theorem buffer_cache_refines_witness:
  "cache_inv demo_disk \<and> (\<exists>b t. bread 1 7 demo_disk = Ret b t \<and> bdata (bufp t b) = replicate BSIZE 7)"
proof -
  let ?s = "\<lparr>disk = \<lambda>no :: u32. replicate BSIZE (ucast no :: u8), disksize = 1000, dwrites = [], bufs = [], mru = [], curpid = 1\<rparr>"
  have inv: "cache_inv demo_disk"
    and a: "absc demo_disk = \<lparr>aview = disk ?s, adisk = disk ?s, awrites = dwrites ?s, adirty = {}, aheld = {}\<rparr>"
    unfolding demo_disk_def by (intro boot_cache_inv; simp)+
  have "disksize demo_disk = 1000" by (simp add: demo_disk_def boot_cache_eq)
  moreover have "held demo_disk = {}" "dirty demo_disk = {}" "view demo_disk = disk ?s"
    using a by (simp_all add: absc_def)
  ultimately show ?thesis
    using inv buffer_cache_refines [OF inv, of 7 0] by (auto simp: NBUF_def)
qed

end
