(* ===== verification/Bytes.thy ===== *)
theory Bytes
  imports Prelude
begin

text \<open>
  Little-endian integers in a block of bytes, as the C code reads and writes them through pointers to
  \<open>struct logheader\<close>, \<open>struct dinode\<close>, \<open>struct dirent\<close> and arrays of \<open>uint\<close> laid over \<open>b->data\<close>.
\<close>

definition get16 :: "u8 list \<Rightarrow> nat \<Rightarrow> u16" where
  "get16 b off = word_of_nat (unat (b ! off) + 256 * unat (b ! (off + 1)))"

definition put16 :: "u8 list \<Rightarrow> nat \<Rightarrow> u16 \<Rightarrow> u8 list" where
  "put16 b off w = b[off := word_of_nat (unat w), off + 1 := word_of_nat (unat w div 256)]"

definition get32 :: "u8 list \<Rightarrow> nat \<Rightarrow> u32" where
  "get32 b off = word_of_nat (unat (b ! off) + 256 * (unat (b ! (off + 1)) + 256 * (unat (b ! (off + 2)) + 256 * unat (b ! (off + 3)))))"

definition put32 :: "u8 list \<Rightarrow> nat \<Rightarrow> u32 \<Rightarrow> u8 list" where
  "put32 b off w = b[off := word_of_nat (unat w), off + 1 := word_of_nat (unat w div 256),
     off + 2 := word_of_nat (unat w div 256 div 256), off + 3 := word_of_nat (unat w div 256 div 256 div 256)]"

lemma put_length [simp]: "length (put16 b off h) = length b" "length (put32 b off w) = length b"
  by (simp_all add: put16_def put32_def)

lemma put32_nth:
  "off + 3 < length b \<Longrightarrow> put32 b off w ! i =
     (if i = off then word_of_nat (unat w) else if i = off + 1 then word_of_nat (unat w div 256)
      else if i = off + 2 then word_of_nat (unat w div 256 div 256)
      else if i = off + 3 then word_of_nat (unat w div 256 div 256 div 256) else b ! i)"
  by (auto simp: put32_def nth_list_update)

lemma put16_nth:
  "off + 1 < length b \<Longrightarrow> put16 b off w ! i =
     (if i = off then word_of_nat (unat w) else if i = off + 1 then word_of_nat (unat w div 256) else b ! i)"
  by (auto simp: put16_def nth_list_update)

lemma unat_byte: "unat (word_of_nat n :: u8) = n mod 256"
  by (simp add: unat_of_nat)

lemma unat_of_small: "n < 2 ^ 32 \<Longrightarrow> unat (word_of_nat n :: u32) = n"
  by (simp add: unat_of_nat)

lemma get_put32 [simp]:
  assumes "off + 3 < length b"
  shows "get32 (put32 b off w) off = w"
proof -
  define n where "n = unat w"
  have "n < 2 ^ 32" using unsigned_less [of w, where 'a = nat] by (simp add: n_def)
  then have "n div 256 div 256 div 256 < 256" by (simp flip: div_mult2_eq add: div_less_iff_less_mult)
  then have sum: "n mod 256 + 256 * (n div 256 mod 256 + 256 * (n div 256 div 256 mod 256 + 256 * (n div 256 div 256 div 256 mod 256))) = n"
    by simp
  have b: "put32 b off w ! off = word_of_nat n" "put32 b off w ! (off + 1) = word_of_nat (n div 256)"
    "put32 b off w ! (off + 2) = word_of_nat (n div 256 div 256)"
    "put32 b off w ! (off + 3) = word_of_nat (n div 256 div 256 div 256)"
    using assms by (simp_all add: put32_nth n_def)
  show ?thesis unfolding get32_def b unat_byte sum by (simp add: n_def)
qed

lemma get_put16 [simp]:
  assumes "off + 1 < length b"
  shows "get16 (put16 b off w) off = w"
proof -
  define n where "n = unat w"
  have "n < 2 ^ 16" using unsigned_less [of w, where 'a = nat] by (simp add: n_def)
  then have "n div 256 < 256" by (simp add: div_less_iff_less_mult)
  then have sum: "n mod 256 + 256 * (n div 256 mod 256) = n" by simp
  have b: "put16 b off w ! off = word_of_nat n" "put16 b off w ! (off + 1) = word_of_nat (n div 256)"
    using assms by (simp_all add: put16_nth n_def)
  show ?thesis unfolding get16_def b unat_byte sum by (simp add: n_def)
qed

lemma get32_put32_other [simp]:
  assumes "off + 3 < length b" "off' + 4 \<le> off \<or> off + 4 \<le> off'"
  shows "get32 (put32 b off w) off' = get32 b off'"
  using assms by (auto simp: get32_def put32_nth)

lemma get16_put16_other [simp]:
  assumes "off + 1 < length b" "off' + 2 \<le> off \<or> off + 2 \<le> off'"
  shows "get16 (put16 b off w) off' = get16 b off'"
  using assms by (auto simp: get16_def put16_nth)

lemma get16_put32_other [simp]:
  assumes "off + 3 < length b" "off' + 2 \<le> off \<or> off + 4 \<le> off'"
  shows "get16 (put32 b off w) off' = get16 b off'"
  using assms by (auto simp: get16_def put32_nth)

lemma get32_put16_other [simp]:
  assumes "off + 1 < length b" "off' + 4 \<le> off \<or> off + 2 \<le> off'"
  shows "get32 (put16 b off w) off' = get32 b off'"
  using assms by (auto simp: get32_def put16_nth)

subsection \<open>Arrays of integers\<close>

definition put32s :: "nat \<Rightarrow> u32 list \<Rightarrow> u8 list \<Rightarrow> u8 list" where
  "put32s off ws b = fold (\<lambda>i b. put32 b (off + 4 * i) (ws ! i)) [0..<length ws] b"

lemma put32s_length [simp]: "length (put32s off ws b) = length b"
proof -
  have "length (fold (\<lambda>i b. put32 b (off + 4 * i) (ws ! i)) is b) = length b" for "is"
    by (induction "is" arbitrary: b) simp_all
  then show ?thesis by (simp add: put32s_def)
qed

lemma get32_put32s:
  assumes "off + 4 * length ws \<le> length b"
  shows "i < length ws \<Longrightarrow> get32 (put32s off ws b) (off + 4 * i) = ws ! i"
    "off' + 4 \<le> off \<or> off + 4 * length ws \<le> off' \<Longrightarrow> get32 (put32s off ws b) off' = get32 b off'"
proof -
  let ?f = "\<lambda>k. fold (\<lambda>i b. put32 b (off + 4 * i) (ws ! i)) [0..<k] b"
  have len: "length (?f k) = length b" for k by (induction k) simp_all
  have inside: "i < k \<longrightarrow> get32 (?f k) (off + 4 * i) = ws ! i" if "k \<le> length ws" for k i
    using that
  proof (induction k)
    case (Suc k)
    then show ?case using assms len [of k] by (cases "i = k") auto
  qed simp
  then show "i < length ws \<Longrightarrow> get32 (put32s off ws b) (off + 4 * i) = ws ! i" by (simp add: put32s_def)
  have outside: "get32 (?f k) off' = get32 b off'" if "off' + 4 \<le> off \<or> off + 4 * length ws \<le> off'" "k \<le> length ws" for k
    using that(2)
  proof (induction k)
    case (Suc k)
    then show ?case using assms len [of k] that(1) by auto
  qed simp
  then show "off' + 4 \<le> off \<or> off + 4 * length ws \<le> off' \<Longrightarrow> get32 (put32s off ws b) off' = get32 b off'"
    by (simp add: put32s_def)
qed

end
