(* ===== verification/FS.thy ===== *)
theory FS
  imports Log
begin

text \<open>
  The file system (src/fs.c, src/fs.h, src/stat.h, \<open>struct inode\<close> and \<open>struct devsw\<close> of src/file.h): the
  block allocator, the inode cache, the contents of files, directories and path names, on top of the
  buffer cache and the log.

  A pointer to an inode is an index into the table \<open>icache\<close>; the null pointer, where the code can
  return it, is \<open>None\<close>.  A section under \<open>icache.lock\<close> is one step.  An array of characters is a list of
  bytes; a C string is the list of the bytes before its terminator, and a read at or behind the end of
  a list gives the terminator.  The table \<open>devsw\<close> of device functions is an argument of the operations
  that look into it.  \<open>cwd\<close> is the current directory of the process that executes.
\<close>

definition ROOTINO :: u32 where "ROOTINO = 1"
definition ROOTDEV :: u32 where "ROOTDEV = 1"
definition NDIRECT :: nat where "NDIRECT = 12"
definition NINDIRECT :: nat where "NINDIRECT = BSIZE div 4"
definition MAXFILE :: nat where "MAXFILE = NDIRECT + NINDIRECT"
definition IPB :: nat where "IPB = BSIZE div 64"
definition BPB :: nat where "BPB = BSIZE * 8"
definition DIRSIZ :: nat where "DIRSIZ = 14"
definition NINODE :: nat where "NINODE = 50"
definition NDEV :: nat where "NDEV = 10"
definition T_DIR :: u16 where "T_DIR = 1"
definition T_FILE :: u16 where "T_FILE = 2"
definition T_DEV :: u16 where "T_DEV = 3"

record inode =
  i_dev :: u32
  i_inum :: u32
  i_ref :: i32
  i_lock :: sleeplock
  i_valid :: bool
  i_type :: u16
  i_major :: u16
  i_minor :: u16
  i_nlink :: u16
  i_size :: u32
  i_addrs :: "u32 list"

record dinode =
  d_type :: u16
  d_major :: u16
  d_minor :: u16
  d_nlink :: u16
  d_size :: u32
  d_addrs :: "u32 list"

record stat =
  st_type :: u16
  st_dev :: i32
  st_ino :: u32
  st_nlink :: u16
  st_size :: u32

record fs_st = lstate +
  fsb :: superblock
  icache :: "inode list"
  cwd :: nat

record 's devsw =
  dev_read :: "(nat \<Rightarrow> i32 \<Rightarrow> 's \<Rightarrow> (i32 \<times> u8 list, 's) io) option"
  dev_write :: "(nat \<Rightarrow> u8 list \<Rightarrow> i32 \<Rightarrow> 's \<Rightarrow> (i32, 's) io) option"

definition inode_at :: "'a fs_st_scheme \<Rightarrow> nat \<Rightarrow> inode" where
  "inode_at s ip = icache s ! ip"

definition upd_inode :: "nat \<Rightarrow> (inode \<Rightarrow> inode) \<Rightarrow> 'a fs_st_scheme \<Rightarrow> 'a fs_st_scheme" where
  "upd_inode ip f s = s\<lparr>icache := (icache s)[ip := f (icache s ! ip)]\<rparr>"

subsection \<open>Blocks\<close>

definition IBLOCK :: "u32 \<Rightarrow> superblock \<Rightarrow> u32" where
  "IBLOCK i sb = i div word_of_nat IPB + sb_inodestart sb"

definition BBLOCK :: "u32 \<Rightarrow> superblock \<Rightarrow> u32" where
  "BBLOCK b sb = b div word_of_nat BPB + sb_bmapstart sb"

definition bzero :: "u32 \<Rightarrow> u32 \<Rightarrow> 'a fs_st_scheme \<Rightarrow> (unit, 'a fs_st_scheme) io" where
  "bzero dev bno s =
     andthen (bread dev bno s) (\<lambda>bp s.
     let s = set_data bp (replicate BSIZE 0) s in
     andthen (log_write bp s) (\<lambda>_ s. brelse bp s))"

text \<open>The bit of a block in its bit map block: \<open>bi/8\<close> selects the byte and \<open>1 << (bi%8)\<close> the bit.\<close>

definition bit_mask :: "nat \<Rightarrow> u8" where
  "bit_mask bi = push_bit (bi mod 8) 1"

definition bit_clear :: "block \<Rightarrow> nat \<Rightarrow> bool" where
  "bit_clear d bi \<longleftrightarrow> and (d ! (bi div 8)) (bit_mask bi) = 0"

text \<open>The outer loop of \<open>balloc\<close> over the first blocks \<open>b\<close> of the ranges of one bit map block each.\<close>

fun balloc_loop :: "u32 \<Rightarrow> nat list \<Rightarrow> 'a fs_st_scheme \<Rightarrow> (u32, 'a fs_st_scheme) io" where
  "balloc_loop dev [] s = Panic ''balloc: out of blocks'' s"
| "balloc_loop dev (b # bs) s =
     andthen (bread dev (BBLOCK (word_of_nat b) (fsb s)) s) (\<lambda>bp s.
       case scan (bit_clear (bdata (bufp s bp))) [0..<min BPB (unat (sb_size (fsb s)) - b)] of
         Some bi \<Rightarrow>
           let d = bdata (bufp s bp);
               s = set_data bp (d[bi div 8 := or (d ! (bi div 8)) (bit_mask bi)]) s in
           andthen (log_write bp s) (\<lambda>_ s.
           andthen (brelse bp s) (\<lambda>_ s.
           andthen (bzero dev (word_of_nat (b + bi)) s) (\<lambda>_ s. Ret (word_of_nat (b + bi)) s)))
       | None \<Rightarrow> andthen (brelse bp s) (\<lambda>_ s. balloc_loop dev bs s))"

definition balloc :: "u32 \<Rightarrow> 'a fs_st_scheme \<Rightarrow> (u32, 'a fs_st_scheme) io" where
  "balloc dev s = balloc_loop dev (map (\<lambda>k. k * BPB) [0..<(unat (sb_size (fsb s)) + BPB - 1) div BPB]) s"

definition bfree :: "u32 \<Rightarrow> u32 \<Rightarrow> 'a fs_st_scheme \<Rightarrow> (unit, 'a fs_st_scheme) io" where
  "bfree dev b s =
     andthen (bread dev (BBLOCK b (fsb s)) s) (\<lambda>bp s.
       let bi = unat b mod BPB; d = bdata (bufp s bp) in
       if bit_clear d bi then Panic ''freeing free block'' s
       else
         let s = set_data bp (d[bi div 8 := and (d ! (bi div 8)) (not (bit_mask bi))]) s in
         andthen (log_write bp s) (\<lambda>_ s. brelse bp s))"

subsection \<open>Inodes\<close>

definition iinit :: "u32 \<Rightarrow> 'a fs_st_scheme \<Rightarrow> (unit, 'a fs_st_scheme) io" where
  "iinit dev s =
     (let s = s\<lparr>icache := map (\<lambda>x. x\<lparr>i_lock := initsleeplock\<rparr>) (icache s)\<rparr> in
      andthen (readsb dev s) (\<lambda>sb s. Ret () (s\<lparr>fsb := sb\<rparr>)))"

text \<open>The position of an inode in its block, and the on-disk structure there.\<close>

definition ioff :: "u32 \<Rightarrow> nat" where
  "ioff inum = 64 * (unat inum mod IPB)"

definition dinode_of :: "block \<Rightarrow> nat \<Rightarrow> dinode" where
  "dinode_of d off = \<lparr>d_type = get16 d off, d_major = get16 d (off + 2), d_minor = get16 d (off + 4), d_nlink = get16 d (off + 6),
     d_size = get32 d (off + 8), d_addrs = map (\<lambda>i. get32 d (off + 12 + 4 * i)) [0..<NDIRECT + 1]\<rparr>"

definition put_dinode :: "dinode \<Rightarrow> nat \<Rightarrow> block \<Rightarrow> block" where
  "put_dinode di off d =
     (let d = put16 d off (d_type di);
          d = put16 d (off + 2) (d_major di);
          d = put16 d (off + 4) (d_minor di);
          d = put16 d (off + 6) (d_nlink di);
          d = put32 d (off + 8) (d_size di) in
      put32s (off + 12) (d_addrs di) d)"

definition iget :: "u32 \<Rightarrow> u32 \<Rightarrow> 'a fs_st_scheme \<Rightarrow> (nat, 'a fs_st_scheme) io" where
  "iget dev inum s =
     (case scan (\<lambda>x. 0 <s i_ref x \<and> i_dev x = dev \<and> i_inum x = inum) (icache s) of
        Some ip \<Rightarrow> Ret ip (upd_inode ip (\<lambda>x. x\<lparr>i_ref := i_ref x + 1\<rparr>) s)
      | None \<Rightarrow>
          (case scan (\<lambda>x. i_ref x = 0) (icache s) of
             None \<Rightarrow> Panic ''iget: no inodes'' s
           | Some ip \<Rightarrow> Ret ip (upd_inode ip (\<lambda>x. x\<lparr>i_dev := dev, i_inum := inum, i_ref := 1, i_valid := False\<rparr>) s)))"

text \<open>\<open>memset(dip, 0, sizeof(*dip)); dip->type = type\<close>.\<close>

definition fresh_dinode :: "u16 \<Rightarrow> nat \<Rightarrow> block \<Rightarrow> block" where
  "fresh_dinode ty off d = put16 (take off d @ replicate 64 0 @ drop (off + 64) d) off ty"

fun ialloc_loop :: "u32 \<Rightarrow> u16 \<Rightarrow> nat list \<Rightarrow> 'a fs_st_scheme \<Rightarrow> (nat, 'a fs_st_scheme) io" where
  "ialloc_loop dev ty [] s = Panic ''ialloc: no inodes'' s"
| "ialloc_loop dev ty (inum # inums) s =
     andthen (bread dev (IBLOCK (word_of_nat inum) (fsb s)) s) (\<lambda>bp s.
       let d = bdata (bufp s bp); off = ioff (word_of_nat inum) in
       if d_type (dinode_of d off) = 0 then
         let s = set_data bp (fresh_dinode ty off d) s in
         andthen (log_write bp s) (\<lambda>_ s.
         andthen (brelse bp s) (\<lambda>_ s. iget dev (word_of_nat inum) s))
       else andthen (brelse bp s) (\<lambda>_ s. ialloc_loop dev ty inums s))"

definition ialloc :: "u32 \<Rightarrow> u16 \<Rightarrow> 'a fs_st_scheme \<Rightarrow> (nat, 'a fs_st_scheme) io" where
  "ialloc dev ty s = ialloc_loop dev ty [1..<unat (sb_ninodes (fsb s))] s"

definition dinode_of_inode :: "inode \<Rightarrow> dinode" where
  "dinode_of_inode x = \<lparr>d_type = i_type x, d_major = i_major x, d_minor = i_minor x, d_nlink = i_nlink x,
     d_size = i_size x, d_addrs = i_addrs x\<rparr>"

definition iupdate :: "nat \<Rightarrow> 'a fs_st_scheme \<Rightarrow> (unit, 'a fs_st_scheme) io" where
  "iupdate ip s =
     (let x = inode_at s ip in
      andthen (bread (i_dev x) (IBLOCK (i_inum x) (fsb s)) s) (\<lambda>bp s.
      let s = set_data bp (put_dinode (dinode_of_inode x) (ioff (i_inum x)) (bdata (bufp s bp))) s in
      andthen (log_write bp s) (\<lambda>_ s. brelse bp s)))"

definition idup :: "nat \<Rightarrow> 'a fs_st_scheme \<Rightarrow> nat \<times> 'a fs_st_scheme" where
  "idup ip s = (ip, upd_inode ip (\<lambda>x. x\<lparr>i_ref := i_ref x + 1\<rparr>) s)"

definition load_inode :: "dinode \<Rightarrow> inode \<Rightarrow> inode" where
  "load_inode di x = x\<lparr>i_type := d_type di, i_major := d_major di, i_minor := d_minor di, i_nlink := d_nlink di,
     i_size := d_size di, i_addrs := d_addrs di\<rparr>"

definition ilock :: "nat \<Rightarrow> 'a fs_st_scheme \<Rightarrow> (unit, 'a fs_st_scheme) io" where
  "ilock ip s =
     (if i_ref (inode_at s ip) <s 1 then Panic ''ilock'' s
      else
        case acquiresleep (curpid s) (i_lock (inode_at s ip)) of
          None \<Rightarrow> Sleep s
        | Some lk \<Rightarrow>
            let s = upd_inode ip (\<lambda>x. x\<lparr>i_lock := lk\<rparr>) s in
            if i_valid (inode_at s ip) then Ret () s
            else
              andthen (bread (i_dev (inode_at s ip)) (IBLOCK (i_inum (inode_at s ip)) (fsb s)) s) (\<lambda>bp s.
              let di = dinode_of (bdata (bufp s bp)) (ioff (i_inum (inode_at s ip)));
                  s = upd_inode ip (load_inode di) s in
              andthen (brelse bp s) (\<lambda>_ s.
              let s = upd_inode ip (\<lambda>x. x\<lparr>i_valid := True\<rparr>) s in
              if i_type (inode_at s ip) = 0 then Panic ''ilock: no type'' s else Ret () s)))"

definition iunlock :: "nat \<Rightarrow> 'a fs_st_scheme \<Rightarrow> (unit, 'a fs_st_scheme) io" where
  "iunlock ip s =
     (if \<not> holdingsleep (curpid s) (i_lock (inode_at s ip)) \<or> i_ref (inode_at s ip) <s 1 then Panic ''iunlock'' s
      else Ret () (upd_inode ip (\<lambda>x. x\<lparr>i_lock := releasesleep (i_lock x)\<rparr>) s))"

text \<open>The loops of \<open>itrunc\<close> over the direct blocks and over the entries of the indirect block in buffer \<open>bp\<close>.\<close>

definition trunc_direct :: "nat \<Rightarrow> nat \<Rightarrow> 'a fs_st_scheme \<Rightarrow> (unit, 'a fs_st_scheme) io" where
  "trunc_direct ip i s =
     (let x = inode_at s ip in
      if i_addrs x ! i \<noteq> 0 then
        andthen (bfree (i_dev x) (i_addrs x ! i) s) (\<lambda>_ s. Ret () (upd_inode ip (\<lambda>x. x\<lparr>i_addrs := (i_addrs x)[i := 0]\<rparr>) s))
      else Ret () s)"

definition trunc_indirect :: "u32 \<Rightarrow> nat \<Rightarrow> nat \<Rightarrow> 'a fs_st_scheme \<Rightarrow> (unit, 'a fs_st_scheme) io" where
  "trunc_indirect dev bp j s =
     (let a = get32 (bdata (bufp s bp)) (4 * j) in if a \<noteq> 0 then bfree dev a s else Ret () s)"

definition itrunc :: "nat \<Rightarrow> 'a fs_st_scheme \<Rightarrow> (unit, 'a fs_st_scheme) io" where
  "itrunc ip s =
     andthen (each (trunc_direct ip) [0..<NDIRECT] s) (\<lambda>_ s.
     let x = inode_at s ip; ind = i_addrs x ! NDIRECT in
     andthen
       (if ind \<noteq> 0 then
          andthen (bread (i_dev x) ind s) (\<lambda>bp s.
          andthen (each (trunc_indirect (i_dev x) bp) [0..<NINDIRECT] s) (\<lambda>_ s.
          andthen (brelse bp s) (\<lambda>_ s.
          andthen (bfree (i_dev x) ind s) (\<lambda>_ s.
          Ret () (upd_inode ip (\<lambda>x. x\<lparr>i_addrs := (i_addrs x)[NDIRECT := 0]\<rparr>) s)))))
        else Ret () s)
       (\<lambda>_ s. iupdate ip (upd_inode ip (\<lambda>x. x\<lparr>i_size := 0\<rparr>) s)))"

definition iput :: "nat \<Rightarrow> 'a fs_st_scheme \<Rightarrow> (unit, 'a fs_st_scheme) io" where
  "iput ip s =
     (case acquiresleep (curpid s) (i_lock (inode_at s ip)) of
        None \<Rightarrow> Sleep s
      | Some lk \<Rightarrow>
          let s = upd_inode ip (\<lambda>x. x\<lparr>i_lock := lk\<rparr>) s in
          andthen
            (if i_valid (inode_at s ip) \<and> i_nlink (inode_at s ip) = 0 \<and> i_ref (inode_at s ip) = 1 then
               andthen (itrunc ip s) (\<lambda>_ s.
               let s = upd_inode ip (\<lambda>x. x\<lparr>i_type := 0\<rparr>) s in
               andthen (iupdate ip s) (\<lambda>_ s.
               Ret () (upd_inode ip (\<lambda>x. x\<lparr>i_valid := False\<rparr>) s)))
             else Ret () s)
            (\<lambda>_ s.
             let s = upd_inode ip (\<lambda>x. x\<lparr>i_lock := releasesleep (i_lock x)\<rparr>) s in
             Ret () (upd_inode ip (\<lambda>x. x\<lparr>i_ref := i_ref x - 1\<rparr>) s)))"

definition iunlockput :: "nat \<Rightarrow> 'a fs_st_scheme \<Rightarrow> (unit, 'a fs_st_scheme) io" where
  "iunlockput ip s = andthen (iunlock ip s) (\<lambda>_ s. iput ip s)"

subsection \<open>Contents of files\<close>

text \<open>\<open>if((addr = ip->addrs[i]) == 0) ip->addrs[i] = addr = balloc(ip->dev)\<close>.\<close>

definition bmap_addr :: "nat \<Rightarrow> nat \<Rightarrow> 'a fs_st_scheme \<Rightarrow> (u32, 'a fs_st_scheme) io" where
  "bmap_addr ip i s =
     (let x = inode_at s ip in
      if i_addrs x ! i = 0 then
        andthen (balloc (i_dev x) s) (\<lambda>addr s. Ret addr (upd_inode ip (\<lambda>x. x\<lparr>i_addrs := (i_addrs x)[i := addr]\<rparr>) s))
      else Ret (i_addrs x ! i) s)"

definition bmap :: "nat \<Rightarrow> u32 \<Rightarrow> 'a fs_st_scheme \<Rightarrow> (u32, 'a fs_st_scheme) io" where
  "bmap ip bn s =
     (if unat bn < NDIRECT then bmap_addr ip (unat bn) s
      else
        let bn = unat bn - NDIRECT; dev = i_dev (inode_at s ip) in
        if bn < NINDIRECT then
          andthen (bmap_addr ip NDIRECT s) (\<lambda>ind s.
          andthen (bread dev ind s) (\<lambda>bp s.
          let addr = get32 (bdata (bufp s bp)) (4 * bn) in
          if addr = 0 then
            andthen (balloc dev s) (\<lambda>addr s.
            let s = set_data bp (put32 (bdata (bufp s bp)) (4 * bn) addr) s in
            andthen (log_write bp s) (\<lambda>_ s.
            andthen (brelse bp s) (\<lambda>_ s. Ret addr s)))
          else andthen (brelse bp s) (\<lambda>_ s. Ret addr s)))
        else Panic ''bmap: out of range'' s)"

definition stati :: "nat \<Rightarrow> 'a fs_st_scheme \<Rightarrow> stat" where
  "stati ip s =
     (let x = inode_at s ip in
      \<lparr>st_type = i_type x, st_dev = i_dev x, st_ino = i_inum x, st_nlink = i_nlink x, st_size = i_size x\<rparr>)"

definition chunk :: "u32 \<Rightarrow> u32 \<Rightarrow> u32 \<Rightarrow> u32" where
  "chunk tot n off = min (n - tot) (word_of_nat BSIZE - off mod word_of_nat BSIZE)"

lemma chunk_pos:
  assumes "tot < n"
  shows "0 < unat (chunk tot n off)" "unat (chunk tot n off) \<le> unat n - unat tot"
    "unat (chunk tot n off) \<le> BSIZE - unat off mod BSIZE"
proof -
  have n: "unat (n - tot) = unat n - unat tot" using assms by (simp add: unat_sub order_less_imp_le)
  have b: "unat (word_of_nat BSIZE :: u32) = BSIZE" by (simp add: BSIZE_def)
  have m: "unat (off mod word_of_nat BSIZE) = unat off mod BSIZE" by (simp only: unat_mod_distrib b)
  have lt: "unat off mod BSIZE < BSIZE" by (simp add: BSIZE_def)
  have d: "unat (word_of_nat BSIZE - off mod word_of_nat BSIZE :: u32) = BSIZE - unat off mod BSIZE"
    using lt by (subst unat_sub) (simp_all add: b m word_le_nat_alt)
  have c: "unat (chunk tot n off) = min (unat n - unat tot) (BSIZE - unat off mod BSIZE)"
    unfolding chunk_def min_def word_le_nat_alt n d by (simp add: n d)
  show "0 < unat (chunk tot n off)" "unat (chunk tot n off) \<le> unat n - unat tot"
    "unat (chunk tot n off) \<le> BSIZE - unat off mod BSIZE"
    using assms lt unfolding c by (simp_all add: word_less_nat_alt)
qed

lemma chunk_step:
  assumes "tot < n"
  shows "unat (tot + chunk tot n off) = unat tot + unat (chunk tot n off)" "unat n - unat (tot + chunk tot n off) < unat n - unat tot"
proof -
  have "unat tot + unat (chunk tot n off) \<le> unat n" using chunk_pos(2) [OF assms, of off] assms by (simp add: word_less_nat_alt)
  also have "unat n < 2 ^ 32" using unsigned_less [of n, where 'a = nat] by simp
  finally show e: "unat (tot + chunk tot n off) = unat tot + unat (chunk tot n off)" by (simp add: unat_word_ariths)
  show "unat n - unat (tot + chunk tot n off) < unat n - unat tot"
    using chunk_pos(1) [OF assms, of off] assms unfolding e by (simp add: word_less_nat_alt)
qed

function readi_loop :: "nat \<Rightarrow> u32 \<Rightarrow> u32 \<Rightarrow> u32 \<Rightarrow> u8 list \<Rightarrow> 'a fs_st_scheme \<Rightarrow> (u8 list, 'a fs_st_scheme) io" where
  "readi_loop ip tot n off dst s =
     (if tot < n then
        andthen (bmap ip (off div word_of_nat BSIZE) s) (\<lambda>addr s.
        andthen (bread (i_dev (inode_at s ip)) addr s) (\<lambda>bp s.
        let m = chunk tot n off;
            dst = dst @ take (unat m) (drop (unat off mod BSIZE) (bdata (bufp s bp))) in
        andthen (brelse bp s) (\<lambda>_ s. readi_loop ip (tot + m) n (off + m) dst s)))
      else Ret dst s)"
  by auto
termination
  by (relation "measure (\<lambda>(ip, tot, n, off, dst, s). unat n - unat tot)") (auto simp: chunk_step(2))

definition readi :: "(nat \<Rightarrow> 'a fs_st_scheme devsw) \<Rightarrow> nat \<Rightarrow> u32 \<Rightarrow> u32 \<Rightarrow> 'a fs_st_scheme \<Rightarrow> (i32 \<times> u8 list, 'a fs_st_scheme) io" where
  "readi dt ip off n s =
     (let x = inode_at s ip in
      if i_type x = T_DEV then
        if sint (i_major x) < 0 \<or> sint (i_major x) \<ge> int NDEV then Ret (- 1, []) s
        else
          case dev_read (dt (nat (sint (i_major x)))) of
            None \<Rightarrow> Ret (- 1, []) s
          | Some f \<Rightarrow> f ip n s
      else if off > i_size x \<or> off + n < off then Ret (- 1, []) s
      else
        let n = (if off + n > i_size x then i_size x - off else n) in
        andthen (readi_loop ip 0 n off [] s) (\<lambda>dst s. Ret (n, dst) s))"

function writei_loop :: "nat \<Rightarrow> u32 \<Rightarrow> u32 \<Rightarrow> u32 \<Rightarrow> u8 list \<Rightarrow> 'a fs_st_scheme \<Rightarrow> (u32, 'a fs_st_scheme) io" where
  "writei_loop ip tot n off src s =
     (if tot < n then
        andthen (bmap ip (off div word_of_nat BSIZE) s) (\<lambda>addr s.
        andthen (bread (i_dev (inode_at s ip)) addr s) (\<lambda>bp s.
        let m = chunk tot n off; o' = unat off mod BSIZE; d = bdata (bufp s bp);
            s = set_data bp (take o' d @ take (unat m) src @ drop (o' + unat m) d) s in
        andthen (log_write bp s) (\<lambda>_ s.
        andthen (brelse bp s) (\<lambda>_ s. writei_loop ip (tot + m) n (off + m) (drop (unat m) src) s))))
      else Ret off s)"
  by auto
termination
  by (relation "measure (\<lambda>(ip, tot, n, off, src, s). unat n - unat tot)") (auto simp: chunk_step(2))

definition writei :: "(nat \<Rightarrow> 'a fs_st_scheme devsw) \<Rightarrow> nat \<Rightarrow> u8 list \<Rightarrow> u32 \<Rightarrow> u32 \<Rightarrow> 'a fs_st_scheme \<Rightarrow> (i32, 'a fs_st_scheme) io" where
  "writei dt ip src off n s =
     (let x = inode_at s ip in
      if i_type x = T_DEV then
        if sint (i_major x) < 0 \<or> sint (i_major x) \<ge> int NDEV then Ret (- 1) s
        else
          case dev_write (dt (nat (sint (i_major x)))) of
            None \<Rightarrow> Ret (- 1) s
          | Some f \<Rightarrow> f ip src n s
      else if off > i_size x \<or> off + n < off then Ret (- 1) s
      else if off + n > word_of_nat (MAXFILE * BSIZE) then Ret (- 1) s
      else
        andthen (writei_loop ip 0 n off src s) (\<lambda>off s.
          if n > 0 \<and> off > i_size (inode_at s ip) then
            andthen (iupdate ip (upd_inode ip (\<lambda>x. x\<lparr>i_size := off\<rparr>) s)) (\<lambda>_ s. Ret n s)
          else Ret n s))"

subsection \<open>Directories\<close>

text \<open>The character at a position of an array or string.\<close>

definition chr_at :: "u8 list \<Rightarrow> nat \<Rightarrow> u8" where
  "chr_at p i = (if i < length p then p ! i else 0)"

text \<open>\<open>strncmp\<close> on character arrays: \<open>k\<close> characters have been compared and \<open>n\<close> are left.\<close>

fun strncmp_from :: "nat \<Rightarrow> nat \<Rightarrow> u8 list \<Rightarrow> u8 list \<Rightarrow> i32" where
  "strncmp_from 0 k p q = 0"
| "strncmp_from (Suc n) k p q =
     (if chr_at p k \<noteq> 0 \<and> chr_at p k = chr_at q k then strncmp_from n (Suc k) p q
      else ucast (chr_at p k) - ucast (chr_at q k))"

definition namecmp :: "u8 list \<Rightarrow> u8 list \<Rightarrow> i32" where
  "namecmp s t = strncmp_from DIRSIZ 0 s t"

text \<open>The offsets of the entries of a directory of the given size.\<close>

definition dir_offs :: "u32 \<Rightarrow> u32 list" where
  "dir_offs sz = map (\<lambda>k. word_of_nat (16 * k)) [0..<(unat sz + 15) div 16]"

fun dirlookup_loop :: "(nat \<Rightarrow> 'a fs_st_scheme devsw) \<Rightarrow> nat \<Rightarrow> u8 list \<Rightarrow> u32 list \<Rightarrow> 'a fs_st_scheme \<Rightarrow>
    ((nat \<times> u32) option, 'a fs_st_scheme) io" where
  "dirlookup_loop dt dp name [] s = Ret None s"
| "dirlookup_loop dt dp name (off # offs) s =
     andthen (readi dt dp off 16 s) (\<lambda>(r, de) s.
       if r \<noteq> 16 then Panic ''dirlookup read'' s
       else if get16 de 0 = 0 then dirlookup_loop dt dp name offs s
       else if namecmp name (drop 2 de) = 0 then
         andthen (iget (i_dev (inode_at s dp)) (ucast (get16 de 0)) s) (\<lambda>ip s. Ret (Some (ip, off)) s)
       else dirlookup_loop dt dp name offs s)"

definition dirlookup :: "(nat \<Rightarrow> 'a fs_st_scheme devsw) \<Rightarrow> nat \<Rightarrow> u8 list \<Rightarrow> 'a fs_st_scheme \<Rightarrow>
    ((nat \<times> u32) option, 'a fs_st_scheme) io" where
  "dirlookup dt dp name s =
     (if i_type (inode_at s dp) \<noteq> T_DIR then Panic ''dirlookup not DIR'' s
      else dirlookup_loop dt dp name (dir_offs (i_size (inode_at s dp))) s)"

text \<open>The offset of the first free entry, or the one behind the last entry.\<close>

fun free_dirent :: "(nat \<Rightarrow> 'a fs_st_scheme devsw) \<Rightarrow> nat \<Rightarrow> u32 \<Rightarrow> u32 list \<Rightarrow> 'a fs_st_scheme \<Rightarrow> (u32, 'a fs_st_scheme) io" where
  "free_dirent dt dp end_off [] s = Ret end_off s"
| "free_dirent dt dp end_off (off # offs) s =
     andthen (readi dt dp off 16 s) (\<lambda>(r, de) s.
       if r \<noteq> 16 then Panic ''dirlink read'' s
       else if get16 de 0 = 0 then Ret off s
       else free_dirent dt dp (off + 16) offs s)"

text \<open>\<open>strncpy(de.name, name, DIRSIZ)\<close>.\<close>

definition name_field :: "u8 list \<Rightarrow> u8 list" where
  "name_field name = take DIRSIZ (takeWhile (\<lambda>c. c \<noteq> 0) name @ replicate DIRSIZ 0)"

definition dirlink :: "(nat \<Rightarrow> 'a fs_st_scheme devsw) \<Rightarrow> nat \<Rightarrow> u8 list \<Rightarrow> u32 \<Rightarrow> 'a fs_st_scheme \<Rightarrow> (i32, 'a fs_st_scheme) io" where
  "dirlink dt dp name inum s =
     andthen (dirlookup dt dp name s) (\<lambda>r s.
       case r of
         Some (ip, _) \<Rightarrow> andthen (iput ip s) (\<lambda>_ s. Ret (- 1) s)
       | None \<Rightarrow>
           andthen (free_dirent dt dp 0 (dir_offs (i_size (inode_at s dp))) s) (\<lambda>off s.
           let de = put16 (0 # 0 # name_field name) 0 (ucast inum) in
           andthen (writei dt dp de off 16 s) (\<lambda>r s.
           if r \<noteq> 16 then Panic ''dirlink'' s else Ret 0 s)))"

subsection \<open>Path names\<close>

definition SLASH :: u8 where "SLASH = 47"

definition skipelem :: "u8 list \<Rightarrow> u8 list \<Rightarrow> (u8 list \<times> u8 list) option" where
  "skipelem path name =
     (let path = dropWhile (\<lambda>c. c = SLASH) path in
      if path = [] then None
      else
        let s = takeWhile (\<lambda>c. c \<noteq> SLASH) path;
            rest = dropWhile (\<lambda>c. c \<noteq> SLASH) path;
            name = (if length s \<ge> DIRSIZ then take DIRSIZ s else (s @ drop (length s) name)[length s := 0]) in
        Some (dropWhile (\<lambda>c. c = SLASH) rest, name))"

lemma skipelem_shorter: "skipelem path name = Some (rest, name') \<Longrightarrow> length rest < length path"
proof -
  assume a: "skipelem path name = Some (rest, name')"
  let ?p = "dropWhile (\<lambda>c. c = SLASH) path"
  have p: "?p \<noteq> []" and rest: "rest = dropWhile (\<lambda>c. c = SLASH) (dropWhile (\<lambda>c. c \<noteq> SLASH) ?p)"
    using a by (auto simp: skipelem_def Let_def split: if_splits)
  have "hd ?p \<noteq> SLASH" using hd_dropWhile [OF p] by simp
  then have "length (dropWhile (\<lambda>c. c \<noteq> SLASH) ?p) < length ?p"
    using p by (cases ?p) (auto simp: le_imp_less_Suc length_dropWhile_le)
  then show ?thesis
    using length_dropWhile_le [of "\<lambda>c. c = SLASH" path] length_dropWhile_le [of "\<lambda>c. c = SLASH" "dropWhile (\<lambda>c. c \<noteq> SLASH) ?p"]
    unfolding rest by linarith
qed

text \<open>The loop of \<open>namex\<close>: the result is the inode, if any, and the buffer \<open>name\<close>.\<close>

function namex_loop :: "(nat \<Rightarrow> 'a fs_st_scheme devsw) \<Rightarrow> bool \<Rightarrow> nat \<Rightarrow> u8 list \<Rightarrow> u8 list \<Rightarrow> 'a fs_st_scheme \<Rightarrow>
    (nat option \<times> u8 list, 'a fs_st_scheme) io" where
  "namex_loop dt parent ip path name s =
     (case skipelem path name of
        None \<Rightarrow> if parent then andthen (iput ip s) (\<lambda>_ s. Ret (None, name) s) else Ret (Some ip, name) s
      | Some (path, name) \<Rightarrow>
          andthen (ilock ip s) (\<lambda>_ s.
            if i_type (inode_at s ip) \<noteq> T_DIR then andthen (iunlockput ip s) (\<lambda>_ s. Ret (None, name) s)
            else if parent \<and> path = [] then andthen (iunlock ip s) (\<lambda>_ s. Ret (Some ip, name) s)
            else
              andthen (dirlookup dt ip name s) (\<lambda>r s.
                case r of
                  None \<Rightarrow> andthen (iunlockput ip s) (\<lambda>_ s. Ret (None, name) s)
                | Some (next, _) \<Rightarrow> andthen (iunlockput ip s) (\<lambda>_ s. namex_loop dt parent next path name s))))"
  by auto
termination
  by (relation "measure (\<lambda>(dt, parent, ip, path, name, s). length path)") (auto dest: skipelem_shorter)

definition namex :: "(nat \<Rightarrow> 'a fs_st_scheme devsw) \<Rightarrow> u8 list \<Rightarrow> bool \<Rightarrow> u8 list \<Rightarrow> 'a fs_st_scheme \<Rightarrow>
    (nat option \<times> u8 list, 'a fs_st_scheme) io" where
  "namex dt path parent name s =
     (if chr_at path 0 = SLASH then andthen (iget ROOTDEV ROOTINO s) (\<lambda>ip s. namex_loop dt parent ip path name s)
      else case idup (cwd s) s of (ip, s) \<Rightarrow> namex_loop dt parent ip path name s)"

definition namei :: "(nat \<Rightarrow> 'a fs_st_scheme devsw) \<Rightarrow> u8 list \<Rightarrow> 'a fs_st_scheme \<Rightarrow> (nat option, 'a fs_st_scheme) io" where
  "namei dt path s = andthen (namex dt path False (replicate DIRSIZ 0) s) (\<lambda>r s. Ret (fst r) s)"

definition nameiparent :: "(nat \<Rightarrow> 'a fs_st_scheme devsw) \<Rightarrow> u8 list \<Rightarrow> u8 list \<Rightarrow> 'a fs_st_scheme \<Rightarrow>
    (nat option \<times> u8 list, 'a fs_st_scheme) io" where
  "nameiparent dt path name s = namex dt path True name s"

declare readi_loop.simps [simp del] writei_loop.simps [simp del] namex_loop.simps [simp del]

end
