(* ===== verification/Ring.thy ===== *)
theory Ring
  imports Prelude
begin

text \<open>
  Ring buffers with free-running 32-bit indices, as src/pipe.c and src/console.c use them: an index is
  reduced modulo the size of the buffer only when the buffer is accessed, and wraps around at \<open>2 ^ 32\<close>.
  The window between two indices is the sequence of the elements between them.
\<close>

definition window :: "nat \<Rightarrow> u8 list \<Rightarrow> u32 \<Rightarrow> u32 \<Rightarrow> u8 list" where
  "window N b lo hi = map (\<lambda>k. b ! (unat (lo + word_of_nat k) mod N)) [0..<unat (hi - lo)]"

lemma window_length [simp]: "length (window N b lo hi) = unat (hi - lo)"
  by (simp add: window_def)

lemma window_empty: "window N b lo hi = [] \<longleftrightarrow> lo = hi"
proof -
  have "window N b lo hi = [] \<longleftrightarrow> hi - lo = 0" by (simp add: window_def unat_eq_0)
  then show ?thesis by auto
qed

lemma window_same [simp]: "window N b lo lo = []"
  by (simp add: window_empty)

lemma window_uncons:
  assumes "lo \<noteq> hi"
  shows "window N b lo hi = b ! (unat lo mod N) # window N b (lo + 1) hi"
proof -
  have e: "hi - (lo + 1) = (hi - lo) - 1" and ne: "hi - lo \<noteq> 0" using assms by simp_all
  have "0 < unat (hi - lo)" using ne unfolding unat_gt_0 .
  then have "unat (hi - lo) = Suc (unat (hi - (lo + 1)))" unfolding e unat_minus_one [OF ne] by simp
  then have "[0..<unat (hi - lo)] = 0 # map Suc [0..<unat (hi - (lo + 1))]" by (simp only: upt_conv_Cons map_Suc_upt zero_less_Suc)
  then show ?thesis unfolding window_def by (simp add: add.assoc)
qed

lemma window_split:
  assumes "unat (mid - lo) + unat (hi - mid) < 2 ^ 32"
  shows "window N b lo hi = window N b lo mid @ window N b mid hi" "unat (hi - lo) = unat (mid - lo) + unat (hi - mid)"
proof -
  have e: "hi - lo = (mid - lo) + (hi - mid)" by simp
  show n: "unat (hi - lo) = unat (mid - lo) + unat (hi - mid)"
    using assms unfolding e unat_word_ariths by simp
  show "window N b lo hi = window N b lo mid @ window N b mid hi"
  proof (rule nth_equalityI)
    fix k assume k: "k < length (window N b lo hi)"
    show "window N b lo hi ! k = (window N b lo mid @ window N b mid hi) ! k"
    proof (cases "k < unat (mid - lo)")
      case True
      then show ?thesis using k by (simp add: nth_append window_def)
    next
      case False
      have "lo + word_of_nat k = mid + word_of_nat (k - unat (mid - lo))"
        using False by (simp add: of_nat_diff)
      then show ?thesis using False k n by (simp add: nth_append window_def add.commute)
    qed
  qed (simp add: n)
qed

locale ring_buffer =
  fixes N :: nat
  assumes pos: "0 < N" and divides: "N dvd 2 ^ 32" and fits: "N < 2 ^ 32"
begin

lemma slot: "unat (a + b :: u32) mod N = (unat a + unat b) mod N"
  using divides by (simp add: unat_word_ariths mod_mod_cancel)

lemma slot_distinct:
  assumes "k < n" "n < k + N"
  shows "(a + k) mod N \<noteq> (a + n) mod N"
proof
  assume "(a + k) mod N = (a + n) mod N"
  then have "N dvd (a + n) - (a + k)" using assms(1) mod_eq_dvd_iff_nat [of "a + k" "a + n" N] by simp
  then have "N \<le> n - k" using assms(1) by (intro dvd_imp_le) simp_all
  then show False using assms by simp
qed

lemma window_push:
  assumes "length b = N" "unat (hi - lo) < N"
  shows "window N (b[unat hi mod N := c]) lo (hi + 1) = window N b lo hi @ [c]" "unat (hi + 1 - lo) = Suc (unat (hi - lo))"
proof -
  let ?q = "unat (hi - lo)"
  have e: "hi + 1 - lo = (hi - lo) + 1" by simp
  show n: "unat (hi + 1 - lo) = Suc ?q" using assms(2) fits unfolding e unat_word_ariths by simp
  have sl: "unat (lo + word_of_nat k) mod N = (unat lo + k) mod N" if "k \<le> ?q" for k
  proof -
    have "unat (word_of_nat k :: u32) = k" using that assms(2) fits by (simp add: unat_of_nat)
    then show ?thesis by (simp add: slot)
  qed
  have h: "unat hi mod N = (unat lo + ?q) mod N" using slot [of lo "hi - lo"] by simp
  show "window N (b[unat hi mod N := c]) lo (hi + 1) = window N b lo hi @ [c]"
  proof (rule nth_equalityI)
    fix k assume "k < length (window N (b[unat hi mod N := c]) lo (hi + 1))"
    then have k: "k \<le> ?q" using n by simp
    then have w: "window N (b[unat hi mod N := c]) lo (hi + 1) ! k = b[unat hi mod N := c] ! ((unat lo + k) mod N)"
      unfolding window_def n by (simp add: sl del: upt_Suc)
    show "window N (b[unat hi mod N := c]) lo (hi + 1) ! k = (window N b lo hi @ [c]) ! k"
    proof (cases "k = ?q")
      case True
      then show ?thesis unfolding w unfolding h using pos assms(1) by (simp add: nth_append)
    next
      case False
      then have "(unat lo + k) mod N \<noteq> (unat lo + ?q) mod N" using k assms(2) by (intro slot_distinct) auto
      then show ?thesis using False k unfolding w unfolding h by (simp add: nth_append window_def sl)
    qed
  qed (simp add: n)
qed

end

end
