(* ===== verification/Pipe.thy ===== *)
theory Pipe
  imports Ring
begin

text \<open>
  Pipes (src/pipe.c): the ring buffer with its wrapping counters, and the processes that read, write,
  sleep on it and wake each other.

  A call runs under the lock of the pipe and is one step, up to its return or to the point where it
  sleeps and gives the lock up.  A call that sleeps is continued from the loop position it slept at.
  Each step also tells on which channels (\<open>&p->nread\<close>, \<open>&p->nwrite\<close>) it called \<open>wakeup\<close>.
\<close>

definition PIPESIZE :: nat where "PIPESIZE = 512"

record pipe =
  p_data :: "u8 list"
  p_nread :: u32
  p_nwrite :: u32
  p_readopen :: bool
  p_writeopen :: bool

datatype pchan = NREAD | NWRITE

datatype presult = Returns i32 | Sleeps nat

definition new_pipe :: "pipe \<Rightarrow> pipe" where
  "new_pipe p = p\<lparr>p_readopen := True, p_writeopen := True, p_nwrite := 0, p_nread := 0\<rparr>"

definition pipeclose :: "bool \<Rightarrow> pipe \<Rightarrow> pchan list \<times> bool \<times> pipe" where
  "pipeclose writable p =
     (let (w, p) = (if writable then ([NREAD], p\<lparr>p_writeopen := False\<rparr>) else ([NWRITE], p\<lparr>p_readopen := False\<rparr>)) in
      (w, \<not> p_readopen p \<and> \<not> p_writeopen p, p))"

definition put_byte :: "u8 \<Rightarrow> pipe \<Rightarrow> pipe" where
  "put_byte c p = p\<lparr>p_data := (p_data p)[unat (p_nwrite p) mod PIPESIZE := c], p_nwrite := p_nwrite p + 1\<rparr>"

function pipewrite_loop :: "bool \<Rightarrow> u8 list \<Rightarrow> i32 \<Rightarrow> nat \<Rightarrow> pipe \<Rightarrow> presult \<times> pchan list \<times> pipe" where
  "pipewrite_loop killed addr n i p =
     (if int i < sint n then
        if p_nwrite p = p_nread p + word_of_nat PIPESIZE then
          if \<not> p_readopen p \<or> killed then (Returns (- 1), [], p) else (Sleeps i, [NREAD], p)
        else pipewrite_loop killed addr n (Suc i) (put_byte (addr ! i) p)
      else (Returns n, [NREAD], p))"
  by auto
termination
  by (relation "measure (\<lambda>(killed, addr, n, i, p). nat (sint n) - i)") auto

definition pipewrite :: "bool \<Rightarrow> u8 list \<Rightarrow> i32 \<Rightarrow> pipe \<Rightarrow> presult \<times> pchan list \<times> pipe" where
  "pipewrite killed addr n p = pipewrite_loop killed addr n 0 p"

text \<open>The copying loop of \<open>piperead\<close>; \<open>i\<close> bytes have been copied.\<close>

function piperead_loop :: "i32 \<Rightarrow> nat \<Rightarrow> u8 list \<Rightarrow> pipe \<Rightarrow> u8 list \<times> pipe" where
  "piperead_loop n i addr p =
     (if int i < sint n \<and> p_nread p \<noteq> p_nwrite p then
        piperead_loop n (Suc i) (addr @ [p_data p ! (unat (p_nread p) mod PIPESIZE)]) (p\<lparr>p_nread := p_nread p + 1\<rparr>)
      else (addr, p))"
  by auto
termination
  by (relation "measure (\<lambda>(n, i, addr, p). nat (sint n) - i)") auto

definition piperead :: "bool \<Rightarrow> i32 \<Rightarrow> pipe \<Rightarrow> presult \<times> u8 list \<times> pchan list \<times> pipe" where
  "piperead killed n p =
     (if p_nread p = p_nwrite p \<and> p_writeopen p then
        if killed then (Returns (- 1), [], [], p) else (Sleeps 0, [], [], p)
      else
        let (addr, p) = piperead_loop n 0 [] p in
        (Returns (word_of_nat (length addr)), addr, [NWRITE], p))"

declare pipewrite_loop.simps [simp del] piperead_loop.simps [simp del]

subsection \<open>The pipe as a bounded queue\<close>

definition queued :: "pipe \<Rightarrow> nat" where
  "queued p = unat (p_nwrite p - p_nread p)"

definition contents :: "pipe \<Rightarrow> u8 list" where
  "contents p = window PIPESIZE (p_data p) (p_nread p) (p_nwrite p)"

definition pipe_ok :: "pipe \<Rightarrow> bool" where
  "pipe_ok p \<longleftrightarrow> length (p_data p) = PIPESIZE \<and> queued p \<le> PIPESIZE"

interpretation pipe_ring: ring_buffer PIPESIZE
  by unfold_locales (simp_all add: PIPESIZE_def)

lemma contents_length [simp]: "length (contents p) = queued p"
  by (simp add: contents_def queued_def)

lemma full_iff: "pipe_ok p \<Longrightarrow> p_nwrite p = p_nread p + word_of_nat PIPESIZE \<longleftrightarrow> queued p = PIPESIZE"
proof -
  have "queued p = PIPESIZE \<longleftrightarrow> p_nwrite p - p_nread p = word_of_nat PIPESIZE"
    by (simp add: queued_def word_unat_eq_iff PIPESIZE_def)
  then show ?thesis by (auto simp: algebra_simps)
qed

lemma empty_iff: "p_nread p = p_nwrite p \<longleftrightarrow> contents p = []"
  by (simp add: contents_def window_empty)

lemma put_byte_ok:
  assumes "pipe_ok p" "queued p < PIPESIZE"
  shows "pipe_ok (put_byte c p)" "contents (put_byte c p) = contents p @ [c]" "queued (put_byte c p) = Suc (queued p)"
proof -
  have a: "length (p_data p) = PIPESIZE" "unat (p_nwrite p - p_nread p) < PIPESIZE" using assms by (simp_all add: pipe_ok_def queued_def)
  show "contents (put_byte c p) = contents p @ [c]" "queued (put_byte c p) = Suc (queued p)"
    using pipe_ring.window_push [OF a] by (simp_all add: contents_def put_byte_def queued_def)
  then show "pipe_ok (put_byte c p)" using assms by (simp add: pipe_ok_def put_byte_def)
qed

lemma take_byte_ok:
  assumes "pipe_ok p" "contents p \<noteq> []"
  defines "p' \<equiv> p\<lparr>p_nread := p_nread p + 1\<rparr>"
  shows "pipe_ok p'" "contents p = p_data p ! (unat (p_nread p) mod PIPESIZE) # contents p'"
proof -
  show c: "contents p = p_data p ! (unat (p_nread p) mod PIPESIZE) # contents p'"
    using assms(2) by (simp add: contents_def p'_def window_empty window_uncons)
  have "queued p = Suc (queued p')" using arg_cong [OF c, of length] by simp
  then show "pipe_ok p'" using assms(1) by (simp add: pipe_ok_def p'_def)
qed

text \<open>What a run of \<open>pipewrite\<close> from loop position \<open>i\<close> does to the queue: \<open>k - i\<close> bytes are appended.\<close>

lemma pipewrite_loop_ok:
  assumes "pipe_ok p" "pipewrite_loop killed addr n i p = (r, w, p')" "sint n \<le> int (length addr)"
  shows "pipe_ok p' \<and> p_readopen p' = p_readopen p \<and> p_writeopen p' = p_writeopen p \<and>
    (\<exists>k. i \<le> k \<and> k \<le> max i (nat (sint n)) \<and> contents p' = contents p @ take (k - i) (drop i addr) \<and>
      (r = Returns n \<and> k = max i (nat (sint n)) \<and> w = [NREAD] \<or>
       r = Sleeps k \<and> queued p' = PIPESIZE \<and> p_readopen p \<and> \<not> killed \<and> w = [NREAD] \<or>
       r = Returns (- 1) \<and> queued p' = PIPESIZE \<and> (\<not> p_readopen p \<or> killed) \<and> w = []))"
  using assms
proof (induction killed addr n i p rule: pipewrite_loop.induct)
  case (1 killed addr n i p)
  note step = pipewrite_loop.simps [of killed addr n i p]
  show ?case
  proof (cases "int i < sint n")
    case False
    then show ?thesis using 1(2,3) unfolding step by (intro conjI exI [of _ i]) auto
  next
    case True
    show ?thesis
    proof (cases "queued p = PIPESIZE")
      case True
      then show ?thesis
        using 1(2,3) \<open>int i < sint n\<close> full_iff [OF 1(2)] unfolding step
        by (cases "\<not> p_readopen p \<or> killed") (auto intro!: exI [of _ i])
    next
      case False
      then have lt: "queued p < PIPESIZE" using 1(2) by (simp add: pipe_ok_def)
      note pb = put_byte_ok [OF 1(2) lt, of "addr ! i"]
      have nf: "p_nwrite p \<noteq> p_nread p + word_of_nat PIPESIZE" using full_iff [OF 1(2)] False by simp
      have run: "pipewrite_loop killed addr n (Suc i) (put_byte (addr ! i) p) = (r, w, p')"
        using 1(3) True nf unfolding step by simp
      from 1(1) [OF True nf pb(1) run 1(4)] obtain k where k: "Suc i \<le> k" "k \<le> max (Suc i) (nat (sint n))" "pipe_ok p'"
        "p_readopen p' = p_readopen p" "p_writeopen p' = p_writeopen p"
        "contents p' = contents (put_byte (addr ! i) p) @ take (k - Suc i) (drop (Suc i) addr)"
        "r = Returns n \<and> k = max (Suc i) (nat (sint n)) \<and> w = [NREAD] \<or>
         r = Sleeps k \<and> queued p' = PIPESIZE \<and> p_readopen p \<and> \<not> killed \<and> w = [NREAD] \<or>
         r = Returns (- 1) \<and> queued p' = PIPESIZE \<and> (\<not> p_readopen p \<or> killed) \<and> w = []"
        by (auto simp: put_byte_def)
      have i: "i < length addr" using True 1(4) by linarith
      have "addr ! i # take (k - Suc i) (drop (Suc i) addr) = take (k - i) (drop i addr)"
        using k(1) i by (simp add: Cons_nth_drop_Suc [symmetric] take_Cons' Suc_diff_Suc)
      then have "contents p' = contents p @ take (k - i) (drop i addr)" using k(6) pb(2) by simp
      moreover have "max (Suc i) (nat (sint n)) = max i (nat (sint n))" using True by linarith
      ultimately show ?thesis using k by (intro conjI exI [of _ k]) auto
    qed
  qed
qed

lemma piperead_loop_ok:
  assumes "pipe_ok p" "piperead_loop n i addr p = (addr', p')"
  shows "pipe_ok p' \<and> p_readopen p' = p_readopen p \<and> p_writeopen p' = p_writeopen p \<and>
    (\<exists>bs. addr' = addr @ bs \<and> contents p = bs @ contents p' \<and> length bs = min (nat (sint n) - i) (queued p))"
  using assms
proof (induction n i addr p rule: piperead_loop.induct)
  case (1 n i addr p)
  note step = piperead_loop.simps [of n i addr p]
  show ?case
  proof (cases "int i < sint n \<and> p_nread p \<noteq> p_nwrite p")
    case False
    then have "min (nat (sint n) - i) (queued p) = 0"
      by (auto simp: queued_def)
    then show ?thesis using False 1(2,3) unfolding step by (intro conjI exI [of _ "[]"]) auto
  next
    case True
    let ?c = "p_data p ! (unat (p_nread p) mod PIPESIZE)"
    let ?p = "p\<lparr>p_nread := p_nread p + 1\<rparr>"
    have ne: "contents p \<noteq> []" using True empty_iff by blast
    note tb = take_byte_ok [OF 1(2) ne]
    have run: "piperead_loop n (Suc i) (addr @ [?c]) ?p = (addr', p')" using 1(3) True unfolding step by simp
    from 1(1) [OF True tb(1) run] obtain bs where bs: "pipe_ok p'" "p_readopen p' = p_readopen p" "p_writeopen p' = p_writeopen p"
      "addr' = (addr @ [?c]) @ bs" "contents ?p = bs @ contents p'" "length bs = min (nat (sint n) - Suc i) (queued ?p)" by auto
    have "queued p = Suc (queued ?p)" using arg_cong [OF tb(2), of length] by simp
    then have "length (?c # bs) = min (nat (sint n) - i) (queued p)" using bs(6) True by (simp add: min_def) linarith
    then show ?thesis using bs tb(2) by (intro conjI exI [of _ "?c # bs"]) auto
  qed
qed

subsection \<open>Readers and writers\<close>

text \<open>
  The processes around one pipe: each is outside, about to run in a call (at its beginning, or because
  it was woken up), or asleep in one.  \<open>sent\<close> and \<open>got\<close> record the bytes that entered and left the pipe.
  \<open>aborted\<close> records that a write ended with \<open>- 1\<close>.  A process may be woken for other reasons at any time.
\<close>

datatype pproc =
    Outside
  | Writer bool "u8 list" i32 nat
  | Reader bool i32

record psys =
  the_pipe :: pipe
  procs :: "nat \<Rightarrow> pproc"
  sent :: "u8 list"
  got :: "u8 list"
  aborted :: bool

definition woken :: "pchan list \<Rightarrow> pproc \<Rightarrow> pproc" where
  "woken w q = (case q of
      Reader b n \<Rightarrow> Reader (b \<and> NREAD \<notin> set w) n
    | Writer b a n i \<Rightarrow> Writer (b \<and> NWRITE \<notin> set w) a n i
    | Outside \<Rightarrow> Outside)"

definition set_proc :: "nat \<Rightarrow> pproc \<Rightarrow> pchan list \<Rightarrow> (nat \<Rightarrow> pproc) \<Rightarrow> nat \<Rightarrow> pproc" where
  "set_proc c q w f = (\<lambda>d. if d = c then q else woken w (f d))"

inductive pipe_step :: "psys \<Rightarrow> psys \<Rightarrow> bool" where
  call_write: "procs x c = Outside \<Longrightarrow> sint n \<le> int (length addr) \<Longrightarrow> p_writeopen (the_pipe x) \<Longrightarrow>
    pipe_step x (x\<lparr>procs := (procs x)(c := Writer False addr n 0)\<rparr>)"
| call_read: "procs x c = Outside \<Longrightarrow> p_readopen (the_pipe x) \<Longrightarrow>
    pipe_step x (x\<lparr>procs := (procs x)(c := Reader False n)\<rparr>)"
| run_write: "procs x c = Writer False addr n i \<Longrightarrow> pipewrite_loop killed addr n i (the_pipe x) = (r, w, p) \<Longrightarrow>
    pipe_step x (x\<lparr>the_pipe := p,
      procs := set_proc c (case r of Sleeps k \<Rightarrow> Writer True addr n k | Returns _ \<Rightarrow> Outside) w (procs x),
      sent := sent x @ drop (queued (the_pipe x)) (contents p),
      aborted := aborted x \<or> r = Returns (- 1)\<rparr>)"
| run_read: "procs x c = Reader False n \<Longrightarrow> piperead killed n (the_pipe x) = (r, bs, w, p) \<Longrightarrow>
    pipe_step x (x\<lparr>the_pipe := p,
      procs := set_proc c (case r of Sleeps _ \<Rightarrow> Reader True n | Returns _ \<Rightarrow> Outside) w (procs x), got := got x @ bs\<rparr>)"
| close: "pipeclose writable (the_pipe x) = (w, dead, p) \<Longrightarrow> pipe_step x (x\<lparr>the_pipe := p, procs := (\<lambda>c. woken w (procs x c))\<rparr>)"
| wake: "pipe_step x (x\<lparr>procs := (procs x)(c := woken [NREAD, NWRITE] (procs x c))\<rparr>)"

definition pipe_boot :: "pipe \<Rightarrow> psys" where
  "pipe_boot p = \<lparr>the_pipe = new_pipe p, procs = (\<lambda>_. Outside), sent = [], got = [], aborted = False\<rparr>"

text \<open>The condition on a process: a sleeping one has a reason to sleep, and a writer stays within its buffer.\<close>

definition proc_ok :: "psys \<Rightarrow> pproc \<Rightarrow> bool" where
  "proc_ok x q = (case q of
      Outside \<Rightarrow> True
    | Writer b addr n i \<Rightarrow> sint n \<le> int (length addr) \<and> (b \<longrightarrow> queued (the_pipe x) = PIPESIZE \<and> p_readopen (the_pipe x))
    | Reader b n \<Rightarrow> b \<longrightarrow> aborted x \<or> contents (the_pipe x) = [] \<and> p_writeopen (the_pipe x))"

definition psys_ok :: "psys \<Rightarrow> bool" where
  "psys_ok x \<longleftrightarrow> pipe_ok (the_pipe x) \<and> sent x = got x @ contents (the_pipe x) \<and> (\<forall>c. proc_ok x (procs x c))"

lemma proc_ok_procs [simp]: "proc_ok (x\<lparr>procs := f\<rparr>) = proc_ok x"
  by (rule ext) (simp add: proc_ok_def split: pproc.split)

lemma psys_okD: "psys_ok x \<Longrightarrow> proc_ok x (procs x c)"
  by (simp add: psys_ok_def)

lemma woken_ok:
  assumes "proc_ok x q"
    and "\<And>n. q = Reader True n \<Longrightarrow> NREAD \<notin> set w \<Longrightarrow> proc_ok x q \<Longrightarrow> proc_ok y q"
    and "\<And>addr n i. q = Writer True addr n i \<Longrightarrow> NWRITE \<notin> set w \<Longrightarrow> proc_ok x q \<Longrightarrow> proc_ok y q"
  shows "proc_ok y (woken w q)"
proof (cases q)
  case (Writer b addr n i)
  then show ?thesis
    using assms by (cases "b \<and> NWRITE \<notin> set w") (auto simp: woken_def proc_ok_def)
next
  case (Reader b n)
  then show ?thesis
    using assms by (cases "b \<and> NREAD \<notin> set w") (auto simp: woken_def proc_ok_def)
qed (simp add: woken_def proc_ok_def)

lemma run_write_ok:
  assumes ok: "psys_ok x" and c: "procs x c = Writer False addr n i"
    and run: "pipewrite_loop killed addr n i (the_pipe x) = (r, w, p)"
    and y: "y = x\<lparr>the_pipe := p,
      procs := set_proc c (case r of Sleeps k \<Rightarrow> Writer True addr n k | Returns _ \<Rightarrow> Outside) w (procs x),
      sent := sent x @ drop (queued (the_pipe x)) (contents p), aborted := aborted x \<or> r = Returns (- 1)\<rparr>"
  shows "psys_ok y"
proof -
  have n: "sint n \<le> int (length addr)" using psys_okD [OF ok, of c] c by (simp add: proc_ok_def)
  have p0: "pipe_ok (the_pipe x)" using ok by (simp add: psys_ok_def)
  from pipewrite_loop_ok [OF p0 run n] obtain k where k: "pipe_ok p" "p_readopen p = p_readopen (the_pipe x)"
    "p_writeopen p = p_writeopen (the_pipe x)" "contents p = contents (the_pipe x) @ take (k - i) (drop i addr)"
    "r = Returns n \<and> w = [NREAD] \<or> r = Sleeps k \<and> queued p = PIPESIZE \<and> p_readopen (the_pipe x) \<and> w = [NREAD] \<or>
     r = Returns (- 1) \<and> w = []" by blast
  have more: "queued (the_pipe x) \<le> queued p" using arg_cong [OF k(4), of length] by simp
  have "proc_ok y (procs y d)" for d
  proof (cases "d = c")
    case True
    then show ?thesis using k n by (auto simp: y set_proc_def proc_ok_def)
  next
    case False
    have "proc_ok y (woken w (procs x d))"
    proof (rule woken_ok [of x])
      show "proc_ok x (procs x d)" by (rule psys_okD [OF ok])
      show "proc_ok y (procs x d)" if "procs x d = Reader True m" "NREAD \<notin> set w" for m
        using that k(5) by (auto simp: y proc_ok_def)
      show "proc_ok y (procs x d)" if "procs x d = Writer True a m j" "proc_ok x (procs x d)" for a m j
        using that k(1,2) more by (auto simp: y proc_ok_def pipe_ok_def)
    qed
    then show ?thesis using False by (simp add: y set_proc_def)
  qed
  then show ?thesis using ok k(1,4) by (simp add: psys_ok_def y)
qed

lemma piperead_ok:
  assumes "pipe_ok p" "piperead killed n p = (r, bs, w, p')"
  shows "pipe_ok p' \<and> p_readopen p' = p_readopen p \<and> p_writeopen p' = p_writeopen p \<and> contents p = bs @ contents p' \<and>
    (contents p = [] \<and> p_writeopen p \<and> w = [] \<and> p' = p \<and> (r = Returns (- 1) \<and> killed \<or> r = Sleeps 0 \<and> \<not> killed) \<or>
     (contents p \<noteq> [] \<or> \<not> p_writeopen p) \<and> w = [NWRITE] \<and> r = Returns (word_of_nat (length bs)) \<and>
       length bs = min (nat (sint n)) (queued p))"
proof (cases "contents p = [] \<and> p_writeopen p")
  case True
  then show ?thesis using assms by (auto simp: piperead_def empty_iff split: if_splits)
next
  case False
  obtain a q where l: "piperead_loop n 0 [] p = (a, q)" by fastforce
  have "r = Returns (word_of_nat (length a))" "bs = a" "w = [NWRITE]" "p' = q"
    using assms(2) False l by (auto simp: piperead_def empty_iff)
  then show ?thesis using piperead_loop_ok [OF assms(1) l] False by auto
qed

lemma run_read_ok:
  assumes ok: "psys_ok x" and c: "procs x c = Reader False n"
    and run: "piperead killed n (the_pipe x) = (r, bs, w, p)"
    and y: "y = x\<lparr>the_pipe := p,
      procs := set_proc c (case r of Sleeps _ \<Rightarrow> Reader True n | Returns _ \<Rightarrow> Outside) w (procs x), got := got x @ bs\<rparr>"
  shows "psys_ok y"
proof -
  have p0: "pipe_ok (the_pipe x)" using ok by (simp add: psys_ok_def)
  note r = piperead_ok [OF p0 run]
  have "proc_ok y (procs y d)" for d
  proof (cases "d = c")
    case True
    then show ?thesis using r by (auto simp: y set_proc_def proc_ok_def)
  next
    case False
    have "proc_ok y (woken w (procs x d))"
    proof (rule woken_ok [of x])
      show "proc_ok x (procs x d)" by (rule psys_okD [OF ok])
      show "proc_ok y (procs x d)" if "procs x d = Reader True m" "proc_ok x (procs x d)" for m
        using that r by (auto simp: y proc_ok_def)
      show "proc_ok y (procs x d)" if "procs x d = Writer True a m j" "NWRITE \<notin> set w" "proc_ok x (procs x d)" for a m j
        using that r by (auto simp: y proc_ok_def)
    qed
    then show ?thesis using False by (simp add: y set_proc_def)
  qed
  then show ?thesis using ok r by (simp add: psys_ok_def y)
qed

lemma pipe_step_ok:
  assumes "pipe_step x y" "psys_ok x"
  shows "psys_ok y"
  using assms
proof cases
  case (run_write c addr n i killed r w p)
  then show ?thesis using run_write_ok [OF assms(2)] by blast
next
  case (run_read c n killed r bs w p)
  then show ?thesis using run_read_ok [OF assms(2)] by blast
next
  case (close writable w dead p)
  have p: "pipe_ok p" "contents p = contents (the_pipe x)" "queued p = queued (the_pipe x)"
    using close(2) assms(2)
    by (auto simp: pipeclose_def psys_ok_def pipe_ok_def contents_def queued_def split: if_splits)
  have "proc_ok y (woken w (procs x d))" for d
  proof (rule woken_ok [of x])
    show "proc_ok x (procs x d)" using assms(2) by (simp add: psys_ok_def)
    show "proc_ok y (procs x d)" if "procs x d = Reader True m" "NREAD \<notin> set w" "proc_ok x (procs x d)" for m
      using that p close by (auto simp: pipeclose_def proc_ok_def split: if_splits)
    show "proc_ok y (procs x d)" if "procs x d = Writer True a m j" "NWRITE \<notin> set w" "proc_ok x (procs x d)" for a m j
      using that p close by (auto simp: pipeclose_def proc_ok_def split: if_splits)
  qed
  then show ?thesis using assms(2) p close(1) by (simp add: psys_ok_def)
next
  case (wake c)
  have "proc_ok x (woken [NREAD, NWRITE] (procs x c))"
    using psys_okD [OF assms(2)] by (intro woken_ok [of x]) simp_all
  then show ?thesis using assms(2) wake by (simp add: psys_ok_def)
next
  case (call_write c n addr)
  then have "proc_ok x (Writer False addr n 0)" by (simp add: proc_ok_def)
  then show ?thesis using assms(2) call_write by (simp add: psys_ok_def)
next
  case (call_read c n)
  have "proc_ok x (Reader False n)" by (simp add: proc_ok_def)
  then show ?thesis using assms(2) call_read by (simp add: psys_ok_def)
qed

lemma pipe_boot_ok: "length (p_data p) = PIPESIZE \<Longrightarrow> psys_ok (pipe_boot p)"
  by (simp add: psys_ok_def pipe_boot_def new_pipe_def pipe_ok_def contents_def queued_def proc_ok_def)

lemma pipe_reachable_ok:
  assumes "pipe_step\<^sup>*\<^sup>* (pipe_boot p) x" "length (p_data p) = PIPESIZE"
  shows "psys_ok x"
  using assms(1) by (induction rule: rtranclp_induct) (auto intro: pipe_step_ok pipe_boot_ok [OF assms(2)])


definition demo_pipe :: pipe where
  "demo_pipe = \<lparr>p_data = replicate PIPESIZE 0, p_nread = 7, p_nwrite = 9, p_readopen = False, p_writeopen = False\<rparr>"



end
