(* ===== verification/Syscall.thy ===== *)
theory Syscall
  imports Memory
begin

text \<open>
  System calls (src/syscall.c, src/syscall.h): fetching of arguments from the memory of the calling
  process, and the dispatch on the number of the call.  The user side of the process is its size, its
  saved stack pointer and its memory; a pointer the kernel has checked is used directly.
\<close>

record uproc =
  usz :: u32
  uesp :: u32
  umem :: mem

definition fetchint :: "uproc \<Rightarrow> u32 \<Rightarrow> i32 option" where
  "fetchint u addr = (if addr \<ge> usz u \<or> addr + 4 > usz u then None else Some (load32 (umem u) addr))"

text \<open>The loop of \<open>fetchstr\<close>: the address of the terminator.\<close>

function fetchstr_loop :: "uproc \<Rightarrow> u32 \<Rightarrow> u32 option" where
  "fetchstr_loop u s =
     (if s < usz u then if umem u s = 0 then Some s else fetchstr_loop u (s + 1) else None)"
  by auto
termination
proof (relation "measure (\<lambda>(u, s). unat (usz u) - unat s)", simp)
  fix u :: uproc and s :: u32
  assume "s < usz u"
  then have "unat s < unat (usz u)" "unat (s + 1) = unat s + 1"
    using unsigned_less [of "usz u", where 'a = nat] by (auto simp: word_less_nat_alt unat_word_ariths)
  then show "((u, s + 1), u, s) \<in> measure (\<lambda>(u, s). unat (usz u) - unat s)" by simp
qed

definition fetchstr :: "uproc \<Rightarrow> u32 \<Rightarrow> (u32 \<times> i32) option" where
  "fetchstr u addr =
     (if addr \<ge> usz u then None
      else case fetchstr_loop u addr of None \<Rightarrow> None | Some s \<Rightarrow> Some (addr, s - addr))"

definition argint :: "uproc \<Rightarrow> nat \<Rightarrow> i32 option" where
  "argint u n = fetchint u (uesp u + 4 + 4 * word_of_nat n)"

definition argptr :: "uproc \<Rightarrow> nat \<Rightarrow> i32 \<Rightarrow> u32 option" where
  "argptr u n size' =
     (case argint u n of
        None \<Rightarrow> None
      | Some i \<Rightarrow> if size' <s 0 \<or> i \<ge> usz u \<or> i + size' > usz u then None else Some i)"

definition argstr :: "uproc \<Rightarrow> nat \<Rightarrow> (u32 \<times> i32) option" where
  "argstr u n = (case argint u n of None \<Rightarrow> None | Some addr \<Rightarrow> fetchstr u addr)"

text \<open>The bytes of a string and of a memory range of the process.\<close>

definition ubytes :: "uproc \<Rightarrow> u32 \<Rightarrow> nat \<Rightarrow> u8 list" where
  "ubytes u p n = map (\<lambda>k. umem u (p + word_of_nat k)) [0..<n]"

definition upath :: "uproc \<Rightarrow> nat \<Rightarrow> u8 list option" where
  "upath u n = map_option (\<lambda>(p, len). ubytes u p (unat len)) (argstr u n)"

definition store_bytes :: "u32 \<Rightarrow> u8 list \<Rightarrow> uproc \<Rightarrow> uproc" where
  "store_bytes p bs u = u\<lparr>umem := (\<lambda>a. if unat (a - p) < length bs then bs ! unat (a - p) else umem u a)\<rparr>"

declare fetchstr_loop.simps [simp del]

subsection \<open>Dispatch\<close>

datatype sysno =
    SYS_fork | SYS_exit | SYS_wait | SYS_pipe | SYS_read | SYS_kill | SYS_exec | SYS_fstat | SYS_chdir | SYS_dup
  | SYS_getpid | SYS_sbrk | SYS_sleep | SYS_uptime | SYS_open | SYS_write | SYS_mknod | SYS_unlink | SYS_link | SYS_mkdir
  | SYS_close | SYS_ticks_run | SYS_set_tickets | SYS_get_tickets | SYS_job_position | SYS_get_creation_time
  | SYS_get_start_time | SYS_get_completion_time | SYS_get_total_run_time | SYS_get_total_ready_time

text \<open>The table \<open>syscalls\<close>; entry 0 is empty.\<close>

definition syscalls :: "sysno option list" where
  "syscalls = None # map Some
     [SYS_fork, SYS_exit, SYS_wait, SYS_pipe, SYS_read, SYS_kill, SYS_exec, SYS_fstat, SYS_chdir, SYS_dup,
      SYS_getpid, SYS_sbrk, SYS_sleep, SYS_uptime, SYS_open, SYS_write, SYS_mknod, SYS_unlink, SYS_link, SYS_mkdir,
      SYS_close, SYS_ticks_run, SYS_set_tickets, SYS_get_tickets, SYS_job_position, SYS_get_creation_time,
      SYS_get_start_time, SYS_get_completion_time, SYS_get_total_run_time, SYS_get_total_ready_time]"

text \<open>The value \<open>syscall\<close> leaves in \<open>eax\<close>; \<open>h\<close> gives the handlers.\<close>

definition syscall :: "(sysno \<Rightarrow> 's \<Rightarrow> (i32, 'l, 's) outcome) \<Rightarrow> i32 \<Rightarrow> 's \<Rightarrow> (i32, 'l, 's) outcome" where
  "syscall h num s =
     (if 0 <s num \<and> unat num < length syscalls then
        case syscalls ! unat num of Some f \<Rightarrow> h f s | None \<Rightarrow> Ret (- 1) s
      else Ret (- 1) s)"

subsection \<open>Pointers from user space\<close>

lemma fetchint_range:
  assumes "fetchint u addr = Some v" "usz u \<le> 0x80000000"
  shows "unat addr + 4 \<le> unat (usz u)"
proof -
  have a: "addr < usz u" "addr + 4 \<le> usz u" using assms by (auto simp: fetchint_def not_le split: if_splits)
  have "unat (usz u) \<le> 0x80000000" using assms(2) by (simp add: word_le_nat_alt)
  then have "unat (addr + 4) = unat addr + 4" using a(1) by (simp add: word_less_nat_alt unat_word_ariths)
  then show ?thesis using a(2) by (simp add: word_le_nat_alt)
qed

lemma fetchstr_loop_Some:
  "fetchstr_loop u s = Some e \<Longrightarrow> s \<le> e \<and> e < usz u \<and> umem u e = 0 \<and> (\<forall>a. s \<le> a \<and> a < e \<longrightarrow> umem u a \<noteq> 0)"
proof (induction u s rule: fetchstr_loop.induct)
  case (1 u s)
  have s: "s < usz u" using 1(2) by (simp add: fetchstr_loop.simps [of u s] split: if_splits)
  show ?case
  proof (cases "umem u s = 0")
    case True
    then show ?thesis using 1(2) s by (auto simp: fetchstr_loop.simps [of u s])
  next
    case False
    then have "fetchstr_loop u (s + 1) = Some e" using 1(2) s by (simp add: fetchstr_loop.simps [of u s])
    from 1(1) [OF s False this] have e: "s + 1 \<le> e" "e < usz u" "umem u e = 0" "\<forall>a. s + 1 \<le> a \<and> a < e \<longrightarrow> umem u a \<noteq> 0" by auto
    have "unat (s + 1) = unat s + 1"
      using s unsigned_less [of "usz u", where 'a = nat] by (auto simp: word_less_nat_alt unat_word_ariths)
    then have "s + 1 \<le> a" if "s \<le> a" "a \<noteq> s" for a
      using that by (simp add: word_le_nat_alt word_unat_eq_iff)
    then show ?thesis
      using e False \<open>unat (s + 1) = unat s + 1\<close> by (auto simp: word_le_nat_alt)
  qed
qed



end
