(* ===== verification/File.thy ===== *)
theory File
  imports FS Pipe Syscall
begin

text \<open>
  Open files (src/file.c, \<open>struct file\<close> of src/file.h) and the part of src/pipe.c that allocates pipes.

  The state adds to that of the file system the table of open files, the pipes, and of the process that
  executes its open descriptors, its \<open>killed\<close> flag and its user memory.  A pipe lives in a page from
  \<open>kalloc\<close>: \<open>pages\<close> is the abstract list of free pages that the page allocator implements (see the theory
  of the allocator), and \<open>pipes\<close> reads a page as a \<open>struct pipe\<close>.  \<open>wakeup\<close> changes process states only,
  which are not part of this state; a call that sleeps has the outcome \<open>Sleep\<close>.
\<close>

definition NFILE :: nat where "NFILE = 100"
definition NOFILE :: nat where "NOFILE = 16"

datatype fdtype = FD_NONE | FD_PIPE | FD_INODE

record open_file =
  f_type :: fdtype
  f_ref :: i32
  f_readable :: bool
  f_writable :: bool
  f_pipe :: u32
  f_ip :: nat
  f_off :: u32

record file_st = fs_st +
  ftable :: "open_file list"
  pages :: "u32 list"
  pipes :: "u32 \<Rightarrow> pipe"
  ofile :: "nat option list"
  killed :: bool
  user :: uproc

definition file_at :: "'a file_st_scheme \<Rightarrow> nat \<Rightarrow> open_file" where
  "file_at s f = ftable s ! f"

definition upd_file :: "nat \<Rightarrow> (open_file \<Rightarrow> open_file) \<Rightarrow> 'a file_st_scheme \<Rightarrow> 'a file_st_scheme" where
  "upd_file f g s = s\<lparr>ftable := (ftable s)[f := g (ftable s ! f)]\<rparr>"

definition filealloc :: "'a file_st_scheme \<Rightarrow> nat option \<times> 'a file_st_scheme" where
  "filealloc s =
     (case scan (\<lambda>x. f_ref x = 0) (ftable s) of
        Some f \<Rightarrow> (Some f, upd_file f (\<lambda>x. x\<lparr>f_ref := 1\<rparr>) s)
      | None \<Rightarrow> (None, s))"

definition filedup :: "nat \<Rightarrow> 'a file_st_scheme \<Rightarrow> (nat, 'a file_st_scheme) io" where
  "filedup f s =
     (if f_ref (file_at s f) <s 1 then Panic ''filedup'' s
      else Ret f (upd_file f (\<lambda>x. x\<lparr>f_ref := f_ref x + 1\<rparr>) s))"

text \<open>\<open>pipeclose\<close> with the freeing of the page when both ends are closed.\<close>

definition close_pipe :: "u32 \<Rightarrow> bool \<Rightarrow> 'a file_st_scheme \<Rightarrow> 'a file_st_scheme" where
  "close_pipe pg writable s =
     (case pipeclose writable (pipes s pg) of (w, dead, p) \<Rightarrow>
        let s = s\<lparr>pipes := (pipes s)(pg := p)\<rparr> in
        if dead then s\<lparr>pages := pg # pages s\<rparr> else s)"

definition fileclose :: "nat \<Rightarrow> 'a file_st_scheme \<Rightarrow> (unit, 'a file_st_scheme) io" where
  "fileclose f s =
     (if f_ref (file_at s f) <s 1 then Panic ''fileclose'' s
      else
        let s = upd_file f (\<lambda>x. x\<lparr>f_ref := f_ref x - 1\<rparr>) s in
        if 0 <s f_ref (file_at s f) then Ret () s
        else
          let ff = file_at s f;
              s = upd_file f (\<lambda>x. x\<lparr>f_ref := 0, f_type := FD_NONE\<rparr>) s in
          case f_type ff of
            FD_PIPE \<Rightarrow> Ret () (close_pipe (f_pipe ff) (f_writable ff) s)
          | FD_INODE \<Rightarrow> andthen (begin_op s) (\<lambda>_ s. andthen (iput (f_ip ff) s) (\<lambda>_ s. end_op s))
          | FD_NONE \<Rightarrow> Ret () s)"

definition filestat :: "nat \<Rightarrow> 'a file_st_scheme \<Rightarrow> (i32 \<times> stat option, 'a file_st_scheme) io" where
  "filestat f s =
     (if f_type (file_at s f) = FD_INODE then
        let ip = f_ip (file_at s f) in
        andthen (ilock ip s) (\<lambda>_ s.
        let st = stati ip s in
        andthen (iunlock ip s) (\<lambda>_ s. Ret (0, Some st) s))
      else Ret (- 1, None) s)"

definition fileread :: "(nat \<Rightarrow> 'a file_st_scheme devsw) \<Rightarrow> nat \<Rightarrow> i32 \<Rightarrow> 'a file_st_scheme \<Rightarrow> (i32 \<times> u8 list, 'a file_st_scheme) io" where
  "fileread dt f n s =
     (if \<not> f_readable (file_at s f) then Ret (- 1, []) s
      else
        case f_type (file_at s f) of
          FD_PIPE \<Rightarrow>
            let pg = f_pipe (file_at s f) in
            (case piperead (killed s) n (pipes s pg) of (r, bs, w, p) \<Rightarrow>
               let s = s\<lparr>pipes := (pipes s)(pg := p)\<rparr> in
               case r of Returns v \<Rightarrow> Ret (v, bs) s | Sleeps i \<Rightarrow> Sleep s)
        | FD_INODE \<Rightarrow>
            let ip = f_ip (file_at s f) in
            andthen (ilock ip s) (\<lambda>_ s.
            andthen (readi dt ip (f_off (file_at s f)) n s) (\<lambda>(r, bs) s.
            let s = (if 0 <s r then upd_file f (\<lambda>x. x\<lparr>f_off := f_off x + r\<rparr>) s else s) in
            andthen (iunlock ip s) (\<lambda>_ s. Ret (r, bs) s)))
        | FD_NONE \<Rightarrow> Panic ''fileread'' s)"

text \<open>The most bytes one transaction of \<open>filewrite\<close> writes.\<close>

definition max_write :: nat where
  "max_write = ((MAXOPBLOCKS - 1 - 1 - 2) div 2) * 512"

text \<open>One pass of the loop of \<open>filewrite\<close>, a transaction of its own.\<close>

definition filewrite_chunk :: "(nat \<Rightarrow> 'a file_st_scheme devsw) \<Rightarrow> nat \<Rightarrow> u8 list \<Rightarrow> i32 \<Rightarrow> 'a file_st_scheme \<Rightarrow> (i32, 'a file_st_scheme) io" where
  "filewrite_chunk dt f addr n1 s =
     andthen (begin_op s) (\<lambda>_ s.
     andthen (ilock (f_ip (file_at s f)) s) (\<lambda>_ s.
     andthen (writei dt (f_ip (file_at s f)) addr (f_off (file_at s f)) n1 s) (\<lambda>r s.
     let s = (if 0 <s r then upd_file f (\<lambda>x. x\<lparr>f_off := f_off x + r\<rparr>) s else s) in
     andthen (iunlock (f_ip (file_at s f)) s) (\<lambda>_ s.
     andthen (end_op s) (\<lambda>_ s. Ret r s)))))"

function filewrite_loop :: "(nat \<Rightarrow> 'a file_st_scheme devsw) \<Rightarrow> nat \<Rightarrow> u8 list \<Rightarrow> i32 \<Rightarrow> nat \<Rightarrow> 'a file_st_scheme \<Rightarrow> (nat, 'a file_st_scheme) io" where
  "filewrite_loop dt f addr n i s =
     (if int i < sint n then
        let n1 = min (nat (sint n) - i) max_write in
        andthen (filewrite_chunk dt f (drop i addr) (word_of_nat n1) s) (\<lambda>r s.
          if r <s 0 then Ret i s
          else if r \<noteq> word_of_nat n1 then Panic ''short filewrite'' s
          else filewrite_loop dt f addr n (i + n1) s)
      else Ret i s)"
  by auto
termination
  by (relation "measure (\<lambda>(dt, f, addr, n, i, s). nat (sint n) - i)") (auto simp: max_write_def MAXOPBLOCKS_def)

declare filewrite_loop.simps [simp del]

definition filewrite :: "(nat \<Rightarrow> 'a file_st_scheme devsw) \<Rightarrow> nat \<Rightarrow> u8 list \<Rightarrow> i32 \<Rightarrow> 'a file_st_scheme \<Rightarrow> (i32, 'a file_st_scheme) io" where
  "filewrite dt f addr n s =
     (if \<not> f_writable (file_at s f) then Ret (- 1) s
      else
        case f_type (file_at s f) of
          FD_PIPE \<Rightarrow>
            let pg = f_pipe (file_at s f) in
            (case pipewrite (killed s) addr n (pipes s pg) of (r, w, p) \<Rightarrow>
               let s = s\<lparr>pipes := (pipes s)(pg := p)\<rparr> in
               case r of Returns v \<Rightarrow> Ret v s | Sleeps i \<Rightarrow> Sleep s)
        | FD_INODE \<Rightarrow> andthen (filewrite_loop dt f addr n 0 s) (\<lambda>i s. Ret (if int i = sint n then n else - 1) s)
        | FD_NONE \<Rightarrow> Panic ''filewrite'' s)"

subsection \<open>Pipes\<close>

text \<open>The error exit \<open>bad\<close> of \<open>pipealloc\<close>, reached with \<open>p == 0\<close> only.\<close>

definition pipe_bad :: "nat option \<Rightarrow> nat option \<Rightarrow> 'a file_st_scheme \<Rightarrow> ((nat \<times> nat) option, 'a file_st_scheme) io" where
  "pipe_bad f0 f1 s =
     andthen (case f0 of Some f \<Rightarrow> fileclose f s | None \<Rightarrow> Ret () s) (\<lambda>_ s.
     andthen (case f1 of Some f \<Rightarrow> fileclose f s | None \<Rightarrow> Ret () s) (\<lambda>_ s. Ret None s))"

definition pipealloc :: "'a file_st_scheme \<Rightarrow> ((nat \<times> nat) option, 'a file_st_scheme) io" where
  "pipealloc s =
     (case filealloc s of
        (None, s) \<Rightarrow> pipe_bad None None s
      | (Some f0, s) \<Rightarrow>
          (case filealloc s of
             (None, s) \<Rightarrow> pipe_bad (Some f0) None s
           | (Some f1, s) \<Rightarrow>
               (case pages s of
                  [] \<Rightarrow> pipe_bad (Some f0) (Some f1) s
                | p # ps \<Rightarrow>
                    let s = s\<lparr>pages := ps, pipes := (pipes s)(p := new_pipe (pipes s p))\<rparr>;
                        s = upd_file f0 (\<lambda>x. x\<lparr>f_type := FD_PIPE, f_readable := True, f_writable := False, f_pipe := p\<rparr>) s;
                        s = upd_file f1 (\<lambda>x. x\<lparr>f_type := FD_PIPE, f_readable := False, f_writable := True, f_pipe := p\<rparr>) s in
                    Ret (Some (f0, f1)) s)))"

end
