(* ===== verification/Sysfile.thy ===== *)
theory Sysfile
  imports File
begin

unbundle bit_operations_syntax

text \<open>
  The file-system calls (src/sysfile.c): checking of the arguments and the transactions that open,
  create, link and remove files.  Each handler reads its arguments from the user side of the process.
  \<open>goto bad\<close> is the call of a definition for the code behind the label.
\<close>

definition O_RDONLY :: i32 where "O_RDONLY = 0"
definition O_WRONLY :: i32 where "O_WRONLY = 1"
definition O_RDWR :: i32 where "O_RDWR = 2"
definition O_CREATE :: i32 where "O_CREATE = 0x200"
definition MAXARG :: nat where "MAXARG = 32"

definition argfd :: "nat \<Rightarrow> 'a file_st_scheme \<Rightarrow> (nat \<times> nat) option" where
  "argfd n s =
     (case argint (user s) n of
        None \<Rightarrow> None
      | Some fd \<Rightarrow>
          if fd <s 0 \<or> word_of_nat NOFILE \<le>s fd then None
          else map_option (\<lambda>f. (unat fd, f)) (ofile s ! unat fd))"

definition fdalloc :: "nat \<Rightarrow> 'a file_st_scheme \<Rightarrow> nat option \<times> 'a file_st_scheme" where
  "fdalloc f s =
     (case scan (\<lambda>x. x = None) (ofile s) of
        Some fd \<Rightarrow> (Some fd, s\<lparr>ofile := (ofile s)[fd := Some f]\<rparr>)
      | None \<Rightarrow> (None, s))"

definition sys_dup :: "'a file_st_scheme \<Rightarrow> (i32, 'a file_st_scheme) io" where
  "sys_dup s =
     (case argfd 0 s of
        None \<Rightarrow> Ret (- 1) s
      | Some (_, f) \<Rightarrow>
          (case fdalloc f s of
             (None, s) \<Rightarrow> Ret (- 1) s
           | (Some fd, s) \<Rightarrow> andthen (filedup f s) (\<lambda>_ s. Ret (word_of_nat fd) s)))"

definition sys_read :: "(nat \<Rightarrow> 'a file_st_scheme devsw) \<Rightarrow> 'a file_st_scheme \<Rightarrow> (i32, 'a file_st_scheme) io" where
  "sys_read dt s =
     (case (argfd 0 s, argint (user s) 2) of
        (Some (_, f), Some n) \<Rightarrow>
          (case argptr (user s) 1 n of
             None \<Rightarrow> Ret (- 1) s
           | Some p \<Rightarrow> andthen (fileread dt f n s) (\<lambda>(r, bs) s. Ret r (s\<lparr>user := store_bytes p bs (user s)\<rparr>)))
      | _ \<Rightarrow> Ret (- 1) s)"

definition sys_write :: "(nat \<Rightarrow> 'a file_st_scheme devsw) \<Rightarrow> 'a file_st_scheme \<Rightarrow> (i32, 'a file_st_scheme) io" where
  "sys_write dt s =
     (case (argfd 0 s, argint (user s) 2) of
        (Some (_, f), Some n) \<Rightarrow>
          (case argptr (user s) 1 n of
             None \<Rightarrow> Ret (- 1) s
           | Some p \<Rightarrow> filewrite dt f (ubytes (user s) p (nat (sint n))) n s)
      | _ \<Rightarrow> Ret (- 1) s)"

definition sys_close :: "'a file_st_scheme \<Rightarrow> (i32, 'a file_st_scheme) io" where
  "sys_close s =
     (case argfd 0 s of
        None \<Rightarrow> Ret (- 1) s
      | Some (fd, f) \<Rightarrow> andthen (fileclose f (s\<lparr>ofile := (ofile s)[fd := None]\<rparr>)) (\<lambda>_ s. Ret 0 s))"

text \<open>\<open>struct stat\<close> in user memory; the padding behind the two \<open>short\<close> members is not written.\<close>

definition store_stat :: "u32 \<Rightarrow> stat \<Rightarrow> uproc \<Rightarrow> uproc" where
  "store_stat p st u =
     store_bytes (p + 16) (put32 (replicate 4 0) 0 (st_size st))
       (store_bytes (p + 12) (put16 (replicate 2 0) 0 (st_nlink st))
         (store_bytes (p + 8) (put32 (replicate 4 0) 0 (st_ino st))
           (store_bytes (p + 4) (put32 (replicate 4 0) 0 (st_dev st))
             (store_bytes p (put16 (replicate 2 0) 0 (st_type st)) u))))"

definition sys_fstat :: "'a file_st_scheme \<Rightarrow> (i32, 'a file_st_scheme) io" where
  "sys_fstat s =
     (case (argfd 0 s, argptr (user s) 1 20) of
        (Some (_, f), Some p) \<Rightarrow>
          andthen (filestat f s) (\<lambda>(r, st) s.
            Ret r (case st of Some st \<Rightarrow> s\<lparr>user := store_stat p st (user s)\<rparr> | None \<Rightarrow> s))
      | _ \<Rightarrow> Ret (- 1) s)"

definition link_bad :: "nat \<Rightarrow> 'a file_st_scheme \<Rightarrow> (i32, 'a file_st_scheme) io" where
  "link_bad ip s =
     andthen (ilock ip s) (\<lambda>_ s.
     andthen (iupdate ip (upd_inode ip (\<lambda>x. x\<lparr>i_nlink := i_nlink x - 1\<rparr>) s)) (\<lambda>_ s.
     andthen (iunlockput ip s) (\<lambda>_ s.
     andthen (end_op s) (\<lambda>_ s. Ret (- 1) s))))"

definition sys_link :: "(nat \<Rightarrow> 'a file_st_scheme devsw) \<Rightarrow> 'a file_st_scheme \<Rightarrow> (i32, 'a file_st_scheme) io" where
  "sys_link dt s =
     (case (upath (user s) 0, upath (user s) 1) of
        (Some old, Some new) \<Rightarrow>
          andthen (begin_op s) (\<lambda>_ s.
          andthen (namei dt old s) (\<lambda>r s.
          case r of
            None \<Rightarrow> andthen (end_op s) (\<lambda>_ s. Ret (- 1) s)
          | Some ip \<Rightarrow>
              andthen (ilock ip s) (\<lambda>_ s.
              if i_type (inode_at s ip) = T_DIR then
                andthen (iunlockput ip s) (\<lambda>_ s. andthen (end_op s) (\<lambda>_ s. Ret (- 1) s))
              else
                andthen (iupdate ip (upd_inode ip (\<lambda>x. x\<lparr>i_nlink := i_nlink x + 1\<rparr>) s)) (\<lambda>_ s.
                andthen (iunlock ip s) (\<lambda>_ s.
                andthen (nameiparent dt new (replicate DIRSIZ 0) s) (\<lambda>(r, name) s.
                case r of
                  None \<Rightarrow> link_bad ip s
                | Some dp \<Rightarrow>
                    andthen (ilock dp s) (\<lambda>_ s.
                    andthen
                      (if i_dev (inode_at s dp) \<noteq> i_dev (inode_at s ip) then Ret (- 1) s
                       else dirlink dt dp name (i_inum (inode_at s ip)) s) (\<lambda>r s.
                    if r <s 0 then andthen (iunlockput dp s) (\<lambda>_ s. link_bad ip s)
                    else
                      andthen (iunlockput dp s) (\<lambda>_ s.
                      andthen (iput ip s) (\<lambda>_ s.
                      andthen (end_op s) (\<lambda>_ s. Ret 0 s)))))))))))
      | _ \<Rightarrow> Ret (- 1) s)"

fun isdirempty_loop :: "(nat \<Rightarrow> 'a file_st_scheme devsw) \<Rightarrow> nat \<Rightarrow> u32 list \<Rightarrow> 'a file_st_scheme \<Rightarrow> (bool, 'a file_st_scheme) io" where
  "isdirempty_loop dt dp [] s = Ret True s"
| "isdirempty_loop dt dp (off # offs) s =
     andthen (readi dt dp off 16 s) (\<lambda>(r, de) s.
       if r \<noteq> 16 then Panic ''isdirempty: readi'' s
       else if get16 de 0 \<noteq> 0 then Ret False s
       else isdirempty_loop dt dp offs s)"

definition isdirempty :: "(nat \<Rightarrow> 'a file_st_scheme devsw) \<Rightarrow> nat \<Rightarrow> 'a file_st_scheme \<Rightarrow> (bool, 'a file_st_scheme) io" where
  "isdirempty dt dp s = isdirempty_loop dt dp (drop 2 (dir_offs (i_size (inode_at s dp)))) s"

definition unlink_bad :: "nat \<Rightarrow> 'a file_st_scheme \<Rightarrow> (i32, 'a file_st_scheme) io" where
  "unlink_bad dp s = andthen (iunlockput dp s) (\<lambda>_ s. andthen (end_op s) (\<lambda>_ s. Ret (- 1) s))"

definition sys_unlink :: "(nat \<Rightarrow> 'a file_st_scheme devsw) \<Rightarrow> 'a file_st_scheme \<Rightarrow> (i32, 'a file_st_scheme) io" where
  "sys_unlink dt s =
     (case upath (user s) 0 of
        None \<Rightarrow> Ret (- 1) s
      | Some path \<Rightarrow>
          andthen (begin_op s) (\<lambda>_ s.
          andthen (nameiparent dt path (replicate DIRSIZ 0) s) (\<lambda>(r, name) s.
          case r of
            None \<Rightarrow> andthen (end_op s) (\<lambda>_ s. Ret (- 1) s)
          | Some dp \<Rightarrow>
              andthen (ilock dp s) (\<lambda>_ s.
              if namecmp name [46] = 0 \<or> namecmp name [46, 46] = 0 then unlink_bad dp s
              else
                andthen (dirlookup dt dp name s) (\<lambda>r s.
                case r of
                  None \<Rightarrow> unlink_bad dp s
                | Some (ip, off) \<Rightarrow>
                    andthen (ilock ip s) (\<lambda>_ s.
                    if i_nlink (inode_at s ip) <s 1 then Panic ''unlink: nlink < 1'' s
                    else
                      andthen (if i_type (inode_at s ip) = T_DIR then isdirempty dt ip s else Ret True s) (\<lambda>empty s.
                      if \<not> empty then andthen (iunlockput ip s) (\<lambda>_ s. unlink_bad dp s)
                      else
                        andthen (writei dt dp (replicate 16 0) off 16 s) (\<lambda>r s.
                        if r \<noteq> 16 then Panic ''unlink: writei'' s
                        else
                          andthen
                            (if i_type (inode_at s ip) = T_DIR
                             then iupdate dp (upd_inode dp (\<lambda>x. x\<lparr>i_nlink := i_nlink x - 1\<rparr>) s) else Ret () s) (\<lambda>_ s.
                          andthen (iunlockput dp s) (\<lambda>_ s.
                          andthen (iupdate ip (upd_inode ip (\<lambda>x. x\<lparr>i_nlink := i_nlink x - 1\<rparr>) s)) (\<lambda>_ s.
                          andthen (iunlockput ip s) (\<lambda>_ s.
                          andthen (end_op s) (\<lambda>_ s. Ret 0 s)))))))))))))"

text \<open>The part of \<open>create\<close> that makes a new inode once the name is known to be free.\<close>

definition create_new :: "(nat \<Rightarrow> 'a file_st_scheme devsw) \<Rightarrow> nat \<Rightarrow> u8 list \<Rightarrow> u16 \<Rightarrow> u16 \<Rightarrow> u16 \<Rightarrow> 'a file_st_scheme \<Rightarrow> (nat option, 'a file_st_scheme) io" where
  "create_new dt dp name ty major minor s =
     andthen (ialloc (i_dev (inode_at s dp)) ty s) (\<lambda>ip s.
     andthen (ilock ip s) (\<lambda>_ s.
     andthen (iupdate ip (upd_inode ip (\<lambda>x. x\<lparr>i_major := major, i_minor := minor, i_nlink := 1\<rparr>) s)) (\<lambda>_ s.
     andthen
       (if ty = T_DIR then
          andthen (iupdate dp (upd_inode dp (\<lambda>x. x\<lparr>i_nlink := i_nlink x + 1\<rparr>) s)) (\<lambda>_ s.
          andthen (dirlink dt ip [46] (i_inum (inode_at s ip)) s) (\<lambda>r s.
          if r <s 0 then Panic ''create dots'' s
          else
            andthen (dirlink dt ip [46, 46] (i_inum (inode_at s dp)) s) (\<lambda>r s.
            if r <s 0 then Panic ''create dots'' s else Ret () s)))
        else Ret () s) (\<lambda>_ s.
     andthen (dirlink dt dp name (i_inum (inode_at s ip)) s) (\<lambda>r s.
     if r <s 0 then Panic ''create: dirlink'' s
     else andthen (iunlockput dp s) (\<lambda>_ s. Ret (Some ip) s))))))"

definition create :: "(nat \<Rightarrow> 'a file_st_scheme devsw) \<Rightarrow> u8 list \<Rightarrow> u16 \<Rightarrow> u16 \<Rightarrow> u16 \<Rightarrow> 'a file_st_scheme \<Rightarrow> (nat option, 'a file_st_scheme) io" where
  "create dt path ty major minor s =
     andthen (nameiparent dt path (replicate DIRSIZ 0) s) (\<lambda>(r, name) s.
     case r of
       None \<Rightarrow> Ret None s
     | Some dp \<Rightarrow>
         andthen (ilock dp s) (\<lambda>_ s.
         andthen (dirlookup dt dp name s) (\<lambda>r s.
         case r of
           Some (ip, _) \<Rightarrow>
             andthen (iunlockput dp s) (\<lambda>_ s.
             andthen (ilock ip s) (\<lambda>_ s.
             if ty = T_FILE \<and> i_type (inode_at s ip) = T_FILE then Ret (Some ip) s
             else andthen (iunlockput ip s) (\<lambda>_ s. Ret None s)))
         | None \<Rightarrow> create_new dt dp name ty major minor s)))"

text \<open>The two ways \<open>sys_open\<close> gets its locked inode; \<open>None\<close> stands for the early returns.\<close>

definition open_inode :: "(nat \<Rightarrow> 'a file_st_scheme devsw) \<Rightarrow> u8 list \<Rightarrow> i32 \<Rightarrow> 'a file_st_scheme \<Rightarrow> (nat option, 'a file_st_scheme) io" where
  "open_inode dt path omode s =
     (if omode AND O_CREATE \<noteq> 0 then
        andthen (create dt path T_FILE 0 0 s) (\<lambda>r s.
        case r of None \<Rightarrow> andthen (end_op s) (\<lambda>_ s. Ret None s) | Some ip \<Rightarrow> Ret (Some ip) s)
      else
        andthen (namei dt path s) (\<lambda>r s.
        case r of
          None \<Rightarrow> andthen (end_op s) (\<lambda>_ s. Ret None s)
        | Some ip \<Rightarrow>
            andthen (ilock ip s) (\<lambda>_ s.
            if i_type (inode_at s ip) = T_DIR \<and> omode \<noteq> O_RDONLY then
              andthen (iunlockput ip s) (\<lambda>_ s. andthen (end_op s) (\<lambda>_ s. Ret None s))
            else Ret (Some ip) s)))"

definition sys_open :: "(nat \<Rightarrow> 'a file_st_scheme devsw) \<Rightarrow> 'a file_st_scheme \<Rightarrow> (i32, 'a file_st_scheme) io" where
  "sys_open dt s =
     (case (upath (user s) 0, argint (user s) 1) of
        (Some path, Some omode) \<Rightarrow>
          andthen (begin_op s) (\<lambda>_ s.
          andthen (open_inode dt path omode s) (\<lambda>r s.
          case r of
            None \<Rightarrow> Ret (- 1) s
          | Some ip \<Rightarrow>
              (case filealloc s of
                 (None, s) \<Rightarrow> andthen (iunlockput ip s) (\<lambda>_ s. andthen (end_op s) (\<lambda>_ s. Ret (- 1) s))
               | (Some f, s) \<Rightarrow>
                   (case fdalloc f s of
                      (None, s) \<Rightarrow>
                        andthen (fileclose f s) (\<lambda>_ s.
                        andthen (iunlockput ip s) (\<lambda>_ s. andthen (end_op s) (\<lambda>_ s. Ret (- 1) s)))
                    | (Some fd, s) \<Rightarrow>
                        andthen (iunlock ip s) (\<lambda>_ s.
                        andthen (end_op s) (\<lambda>_ s.
                        Ret (word_of_nat fd)
                          (upd_file f (\<lambda>x. x\<lparr>f_type := FD_INODE, f_ip := ip, f_off := 0,
                             f_readable := (omode AND O_WRONLY = 0),
                             f_writable := (omode AND O_WRONLY \<noteq> 0 \<or> omode AND O_RDWR \<noteq> 0)\<rparr>) s)))))))
      | _ \<Rightarrow> Ret (- 1) s)"

text \<open>The common end of \<open>sys_mkdir\<close> and \<open>sys_mknod\<close>; \<open>m\<close> fetches the arguments and creates the inode.\<close>

definition make_node :: "('a file_st_scheme \<Rightarrow> (nat option, 'a file_st_scheme) io) \<Rightarrow> 'a file_st_scheme \<Rightarrow> (i32, 'a file_st_scheme) io" where
  "make_node m s =
     andthen (begin_op s) (\<lambda>_ s.
     andthen (m s) (\<lambda>r s.
     case r of
       None \<Rightarrow> andthen (end_op s) (\<lambda>_ s. Ret (- 1) s)
     | Some ip \<Rightarrow> andthen (iunlockput ip s) (\<lambda>_ s. andthen (end_op s) (\<lambda>_ s. Ret 0 s))))"

definition sys_mkdir :: "(nat \<Rightarrow> 'a file_st_scheme devsw) \<Rightarrow> 'a file_st_scheme \<Rightarrow> (i32, 'a file_st_scheme) io" where
  "sys_mkdir dt = make_node (\<lambda>s.
     case upath (user s) 0 of None \<Rightarrow> Ret None s | Some path \<Rightarrow> create dt path T_DIR 0 0 s)"

definition sys_mknod :: "(nat \<Rightarrow> 'a file_st_scheme devsw) \<Rightarrow> 'a file_st_scheme \<Rightarrow> (i32, 'a file_st_scheme) io" where
  "sys_mknod dt = make_node (\<lambda>s.
     case (upath (user s) 0, argint (user s) 1, argint (user s) 2) of
       (Some path, Some major, Some minor) \<Rightarrow> create dt path T_DEV (ucast major) (ucast minor) s
     | _ \<Rightarrow> Ret None s)"

definition sys_chdir :: "(nat \<Rightarrow> 'a file_st_scheme devsw) \<Rightarrow> 'a file_st_scheme \<Rightarrow> (i32, 'a file_st_scheme) io" where
  "sys_chdir dt s =
     andthen (begin_op s) (\<lambda>_ s.
     andthen (case upath (user s) 0 of None \<Rightarrow> Ret None s | Some path \<Rightarrow> namei dt path s) (\<lambda>r s.
     case r of
       None \<Rightarrow> andthen (end_op s) (\<lambda>_ s. Ret (- 1) s)
     | Some ip \<Rightarrow>
         andthen (ilock ip s) (\<lambda>_ s.
         if i_type (inode_at s ip) \<noteq> T_DIR then
           andthen (iunlockput ip s) (\<lambda>_ s. andthen (end_op s) (\<lambda>_ s. Ret (- 1) s))
         else
           andthen (iunlock ip s) (\<lambda>_ s.
           andthen (iput (cwd s) s) (\<lambda>_ s.
           andthen (end_op s) (\<lambda>_ s. Ret 0 (s\<lparr>cwd := ip\<rparr>)))))))"

text \<open>The loop of \<open>sys_exec\<close> that collects the argument strings; \<open>k\<close> slots of \<open>argv\<close> are left.\<close>

fun exec_argv :: "uproc \<Rightarrow> u32 \<Rightarrow> nat \<Rightarrow> u8 list list option" where
  "exec_argv u uargv 0 = None"
| "exec_argv u uargv (Suc k) =
     (case fetchint u uargv of
        None \<Rightarrow> None
      | Some uarg \<Rightarrow>
          if uarg = 0 then Some []
          else
            case fetchstr u uarg of
              None \<Rightarrow> None
            | Some (p, len) \<Rightarrow> map_option (\<lambda>rest. ubytes u p (unat len) # rest) (exec_argv u (uargv + 4) k))"

text \<open>\<open>sys_exec\<close> up to its call of \<open>exec\<close>: the path and the arguments, or the failure.\<close>

definition sys_exec_args :: "uproc \<Rightarrow> (u8 list \<times> u8 list list) option" where
  "sys_exec_args u =
     (case (upath u 0, argint u 1) of
        (Some path, Some uargv) \<Rightarrow> map_option (\<lambda>argv. (path, argv)) (exec_argv u uargv MAXARG)
      | _ \<Rightarrow> None)"

definition sys_pipe :: "'a file_st_scheme \<Rightarrow> (i32, 'a file_st_scheme) io" where
  "sys_pipe s =
     (case argptr (user s) 0 8 of
        None \<Rightarrow> Ret (- 1) s
      | Some p \<Rightarrow>
          andthen (pipealloc s) (\<lambda>r s.
          case r of
            None \<Rightarrow> Ret (- 1) s
          | Some (rfile, wfile) \<Rightarrow>
              (case fdalloc rfile s of
                 (None, s) \<Rightarrow> andthen (fileclose rfile s) (\<lambda>_ s. andthen (fileclose wfile s) (\<lambda>_ s. Ret (- 1) s))
               | (Some fd0, s) \<Rightarrow>
                   (case fdalloc wfile s of
                      (None, s) \<Rightarrow>
                        andthen (fileclose rfile (s\<lparr>ofile := (ofile s)[fd0 := None]\<rparr>)) (\<lambda>_ s.
                        andthen (fileclose wfile s) (\<lambda>_ s. Ret (- 1) s))
                    | (Some fd1, s) \<Rightarrow>
                        Ret 0 (s\<lparr>user := store_bytes (p + 4) (put32 (replicate 4 0) 0 (word_of_nat fd1))
                          (store_bytes p (put32 (replicate 4 0) 0 (word_of_nat fd0)) (user s))\<rparr>)))))"

end
