(* ===== verification/File_Frame.thy ===== *)
theory File_Frame
  imports Sysfile
begin

unbundle bit_operations_syntax

text \<open>
  What the file system leaves alone: no function of src/bio.c, src/log.c and src/fs.c touches the table of
  open files or the descriptors of the process, however it ends.  The rules \<open>fd_frame\<close> follow the code of a
  function; its own lemma then joins them.
\<close>

subsection \<open>Outcomes that leave the descriptors alone\<close>

definition fdv :: "'a file_st_scheme \<Rightarrow> open_file list \<times> nat option list" where
  "fdv s = (ftable s, ofile s)"

primrec ends :: "('a, 'l, 's) outcome \<Rightarrow> 's" where
  "ends (Ret v s) = s"
| "ends (Panic m s) = s"
| "ends (Spin l s) = s"
| "ends (Sleep s) = s"
| "ends (Diverge s) = s"

definition fd_fixed :: "open_file list \<times> nat option list \<Rightarrow> ('v, 'l, 'a file_st_scheme) outcome \<Rightarrow> bool" where
  "fd_fixed x m \<longleftrightarrow> fdv (ends m) = x"

named_theorems fd_frame

lemma fd_fixed_outcome [simp]:
  "fd_fixed x (Ret v s) \<longleftrightarrow> fdv s = x" "fd_fixed x (Panic e s) \<longleftrightarrow> fdv s = x" "fd_fixed x (Spin l s) \<longleftrightarrow> fdv s = x"
  "fd_fixed x (Sleep s) \<longleftrightarrow> fdv s = x" "fd_fixed x (Diverge s) \<longleftrightarrow> fdv s = x"
  by (simp_all add: fd_fixed_def)

lemma fd_andthen [fd_frame]:
  assumes "fd_fixed x m" "\<And>v t. m = Ret v t \<Longrightarrow> fdv t = x \<Longrightarrow> fd_fixed x (k v t)"
  shows "fd_fixed x (andthen m k)"
  using assms by (cases m) simp_all

lemma fd_if [fd_frame]: "(b \<Longrightarrow> fd_fixed x m) \<Longrightarrow> (\<not> b \<Longrightarrow> fd_fixed x n) \<Longrightarrow> fd_fixed x (if b then m else n)"
  by simp

lemma fd_option [fd_frame]:
  "(r = None \<Longrightarrow> fd_fixed x m) \<Longrightarrow> (\<And>v. r = Some v \<Longrightarrow> fd_fixed x (n v)) \<Longrightarrow> fd_fixed x (case r of None \<Rightarrow> m | Some v \<Rightarrow> n v)"
  by (cases r) simp_all

lemma fd_prod [fd_frame]: "(\<And>a b. r = (a, b) \<Longrightarrow> fd_fixed x (n a b)) \<Longrightarrow> fd_fixed x (case r of (a, b) \<Rightarrow> n a b)"
  by (cases r) simp

lemma fd_prod_app [fd_frame]: "(\<And>a b. r = (a, b) \<Longrightarrow> fd_fixed x (n a b t)) \<Longrightarrow> fd_fixed x ((case r of (a, b) \<Rightarrow> n a b) t)"
  by (cases r) simp

lemma fd_each [fd_frame]:
  assumes "fdv s = x" "\<And>a t. fdv t = x \<Longrightarrow> fd_fixed x (f a t)"
  shows "fd_fixed x (each f as s)"
  using assms(1)
proof (induction as arbitrary: s)
  case (Cons a as)
  show ?case unfolding each.simps by (rule fd_andthen) (use Cons assms(2) in simp_all)
qed simp

lemma fd_Ret: "fd_fixed x m \<Longrightarrow> m = Ret v t \<Longrightarrow> fdv t = x"
  by simp

lemma fdv_upd [simp]:
  "fdv (upd_buf b f s) = fdv s" "fdv (set_data b d s) = fdv s" "fdv (upd_inode ip g s) = fdv s"
  "fdv (s\<lparr>disk := a1\<rparr>) = fdv s" "fdv (s\<lparr>dwrites := a2\<rparr>) = fdv s" "fdv (s\<lparr>mru := a3\<rparr>) = fdv s" "fdv (s\<lparr>lh_n := a4\<rparr>) = fdv s"
  "fdv (s\<lparr>lh_block := a5\<rparr>) = fdv s" "fdv (s\<lparr>outstanding := a6\<rparr>) = fdv s" "fdv (s\<lparr>committing := a7\<rparr>) = fdv s"
  "fdv (s\<lparr>cwd := a8\<rparr>) = fdv s" "fdv (s\<lparr>pages := a9\<rparr>) = fdv s" "fdv (s\<lparr>pipes := b1\<rparr>) = fdv s" "fdv (s\<lparr>user := b2\<rparr>) = fdv s"
  "fdv (s\<lparr>fsb := b3\<rparr>) = fdv s" "fdv (s\<lparr>icache := b4\<rparr>) = fdv s" "fdv (s\<lparr>killed := b5\<rparr>) = fdv s" "fdv (s\<lparr>curpid := b6\<rparr>) = fdv s"
  by (simp_all add: fdv_def upd_buf_def set_data_def upd_inode_def)

subsection \<open>Buffers and log\<close>

lemma fd_lock_buf [fd_frame]: "fdv s = x \<Longrightarrow> fd_fixed x (lock_buf b s)"
  unfolding lock_buf_def by (intro fd_frame) simp_all

lemma fd_bget [fd_frame]: "fdv s = x \<Longrightarrow> fd_fixed x (bget dev no s)"
  unfolding bget_def by (intro fd_frame) simp_all

lemma fd_iderw [fd_frame]: "fdv s = x \<Longrightarrow> fd_fixed x (iderw b s)"
  unfolding iderw_def Let_def by (intro fd_frame) simp_all

lemma fd_bread [fd_frame]: "fdv s = x \<Longrightarrow> fd_fixed x (bread dev no s)"
  unfolding bread_def by (intro fd_frame) simp_all

lemma fd_bwrite [fd_frame]: "fdv s = x \<Longrightarrow> fd_fixed x (bwrite b s)"
  unfolding bwrite_def by (intro fd_frame) simp_all

lemma fd_brelse [fd_frame]: "fdv s = x \<Longrightarrow> fd_fixed x (brelse b s)"
  unfolding brelse_def Let_def by (intro fd_frame) simp_all

lemma fd_log_write [fd_frame]: "fdv s = x \<Longrightarrow> fd_fixed x (log_write b s)"
  unfolding log_write_def Let_def by (intro fd_frame) simp_all

lemma fd_install_trans [fd_frame]: "fdv s = x \<Longrightarrow> fd_fixed x (install_trans s)"
  unfolding install_trans_def install_block_def Let_def by (intro fd_frame) simp_all

lemma fd_write_log [fd_frame]: "fdv s = x \<Longrightarrow> fd_fixed x (write_log s)"
  unfolding write_log_def copy_to_log_def Let_def by (intro fd_frame) simp_all

lemma fd_write_head [fd_frame]: "fdv s = x \<Longrightarrow> fd_fixed x (write_head s)"
  unfolding write_head_def Let_def by (intro fd_frame) simp_all

lemma fd_commit [fd_frame]: "fdv s = x \<Longrightarrow> fd_fixed x (commit s)"
  unfolding commit_def by (intro fd_frame) simp_all

lemma fd_begin_op [fd_frame]: "fdv s = x \<Longrightarrow> fd_fixed x (begin_op s)"
  unfolding begin_op_def by (intro fd_frame) simp_all

lemma fd_end_op [fd_frame]: "fdv s = x \<Longrightarrow> fd_fixed x (end_op s)"
  unfolding end_op_def Let_def by (intro fd_frame) simp_all

subsection \<open>Blocks and inodes\<close>

lemma fd_bzero [fd_frame]: "fdv s = x \<Longrightarrow> fd_fixed x (bzero dev b s)"
  unfolding bzero_def Let_def by (intro fd_frame) simp_all

lemma fd_balloc_loop [fd_frame]: "fdv s = x \<Longrightarrow> fd_fixed x (balloc_loop dev bs s)"
proof (induction bs arbitrary: s)
  case (Cons b bs)
  show ?case unfolding balloc_loop.simps Let_def by (intro fd_frame) (simp_all add: Cons)
qed simp

lemma fd_balloc [fd_frame]: "fdv s = x \<Longrightarrow> fd_fixed x (balloc dev s)"
  unfolding balloc_def by (intro fd_frame) simp_all

lemma fd_bfree [fd_frame]: "fdv s = x \<Longrightarrow> fd_fixed x (bfree dev b s)"
  unfolding bfree_def Let_def by (intro fd_frame) simp_all

lemma fd_iget [fd_frame]: "fdv s = x \<Longrightarrow> fd_fixed x (iget dev inum s)"
  unfolding iget_def by (intro fd_frame) simp_all

lemma fd_ialloc_loop [fd_frame]: "fdv s = x \<Longrightarrow> fd_fixed x (ialloc_loop dev ty is s)"
proof (induction "is" arbitrary: s)
  case (Cons i "is")
  show ?case unfolding ialloc_loop.simps Let_def by (intro fd_frame) (simp_all add: Cons)
qed simp

lemma fd_ialloc [fd_frame]: "fdv s = x \<Longrightarrow> fd_fixed x (ialloc dev ty s)"
  unfolding ialloc_def by (intro fd_frame) simp_all

lemma fd_iupdate [fd_frame]: "fdv s = x \<Longrightarrow> fd_fixed x (iupdate ip s)"
  unfolding iupdate_def Let_def by (intro fd_frame) simp_all

lemma fd_ilock [fd_frame]: "fdv s = x \<Longrightarrow> fd_fixed x (ilock ip s)"
  unfolding ilock_def Let_def by (intro fd_frame) simp_all

lemma fd_iunlock [fd_frame]: "fdv s = x \<Longrightarrow> fd_fixed x (iunlock ip s)"
  unfolding iunlock_def by (intro fd_frame) simp_all

lemma fd_trunc_direct [fd_frame]: "fdv s = x \<Longrightarrow> fd_fixed x (trunc_direct ip i s)"
  unfolding trunc_direct_def Let_def by (intro fd_frame) simp_all

lemma fd_trunc_indirect [fd_frame]: "fdv s = x \<Longrightarrow> fd_fixed x (trunc_indirect dev bp j s)"
  unfolding trunc_indirect_def Let_def by (intro fd_frame) simp_all

lemma fd_itrunc [fd_frame]: "fdv s = x \<Longrightarrow> fd_fixed x (itrunc ip s)"
  unfolding itrunc_def Let_def by (intro fd_frame) simp_all

lemma fd_iput [fd_frame]: "fdv s = x \<Longrightarrow> fd_fixed x (iput ip s)"
  unfolding iput_def Let_def by (intro fd_frame) simp_all

lemma fd_iunlockput [fd_frame]: "fdv s = x \<Longrightarrow> fd_fixed x (iunlockput ip s)"
  unfolding iunlockput_def by (intro fd_frame) simp_all

lemma fd_bmap_addr [fd_frame]: "fdv s = x \<Longrightarrow> fd_fixed x (bmap_addr ip i s)"
  unfolding bmap_addr_def Let_def by (intro fd_frame) simp_all

lemma fd_bmap [fd_frame]: "fdv s = x \<Longrightarrow> fd_fixed x (bmap ip bn s)"
  unfolding bmap_def Let_def by (intro fd_frame) simp_all

text \<open>The drivers in \<open>devsw\<close> are not part of the file system; what it relies on is that they do not touch the
  descriptors either.\<close>

definition fd_devices :: "(nat \<Rightarrow> 'a file_st_scheme devsw) \<Rightarrow> bool" where
  "fd_devices dt \<longleftrightarrow>
     (\<forall>i f ip n s. dev_read (dt i) = Some f \<longrightarrow> fd_fixed (fdv s) (f ip n s)) \<and>
     (\<forall>i f ip bs n s. dev_write (dt i) = Some f \<longrightarrow> fd_fixed (fdv s) (f ip bs n s))"

lemma fd_readi_loop [fd_frame]: "fdv s = x \<Longrightarrow> fd_fixed x (readi_loop ip tot n off dst s)"
proof (induction "unat n - unat tot" arbitrary: tot off dst s rule: less_induct)
  case less
  show ?case
    by (subst readi_loop.simps) (unfold Let_def, intro fd_frame, simp_all add: less chunk_step(2))
qed

lemma fd_writei_loop [fd_frame]: "fdv s = x \<Longrightarrow> fd_fixed x (writei_loop ip tot n off src s)"
proof (induction "unat n - unat tot" arbitrary: tot off src s rule: less_induct)
  case less
  show ?case
    by (subst writei_loop.simps) (unfold Let_def, intro fd_frame, simp_all add: less chunk_step(2))
qed

lemma fd_dev_read: "fd_devices dt \<Longrightarrow> dev_read (dt i) = Some f \<Longrightarrow> fdv s = x \<Longrightarrow> fd_fixed x (f ip n s)"
  by (auto simp: fd_devices_def)

lemma fd_dev_write: "fd_devices dt \<Longrightarrow> dev_write (dt i) = Some f \<Longrightarrow> fdv s = x \<Longrightarrow> fd_fixed x (f ip bs n s)"
  by (auto simp: fd_devices_def)

lemma fd_readi [fd_frame]: "fdv s = x \<Longrightarrow> fd_devices dt \<Longrightarrow> fd_fixed x (readi dt ip off n s)"
  unfolding readi_def Let_def by (intro fd_frame) (simp_all add: fd_dev_read)

lemma fd_writei [fd_frame]: "fdv s = x \<Longrightarrow> fd_devices dt \<Longrightarrow> fd_fixed x (writei dt ip src off n s)"
  unfolding writei_def Let_def by (intro fd_frame) (simp_all add: fd_dev_write)

subsection \<open>Directories and paths\<close>

lemma fd_dirlookup_loop [fd_frame]: "fdv s = x \<Longrightarrow> fd_devices dt \<Longrightarrow> fd_fixed x (dirlookup_loop dt dp name offs s)"
proof (induction offs arbitrary: s)
  case (Cons a offs)
  show ?case unfolding dirlookup_loop.simps by (intro fd_frame) (simp_all add: Cons)
qed simp

lemma fd_dirlookup [fd_frame]: "fdv s = x \<Longrightarrow> fd_devices dt \<Longrightarrow> fd_fixed x (dirlookup dt dp name s)"
  unfolding dirlookup_def by (intro fd_frame) simp_all

lemma fd_free_dirent [fd_frame]: "fdv s = x \<Longrightarrow> fd_devices dt \<Longrightarrow> fd_fixed x (free_dirent dt dp e offs s)"
proof (induction offs arbitrary: e s)
  case (Cons a offs)
  show ?case unfolding free_dirent.simps by (intro fd_frame) (simp_all add: Cons)
qed simp

lemma fd_dirlink [fd_frame]: "fdv s = x \<Longrightarrow> fd_devices dt \<Longrightarrow> fd_fixed x (dirlink dt dp name inum s)"
  unfolding dirlink_def Let_def by (intro fd_frame) simp_all

lemma fd_namex_loop [fd_frame]: "fdv s = x \<Longrightarrow> fd_devices dt \<Longrightarrow> fd_fixed x (namex_loop dt parent ip path name s)"
proof (induction "length path" arbitrary: ip path name s rule: less_induct)
  case less
  show ?case
    by (subst namex_loop.simps) (intro fd_frame, simp_all add: less skipelem_shorter)
qed

lemma fd_namex [fd_frame]: "fdv s = x \<Longrightarrow> fd_devices dt \<Longrightarrow> fd_fixed x (namex dt path parent name s)"
  unfolding namex_def idup_def by (intro fd_frame) (auto simp: fd_namex_loop)

lemma fd_namei [fd_frame]: "fdv s = x \<Longrightarrow> fd_devices dt \<Longrightarrow> fd_fixed x (namei dt path s)"
  unfolding namei_def by (intro fd_frame) simp_all

lemma fd_nameiparent [fd_frame]: "fdv s = x \<Longrightarrow> fd_devices dt \<Longrightarrow> fd_fixed x (nameiparent dt path name s)"
  unfolding nameiparent_def by (intro fd_frame) simp_all

subsection \<open>The calls that do not change descriptors\<close>

lemma fd_create [fd_frame]: "fdv s = x \<Longrightarrow> fd_devices dt \<Longrightarrow> fd_fixed x (create dt path ty major minor s)"
  unfolding create_def create_new_def by (intro fd_frame) simp_all

lemma fd_open_inode [fd_frame]: "fdv s = x \<Longrightarrow> fd_devices dt \<Longrightarrow> fd_fixed x (open_inode dt path omode s)"
  unfolding open_inode_def by (intro fd_frame) simp_all

lemma fd_sys_link [fd_frame]: "fdv s = x \<Longrightarrow> fd_devices dt \<Longrightarrow> fd_fixed x (sys_link dt s)"
  unfolding sys_link_def link_bad_def by (intro fd_frame) simp_all

lemma fd_isdirempty_loop [fd_frame]: "fdv s = x \<Longrightarrow> fd_devices dt \<Longrightarrow> fd_fixed x (isdirempty_loop dt dp offs s)"
proof (induction offs arbitrary: s)
  case (Cons a offs)
  show ?case unfolding isdirempty_loop.simps by (intro fd_frame) (simp_all add: Cons)
qed simp

lemma fd_sys_unlink [fd_frame]: "fdv s = x \<Longrightarrow> fd_devices dt \<Longrightarrow> fd_fixed x (sys_unlink dt s)"
  unfolding sys_unlink_def unlink_bad_def isdirempty_def by (intro fd_frame) simp_all

lemma fd_sys_mkdir [fd_frame]: "fdv s = x \<Longrightarrow> fd_devices dt \<Longrightarrow> fd_fixed x (sys_mkdir dt s)"
  unfolding sys_mkdir_def make_node_def by (intro fd_frame) simp_all

lemma fd_sys_mknod [fd_frame]: "fdv s = x \<Longrightarrow> fd_devices dt \<Longrightarrow> fd_fixed x (sys_mknod dt s)"
  unfolding sys_mknod_def make_node_def by (intro fd_frame) simp_all

lemma fd_sys_chdir [fd_frame]: "fdv s = x \<Longrightarrow> fd_devices dt \<Longrightarrow> fd_fixed x (sys_chdir dt s)"
  unfolding sys_chdir_def by (intro fd_frame) simp_all

end
