(* ===== verification/File_Refs.thy ===== *)
theory File_Refs
  imports File_Frame
begin

unbundle bit_operations_syntax

text \<open>
  Reference counts of open files.  \<open>refs X s\<close>: the count of each file is the number of descriptors of the
  process that executes, plus \<open>X\<close>, the references that are elsewhere: descriptors of other processes, and
  files that a call has in hand (minus one where a descriptor is stored before the count is raised).  Every
  call of src/sysfile.c that returns keeps the counts exact.
\<close>

definition refs :: "(nat \<Rightarrow> int) \<Rightarrow> 'a file_st_scheme \<Rightarrow> bool" where
  "refs X s \<longleftrightarrow> length (ftable s) = NFILE \<and> length (ofile s) = NOFILE \<and> (\<forall>k. Some k \<in> set (ofile s) \<longrightarrow> k < NFILE) \<and>
     (\<forall>k < NFILE. X k \<le> 2000 \<and> 0 \<le> X k + int (count_list (ofile s) (Some k)) \<and>
        f_ref (file_at s k) = word_of_int (X k + int (count_list (ofile s) (Some k))))"

lemma refs_cong: "fdv t = fdv s \<Longrightarrow> refs X t = refs X s"
  by (simp add: refs_def fdv_def file_at_def)

lemma refsD:
  assumes "refs X s"
  shows "length (ftable s) = NFILE" "length (ofile s) = NOFILE" "Some k \<in> set (ofile s) \<Longrightarrow> k < NFILE"
    "k < NFILE \<Longrightarrow> X k \<le> 2000" "k < NFILE \<Longrightarrow> 0 \<le> X k + int (count_list (ofile s) (Some k))"
    "k < NFILE \<Longrightarrow> f_ref (file_at s k) = word_of_int (X k + int (count_list (ofile s) (Some k)))"
  using assms by (simp_all add: refs_def)

lemma count_list_le_length: "count_list xs a \<le> length xs"
  by (induction xs) auto

lemma sint_word_of_int_small: "0 \<le> a \<Longrightarrow> a < 2 ^ 31 \<Longrightarrow> sint (word_of_int a :: i32) = a"
  by (simp add: sint_sbintrunc' signed_take_bit_int_eq_self)

lemma refs_sint:
  assumes r: "refs X s" and k: "k < NFILE"
  shows "sint (f_ref (file_at s k)) = X k + int (count_list (ofile s) (Some k))"
proof -
  have "count_list (ofile s) (Some k) \<le> 16" using count_list_le_length [of "ofile s" "Some k"] refsD(2) [OF r] by (simp add: NOFILE_def)
  then have "X k + int (count_list (ofile s) (Some k)) < 2 ^ 31" using refsD(4) [OF r k] by simp
  then show ?thesis unfolding refsD(6) [OF r k] by (rule sint_word_of_int_small [OF refsD(5) [OF r k]])
qed

lemma refs_sless:
  assumes "refs X s" "k < NFILE"
  shows "f_ref (file_at s k) <s 1 \<longleftrightarrow> X k + int (count_list (ofile s) (Some k)) = 0"
  using refs_sint [OF assms] refsD(5) [OF assms] by (auto simp: word_sless_alt)

lemma refs_zero:
  assumes "refs X s" "k < NFILE"
  shows "f_ref (file_at s k) = 0 \<longleftrightarrow> X k + int (count_list (ofile s) (Some k)) = 0"
  using refs_sint [OF assms] by (metis signed_0 signed_eq_0_iff)

text \<open>Changes of a file that leave its count alone.\<close>

lemma refs_upd_file:
  assumes "\<And>x. f_ref (g x) = f_ref x"
  shows "refs X (upd_file k g s) = refs X s"
proof -
  have "f_ref (file_at (upd_file k g s) j) = f_ref (file_at s j)" for j
    using assms by (cases "k < length (ftable s)") (auto simp: upd_file_def file_at_def nth_list_update list_update_beyond)
  then show ?thesis by (simp add: refs_def upd_file_def)
qed

lemma refs_change:
  assumes r: "refs X s" and k: "k < NFILE" and d: "X k + d \<le> 2000" "0 \<le> X k + int (count_list (ofile s) (Some k)) + d"
    and g: "f_ref (g (file_at s k)) = f_ref (file_at s k) + word_of_int d"
  shows "refs (X(k := X k + d)) (upd_file k g s)"
proof -
  have "f_ref (file_at (upd_file k g s) j) = word_of_int ((X(k := X k + d)) j + int (count_list (ofile s) (Some j)))" if "j < NFILE" for j
    using that k g refsD(1) [OF r] refsD(6) [OF r that] by (auto simp: upd_file_def file_at_def algebra_simps)
  then show ?thesis using refsD(1-5) [OF r] k d by (auto simp: refs_def upd_file_def)
qed

lemma filealloc_refs:
  assumes r: "refs X s" and f: "filealloc s = (Some k, t)"
  shows "k < NFILE" "X k + int (count_list (ofile s) (Some k)) = 0" "refs (X(k := X k + 1)) t" "ofile t = ofile s"
proof -
  have sc: "scan (\<lambda>x. f_ref x = 0) (ftable s) = Some k" and t: "t = upd_file k (\<lambda>x. x\<lparr>f_ref := 1\<rparr>) s"
    using f by (auto simp: filealloc_def split: option.splits)
  have z: "f_ref (file_at s k) = 0" and kl: "k < length (ftable s)" using sc by (auto simp: scan_Some_iff file_at_def)
  show k: "k < NFILE" using kl refsD(1) [OF r] by simp
  show c: "X k + int (count_list (ofile s) (Some k)) = 0" using refs_zero [OF r k] z by simp
  then have "X k \<le> 0" by simp
  then show "refs (X(k := X k + 1)) t" unfolding t using c z by (intro refs_change [OF r k]) simp_all
  show "ofile t = ofile s" by (simp add: t upd_file_def)
qed

lemma filealloc_none: "filealloc s = (None, t) \<Longrightarrow> t = s"
  by (auto simp: filealloc_def split: option.splits)

lemma count_list_update:
  assumes "i < length xs"
  shows "int (count_list (xs[i := a]) b) = int (count_list xs b) - (if xs ! i = b then 1 else 0) + (if a = b then 1 else 0)"
  using assms
proof (induction xs arbitrary: i)
  case (Cons x xs)
  show ?case
  proof (cases i)
    case (Suc n)
    then have "n < length xs" using Cons.prems by simp
    from Cons.IH [OF this] show ?thesis by (auto simp: Suc split: if_splits)
  qed simp
qed simp

lemma refs_ofile_set:
  assumes r: "refs X s" and i: "i < NOFILE" "ofile s ! i = None" and k: "k < NFILE"
  shows "refs (X(k := X k - 1)) (s\<lparr>ofile := (ofile s)[i := Some k]\<rparr>)"
proof -
  have c: "int (count_list ((ofile s)[i := Some k]) (Some j)) = int (count_list (ofile s) (Some j)) + (if k = j then 1 else 0)" for j
    using count_list_update [of i "ofile s" "Some k" "Some j"] i refsD(2) [OF r] by simp
  have m: "Some j \<in> set ((ofile s)[i := Some k]) \<Longrightarrow> j < NFILE" for j
    using set_update_subset_insert [of "ofile s" i "Some k"] refsD(3) [OF r] k by auto
  show ?thesis using refsD(1,2,4-6) [OF r] refsD(4,5) [OF r k] m unfolding refs_def by (auto simp: c file_at_def)
qed

lemma refs_ofile_clear:
  assumes r: "refs X s" and i: "i < NOFILE" "ofile s ! i = Some k" "X k < 2000"
  shows "refs (X(k := X k + 1)) (s\<lparr>ofile := (ofile s)[i := None]\<rparr>)"
proof -
  have c: "int (count_list ((ofile s)[i := None]) (Some j)) = int (count_list (ofile s) (Some j)) - (if k = j then 1 else 0)" for j
    using count_list_update [of i "ofile s" None "Some j"] i refsD(2) [OF r] by simp
  have m: "Some j \<in> set ((ofile s)[i := None]) \<Longrightarrow> j < NFILE" for j
    using set_update_subset_insert [of "ofile s" i None] refsD(3) [OF r] by auto
  have k: "k < NFILE" using i refsD(2) [OF r] nth_mem [of i "ofile s"] by (auto intro: refsD(3) [OF r])
  show ?thesis using refsD(1,2,4-6) [OF r] refsD(5) [OF r k] m i(3) unfolding refs_def by (auto simp: c file_at_def)
qed

lemma fdalloc_refs:
  assumes r: "refs X s" and k: "k < NFILE" and f: "fdalloc k s = (Some fd, t)"
  shows "fd < NOFILE" "ofile s ! fd = None" "refs (X(k := X k - 1)) t" "ofile t = (ofile s)[fd := Some k]" "ftable t = ftable s"
proof -
  have sc: "scan (\<lambda>x. x = None) (ofile s) = Some fd" and t: "t = s\<lparr>ofile := (ofile s)[fd := Some k]\<rparr>"
    using f by (auto simp: fdalloc_def split: option.splits)
  show fd: "fd < NOFILE" "ofile s ! fd = None" using sc refsD(2) [OF r] by (auto simp: scan_Some_iff)
  show "refs (X(k := X k - 1)) t" unfolding t by (rule refs_ofile_set [OF r fd k])
qed (use f in \<open>auto simp: fdalloc_def split: option.splits\<close>)

lemma fdalloc_none: "fdalloc k s = (None, t) \<Longrightarrow> t = s"
  by (auto simp: fdalloc_def split: option.splits)

subsection \<open>Duplicating and closing\<close>

lemma filedup_refs:
  assumes r: "refs X s" and k: "k < NFILE" "X k < 2000" and f: "filedup k s = Ret v t"
  shows "refs (X(k := X k + 1)) t"
proof -
  have t: "t = upd_file k (\<lambda>x. x\<lparr>f_ref := f_ref x + 1\<rparr>) s" using f by (auto simp: filedup_def split: if_splits)
  show ?thesis unfolding t using refsD(5) [OF r k(1)] k(2) by (intro refs_change [OF r k(1)]) simp_all
qed

text \<open>The last close of a file clears its entry; what follows concerns its pipe or its inode only.\<close>

lemma fd_close_pipe [simp]: "fdv (close_pipe pg w s) = fdv s"
  by (simp add: close_pipe_def Let_def split: prod.splits)

lemma fileclose_refs:
  assumes r: "refs X s" and k: "k < NFILE" and f: "fileclose k s = Ret () t"
  shows "refs (X(k := X k - 1)) t" "ofile t = ofile s"
proof -
  let ?s = "upd_file k (\<lambda>x. x\<lparr>f_ref := f_ref x - 1\<rparr>) s"
  have nz: "\<not> f_ref (file_at s k) <s 1" using f by (auto simp: fileclose_def split: if_splits)
  then have pos: "0 < X k + int (count_list (ofile s) (Some k))" using refs_sless [OF r k] refsD(5) [OF r k] by linarith
  have r1: "refs (X(k := X k + - 1)) ?s" using pos refsD(4) [OF r k] by (intro refs_change [OF r k]) simp_all
  have "refs (X(k := X k - 1)) t \<and> ofile t = ofile s"
  proof (cases "0 <s f_ref (file_at ?s k)")
    case True
    then have "t = ?s" using f nz by (simp add: fileclose_def Let_def)
    then show ?thesis using r1 by (simp add: upd_file_def)
  next
    case False
    let ?u = "upd_file k (\<lambda>x. x\<lparr>f_ref := 0, f_type := FD_NONE\<rparr>) ?s"
    have "f_ref (file_at ?s k) = 0" using False refs_sint [OF r1 k] refsD(5) [OF r1 k] refs_zero [OF r1 k] by (simp add: word_sless_alt)
    then have "refs ((X(k := X k + - 1))(k := (X(k := X k + - 1)) k + 0)) ?u"
      using refsD(4,5) [OF r1 k] by (intro refs_change [OF r1 k]) simp_all
    then have r2: "refs (X(k := X k - 1)) ?u" by simp
    have "fd_fixed (fdv ?u) (case f_type (file_at ?s k) of
        FD_PIPE \<Rightarrow> Ret () (close_pipe (f_pipe (file_at ?s k)) (f_writable (file_at ?s k)) ?u)
      | FD_INODE \<Rightarrow> andthen (begin_op ?u) (\<lambda>_ s. andthen (iput (f_ip (file_at ?s k)) s) (\<lambda>_ s. end_op s))
      | FD_NONE \<Rightarrow> (Ret () ?u :: (unit, _) io))"
      by (cases "f_type (file_at ?s k)") (simp_all add: fd_frame)
    then have "fdv t = fdv ?u" using f nz False by (simp add: fileclose_def Let_def)
    then show ?thesis using r2 refs_cong [of t ?u] by (auto simp: fdv_def upd_file_def)
  qed
  then show "refs (X(k := X k - 1)) t" "ofile t = ofile s" by simp_all
qed

subsection \<open>The calls\<close>

lemma argfd_open:
  assumes "refs X s" "argfd n s = Some (fd, k)"
  shows "fd < NOFILE" "ofile s ! fd = Some k" "k < NFILE" "Some k \<in> set (ofile s)"
proof -
  from assms(2) obtain v :: i32 where v: "\<not> (v <s 0 \<or> word_of_nat NOFILE \<le>s v)" "fd = unat v" "ofile s ! fd = Some k"
    by (auto simp: argfd_def split: option.splits if_splits)
  have "0 \<le> sint v" "sint v < int NOFILE" using v(1) by (simp_all add: word_sless_alt word_sle_eq NOFILE_def not_le)
  then have "int (unat v) < int NOFILE" using sint_nonneg_unat [of v] by linarith
  then show fd: "fd < NOFILE" unfolding v(2) by (rule of_nat_less_imp_less)
  show "ofile s ! fd = Some k" by (rule v(3))
  then show m: "Some k \<in> set (ofile s)" using nth_mem [of fd "ofile s"] fd refsD(2) [OF assms(1)] by simp
  show "k < NFILE" by (rule refsD(3) [OF assms(1) m])
qed

lemma refs_shift: "refs Y s \<Longrightarrow> (\<And>k. Y k = X k) \<Longrightarrow> refs X s"
  by (simp add: refs_def)

lemma sys_dup_refs:
  assumes r: "refs X s" and b: "\<forall>k. X k < 2000" and f: "sys_dup s = Ret v t"
  shows "refs X t"
proof (cases "argfd 0 s")
  case None
  then show ?thesis using f r by (simp add: sys_dup_def)
next
  case (Some a)
  then obtain fd k where a: "argfd 0 s = Some (fd, k)" by (cases a) simp
  note k = argfd_open(3) [OF r a]
  show ?thesis
  proof (cases "fst (fdalloc k s)")
    case None
    then have "fdalloc k s = (None, s)" using fdalloc_none [of k s "snd (fdalloc k s)"] by (metis prod.collapse)
    then show ?thesis using f a r by (simp add: sys_dup_def)
  next
    case (Some e)
    then obtain u where u: "fdalloc k s = (Some e, u)" by (metis prod.collapse)
    then obtain w where w: "filedup k u = Ret w t" using f a by (auto simp: sys_dup_def andthen_Ret_iff)
    have "refs ((X(k := X k - 1))(k := (X(k := X k - 1)) k + 1)) t"
      by (rule filedup_refs [OF fdalloc_refs(3) [OF r k u] k _ w]) (use b [rule_format, of k] in simp)
    then show ?thesis by (rule refs_shift) simp
  qed
qed

lemma sys_close_refs:
  assumes r: "refs X s" and b: "\<forall>k. X k < 2000" and f: "sys_close s = Ret v t"
  shows "refs X t"
proof (cases "argfd 0 s")
  case None
  then show ?thesis using f r by (simp add: sys_close_def)
next
  case (Some a)
  then obtain fd k where a: "argfd 0 s = Some (fd, k)" by (cases a) simp
  note ao = argfd_open [OF r a]
  have "fileclose k (s\<lparr>ofile := (ofile s)[fd := None]\<rparr>) = Ret () t" using f a by (auto simp: sys_close_def andthen_Ret_iff)
  then have "refs ((X(k := X k + 1))(k := (X(k := X k + 1)) k - 1)) t"
    using b by (intro fileclose_refs(1) [OF refs_ofile_clear [OF r ao(1,2)] ao(3)]) simp_all
  then show ?thesis by (rule refs_shift) simp
qed

text \<open>Rules that follow the code of a call, for outcomes that keep the counts if they return.\<close>

definition kept :: "(nat \<Rightarrow> int) \<Rightarrow> ('v, 'l, 'a file_st_scheme) outcome \<Rightarrow> bool" where
  "kept X m \<longleftrightarrow> (\<forall>v t. m = Ret v t \<longrightarrow> refs X t)"

lemma kept_outcome [simp]:
  "kept X (Ret v s) \<longleftrightarrow> refs X s" "kept X (Panic e s)" "kept X (Sleep s)" "kept X (Diverge s)"
  by (simp_all add: kept_def)

lemma kept_andthen:
  assumes "kept Y m" "\<And>v t. refs Y t \<Longrightarrow> kept X (k v t)"
  shows "kept X (andthen m k)"
  using assms by (cases m) (simp_all add: kept_def)

lemma kept_fd:
  assumes "fd_fixed (fdv s) m" "refs X s"
  shows "kept X m"
  using assms refs_cong by (cases m) (auto simp: kept_def)

lemma kept_close: "refs (X(k := X k + 1)) s \<Longrightarrow> k < NFILE \<Longrightarrow> kept X (fileclose k s)"
  using fileclose_refs(1) [of "X(k := X k + 1)" s k] by (auto simp: kept_def)

lemma kept_close2:
  assumes "refs ((X(b := X b + 1))(a := (X(b := X b + 1)) a + 1)) s" "a < NFILE" "b < NFILE"
  shows "kept X (andthen (fileclose a s) (\<lambda>_ s. andthen (fileclose b s) (\<lambda>_ s. Ret r s)))"
proof (rule kept_andthen [OF kept_close [OF assms(1,2)]])
  fix u t assume "refs (X(b := X b + 1)) t"
  then show "kept X (andthen (fileclose b t) (\<lambda>_ s. Ret r s))" by (rule kept_andthen [OF kept_close [OF _ assms(3)]]) simp
qed

lemmas kept_fs =
  kept_fd [OF fd_begin_op [OF refl]] kept_fd [OF fd_end_op [OF refl]] kept_fd [OF fd_ilock [OF refl]]
  kept_fd [OF fd_iunlock [OF refl]] kept_fd [OF fd_iunlockput [OF refl]]

lemma kept_end: "refs X s \<Longrightarrow> kept X (andthen (iunlockput ip s) (\<lambda>_ s. andthen (end_op s) (\<lambda>_ s. Ret r s)))"
  by (intro kept_andthen kept_fs) simp_all

lemma sys_open_refs:
  assumes r: "refs X s" and dt: "fd_devices dt"
  shows "kept X (sys_open dt s)"
proof -
  have op: "kept X (case filealloc s of
        (None, s) \<Rightarrow> andthen (iunlockput ip s) (\<lambda>_ s. andthen (end_op s) (\<lambda>_ s. Ret (- 1) s))
      | (Some f, s) \<Rightarrow>
          (case fdalloc f s of
             (None, s) \<Rightarrow> andthen (fileclose f s) (\<lambda>_ s. andthen (iunlockput ip s) (\<lambda>_ s. andthen (end_op s) (\<lambda>_ s. Ret (- 1) s)))
           | (Some fd, s) \<Rightarrow> andthen (iunlock ip s) (\<lambda>_ s. andthen (end_op s) (\<lambda>_ s. Ret (word_of_nat fd) (upd_file f (g ip) s)))))"
    if s: "refs X s" and g: "\<And>ip x. f_ref (g ip x) = f_ref x" for s ip g
  proof (cases "filealloc s")
    case (Pair a u)
    show ?thesis
    proof (cases a)
      case None
      then show ?thesis using Pair s filealloc_none [of s u] by (simp add: kept_end)
    next
      case (Some k)
      note al = filealloc_refs [OF s Pair [unfolded Some]]
      show ?thesis
      proof (cases "fdalloc k u")
        case fa: (Pair b w)
        show ?thesis
        proof (cases b)
          case None
          then have "refs (X(k := X k + 1)) w" using al(3) fa fdalloc_none by blast
          then show ?thesis using Pair Some fa None al(1) by (simp add: kept_andthen [OF kept_close] kept_end)
        next
          case fd: (Some fd)
          have "refs X w" using fdalloc_refs(3) [OF al(3,1) fa [unfolded fd]] by (rule refs_shift) simp
          then show ?thesis using Pair Some fa fd by (simp add: kept_andthen [OF kept_fs(4)] kept_andthen [OF kept_fs(2)] refs_upd_file g)
        qed
      qed
    qed
  qed
  show ?thesis
    unfolding sys_open_def
    by (auto simp: r split: option.split intro!: kept_andthen [OF kept_fs(1) [OF r]] kept_andthen [OF kept_fd [OF fd_open_inode [OF refl dt]]] op)
qed

lemma pipealloc_refs:
  assumes r: "refs X s" and f: "pipealloc s = Ret v t"
  shows "(v = None \<longrightarrow> refs X t) \<and>
    (\<forall>a b. v = Some (a, b) \<longrightarrow> a < NFILE \<and> b < NFILE \<and> refs ((X(a := X a + 1))(b := (X(a := X a + 1)) b + 1)) t)"
proof (cases "filealloc s")
  case f0: (Pair o0 s0)
  show ?thesis
  proof (cases o0)
    case None
    then show ?thesis using f f0 r filealloc_none [of s s0] by (auto simp: pipealloc_def pipe_bad_def)
  next
    case a: (Some a)
    note al = filealloc_refs [OF r f0 [unfolded a]]
    show ?thesis
    proof (cases "filealloc s0")
      case f1: (Pair o1 s1)
      show ?thesis
      proof (cases o1)
        case None
        then have "kept X (pipealloc s)" using f0 a f1 filealloc_none [of s0 s1] al(1,3)
          by (auto simp: pipealloc_def pipe_bad_def intro!: kept_andthen [OF kept_close])
        moreover have "v = None" using f f0 a f1 None by (auto simp: pipealloc_def pipe_bad_def andthen_Ret_iff)
        ultimately show ?thesis using f by (simp add: kept_def)
      next
        case b: (Some b)
        note bl = filealloc_refs [OF al(3) f1 [unfolded b]]
        show ?thesis
        proof (cases "pages s1")
          case Nil
          have ba: "(X(a := X a + 1))(b := (X(a := X a + 1)) b + 1) = (X(b := X b + 1))(a := (X(b := X b + 1)) a + 1)" by auto
          have "kept X (pipealloc s)" using f0 a f1 b Nil kept_close2 [OF bl(3) [unfolded ba] al(1) bl(1)]
            by (simp add: pipealloc_def pipe_bad_def)
          moreover have "v = None" using f f0 a f1 b Nil by (auto simp: pipealloc_def pipe_bad_def andthen_Ret_iff)
          ultimately show ?thesis using f by (simp add: kept_def)
        next
          case (Cons p ps)
          have "refs Y (s1\<lparr>pages := q, pipes := h\<rparr>) = refs Y s1" for Y q h by (rule refs_cong) simp
          then show ?thesis using f f0 a f1 b Cons al(1) bl(1,3) by (auto simp: pipealloc_def Let_def refs_upd_file)
        qed
      qed
    qed
  qed
qed

lemma sys_pipe_refs:
  assumes r: "refs X s" and b: "\<forall>k. X k < 1990"
  shows "kept X (sys_pipe s)"
proof -
  have *: "kept X (case fdalloc rf u of
        (None, s) \<Rightarrow> andthen (fileclose rf s) (\<lambda>_ s. andthen (fileclose wf s) (\<lambda>_ s. Ret (- 1) s))
      | (Some fd0, s) \<Rightarrow>
          (case fdalloc wf s of
             (None, s) \<Rightarrow> andthen (fileclose rf (s\<lparr>ofile := (ofile s)[fd0 := None]\<rparr>)) (\<lambda>_ s. andthen (fileclose wf s) (\<lambda>_ s. Ret (- 1) s))
           | (Some fd1, s) \<Rightarrow> Ret (0 :: i32) (s\<lparr>user := g fd0 fd1 s\<rparr>)))"
    if u: "rf < NFILE" "wf < NFILE" "refs ((X(rf := X rf + 1))(wf := (X(rf := X rf + 1)) wf + 1)) u" for rf wf u and g :: "nat \<Rightarrow> nat \<Rightarrow> _ \<Rightarrow> uproc"
  proof -
    define Y where "Y = X(wf := X wf + 1)"
    have ru: "refs (Y(rf := Y rf + 1)) u" using u(3) by (rule refs_shift) (simp add: Y_def)
    have close: "kept X (andthen (fileclose rf z) (\<lambda>_ s. andthen (fileclose wf s) (\<lambda>_ s. Ret (- 1 :: i32) s)))" if "refs (Y(rf := Y rf + 1)) z" for z
      using kept_close2 [OF that [unfolded Y_def] u(1,2)] .
    show ?thesis
    proof (cases "fdalloc rf u")
      case f0: (Pair o0 s0)
      show ?thesis
      proof (cases o0)
        case None
        then show ?thesis using f0 fdalloc_none [of rf u s0] close [OF ru] by simp
      next
        case e: (Some fd0)
        note a0 = fdalloc_refs [OF ru u(1) f0 [unfolded e]]
        have r0: "refs Y s0" using a0(3) by (rule refs_shift) simp
        show ?thesis
        proof (cases "fdalloc wf s0")
          case f1: (Pair o1 s1)
          show ?thesis
          proof (cases o1)
            case None
            have "ofile s0 ! fd0 = Some rf" using a0(1,4) refsD(2) [OF ru] by simp
            moreover have "Y rf < 2000" using b [rule_format, of rf] b [rule_format, of wf] by (auto simp: Y_def)
            ultimately have "refs (Y(rf := Y rf + 1)) (s0\<lparr>ofile := (ofile s0)[fd0 := None]\<rparr>)" by (rule refs_ofile_clear [OF r0 a0(1)])
            from close [OF this] show ?thesis using f0 e f1 None fdalloc_none [of wf s0 s1] by simp
          next
            case d: (Some fd1)
            have "refs X s1" using fdalloc_refs(3) [OF r0 u(2) f1 [unfolded d]] by (rule refs_shift) (simp add: Y_def)
            then have "refs X (s1\<lparr>user := g fd0 fd1 s1\<rparr>)" using refs_cong [of "s1\<lparr>user := g fd0 fd1 s1\<rparr>" s1] by simp
            then show ?thesis using f0 e f1 d by simp
          qed
        qed
      qed
    qed
  qed
  show ?thesis
    unfolding sys_pipe_def kept_def
    using r pipealloc_refs [OF r] * [unfolded kept_def]
    by (fastforce simp: andthen_Ret_iff split: option.splits)
qed

text \<open>Reading and writing move the offset of a file, and \<open>fstat\<close> changes nothing.\<close>

lemma refs_upd [simp]:
  "refs X (s\<lparr>pipes := h\<rparr>) = refs X s" "refs X (s\<lparr>user := u\<rparr>) = refs X s"
  "refs X (upd_file f (\<lambda>x. x\<lparr>f_off := f_off x + r\<rparr>) s) = refs X s"
  by (auto intro!: refs_cong refs_upd_file)

lemma kept_if: "(b \<Longrightarrow> kept X m) \<Longrightarrow> (\<not> b \<Longrightarrow> kept X n) \<Longrightarrow> kept X (if b then m else n)"
  by simp

lemma kept_prod_app: "(\<And>a b. r = (a, b) \<Longrightarrow> kept X (n a b t)) \<Longrightarrow> kept X ((case r of (a, b) \<Rightarrow> n a b) t)"
  by (cases r) simp

lemma fileread_refs:
  assumes "refs X s" "fd_devices dt"
  shows "kept X (fileread dt f n s)"
proof (cases "f_type (file_at s f)")
  case FD_INODE
  then show ?thesis
    unfolding fileread_def Let_def using assms
    by (auto intro!: kept_andthen [OF kept_fs(3)] kept_andthen [OF kept_fd [OF fd_readi [OF refl]]] kept_andthen [OF kept_fs(4)])
next
  case FD_PIPE
  then show ?thesis using assms by (simp add: fileread_def Let_def split: prod.split presult.split)
qed (simp add: fileread_def assms)

lemma filewrite_chunk_refs:
  assumes "refs X s" "fd_devices dt"
  shows "kept X (filewrite_chunk dt f addr n s)"
  unfolding filewrite_chunk_def Let_def using assms
  by (auto intro!: kept_andthen [OF kept_fs(1)] kept_andthen [OF kept_fs(3)] kept_andthen [OF kept_fd [OF fd_writei [OF refl]]]
      kept_andthen [OF kept_fs(4)] kept_andthen [OF kept_fs(2)])

lemma filewrite_loop_refs: "refs X s \<Longrightarrow> fd_devices dt \<Longrightarrow> kept X (filewrite_loop dt f addr n i s)"
proof (induction "nat (sint n) - i" arbitrary: i s rule: less_induct)
  case less
  let ?n1 = "min (nat (sint n) - i) max_write"
  show ?case
  proof (cases "int i < sint n")
    case True
    then have "nat (sint n) - (i + ?n1) < nat (sint n) - i" by (auto simp: max_write_def MAXOPBLOCKS_def)
    then show ?thesis
      using True less by (subst filewrite_loop.simps) (auto simp: Let_def intro!: kept_andthen [OF filewrite_chunk_refs] kept_if)
  next
    case False
    then show ?thesis using less by (subst filewrite_loop.simps) simp
  qed
qed

lemma filewrite_refs:
  assumes "refs X s" "fd_devices dt"
  shows "kept X (filewrite dt f addr n s)"
proof (cases "f_type (file_at s f)")
  case FD_INODE
  then show ?thesis unfolding filewrite_def using assms by (auto intro!: kept_andthen [OF filewrite_loop_refs])
next
  case FD_PIPE
  then show ?thesis using assms by (simp add: filewrite_def Let_def split: prod.split presult.split)
qed (simp add: filewrite_def assms)

lemma sys_read_refs: "refs X s \<Longrightarrow> fd_devices dt \<Longrightarrow> kept X (sys_read dt s)"
  unfolding sys_read_def by (auto split: option.split intro!: kept_andthen [OF fileread_refs] kept_prod_app)

lemma sys_write_refs: "refs X s \<Longrightarrow> fd_devices dt \<Longrightarrow> kept X (sys_write dt s)"
  unfolding sys_write_def by (auto split: option.split intro!: filewrite_refs)

lemma filestat_refs: "refs X s \<Longrightarrow> kept X (filestat f s)"
  unfolding filestat_def Let_def by (auto intro!: kept_andthen [OF kept_fs(3)] kept_andthen [OF kept_fs(4)])

lemma sys_fstat_refs: "refs X s \<Longrightarrow> kept X (sys_fstat s)"
  unfolding sys_fstat_def by (auto split: option.split intro!: kept_andthen [OF filestat_refs] kept_prod_app)

end
