(* ===== verification/Console.thy ===== *)
theory Console
  imports File Ulib Ring
begin

unbundle bit_operations_syntax

text \<open>
  The console (src/console.c): formatted output, the text screen, line editing of the input, and the
  device functions that \<open>read\<close> and \<open>write\<close> reach through \<open>devsw\<close>.

  The screen is the text memory \<open>crt\<close> and the cursor register of the display; \<open>serial\<close> is what was sent to
  the serial port.  A section under \<open>cons.lock\<close> is one step.  \<open>getc\<close> is the list of the characters it
  returns before it returns a negative number.  The ring buffer of the input with its three wrapping
  indices is shown to be a queue of finished lines and a line being edited.
\<close>

definition INPUT_BUF :: nat where "INPUT_BUF = 128"
definition BACKSPACE :: i32 where "BACKSPACE = 0x100"
definition CONSOLE :: nat where "CONSOLE = 1"

definition ctrl :: "nat \<Rightarrow> i32" where
  "ctrl x = word_of_nat x - 64"

record cinput =
  c_buf :: "u8 list"
  c_r :: u32
  c_w :: u32
  c_e :: u32

record cons_st = file_st +
  input :: cinput
  crt :: "nat \<Rightarrow> u16"
  cursor :: nat
  serial :: "u8 list"
  panicked :: bool

subsection \<open>Output\<close>

definition blank :: u16 where "blank = 0x0720"

text \<open>The cell for a character: black on white.\<close>

definition cell :: "i32 \<Rightarrow> u16" where
  "cell c = ucast (c AND 0xff) OR 0x0700"

definition scroll :: "nat \<Rightarrow> (nat \<Rightarrow> u16) \<Rightarrow> nat \<Rightarrow> u16" where
  "scroll pos m = (\<lambda>i. if pos \<le> i \<and> i < 24 * 80 then 0 else if i < 23 * 80 then m (i + 80) else m i)"

definition cgaputc :: "i32 \<Rightarrow> 'a cons_st_scheme \<Rightarrow> (unit, 'a cons_st_scheme) io" where
  "cgaputc c s =
     (let pos = cursor s;
          (pos, s) =
            (if c = 10 then (pos + (80 - pos mod 80), s)
             else if c = BACKSPACE then (if pos > 0 then pos - 1 else pos, s)
             else (pos + 1, s\<lparr>crt := (crt s)(pos := cell c)\<rparr>)) in
      if pos > 25 * 80 then Panic ''pos under/overflow'' s
      else
        let (pos, s) =
          (if pos div 80 \<ge> 24 then (pos - 80, s\<lparr>crt := scroll (pos - 80) (crt s)\<rparr>) else (pos, s)) in
        Ret () (s\<lparr>cursor := pos, crt := (crt s)(pos := blank)\<rparr>))"

definition uart_bytes :: "i32 \<Rightarrow> u8 list" where
  "uart_bytes c = (if c = BACKSPACE then [8, 32, 8] else [ucast c])"

definition consputc :: "i32 \<Rightarrow> 'a cons_st_scheme \<Rightarrow> (unit, 'a cons_st_scheme) io" where
  "consputc c s =
     (if panicked s then Diverge s
      else cgaputc c (s\<lparr>serial := serial s @ uart_bytes c\<rparr>))"

text \<open>\<open>printint\<close> of the console differs from that of the user library in its digits and where they go.\<close>

function cons_digits :: "u32 \<Rightarrow> u32 \<Rightarrow> string" where
  "cons_digits base x =
     (''0123456789abcdef'' ! unat (x mod base)) #
     (if 1 < base \<and> x div base \<noteq> 0 then cons_digits base (x div base) else [])"
  by pat_completeness auto
termination
  by (relation "measure (\<lambda>(base, x). unat x)") (auto intro: unat_div_less)

declare cons_digits.simps [simp del]

definition cons_printint :: "i32 \<Rightarrow> u32 \<Rightarrow> bool \<Rightarrow> string" where
  "cons_printint xx base sg =
     (let neg = (sg \<and> xx <s 0);
          x = (if neg then - xx else xx);
          buf = cons_digits base x in
      rev (if neg then buf @ ''-'' else buf))"

text \<open>The characters \<open>cprintf\<close> puts out: \<open>ap\<close> are the arguments behind the format and \<open>str\<close> reads a string.\<close>

fun cprintf_text :: "(u32 \<Rightarrow> string) \<Rightarrow> (nat \<Rightarrow> u32) \<Rightarrow> nat \<Rightarrow> string \<Rightarrow> string" where
  "cprintf_text str ap k [] = []"
| "cprintf_text str ap k [c] = (if c = CHR ''%'' then [] else [c])"
| "cprintf_text str ap k (c # d # fmt) =
     (if c \<noteq> CHR ''%'' then c # cprintf_text str ap k (d # fmt)
      else if d = CHR ''d'' then cons_printint (ap k) 10 True @ cprintf_text str ap (Suc k) fmt
      else if d = CHR ''x'' \<or> d = CHR ''p'' then cons_printint (ap k) 16 False @ cprintf_text str ap (Suc k) fmt
      else if d = CHR ''s'' then (if ap k = 0 then ''(null)'' else str (ap k)) @ cprintf_text str ap (Suc k) fmt
      else if d = CHR ''%'' then CHR ''%'' # cprintf_text str ap k fmt
      else CHR ''%'' # d # cprintf_text str ap k fmt)"

definition cprintf :: "(u32 \<Rightarrow> string) \<Rightarrow> string \<Rightarrow> (nat \<Rightarrow> u32) \<Rightarrow> 'a cons_st_scheme \<Rightarrow> (unit, 'a cons_st_scheme) io" where
  "cprintf str fmt ap s = each (\<lambda>c. consputc (word_of_nat (of_char c))) (cprintf_text str ap 0 fmt) s"

subsection \<open>Input\<close>

definition buf_at :: "cinput \<Rightarrow> u32 \<Rightarrow> u8" where
  "buf_at x i = c_buf x ! (unat i mod INPUT_BUF)"

text \<open>The loop behind control-U, with the number of characters it erases on the screen.\<close>

function kill_line :: "cinput \<Rightarrow> nat \<times> cinput" where
  "kill_line x =
     (if c_e x \<noteq> c_w x \<and> buf_at x (c_e x - 1) \<noteq> 10 then
        let (k, y) = kill_line (x\<lparr>c_e := c_e x - 1\<rparr>) in (Suc k, y)
      else (0, x))"
  by auto

lemma e_minus_one: "e \<noteq> w \<Longrightarrow> unat (e - w :: u32) = Suc (unat (e - 1 - w))"
proof -
  assume "e \<noteq> w"
  then have "e - w \<noteq> 0" by simp
  then have "unat (e - w - 1) = unat (e - w) - 1" by (rule unat_minus_one)
  moreover have "0 < unat (e - w)" using \<open>e - w \<noteq> 0\<close> unfolding unat_gt_0 .
  moreover have e: "e - 1 - w = e - w - 1" by simp
  ultimately show ?thesis unfolding e by linarith
qed

termination kill_line
  by (relation "measure (\<lambda>x. unat (c_e x - c_w x))") (auto simp: e_minus_one)

declare kill_line.simps [simp del]

text \<open>One pass of the loop of \<open>consoleintr\<close>: the characters it puts out, and whether it wakes a reader.\<close>

definition input_char :: "i32 \<Rightarrow> cinput \<Rightarrow> i32 list \<times> bool \<times> cinput" where
  "input_char c x =
     (if c = ctrl 85 then (case kill_line x of (k, y) \<Rightarrow> (replicate k BACKSPACE, False, y))
      else if c = ctrl 72 \<or> c = 0x7f then
        if c_e x \<noteq> c_w x then ([BACKSPACE], False, x\<lparr>c_e := c_e x - 1\<rparr>) else ([], False, x)
      else if c \<noteq> 0 \<and> c_e x - c_r x < word_of_nat INPUT_BUF then
        let c = (if c = 13 then 10 else c);
            x = x\<lparr>c_buf := (c_buf x)[unat (c_e x) mod INPUT_BUF := ucast c], c_e := c_e x + 1\<rparr> in
        if c = 10 \<or> c = ctrl 68 \<or> c_e x = c_r x + word_of_nat INPUT_BUF then ([c], True, x\<lparr>c_w := c_e x\<rparr>)
        else ([c], False, x)
      else ([], False, x))"

definition intr_char :: "i32 \<Rightarrow> bool \<Rightarrow> 'a cons_st_scheme \<Rightarrow> (bool, 'a cons_st_scheme) io" where
  "intr_char c dump s =
     (if c = ctrl 80 then Ret True s
      else
        case input_char c (input s) of (out, w, x) \<Rightarrow>
          andthen (each consputc out (s\<lparr>input := x\<rparr>)) (\<lambda>_ s. Ret dump s))"

text \<open>The result of \<open>consoleintr\<close> tells whether it called \<open>procdump\<close>.\<close>

fun consoleintr_loop :: "i32 list \<Rightarrow> bool \<Rightarrow> 'a cons_st_scheme \<Rightarrow> (bool, 'a cons_st_scheme) io" where
  "consoleintr_loop [] dump s = Ret dump s"
| "consoleintr_loop (c # cs) dump s = andthen (intr_char c dump s) (\<lambda>dump s. consoleintr_loop cs dump s)"

definition consoleintr :: "i32 list \<Rightarrow> 'a cons_st_scheme \<Rightarrow> (bool, 'a cons_st_scheme) io" where
  "consoleintr getc s = consoleintr_loop getc False s"

datatype cread = CDone | CSleep

text \<open>The loop of \<open>consoleread\<close>: \<open>n\<close> more characters are wanted, \<open>dst\<close> has been stored.\<close>

fun read_chars :: "nat \<Rightarrow> u8 list \<Rightarrow> cinput \<Rightarrow> cread \<times> u8 list \<times> cinput" where
  "read_chars 0 dst x = (CDone, dst, x)"
| "read_chars (Suc n) dst x =
     (if c_r x = c_w x then (CSleep, dst, x)
      else
        let c = buf_at x (c_r x); y = x\<lparr>c_r := c_r x + 1\<rparr> in
        if c = 4 then (CDone, dst, if dst \<noteq> [] then x else y)
        else if c = 10 then (CDone, dst @ [c], y)
        else read_chars n (dst @ [c]) y)"

definition consoleread :: "nat \<Rightarrow> i32 \<Rightarrow> 'a cons_st_scheme \<Rightarrow> (i32 \<times> u8 list, 'a cons_st_scheme) io" where
  "consoleread ip n s =
     andthen (iunlock ip s) (\<lambda>_ s.
     case read_chars (nat (sint n)) [] (input s) of (r, dst, x) \<Rightarrow>
       let s = s\<lparr>input := x\<rparr> in
       case r of
         CDone \<Rightarrow> andthen (ilock ip s) (\<lambda>_ s. Ret (word_of_nat (length dst), dst) s)
       | CSleep \<Rightarrow> if killed s then andthen (ilock ip s) (\<lambda>_ s. Ret (- 1, dst) s) else Sleep s)"

definition consolewrite :: "nat \<Rightarrow> u8 list \<Rightarrow> i32 \<Rightarrow> 'a cons_st_scheme \<Rightarrow> (i32, 'a cons_st_scheme) io" where
  "consolewrite ip buf n s =
     andthen (iunlock ip s) (\<lambda>_ s.
     andthen (each (\<lambda>c. consputc (ucast c)) (take (nat (sint n)) buf) s) (\<lambda>_ s.
     andthen (ilock ip s) (\<lambda>_ s. Ret n s)))"

text \<open>The table \<open>devsw\<close> as \<open>consoleinit\<close> leaves it.\<close>

definition console_devsw :: "nat \<Rightarrow> 'a cons_st_scheme devsw" where
  "console_devsw i = (if i = CONSOLE then \<lparr>dev_read = Some consoleread, dev_write = Some consolewrite\<rparr>
     else \<lparr>dev_read = None, dev_write = None\<rparr>)"

subsection \<open>The line discipline\<close>

interpretation cons_ring: ring_buffer INPUT_BUF
  by unfold_locales (simp_all add: INPUT_BUF_def)

text \<open>The characters of finished lines that wait for a reader, and the line that is being edited.\<close>

definition cons_lines :: "cinput \<Rightarrow> u8 list" where
  "cons_lines x = window INPUT_BUF (c_buf x) (c_r x) (c_w x)"

definition cons_edit :: "cinput \<Rightarrow> u8 list" where
  "cons_edit x = window INPUT_BUF (c_buf x) (c_w x) (c_e x)"

definition input_ok :: "cinput \<Rightarrow> bool" where
  "input_ok x \<longleftrightarrow> length (c_buf x) = INPUT_BUF \<and> length (cons_lines x) + length (cons_edit x) \<le> INPUT_BUF \<and> 10 \<notin> set (cons_edit x)"

text \<open>What a character does to the two.\<close>

definition type_char :: "i32 \<Rightarrow> u8 list \<times> u8 list \<Rightarrow> u8 list \<times> u8 list" where
  "type_char c = (\<lambda>(ls, ed).
     if c = 21 then (ls, [])
     else if c = 8 \<or> c = 127 then (ls, butlast ed)
     else if c \<noteq> 0 \<and> length ls + length ed < INPUT_BUF then
       let b = (if c = 13 then 10 else ucast c) in
       if b = 10 \<or> b = 4 \<or> Suc (length ls + length ed) = INPUT_BUF then (ls @ ed @ [b], []) else (ls, ed @ [b])
     else (ls, ed))"

lemma ctrl_simps [simp]: "ctrl 85 = 21" "ctrl 72 = 8" "ctrl 68 = 4" "ctrl 80 = 16"
  by (simp_all add: ctrl_def)

lemma input_split:
  assumes "length (cons_lines x) + length (cons_edit x) \<le> INPUT_BUF"
  shows "window INPUT_BUF (c_buf x) (c_r x) (c_e x) = cons_lines x @ cons_edit x"
    "unat (c_e x - c_r x) = length (cons_lines x) + length (cons_edit x)"
proof -
  have "unat (c_w x - c_r x) + unat (c_e x - c_w x) < 2 ^ 32"
    using assms by (simp add: cons_lines_def cons_edit_def INPUT_BUF_def)
  from window_split [OF this] show "window INPUT_BUF (c_buf x) (c_r x) (c_e x) = cons_lines x @ cons_edit x"
    "unat (c_e x - c_r x) = length (cons_lines x) + length (cons_edit x)"
    by (simp_all add: cons_lines_def cons_edit_def)
qed

lemma edit_unsnoc:
  assumes "c_e x \<noteq> c_w x"
  shows "cons_edit x = cons_edit (x\<lparr>c_e := c_e x - 1\<rparr>) @ [buf_at x (c_e x - 1)]"
proof -
  have n: "unat (c_e x - c_w x) = Suc (unat (c_e x - 1 - c_w x))" by (rule e_minus_one [OF assms])
  have e: "c_e x - (c_e x - 1) = 1" by simp
  have "unat (c_e x - 1 - c_w x) + unat (c_e x - (c_e x - 1)) < 2 ^ 32"
    using n unsigned_less [of "c_e x - c_w x", where 'a = nat] unfolding e by simp
  from window_split(1) [OF this, of INPUT_BUF "c_buf x"]
  have "cons_edit x = cons_edit (x\<lparr>c_e := c_e x - 1\<rparr>) @ window INPUT_BUF (c_buf x) (c_e x - 1) (c_e x)"
    by (simp add: cons_edit_def)
  moreover have "window INPUT_BUF (c_buf x) (c_e x - 1) (c_e x) = [buf_at x (c_e x - 1)]"
    by (simp add: window_uncons [of "c_e x - 1"] buf_at_def)
  ultimately show ?thesis by simp
qed

lemma edit_empty: "c_e x = c_w x \<longleftrightarrow> cons_edit x = []"
  by (auto simp: cons_edit_def window_empty)

lemma lines_other [simp]: "cons_lines (x\<lparr>c_e := e\<rparr>) = cons_lines x"
  by (simp add: cons_lines_def)

lemma kill_line_clears:
  assumes "10 \<notin> set (cons_edit x)"
  shows "kill_line x = (length (cons_edit x), x\<lparr>c_e := c_w x\<rparr>)"
  using assms
proof (induction x rule: kill_line.induct)
  case (1 x)
  note step = kill_line.simps [of x]
  show ?case
  proof (cases "c_e x = c_w x")
    case True
    then show ?thesis unfolding step by (simp add: edit_empty)
  next
    case False
    note u = edit_unsnoc [OF False]
    have c: "c_e x \<noteq> c_w x \<and> buf_at x (c_e x - 1) \<noteq> 10" using False 1(2) unfolding u by auto
    have "10 \<notin> set (cons_edit (x\<lparr>c_e := c_e x - 1\<rparr>))" using 1(2) unfolding u by simp
    from 1(1) [OF c this] show ?thesis using c unfolding step u by simp
  qed
qed

lemma push_char:
  fixes b :: u8
  assumes ok: "input_ok x" and room: "length (cons_lines x) + length (cons_edit x) < INPUT_BUF"
  defines "y \<equiv> x\<lparr>c_buf := (c_buf x)[unat (c_e x) mod INPUT_BUF := b], c_e := c_e x + 1\<rparr>"
  shows "cons_lines y = cons_lines x" "cons_edit y = cons_edit x @ [b]" "length (c_buf y) = INPUT_BUF"
    "cons_lines (y\<lparr>c_w := c_e y\<rparr>) = cons_lines x @ cons_edit x @ [b]" "cons_edit (y\<lparr>c_w := c_e y\<rparr>) = []"
    "c_e y = c_r y + word_of_nat INPUT_BUF \<longleftrightarrow> Suc (length (cons_lines x) + length (cons_edit x)) = INPUT_BUF"
proof -
  have len: "length (c_buf x) = INPUT_BUF" using ok by (simp add: input_ok_def)
  note sp = input_split [of x]
  have all: "window INPUT_BUF (c_buf y) (c_r y) (c_e y) = (cons_lines x @ cons_edit x) @ [b]"
    "unat (c_e y - c_r y) = Suc (length (cons_lines x) + length (cons_edit x))"
    using cons_ring.window_push [OF len] room sp by (simp_all add: y_def)
  have "unat (c_e x - c_w x) < INPUT_BUF" using room by (simp add: cons_edit_def)
  then show e: "cons_edit y = cons_edit x @ [b]" using cons_ring.window_push(1) [OF len] by (simp add: cons_edit_def y_def)
  have l: "length (cons_lines y) = length (cons_lines x)" by (simp add: cons_lines_def y_def)
  have n: "length (cons_lines y) + length (cons_edit y) \<le> INPUT_BUF" unfolding l e using room by simp
  have "cons_lines y @ cons_edit y = (cons_lines x @ cons_edit x) @ [b]"
    unfolding input_split(1) [OF n, symmetric] by (rule all(1))
  then show "cons_lines y = cons_lines x" unfolding e by simp
  show "length (c_buf y) = INPUT_BUF" by (simp add: y_def len)
  have "cons_lines (y\<lparr>c_w := c_e y\<rparr>) = window INPUT_BUF (c_buf y) (c_r y) (c_e y)" by (simp add: cons_lines_def)
  then show "cons_lines (y\<lparr>c_w := c_e y\<rparr>) = cons_lines x @ cons_edit x @ [b]" unfolding all(1) by simp
  show "cons_edit (y\<lparr>c_w := c_e y\<rparr>) = []" by (simp add: cons_edit_def)
  have "c_e y = c_r y + word_of_nat INPUT_BUF \<longleftrightarrow> c_e y - c_r y = word_of_nat INPUT_BUF" by (auto simp: algebra_simps)
  also have "\<dots> \<longleftrightarrow> unat (c_e y - c_r y) = INPUT_BUF" by (simp add: word_unat_eq_iff INPUT_BUF_def)
  finally show "c_e y = c_r y + word_of_nat INPUT_BUF \<longleftrightarrow> Suc (length (cons_lines x) + length (cons_edit x)) = INPUT_BUF"
    by (simp add: all(2))
qed

lemma input_char_ok:
  assumes ok: "input_ok x" and c: "unat c < 256" and run: "input_char c x = (out, w, y)"
  shows "input_ok y" "(cons_lines y, cons_edit y) = type_char c (cons_lines x, cons_edit x)" "w \<longleftrightarrow> cons_lines y \<noteq> cons_lines x"
proof -
  let ?n = "length (cons_lines x) + length (cons_edit x)"
  let ?b = "if c = 13 then 10 else ucast c :: u8"
  let ?y = "x\<lparr>c_buf := (c_buf x)[unat (c_e x) mod INPUT_BUF := ?b], c_e := c_e x + 1\<rparr>"
  have le: "?n \<le> INPUT_BUF" and nl: "10 \<notin> set (cons_edit x)" using ok by (simp_all add: input_ok_def)
  have room: "c_e x - c_r x < word_of_nat INPUT_BUF \<longleftrightarrow> ?n < INPUT_BUF"
    using input_split(2) [OF le] by (simp add: word_less_nat_alt INPUT_BUF_def)
  have b: "?b = 10 \<longleftrightarrow> c = 13 \<or> c = 10" "?b = 4 \<longleftrightarrow> c = 4" "ucast (if c = 13 then 10 else c) = ?b"
    using c by (auto simp: word_unat_eq_iff unsigned_ucast_eq unsigned_take_bit_eq take_bit_eq_mod)
  consider (kill) "c = 21" | (erase) "c = 8 \<or> c = 127" | (ignored) "c = 0 \<or> \<not> ?n < INPUT_BUF" "c \<noteq> 21" "c \<noteq> 8" "c \<noteq> 127"
    | (char) "c \<noteq> 0" "?n < INPUT_BUF" "c \<noteq> 21" "c \<noteq> 8" "c \<noteq> 127" by blast
  then have "input_ok y \<and> (cons_lines y, cons_edit y) = type_char c (cons_lines x, cons_edit x) \<and> (w \<longleftrightarrow> cons_lines y \<noteq> cons_lines x)"
  proof cases
    case kill
    then have "y = x\<lparr>c_e := c_w x\<rparr>" "\<not> w" using run kill_line_clears [OF nl] by (auto simp: input_char_def)
    then show ?thesis using ok kill by (simp add: type_char_def input_ok_def cons_edit_def)
  next
    case erase
    show ?thesis
    proof (cases "c_e x = c_w x")
      case True
      then have "y = x" "\<not> w" "cons_edit x = []" using run erase by (auto simp: input_char_def edit_empty)
      then show ?thesis using ok erase by (auto simp: type_char_def)
    next
      case False
      then have y: "y = x\<lparr>c_e := c_e x - 1\<rparr>" "\<not> w" using run erase by (auto simp: input_char_def)
      have "cons_edit y = butlast (cons_edit x)" unfolding y edit_unsnoc [OF False] by simp
      then show ?thesis using ok erase y by (auto simp: type_char_def input_ok_def dest: in_set_butlastD)
    qed
  next
    case ignored
    then have "y = x" "\<not> w" using run room by (auto simp: input_char_def)
    then show ?thesis using ok ignored by (auto simp: type_char_def)
  next
    case char
    note p = push_char [OF ok char(2), of ?b]
    let ?commit = "?b = 10 \<or> ?b = 4 \<or> Suc ?n = INPUT_BUF"
    have y: "y = (if ?commit then ?y\<lparr>c_w := c_e ?y\<rparr> else ?y) \<and> w = ?commit"
      using run char room b p(6) by (auto simp: input_char_def Let_def split: if_splits)
    show ?thesis
    proof (cases ?commit)
      case True
      then show ?thesis using y p(3-5) char by (simp add: type_char_def input_ok_def Let_def)
    next
      case False
      then show ?thesis using y p(1-3) char nl by (simp add: type_char_def input_ok_def Let_def)
    qed
  qed
  then show "input_ok y" "(cons_lines y, cons_edit y) = type_char c (cons_lines x, cons_edit x)" "w \<longleftrightarrow> cons_lines y \<noteq> cons_lines x"
    by blast+
qed

lemma read_chars_ok:
  assumes "input_ok x" "read_chars n dst x = (r, dst', y)" "4 \<notin> set dst" "10 \<notin> set dst"
  shows "input_ok y \<and> cons_edit y = cons_edit x \<and> 4 \<notin> set dst' \<and>
    (\<exists>bs. dst' = dst @ bs \<and> length bs \<le> n \<and> 10 \<notin> set (butlast bs) \<and>
      (cons_lines x = bs @ cons_lines y \<or> dst' = [] \<and> cons_lines x = 4 # cons_lines y) \<and>
      (r = CSleep \<longrightarrow> cons_lines y = []) \<and>
      (r = CDone \<and> dst' \<noteq> [] \<longrightarrow> length bs = n \<or> last dst' = 10 \<or> (\<exists>rest. cons_lines y = 4 # rest)))"
  using assms
proof (induction n dst x rule: read_chars.induct)
  case (1 dst x)
  then show ?case by auto
next
  case (2 n dst x)
  let ?c = "buf_at x (c_r x)"
  let ?y = "x\<lparr>c_r := c_r x + 1\<rparr>"
  show ?case
  proof (cases "c_r x = c_w x")
    case True
    then show ?thesis using 2(2-5) by (auto simp: cons_lines_def)
  next
    case False
    then have u: "cons_lines x = ?c # cons_lines ?y" by (simp add: cons_lines_def window_uncons buf_at_def)
    have e: "cons_edit ?y = cons_edit x" by (simp add: cons_edit_def)
    have ok: "input_ok ?y" using 2(2) arg_cong [OF u, of length] by (simp add: input_ok_def e)
    consider "?c = 4" | "?c = 10" | "?c \<noteq> 4" "?c \<noteq> 10" by blast
    then show ?thesis
    proof cases
      case 1
      then show ?thesis using 2(2-5) False ok u e by (auto simp: Let_def split: if_splits)
    next
      case 2
      then show ?thesis using 2 \<open>read_chars (Suc n) dst x = _\<close> \<open>4 \<notin> set dst\<close> False ok u e
        by (intro conjI exI [of _ "[10]"]) (auto simp: Let_def)
    next
      case 3
      then have run: "read_chars n (dst @ [?c]) ?y = (r, dst', y)" using 2(3) False by (simp add: Let_def)
      from 2(1) [OF False refl refl 3 ok run] 2(4,5) 3 obtain bs where bs: "input_ok y" "cons_edit y = cons_edit x" "4 \<notin> set dst'"
        "dst' = (dst @ [?c]) @ bs" "length bs \<le> n" "10 \<notin> set (butlast bs)" "cons_lines ?y = bs @ cons_lines y"
        "r = CSleep \<longrightarrow> cons_lines y = []" "r = CDone \<longrightarrow> length bs = n \<or> last dst' = 10 \<or> (\<exists>rest. cons_lines y = 4 # rest)"
        by (cases r) (auto simp: e)
      then show ?thesis using 3 u by (intro conjI exI [of _ "?c # bs"]) (auto simp: butlast_append)
    qed
  qed
qed



subsection \<open>The screen\<close>

text \<open>
  Output stays on the screen: from a cursor in the first 24 rows, \<open>cgaputc\<close> returns with the cursor
  there again, whatever character it is given, and writes no cell outside these rows.  A character that
  does not fill the last row appears at the old cursor position; one that does scrolls the screen by a row.
\<close>

theorem cga_stays_on_screen:
  assumes "cursor s < 24 * 80"
  shows "\<exists>t. cgaputc c s = Ret () t \<and> cursor t < 24 * 80 \<and> (\<forall>i \<ge> 24 * 80. crt t i = crt s i) \<and>
    (c \<noteq> 10 \<and> c \<noteq> BACKSPACE \<and> cursor s + 1 < 24 * 80 \<longrightarrow>
      cursor t = cursor s + 1 \<and> crt t = (crt s)(cursor s := cell c, cursor s + 1 := blank)) \<and>
    (c \<noteq> 10 \<and> c \<noteq> BACKSPACE \<and> cursor s + 1 = 24 * 80 \<longrightarrow>
      cursor t = 23 * 80 \<and> (\<forall>i < 23 * 80. crt t i = ((crt s)(cursor s := cell c)) (i + 80)))"
proof -
  have nl: "cursor s + (80 - cursor s mod 80) \<le> 24 * 80"
  proof -
    have "cursor s div 80 \<le> 23" using assms by simp
    then have "80 * (cursor s div 80) + 80 \<le> 24 * 80" by simp
    moreover have "80 * (cursor s div 80) + cursor s mod 80 = cursor s" by simp
    ultimately show ?thesis using mod_less_divisor [of 80 "cursor s"] by linarith
  qed
  have row: "24 \<le> p div 80 \<longleftrightarrow> 24 * 80 \<le> p" for p :: nat by (simp add: less_eq_div_iff_mult_less_eq)
  consider "c = 10" "cursor s + (80 - cursor s mod 80) = 24 * 80" | "c = 10" "cursor s + (80 - cursor s mod 80) < 24 * 80"
    | "c = BACKSPACE" | "c \<noteq> 10" "c \<noteq> BACKSPACE" using nl by linarith
  then show ?thesis
  proof cases
    case 3
    then show ?thesis using assms by (auto simp: cgaputc_def Let_def BACKSPACE_def row)
  next
    case 4
    then show ?thesis using assms by (auto simp: cgaputc_def Let_def scroll_def fun_eq_iff row)
  qed (use assms in \<open>auto simp: cgaputc_def Let_def scroll_def row\<close>)
qed

end
