(* ===== verification/Fds.thy ===== *)
theory Fds
  imports File_Refs Console Proc_Props
begin

text \<open>
  Descriptors of all processes.  This theory joins the process table (src/proc.c), the table of open files
  (src/file.c) and the file-system calls (src/sysfile.c): the parts of \<open>fork\<close> and \<open>exit\<close> that deal with files,
  and a step relation in which any process makes any file-system call, forks or exits.  A call that returns
  is one step; the user memory from which it takes its arguments is arbitrary.  In every reachable state
  the count of an open file is the number of descriptors that refer to it.
\<close>

subsection \<open>fork and exit\<close>

text \<open>The loop of \<open>fork\<close> over the descriptors of the parent, which executes; \<open>np\<close> are those of the child.\<close>

fun dup_files :: "nat list \<Rightarrow> nat option list \<Rightarrow> 'a file_st_scheme \<Rightarrow> (nat option list, 'a file_st_scheme) io" where
  "dup_files [] np s = Ret np s"
| "dup_files (i # is) np s =
     (case ofile s ! i of
        None \<Rightarrow> dup_files is np s
      | Some k \<Rightarrow> andthen (filedup k s) (\<lambda>f s. dup_files is (np[i := Some f]) s))"

definition fork_files :: "nat option list \<Rightarrow> 'a file_st_scheme \<Rightarrow> (nat option list \<times> nat, 'a file_st_scheme) io" where
  "fork_files np s =
     andthen (dup_files [0..<File.NOFILE] np s) (\<lambda>np s. case idup (cwd s) s of (ip, s) \<Rightarrow> Ret (np, ip) s)"

definition close_fd :: "nat \<Rightarrow> 'a file_st_scheme \<Rightarrow> (unit, 'a file_st_scheme) io" where
  "close_fd fd s =
     (case ofile s ! fd of
        None \<Rightarrow> Ret () s
      | Some k \<Rightarrow> andthen (fileclose k s) (\<lambda>_ s. Ret () (s\<lparr>ofile := (ofile s)[fd := None]\<rparr>)))"

text \<open>\<open>exit\<close> from the closing of the files to the point where it has dropped its directory.\<close>

definition exit_files :: "'a file_st_scheme \<Rightarrow> (unit, 'a file_st_scheme) io" where
  "exit_files s =
     andthen (each close_fd [0..<File.NOFILE] s) (\<lambda>_ s.
     andthen (begin_op s) (\<lambda>_ s. andthen (iput (cwd s) s) (\<lambda>_ s. end_op s)))"

subsection \<open>All processes\<close>

text \<open>The entries of the table \<open>syscalls\<close> whose handlers are in src/sysfile.c; \<open>exec\<close> does not deal with
  descriptors.\<close>

fun sysfile :: "(nat \<Rightarrow> 'a file_st_scheme devsw) \<Rightarrow> sysno \<Rightarrow> ('a file_st_scheme \<Rightarrow> (i32, 'a file_st_scheme) io) option" where
  "sysfile dt SYS_pipe = Some sys_pipe"
| "sysfile dt SYS_read = Some (sys_read dt)"
| "sysfile dt SYS_fstat = Some sys_fstat"
| "sysfile dt SYS_chdir = Some (sys_chdir dt)"
| "sysfile dt SYS_dup = Some sys_dup"
| "sysfile dt SYS_open = Some (sys_open dt)"
| "sysfile dt SYS_write = Some (sys_write dt)"
| "sysfile dt SYS_mknod = Some (sys_mknod dt)"
| "sysfile dt SYS_unlink = Some (sys_unlink dt)"
| "sysfile dt SYS_link = Some (sys_link dt)"
| "sysfile dt SYS_mkdir = Some (sys_mkdir dt)"
| "sysfile dt SYS_close = Some sys_close"
| "sysfile dt _ = None"

text \<open>The files as process \<open>p\<close> with current directory \<open>d\<close> sees them.\<close>

definition as_proc :: "proc \<Rightarrow> nat \<Rightarrow> uproc \<Rightarrow> 'a file_st_scheme \<Rightarrow> 'a file_st_scheme" where
  "as_proc p d u s = s\<lparr>ofile := p_ofile p, cwd := d, curpid := p_pid p, killed := p_killed p, user := u\<rparr>"

definition idle :: "proc \<Rightarrow> bool" where
  "idle p \<longleftrightarrow> p_state p = UNUSED \<or> p_state p = EMBRYO \<or> p_state p = ZOMBIE"

text \<open>
  \<open>other\<close> stands for the remaining process functions, which touch neither descriptors nor files and make no
  process that is alive an unused one or a zombie: \<open>allocproc\<close>, \<open>wait\<close>, \<open>kill\<close>, \<open>sleep\<close>, \<open>wakeup\<close>, \<open>yield\<close> and the
  scheduler.
\<close>

inductive fd_step :: "(nat \<Rightarrow> 'a file_st_scheme devsw) \<Rightarrow> proc list \<times> 'a file_st_scheme \<Rightarrow> proc list \<times> 'a file_st_scheme \<Rightarrow> bool"
  for dt where
  call: "i < length ps \<Longrightarrow> p_state (ps ! i) = RUNNING \<Longrightarrow> p_cwd (ps ! i) = Some d \<Longrightarrow> sysfile dt n = Some h \<Longrightarrow>
    h (as_proc (ps ! i) d u s) = Ret r t \<Longrightarrow>
    fd_step dt (ps, s) (ps[i := (ps ! i)\<lparr>p_ofile := ofile t, p_cwd := Some (cwd t)\<rparr>], t)"
| fork: "i < length ps \<Longrightarrow> p_state (ps ! i) = RUNNING \<Longrightarrow> p_cwd (ps ! i) = Some d \<Longrightarrow>
    j < length ps \<Longrightarrow> p_state (ps ! j) = EMBRYO \<Longrightarrow> fork_files (p_ofile (ps ! j)) (as_proc (ps ! i) d u s) = Ret (np, ip) t \<Longrightarrow>
    fd_step dt (ps, s) (ps[j := (ps ! j)\<lparr>p_ofile := np, p_cwd := Some ip, p_state := RUNNABLE\<rparr>], t)"
| exit: "i < length ps \<Longrightarrow> p_state (ps ! i) = RUNNING \<Longrightarrow> p_cwd (ps ! i) = Some d \<Longrightarrow>
    exit_files (as_proc (ps ! i) d u s) = Ret () t \<Longrightarrow>
    fd_step dt (ps, s) (ps[i := (ps ! i)\<lparr>p_ofile := ofile t, p_cwd := None, p_state := ZOMBIE\<rparr>], t)"
| other: "map p_ofile qs = map p_ofile ps \<Longrightarrow> (\<forall>j < length ps. idle (qs ! j) \<longrightarrow> idle (ps ! j)) \<Longrightarrow> fd_step dt (ps, s) (qs, s)"

subsection \<open>The invariant\<close>

definition holders :: "proc list \<Rightarrow> nat \<Rightarrow> nat" where
  "holders ps k = sum_list (map (\<lambda>p. count_list (p_ofile p) (Some k)) ps)"

definition fds_ok :: "proc list \<times> 'a file_st_scheme \<Rightarrow> bool" where
  "fds_ok = (\<lambda>(ps, s). length ps = NPROC \<and> length (ftable s) = NFILE \<and>
     (\<forall>p \<in> set ps. length (p_ofile p) = File.NOFILE \<and> (\<forall>k. Some k \<in> set (p_ofile p) \<longrightarrow> k < NFILE) \<and>
        (idle p \<longrightarrow> p_ofile p = replicate File.NOFILE None)) \<and>
     (\<forall>k < NFILE. f_ref (file_at s k) = word_of_nat (holders ps k)))"

lemma holders_update:
  assumes "i < length ps"
  shows "int (holders (ps[i := p]) k) = int (holders ps k) - int (count_list (p_ofile (ps ! i)) (Some k)) + int (count_list (p_ofile p) (Some k))"
  using assms
proof (induction ps arbitrary: i)
  case (Cons q ps)
  then show ?case by (cases i) (auto simp: holders_def)
qed simp

definition elsewhere :: "proc list \<Rightarrow> nat \<Rightarrow> nat \<Rightarrow> int" where
  "elsewhere ps i k = int (holders ps k) - int (count_list (p_ofile (ps ! i)) (Some k))"

lemma holders_le: "\<forall>p \<in> set ps. length (p_ofile p) = n \<Longrightarrow> holders ps k \<le> length ps * n"
proof (induction ps)
  case (Cons p ps)
  then show ?case using count_list_le_length [of "p_ofile p" "Some k"] by (auto simp: holders_def)
qed (simp add: holders_def)

lemma fds_okD:
  assumes "fds_ok (ps, s)"
  shows "length ps = NPROC" "length (ftable s) = NFILE" "i < length ps \<Longrightarrow> length (p_ofile (ps ! i)) = File.NOFILE"
    "i < length ps \<Longrightarrow> Some k \<in> set (p_ofile (ps ! i)) \<Longrightarrow> k < NFILE"
    "i < length ps \<Longrightarrow> idle (ps ! i) \<Longrightarrow> p_ofile (ps ! i) = replicate File.NOFILE None"
    "k < NFILE \<Longrightarrow> f_ref (file_at s k) = word_of_nat (holders ps k)" "holders ps k \<le> 1024"
proof -
  show "i < length ps \<Longrightarrow> Some k \<in> set (p_ofile (ps ! i)) \<Longrightarrow> k < NFILE" using assms nth_mem [of i ps] unfolding fds_ok_def by blast
qed (use assms holders_le [of ps File.NOFILE k] in \<open>simp_all add: fds_ok_def NPROC_def File.NOFILE_def\<close>)

lemma as_proc_fields [simp]:
  "ofile (as_proc p d u s) = p_ofile p" "ftable (as_proc p d u s) = ftable s" "file_at (as_proc p d u s) k = file_at s k"
  by (simp_all add: as_proc_def file_at_def)

lemma elsewhere_less: "fds_ok (ps, s) \<Longrightarrow> elsewhere ps i k < 1990"
  using fds_okD(7) [of ps s k] by (simp add: elsewhere_def)

lemma as_proc_refs:
  assumes f: "fds_ok (ps, s)" and i: "i < length ps"
  shows "refs (elsewhere ps i) (as_proc (ps ! i) d u s)"
proof -
  have "elsewhere ps i k \<le> 2000" for k using elsewhere_less [OF f, of i k] by simp
  then show ?thesis using fds_okD(2-4,6) [OF f] i unfolding refs_def by (auto simp: elsewhere_def)
qed

lemma proc_refs_ok:
  assumes f: "fds_ok (ps, s)" and i: "i < length ps" and r: "refs (elsewhere ps i) t"
    and q: "p_ofile q = ofile t" "idle q \<Longrightarrow> ofile t = replicate File.NOFILE None"
  shows "fds_ok (ps[i := q], t)"
proof -
  have "f_ref (file_at t k) = word_of_nat (holders (ps[i := q]) k)" if "k < NFILE" for k
  proof -
    have "int (holders (ps[i := q]) k) = elsewhere ps i k + int (count_list (ofile t) (Some k))"
      using holders_update [OF i, of q k] q(1) by (simp add: elsewhere_def)
    then show ?thesis using refsD(6) [OF r that] by (metis of_int_of_nat_eq)
  qed
  moreover have "length (p_ofile p) = File.NOFILE \<and> (\<forall>k. Some k \<in> set (p_ofile p) \<longrightarrow> k < NFILE) \<and>
      (idle p \<longrightarrow> p_ofile p = replicate File.NOFILE None)" if "p \<in> set (ps[i := q])" for p
  proof -
    from that have "p = q \<or> p \<in> set ps" using set_update_subset_insert [of ps i q] by auto
    then show ?thesis
    proof
      assume "p = q"
      then show ?thesis using q refsD(2,3) [OF r] by auto
    qed (use f in \<open>simp add: fds_ok_def\<close>)
  qed
  ultimately show ?thesis using fds_okD(1) [OF f] refsD(1) [OF r] by (simp add: fds_ok_def)
qed

subsection \<open>Every step keeps it\<close>

lemma sysfile_refs:
  assumes r: "refs X s" and b: "\<forall>k. X k < 1990" and dt: "fd_devices dt" and h: "sysfile dt n = Some h" "h s = Ret v t"
  shows "refs X t"
proof -
  have b2: "\<forall>k. X k < 2000" using b by (auto intro: less_trans [of _ 1990])
  have "kept X (sys_dup s)" "kept X (sys_close s)" using sys_dup_refs [OF r b2] sys_close_refs [OF r b2] by (simp_all add: kept_def)
  note K = this sys_pipe_refs [OF r b] sys_open_refs [OF r dt] sys_read_refs [OF r dt] sys_write_refs [OF r dt] sys_fstat_refs [OF r]
    kept_fd [OF fd_sys_chdir [OF refl dt] r] kept_fd [OF fd_sys_mknod [OF refl dt] r] kept_fd [OF fd_sys_mkdir [OF refl dt] r]
    kept_fd [OF fd_sys_link [OF refl dt] r] kept_fd [OF fd_sys_unlink [OF refl dt] r]
  have "kept X (h s)" using h(1) by (cases n) (simp_all, auto simp only: K)
  then show ?thesis using h(2) by (simp add: kept_def)
qed

lemma close_fd_refs:
  assumes r: "refs X s" and b: "\<forall>k. X k < 1990" and i: "i < File.NOFILE" and f: "close_fd i s = Ret () t"
  shows "refs X t \<and> ofile t = (ofile s)[i := None]"
proof (cases "ofile s ! i")
  case None
  then have "(ofile s)[i := None] = ofile s" by (metis list_update_id)
  then show ?thesis using f r None by (simp add: close_fd_def)
next
  case (Some k)
  then obtain u where u: "fileclose k s = Ret () u" "t = u\<lparr>ofile := (ofile u)[i := None]\<rparr>"
    using f by (auto simp: close_fd_def andthen_Ret_iff)
  have "k < NFILE" using nth_mem [of i "ofile s"] Some i refsD(2,3) [OF r] by simp
  note c = fileclose_refs [OF r this u(1)]
  have "refs ((X(k := X k - 1))(k := (X(k := X k - 1)) k + 1)) t"
    unfolding u(2) using Some c(2) b [rule_format, of k] by (intro refs_ofile_clear [OF c(1) i]) simp_all
  then have "refs X t" by (rule refs_shift) simp
  then show ?thesis using u(2) c(2) by simp
qed

lemma each_close_refs:
  assumes "refs X s" "\<forall>k. X k < 1990" "set is \<subseteq> {..<File.NOFILE}" "each close_fd is s = Ret () t"
  shows "refs X t \<and> length (ofile t) = length (ofile s) \<and> (\<forall>i. (i \<in> set is \<or> ofile s ! i = None) \<and> i < length (ofile s) \<longrightarrow> ofile t ! i = None)"
  using assms
proof (induction "is" arbitrary: s)
  case (Cons a "is")
  then obtain u where u: "close_fd a s = Ret () u" "each close_fd is u = Ret () t" by (auto simp: andthen_Ret_iff)
  have c: "refs X u \<and> ofile u = (ofile s)[a := None]" using Cons.prems by (intro close_fd_refs [OF _ _ _ u(1)]) auto
  from Cons.IH [OF _ Cons.prems(2) _ u(2)] c Cons.prems(3)
  have t: "refs X t" "length (ofile t) = length (ofile s)"
    "\<forall>i. (i \<in> set is \<or> (ofile s)[a := None] ! i = None) \<and> i < length (ofile s) \<longrightarrow> ofile t ! i = None" by auto
  have "(ofile s)[a := None] ! i = None" if "i = a \<or> ofile s ! i = None" "i < length (ofile s)" for i
    using that by (cases "i = a") simp_all
  then show ?case using t by auto
qed simp

lemma exit_files_refs:
  assumes r: "refs X s" and b: "\<forall>k. X k < 1990" and f: "exit_files s = Ret () t"
  shows "refs X t" "ofile t = replicate File.NOFILE None"
proof -
  obtain u where u: "each close_fd [0..<File.NOFILE] s = Ret () u"
    "andthen (begin_op u) (\<lambda>_ s. andthen (iput (cwd s) s) (\<lambda>_ s. end_op s)) = Ret () t"
    using f by (auto simp: exit_files_def andthen_Ret_iff)
  have c: "refs X u \<and> length (ofile u) = length (ofile s) \<and> (\<forall>i. i < File.NOFILE \<longrightarrow> ofile u ! i = None)"
    using each_close_refs [OF r b _ u(1)] refsD(2) [OF r] by (auto simp: atLeast0LessThan)
  have "fd_fixed (fdv u) (andthen (begin_op u) (\<lambda>_ s. andthen (iput (cwd s) s) (\<lambda>_ s. end_op s)))" by (intro fd_frame) simp_all
  from fd_Ret [OF this u(2)] have e: "fdv t = fdv u" .
  show "refs X t" using refs_cong [OF e] c by simp
  show "ofile t = replicate File.NOFILE None" using e c refsD(2) [OF r] by (simp add: fdv_def list_eq_iff_nth_eq)
qed

lemma dup_files_refs:
  assumes "refs X s" "\<forall>k. X k + int (length is) < 2000" "set is \<subseteq> {..<File.NOFILE}" "distinct is" "length np = File.NOFILE"
    "\<forall>i \<in> set is. np ! i = None" "dup_files is np s = Ret np' t"
  shows "refs (\<lambda>k. X k + int (count_list np' (Some k)) - int (count_list np (Some k))) t \<and> ofile t = ofile s \<and>
    length np' = File.NOFILE \<and> (\<forall>i. np' ! i = (if i \<in> set is then ofile s ! i else np ! i))"
  using assms
proof (induction "is" arbitrary: X np s)
  case (Cons a "is")
  have xb: "X j + 1 + int (length is) < 2000" for j using Cons.prems(2) [rule_format, of j] by simp
  have xc: "X j + int (length is) < 2000" for j using xb [of j] by simp
  show ?case
  proof (cases "ofile s ! a")
    case None
    have b: "\<forall>k. X k + int (length is) < 2000" using xc by blast
    from Cons.IH [OF Cons.prems(1) b, of np] Cons.prems(3-7) None show ?thesis by auto
  next
    case (Some k)
    then obtain f u where u: "filedup k s = Ret f u" "dup_files is (np[a := Some f]) u = Ret np' t"
      using Cons.prems(7) by (auto simp: andthen_Ret_iff)
    have f: "f = k" "ofile u = ofile s" using u(1) by (auto simp: filedup_def upd_file_def split: if_splits)
    have a: "a < File.NOFILE" "np ! a = None" "a \<notin> set is" using Cons.prems(3,4,6) by auto
    have k: "k < NFILE" using nth_mem [of a "ofile s"] Some a(1) refsD(2,3) [OF Cons.prems(1)] by simp
    have r: "refs (X(k := X k + 1)) u" using xb [of k] by (intro filedup_refs [OF Cons.prems(1) k _ u(1)]) simp
    have b: "\<forall>j. (X(k := X k + 1)) j + int (length is) < 2000" using xb xc by simp
    have n: "\<forall>i \<in> set is. np[a := Some f] ! i = None" using Cons.prems(6) a(3) by (metis nth_list_update_neq list.set_intros(2))
    have IH: "refs (\<lambda>j. (X(k := X k + 1)) j + int (count_list np' (Some j)) - int (count_list (np[a := Some f]) (Some j))) t \<and> ofile t = ofile u \<and>
      length np' = File.NOFILE \<and> (\<forall>i. np' ! i = (if i \<in> set is then ofile u ! i else np[a := Some f] ! i))"
      using Cons.prems(3-5) by (intro Cons.IH [OF r b _ _ _ n u(2)]) simp_all
    have "int (count_list (np[a := Some f]) (Some j)) = int (count_list np (Some j)) + (if k = j then 1 else 0)" for j
      using count_list_update [of a np "Some f" "Some j"] a Cons.prems(5) f(1) by simp
    then have "refs (\<lambda>k. X k + int (count_list np' (Some k)) - int (count_list np (Some k))) t"
      by (intro refs_shift [OF conjunct1 [OF IH]]) simp
    moreover have "np' ! i = (if i \<in> set (a # is) then ofile s ! i else np ! i)" for i
      using IH f Some a Cons.prems(5) by (cases "i = a") simp_all
    ultimately show ?thesis using IH f(2) by simp
  qed
qed simp

lemma fork_files_refs:
  assumes r: "refs X s" and b: "\<forall>k. X k < 1984" and f: "fork_files (replicate File.NOFILE None) s = Ret (np, ip) t"
  shows "np = ofile s" "ofile t = ofile s" "refs (\<lambda>k. X k + int (count_list (ofile s) (Some k))) t"
proof -
  let ?n = "replicate File.NOFILE (None :: nat option)"
  obtain u where u: "dup_files [0..<File.NOFILE] ?n s = Ret np u" "t = upd_inode (cwd u) (\<lambda>x. x\<lparr>i_ref := i_ref x + 1\<rparr>) u"
    using f by (auto simp: fork_files_def andthen_Ret_iff idup_def)
  have b2: "\<forall>k. X k + int (length [0..<File.NOFILE]) < 2000" using b by (simp add: File.NOFILE_def)
  have d: "refs (\<lambda>k. X k + int (count_list np (Some k)) - int (count_list ?n (Some k))) u" "ofile u = ofile s" "length np = File.NOFILE"
    "\<forall>i. np ! i = (if i \<in> set [0..<File.NOFILE] then ofile s ! i else ?n ! i)"
    using dup_files_refs [OF r b2 _ _ _ _ u(1)] by (simp_all add: atLeast0LessThan)
  show np: "np = ofile s" using d(3,4) refsD(2) [OF r] by (simp add: list_eq_iff_nth_eq)
  have "fdv t = fdv u" by (simp add: u(2))
  then show "ofile t = ofile s" using d(2) by (simp add: fdv_def)
  have z: "count_list ?n (Some k) = 0" for k by (simp add: count_list_0_iff)
  have "refs (\<lambda>k. X k + int (count_list (ofile s) (Some k))) u" by (rule refs_shift [OF d(1)]) (simp add: np z)
  then show "refs (\<lambda>k. X k + int (count_list (ofile s) (Some k))) t" using refs_cong [OF \<open>fdv t = fdv u\<close>] by simp
qed

lemma fork_refs_ok:
  assumes f: "fds_ok (ps, s)" and i: "i < length ps" and j: "j < length ps" "p_state (ps ! j) = EMBRYO"
    and k: "fork_files (p_ofile (ps ! j)) (as_proc (ps ! i) d u s) = Ret (np, ip) t"
  shows "np = p_ofile (ps ! i)" "fds_ok (ps[j := (ps ! j)\<lparr>p_ofile := np, p_cwd := Some ip, p_state := RUNNABLE\<rparr>], t)"
proof -
  let ?q = "(ps ! j)\<lparr>p_ofile := np, p_cwd := Some ip, p_state := RUNNABLE\<rparr>"
  have e: "p_ofile (ps ! j) = replicate File.NOFILE None" using fds_okD(5) [OF f j(1)] j(2) by (simp add: idle_def)
  have "elsewhere ps i k < 1984" for k using fds_okD(7) [OF f, of k] by (simp add: elsewhere_def)
  then have b: "\<forall>k. elsewhere ps i k < 1984" by blast
  note d = fork_files_refs [OF as_proc_refs [OF f i] b k [unfolded e]]
  show np: "np = p_ofile (ps ! i)" using d(1) by simp
  have c0: "count_list (p_ofile (ps ! j)) (Some m) = 0" for m using e by (simp add: count_list_0_iff)
  have "refs (elsewhere ps j) (t\<lparr>ofile := p_ofile ?q\<rparr>)"
  proof -
    have "f_ref (file_at t m) = word_of_int (elsewhere ps i m + int (count_list (p_ofile (ps ! i)) (Some m)) + int (count_list (p_ofile (ps ! i)) (Some m)))" if "m < NFILE" for m
      using refsD(6) [OF d(3) that] d(2) by simp
    moreover have "int (holders ps m) \<le> 2000" for m using fds_okD(7) [OF f, of m] by simp
    ultimately show ?thesis
      using fds_okD(3,4) [OF f i] refsD(1) [OF d(3)] np unfolding refs_def by (auto simp: elsewhere_def c0 file_at_def)
  qed
  then have "fds_ok (ps[j := ?q], t\<lparr>ofile := p_ofile ?q\<rparr>)" by (rule proc_refs_ok [OF f j(1)]) (simp_all add: idle_def)
  then show "fds_ok (ps[j := ?q], t)" by (simp add: fds_ok_def file_at_def)
qed

lemma holders_cong: "map p_ofile qs = map p_ofile ps \<Longrightarrow> holders qs k = holders ps k"
proof -
  have "holders ps k = sum_list (map (\<lambda>x. count_list x (Some k)) (map p_ofile ps))" for ps by (simp add: holders_def comp_def)
  then show "map p_ofile qs = map p_ofile ps \<Longrightarrow> holders qs k = holders ps k" by (simp only:)
qed

lemma other_ok:
  assumes f: "fds_ok (ps, s)" and m: "map p_ofile qs = map p_ofile ps" and z: "\<forall>j < length ps. idle (qs ! j) \<longrightarrow> idle (ps ! j)"
  shows "fds_ok (qs, s)"
proof -
  have l: "length qs = length ps" using arg_cong [OF m, of length] by simp
  have e: "p_ofile (qs ! j) = p_ofile (ps ! j)" if "j < length ps" for j using arg_cong [OF m, of "\<lambda>xs. xs ! j"] that l by simp
  have "length (p_ofile p) = File.NOFILE \<and> (\<forall>k. Some k \<in> set (p_ofile p) \<longrightarrow> k < NFILE) \<and> (idle p \<longrightarrow> p_ofile p = replicate File.NOFILE None)"
    if "p \<in> set qs" for p
  proof -
    from that obtain j where j: "j < length ps" "p = qs ! j" using l by (auto simp: in_set_conv_nth)
    have "idle (qs ! j) \<Longrightarrow> idle (ps ! j)" using z j(1) by simp
    then show ?thesis unfolding j(2) e [OF j(1)] using fds_okD(3,5) [OF f j(1)] fds_okD(4) [OF f j(1)] by simp
  qed
  then show ?thesis using fds_okD(1,2,6) [OF f] l holders_cong [OF m] by (simp add: fds_ok_def)
qed

lemma fd_step_ok:
  assumes "fd_step dt x y" "fd_devices dt" "fds_ok x"
  shows "fds_ok y"
  using assms
proof (induction rule: fd_step.induct)
  case (call i ps d n h u s r t)
  have "refs (elsewhere ps i) t"
    using elsewhere_less [OF call.prems(2)] by (intro sysfile_refs [OF as_proc_refs [OF call.prems(2) call.hyps(1)] _ call.prems(1) call.hyps(4,5)]) blast
  then show ?case by (rule proc_refs_ok [OF call.prems(2) call.hyps(1)]) (use call.hyps(2) in \<open>simp_all add: idle_def\<close>)
next
  case (fork i ps d j u s np ip t)
  then show ?case using fork_refs_ok(2) by blast
next
  case (exit i ps d u s t)
  have b: "\<forall>k. elsewhere ps i k < 1990" using elsewhere_less [OF exit.prems(2)] by blast
  note e = exit_files_refs [OF as_proc_refs [OF exit.prems(2) exit.hyps(1)] b exit.hyps(4)]
  show ?case by (rule proc_refs_ok [OF exit.prems(2) exit.hyps(1) e(1)]) (simp_all add: e(2))
next
  case (other qs ps s)
  then show ?case using other_ok by blast
qed

subsection \<open>The driver of the console\<close>

lemma fdv_cons_upd [simp]:
  "fdv (s\<lparr>input := a\<rparr>) = fdv s" "fdv (s\<lparr>crt := b\<rparr>) = fdv s" "fdv (s\<lparr>cursor := c\<rparr>) = fdv s" "fdv (s\<lparr>serial := e\<rparr>) = fdv s"
  by (simp_all add: fdv_def)

lemma fd_consputc [fd_frame]: "fdv s = x \<Longrightarrow> fd_fixed x (consputc c s)"
  by (simp add: consputc_def cgaputc_def Let_def)

lemma fd_console: "fd_devices console_devsw"
proof -
  have "fd_fixed (fdv s) (consoleread ip n s)" for ip n and s :: "'a cons_st_scheme"
    unfolding consoleread_def Let_def
    by (rule fd_andthen, rule fd_iunlock) (auto split: prod.split cread.split intro!: fd_frame)
  moreover have "fd_fixed (fdv s) (consolewrite ip bs n s)" for ip bs n and s :: "'a cons_st_scheme"
    unfolding consolewrite_def by (intro fd_frame) simp_all
  ultimately show ?thesis by (auto simp: fd_devices_def console_devsw_def split: if_splits)
qed

subsection \<open>Exact counts\<close>

text \<open>
  C5. Reference counts of open files are exact.  Whatever sequence of file-system calls, forks and exits the
  processes make, the count of each file is the number of descriptors in all processes that refer to it.  So
  the counts never overflow, no open descriptor makes \<open>filedup\<close> or \<open>fileclose\<close> panic, \<open>filealloc\<close> hands out only a
  file that no process has open, and processes that are not alive have no descriptor.
\<close>

theorem file_refs_exact:
  assumes "fds_ok (ps, s)" "rtranclp (fd_step console_devsw) (ps, s) (qs, t)"
  shows "fds_ok (qs, t) \<and> (\<forall>k < NFILE. sint (f_ref (file_at t k)) = int (holders qs k)) \<and>
    (\<forall>i < length qs. \<forall>k. Some k \<in> set (p_ofile (qs ! i)) \<longrightarrow> \<not> f_ref (file_at t k) <s 1) \<and>
    (\<forall>k u. filealloc t = (Some k, u) \<longrightarrow> (\<forall>p \<in> set qs. Some k \<notin> set (p_ofile p)))"
proof -
  have f: "fds_ok (qs, t)" using assms(2,1)
    by (induction "(qs, t)" arbitrary: qs t rule: rtranclp_induct) (auto intro: fd_step_ok [OF _ fd_console])
  have e: "sint (f_ref (file_at t k)) = int (holders qs k)" if "k < NFILE" for k
    unfolding fds_okD(6) [OF f that] using sint_word_of_int_small [of "int (holders qs k)"] fds_okD(7) [OF f, of k] by simp
  have pos: "0 < holders qs k" if "p \<in> set qs" "Some k \<in> set (p_ofile p)" for p k
    using that by (force simp: holders_def count_list_0_iff sum_list_eq_0_iff zero_less_iff_neq_zero)
  have "\<not> f_ref (file_at t k) <s 1" if "i < length qs" "Some k \<in> set (p_ofile (qs ! i))" for i k
    using e [OF fds_okD(4) [OF f that]] pos [OF nth_mem [OF that(1)] that(2)] by (simp add: word_sless_alt)
  moreover have "Some k \<notin> set (p_ofile p)" if "filealloc t = (Some k, u)" "p \<in> set qs" for k u p
  proof
    assume "Some k \<in> set (p_ofile p)"
    with pos that(2) have "0 < holders qs k" by blast
    moreover have "f_ref (file_at t k) = 0" "k < NFILE"
      using that(1) fds_okD(2) [OF f] by (auto simp: filealloc_def scan_Some_iff file_at_def split: option.splits)
    ultimately show False using e [of k] by simp
  qed
  ultimately show ?thesis using f e by blast
qed

text \<open>A process with one open file forks.\<close>

definition demo_procs :: "proc list" where
  "demo_procs =
     blank_proc\<lparr>p_state := RUNNING, p_pid := 1, p_ofile := Some 0 # replicate 15 None, p_cwd := Some 0\<rparr> #
     blank_proc\<lparr>p_state := EMBRYO, p_pid := 2, p_ofile := replicate 16 None\<rparr> #
     replicate 62 (blank_proc\<lparr>p_ofile := replicate 16 None\<rparr>)"

definition demo_opened :: cons_st where
  "demo_opened = \<lparr>disk = \<lambda>_. [], disksize = 1000, dwrites = [], bufs = [], mru = [], curpid = 1, lstart = 2, lsize = 30,
     outstanding = 0, committing = False, ldev = 1, lh_n = 0, lh_block = [],
     fsb = \<lparr>sb_size = 1000, sb_nblocks = 941, sb_ninodes = 200, sb_nlog = 30, sb_logstart = 2, sb_inodestart = 32, sb_bmapstart = 58\<rparr>,
     icache = [\<lparr>i_dev = 1, i_inum = 1, i_ref = 2, i_lock = initsleeplock, i_valid = True, i_type = T_DIR, i_major = 0,
       i_minor = 0, i_nlink = 1, i_size = 0, i_addrs = []\<rparr>], cwd = 0,
     ftable = \<lparr>f_type = FD_INODE, f_ref = 1, f_readable = True, f_writable = False, f_pipe = 0, f_ip = 0, f_off = 0\<rparr> #
       replicate 99 \<lparr>f_type = FD_NONE, f_ref = 0, f_readable = False, f_writable = False, f_pipe = 0, f_ip = 0, f_off = 0\<rparr>,
     pages = [], pipes = \<lambda>_. demo_pipe, ofile = [], killed = False, user = \<lparr>usz = 0, uesp = 0, umem = \<lambda>_. 0\<rparr>,
     input = \<lparr>c_buf = replicate INPUT_BUF 0, c_r = 0, c_w = 0, c_e = 0\<rparr>, crt = \<lambda>_. 0, cursor = 0, serial = [], panicked = False\<rparr>"

lemma demo_holders: "holders demo_procs k = (if k = 0 then 1 else 0)"
proof -
  have "count_list (replicate n (None :: nat option)) (Some k) = 0" for n by (simp add: count_list_0_iff)
  then show ?thesis by (simp add: holders_def demo_procs_def sum_list_replicate)
qed

lemma demo_fds_ok: "fds_ok (demo_procs, demo_opened)"
proof -
  have "f_ref (file_at demo_opened k) = word_of_nat (holders demo_procs k)" if "k < NFILE" for k
    using that by (cases k) (simp_all add: demo_holders demo_opened_def file_at_def NFILE_def)
  then show ?thesis
    unfolding fds_ok_def by (auto simp: NPROC_def NFILE_def File.NOFILE_def demo_procs_def demo_opened_def idle_def blank_proc_def)
qed

theorem file_refs_exact_witness:
  "fds_ok (demo_procs, demo_opened) \<and>
   (\<exists>qs t. fd_step console_devsw (demo_procs, demo_opened) (qs, t) \<and> p_ofile (qs ! 1) = p_ofile (qs ! 0) \<and>
      holders qs 0 = 2 \<and> sint (f_ref (file_at t 0)) = 2)"
proof -
  let ?s = "as_proc (demo_procs ! 0) 0 (user demo_opened) demo_opened"
  have p: "demo_procs ! Suc 0 = blank_proc\<lparr>p_state := EMBRYO, p_pid := 2, p_ofile := replicate 16 None\<rparr>"
    "demo_procs ! 0 = blank_proc\<lparr>p_state := RUNNING, p_pid := 1, p_ofile := Some 0 # replicate 15 None, p_cwd := Some 0\<rparr>"
    "length demo_procs = 64" by (simp_all add: demo_procs_def)
  have "ofile ?s = Some 0 # replicate 15 None" by (simp add: p)
  moreover have "\<not> f_ref (file_at demo_opened 0) <s 1" by (simp add: demo_opened_def file_at_def)
  ultimately obtain np ip t where k: "fork_files (p_ofile (demo_procs ! 1)) ?s = Ret (np, ip) t"
    by (simp add: fork_files_def File.NOFILE_def upt_rec numeral_nat filedup_def idup_def upd_file_def p)
  let ?qs = "demo_procs[1 := (demo_procs ! 1)\<lparr>p_ofile := np, p_cwd := Some ip, p_state := RUNNABLE\<rparr>]"
  have st: "fd_step console_devsw (demo_procs, demo_opened) (?qs, t)"
    using k by (intro fd_step.fork [where i = 0]) (simp_all add: p)
  have np: "np = p_ofile (demo_procs ! 0)" using fork_refs_ok(1) [OF demo_fds_ok _ _ _ k] by (simp add: p)
  have "holders ?qs 0 = 2"
    using holders_update [of 1 demo_procs "(demo_procs ! 1)\<lparr>p_ofile := np, p_cwd := Some ip, p_state := RUNNABLE\<rparr>" 0]
    by (simp add: np p demo_holders count_list_0_iff)
  moreover have "sint (f_ref (file_at t 0)) = int (holders ?qs 0)"
    using file_refs_exact [OF demo_fds_ok r_into_rtranclp [of "fd_step console_devsw", OF st]] by (simp add: NFILE_def)
  moreover have "p_ofile (?qs ! 1) = p_ofile (?qs ! 0)" by (simp add: np p)
  ultimately show ?thesis using demo_fds_ok st by (intro conjI exI [of _ ?qs] exI [of _ t]) simp_all
qed

end
