(* ===== verification/Mkfs.thy ===== *)
theory Mkfs
  imports FS
begin

text \<open>
  The tool that makes a file system image (src/mkfs.c).  The image is a map from sectors to blocks, a
  sector that was never written has none and cannot be read.  \<open>exit(1)\<close> after a failed read and a failed
  \<open>assert\<close> are the outcome \<open>Panic\<close>.  The files named on the command line are an argument: a name, and the
  blocks \<open>read\<close> returns for it or nothing if it cannot be opened.
\<close>

definition FSSIZE :: nat where "FSSIZE = 1000"
definition NINODES :: nat where "NINODES = 200"
definition nbitmap :: nat where "nbitmap = FSSIZE div (BSIZE * 8) + 1"
definition ninodeblocks :: nat where "ninodeblocks = NINODES div IPB + 1"
definition nlog :: nat where "nlog = LOGSIZE"
definition nmeta :: nat where "nmeta = 2 + nlog + ninodeblocks + nbitmap"
definition nblocks :: nat where "nblocks = FSSIZE - nmeta"

record img =
  sectors :: "u32 \<rightharpoonup> block"
  isb :: superblock
  freeinode :: u32
  freeblock :: u32

text \<open>The bytes of a number in Intel order, read back as a number of the host, itself a little-endian machine.\<close>

definition xshort :: "u16 \<Rightarrow> u16" where
  "xshort x = get16 [word_of_nat (unat x), word_of_nat (unat x div 256)] 0"

definition xint :: "u32 \<Rightarrow> u32" where
  "xint x = get32 [word_of_nat (unat x), word_of_nat (unat x div 256), word_of_nat (unat x div 256 div 256),
     word_of_nat (unat x div 256 div 256 div 256)] 0"

definition wsect :: "u32 \<Rightarrow> block \<Rightarrow> img \<Rightarrow> img" where
  "wsect sec buf s = s\<lparr>sectors := (sectors s)(sec \<mapsto> buf)\<rparr>"

definition rsect :: "u32 \<Rightarrow> img \<Rightarrow> (block, img) io" where
  "rsect sec s = (case sectors s sec of Some buf \<Rightarrow> Ret buf s | None \<Rightarrow> Panic ''read'' s)"

definition winode :: "u32 \<Rightarrow> dinode \<Rightarrow> img \<Rightarrow> (unit, img) io" where
  "winode inum ip s =
     (let bn = IBLOCK inum (isb s) in
      andthen (rsect bn s) (\<lambda>buf s. Ret () (wsect bn (put_dinode ip (ioff inum) buf) s)))"

definition rinode :: "u32 \<Rightarrow> img \<Rightarrow> (dinode, img) io" where
  "rinode inum s =
     (let bn = IBLOCK inum (isb s) in
      andthen (rsect bn s) (\<lambda>buf s. Ret (dinode_of buf (ioff inum)) s))"

definition ialloc_mkfs :: "u16 \<Rightarrow> img \<Rightarrow> (u32, img) io" where
  "ialloc_mkfs ty s =
     (let inum = freeinode s; s = s\<lparr>freeinode := freeinode s + 1\<rparr>;
          din = \<lparr>d_type = xshort ty, d_major = 0, d_minor = 0, d_nlink = xshort 1, d_size = xint 0, d_addrs = replicate (NDIRECT + 1) 0\<rparr> in
      andthen (winode inum din s) (\<lambda>_ s. Ret inum s))"

definition balloc_mkfs :: "nat \<Rightarrow> img \<Rightarrow> (unit, img) io" where
  "balloc_mkfs used s =
     (if used < BSIZE * 8 then
        let buf = fold (\<lambda>i buf. buf[i div 8 := or (buf ! (i div 8)) (bit_mask i)]) [0..<used] (replicate BSIZE 0) in
        Ret () (wsect (sb_bmapstart (isb s)) buf s)
      else Panic ''assert'' s)"

text \<open>The part of the loop of \<open>iappend\<close> that finds the sector of block \<open>fbn\<close> of the file, taking the next free
  one where there is none.\<close>

definition next_block :: "img \<Rightarrow> u32 \<times> img" where
  "next_block s = (freeblock s, s\<lparr>freeblock := freeblock s + 1\<rparr>)"

definition addr_slot :: "dinode \<Rightarrow> nat \<Rightarrow> img \<Rightarrow> dinode \<times> img" where
  "addr_slot din i s =
     (if xint (d_addrs din ! i) = 0 then
        case next_block s of (b, s) \<Rightarrow> (din\<lparr>d_addrs := (d_addrs din)[i := xint b]\<rparr>, s)
      else (din, s))"

definition iappend_addr :: "dinode \<Rightarrow> nat \<Rightarrow> img \<Rightarrow> (dinode \<times> u32, img) io" where
  "iappend_addr din fbn s =
     (if fbn < NDIRECT then
        case addr_slot din fbn s of (din, s) \<Rightarrow> Ret (din, xint (d_addrs din ! fbn)) s
      else
        case addr_slot din NDIRECT s of (din, s) \<Rightarrow>
          andthen (rsect (xint (d_addrs din ! NDIRECT)) s) (\<lambda>indirect s.
            if get32 indirect (4 * (fbn - NDIRECT)) = 0 then
              case next_block s of (b, s) \<Rightarrow>
                let indirect = put32 indirect (4 * (fbn - NDIRECT)) (xint b);
                    s = wsect (xint (d_addrs din ! NDIRECT)) indirect s in
                Ret (din, xint (get32 indirect (4 * (fbn - NDIRECT)))) s
            else Ret (din, xint (get32 indirect (4 * (fbn - NDIRECT)))) s))"

function iappend_loop :: "dinode \<Rightarrow> nat \<Rightarrow> u8 list \<Rightarrow> img \<Rightarrow> (dinode \<times> nat, img) io" where
  "iappend_loop din off p s =
     (if p = [] then Ret (din, off) s
      else
        let fbn = off div BSIZE in
        if \<not> fbn < MAXFILE then Panic ''assert'' s
        else
          andthen (iappend_addr din fbn s) (\<lambda>(din, x) s.
          let n1 = min (length p) ((fbn + 1) * BSIZE - off) in
          andthen (rsect x s) (\<lambda>buf s.
          let q = off - fbn * BSIZE; s = wsect x (take q buf @ take n1 p @ drop (q + n1) buf) s in
          iappend_loop din (off + n1) (drop n1 p) s)))"
  by auto
termination
proof (relation "measure (\<lambda>(din, off, p, s). length p)", goal_cases)
  case (2 din off p s)
  have "off < (off div BSIZE + 1) * BSIZE" using dividend_less_div_times [of BSIZE off] by (simp add: BSIZE_def)
  then show ?case using 2 by auto
qed simp

definition iappend :: "u32 \<Rightarrow> u8 list \<Rightarrow> img \<Rightarrow> (unit, img) io" where
  "iappend inum p s =
     andthen (rinode inum s) (\<lambda>din s.
     andthen (iappend_loop din (unat (xint (d_size din))) p s) (\<lambda>(din, off) s.
     winode inum (din\<lparr>d_size := xint (word_of_nat off)\<rparr>) s))"

definition dot_entry :: "u32 \<Rightarrow> u8 list \<Rightarrow> u8 list" where
  "dot_entry inum name = put16 (0 # 0 # name_field name) 0 (xshort (ucast inum))"

text \<open>The body of the loop of \<open>main\<close> over the files; a leading underscore of the name is skipped.\<close>

definition UNDERSCORE :: u8 where "UNDERSCORE = 95"

definition mkfs_file :: "u32 \<Rightarrow> u8 list \<times> u8 list list option \<Rightarrow> img \<Rightarrow> (unit, img) io" where
  "mkfs_file rootino f s =
     (case f of (name, chunks) \<Rightarrow>
        if SLASH \<in> set name then Panic ''assert'' s
        else
          case chunks of
            None \<Rightarrow> Panic ''open'' s
          | Some cs \<Rightarrow>
              let name = (if chr_at name 0 = UNDERSCORE then tl name else name) in
              andthen (ialloc_mkfs T_FILE s) (\<lambda>inum s.
              andthen (iappend rootino (dot_entry inum name) s) (\<lambda>_ s.
              each (iappend inum) cs s)))"

definition mkfs_sb :: superblock where
  "mkfs_sb = \<lparr>sb_size = xint (word_of_nat FSSIZE), sb_nblocks = xint (word_of_nat nblocks), sb_ninodes = xint (word_of_nat NINODES),
     sb_nlog = xint (word_of_nat nlog), sb_logstart = xint 2, sb_inodestart = xint (word_of_nat (2 + nlog)),
     sb_bmapstart = xint (word_of_nat (2 + nlog + ninodeblocks))\<rparr>"

definition sb_bytes :: "superblock \<Rightarrow> block" where
  "sb_bytes b = put32s 0 [sb_size b, sb_nblocks b, sb_ninodes b, sb_nlog b, sb_logstart b, sb_inodestart b, sb_bmapstart b] (replicate BSIZE 0)"

text \<open>The image before the first inode: zeros and the super block.\<close>

definition mkfs_init :: img where
  "mkfs_init =
     (let s = \<lparr>sectors = Map.empty, isb = mkfs_sb, freeinode = 1, freeblock = word_of_nat nmeta\<rparr>;
          s = fold (\<lambda>i. wsect (word_of_nat i) (replicate BSIZE 0)) [0..<FSSIZE] s in
      wsect 1 (sb_bytes mkfs_sb) s)"

text \<open>The size of the root directory rounded up to a multiple of the block size.\<close>

definition fix_root :: "u32 \<Rightarrow> img \<Rightarrow> (unit, img) io" where
  "fix_root rootino s =
     andthen (rinode rootino s) (\<lambda>din s.
     let off = xint (d_size din); off = (off div word_of_nat BSIZE + 1) * word_of_nat BSIZE in
     winode rootino (din\<lparr>d_size := xint off\<rparr>) s)"

definition DOT :: u8 where "DOT = 46"

definition mkfs :: "(u8 list \<times> u8 list list option) list \<Rightarrow> (unit, img) io" where
  "mkfs files =
     andthen (ialloc_mkfs T_DIR mkfs_init) (\<lambda>rootino s.
     if rootino \<noteq> ROOTINO then Panic ''assert'' s
     else
       andthen (iappend rootino (dot_entry rootino [DOT]) s) (\<lambda>_ s.
       andthen (iappend rootino (dot_entry rootino [DOT, DOT]) s) (\<lambda>_ s.
       andthen (each (mkfs_file rootino) files s) (\<lambda>_ s.
       andthen (fix_root rootino s) (\<lambda>_ s.
       balloc_mkfs (unat (freeblock s)) s)))))"

declare iappend_loop.simps [simp del]

end
