(* ===== verification/Log_Props.thy ===== *)
theory Log_Props
  imports Log
begin

text \<open>
  Correctness of the write-ahead log: the sequence of disk writes of a commit, the effect of recovery,
  and the atomicity of the commit under a crash after any prefix of its writes.
\<close>

subsection \<open>Sequences of block writes\<close>

definition apply_writes :: "(u32 \<times> block) list \<Rightarrow> (u32 \<Rightarrow> block) \<Rightarrow> u32 \<Rightarrow> block" where
  "apply_writes ws f = fold (\<lambda>(no, d) f. f(no := d)) ws f"

definition wrote_all :: "(u32 \<times> block) list \<Rightarrow> store \<Rightarrow> store" where
  "wrote_all ws a = a\<lparr>aview := apply_writes ws (aview a), adisk := apply_writes ws (adisk a),
     awrites := awrites a @ ws, adirty := adirty a - fst ` set ws\<rparr>"

lemma apply_writes_simps [simp]:
  "apply_writes [] f = f" "apply_writes ((no, d) # ws) f = apply_writes ws (f(no := d))"
  "apply_writes (ws @ vs) f = apply_writes vs (apply_writes ws f)"
  by (simp_all add: apply_writes_def)

lemma apply_writes_other: "no \<notin> fst ` set ws \<Longrightarrow> apply_writes ws f no = f no"
  by (induction ws arbitrary: f) auto

lemma apply_writes_in:
  "distinct (map fst ws) \<Longrightarrow> (no, d) \<in> set ws \<Longrightarrow> apply_writes ws f no = d"
proof (induction ws arbitrary: f)
  case (Cons w ws)
  then show ?case
    using apply_writes_other [of no ws] by (cases w) (force simp: image_iff)
qed simp

lemma wrote_all_simps:
  "wrote_all [] a = a" "wrote_all (ws @ [(no, d)]) a = wrote no d (wrote_all ws a)"
proof -
  have "adirty a - insert no (fst ` set ws) = adirty a - fst ` set ws - {no}" by blast
  then show "wrote_all [] a = a" "wrote_all (ws @ [(no, d)]) a = wrote no d (wrote_all ws a)"
    by (simp_all add: wrote_all_def wrote_def)
qed

lemma wrote_wrote_all: "wrote no d a = wrote_all [(no, d)] a"
  by (simp add: wrote_all_def wrote_def)

lemma wrote_all_wrote_all: "wrote_all ws (wrote_all vs a) = wrote_all (vs @ ws) a"
proof -
  have "adirty a - (fst ` set vs \<union> fst ` set ws) = adirty a - fst ` set vs - fst ` set ws" by blast
  then show ?thesis by (simp add: wrote_all_def image_Un)
qed

lemma each_ok:
  assumes "P 0 s" "\<And>k s. k < length xs \<Longrightarrow> P k s \<Longrightarrow> \<exists>t. f (xs ! k) s = Ret () t \<and> P (Suc k) t"
  shows "\<exists>t. each f xs s = Ret () t \<and> P (length xs) t"
  using assms
proof (induction xs arbitrary: s P)
  case (Cons x xs)
  obtain s1 where s1: "f x s = Ret () s1" "P 1 s1" using Cons.prems(2) [of 0 s] Cons.prems(1) by auto
  have "\<exists>t. each f xs s1 = Ret () t \<and> P (Suc (length xs)) t"
  proof (rule Cons.IH)
    show "P (Suc 0) s1" using s1 by simp
    show "\<exists>t. f (xs ! k) s = Ret () t \<and> P (Suc (Suc k)) t" if "k < length xs" "P (Suc k) s" for k s
      using Cons.prems(2) [of "Suc k" s] that by simp
  qed
  then show ?case using s1 by auto
qed simp

subsection \<open>The log in use\<close>

text \<open>\<open>log_area\<close>: the header block and the blocks behind it.  \<open>logged s\<close>: the home blocks of the
  transaction.  \<open>log_ready s\<close>: nobody holds a buffer and the log is well-formed.\<close>

definition log_area :: "u32 \<Rightarrow> u32 set" where
  "log_area start = {no. unat start \<le> unat no \<and> unat no \<le> unat start + LOGSIZE}"

definition logged :: "'a lstate_scheme \<Rightarrow> u32 list" where
  "logged s = take (nat (sint (lh_n s))) (lh_block s)"

definition homes_ok :: "u32 \<Rightarrow> u32 \<Rightarrow> u32 list \<Rightarrow> bool" where
  "homes_ok start dsz bl \<longleftrightarrow> distinct bl \<and> (\<forall>no \<in> set bl. no < dsz \<and> no \<notin> log_area start)"

definition log_ready :: "'a lstate_scheme \<Rightarrow> bool" where
  "log_ready s \<longleftrightarrow> cache_inv s \<and> held s = {} \<and> ldev s = 1 \<and> length (lh_block s) = LOGSIZE \<and>
     0 \<le> sint (lh_n s) \<and> nat (sint (lh_n s)) \<le> LOGSIZE \<and>
     unat (lstart s) + LOGSIZE < unat (disksize s) \<and> homes_ok (lstart s) (disksize s) (logged s)"

lemma frame_log:
  assumes "frame s t"
  shows "lstart t = lstart s" "lsize t = lsize s" "outstanding t = outstanding s" "committing t = committing s"
    "ldev t = ldev s" "lh_n t = lh_n s" "lh_block t = lh_block s" "logged t = logged s" "log_block k t = log_block k s"
  using assms by (cases s; cases t; simp add: frame_def logged_def log_block_def)+

lemma logged_length: "log_ready s \<Longrightarrow> length (logged s) = nat (sint (lh_n s))"
  by (simp add: log_ready_def logged_def)

lemma log_block_unat:
  assumes "log_ready s" "k < LOGSIZE"
  shows "unat (log_block k s) = unat (lstart s) + k + 1"
proof -
  have "unat (lstart s) + LOGSIZE < 2 ^ 32"
    using assms(1) unsigned_less [of "disksize s", where 'a = nat] by (simp add: log_ready_def)
  have k: "unat (word_of_nat (Suc k) :: u32) = Suc k"
    using assms(2) unfolding unat_of_nat by (simp add: LOGSIZE_def)
  have "unat (lstart s + word_of_nat (Suc k)) = unat (lstart s) + Suc k"
    using assms(2) \<open>_ < 2 ^ 32\<close> unfolding unat_word_ariths k by simp
  then show ?thesis by (simp add: log_block_def algebra_simps)
qed

lemma log_block_facts:
  assumes "log_ready s" "k < LOGSIZE"
  shows "log_block k s < disksize s" "log_block k s \<in> log_area (lstart s)" "log_block k s \<noteq> lstart s"
    "j < LOGSIZE \<Longrightarrow> log_block k s = log_block j s \<longleftrightarrow> k = j"
  using log_block_unat [OF assms] log_block_unat [OF assms(1), of j] assms
  by (auto simp: word_less_nat_alt log_ready_def log_area_def word_unat_eq_iff)

lemma start_facts: "log_ready s \<Longrightarrow> lstart s < disksize s" "lstart s \<in> log_area (lstart s)"
  by (auto simp: word_less_nat_alt log_ready_def log_area_def)

subsection \<open>The loops of a commit\<close>

lemma view_length:
  assumes "cache_inv s"
  shows "length (view s no) = BSIZE"
proof (cases "\<exists>i. cached s no i \<and> bvalid (bufp s i)")
  case True
  then obtain i where "cached s no i" "bvalid (bufp s i)" by blast
  then show ?thesis
    using view_cached [OF assms] buf_okD [OF assms cached_less [OF assms]] by (auto simp: buf_ok_def)
next
  case False
  then show ?thesis using view_uncached [of s no] assms by (auto simp: cache_inv_def)
qed

lemma upto_n_eq: "upto_n n = [0..<nat (sint n)]"
  by (simp add: upto_n_def)

lemma logged_nth: "k < length (logged s) \<Longrightarrow> logged s ! k = lh_block s ! k"
  by (simp add: logged_def)

lemma logged_home:
  assumes "log_ready s" "k < length (logged s)"
  shows "logged s ! k < disksize s" "logged s ! k \<notin> log_area (lstart s)"
  using assms nth_mem [OF assms(2)] by (auto simp: log_ready_def homes_ok_def)

definition log_copies :: "'a lstate_scheme \<Rightarrow> nat \<Rightarrow> (u32 \<times> block) list" where
  "log_copies s k = map (\<lambda>j. (log_block j s, view s (logged s ! j))) [0..<k]"

lemma copy_to_log_ok:
  assumes ready: "log_ready s" and fr: "frame s u" and inv: "cache_inv u" and a: "aheld (absc u) = {}" "adirty (absc u) = set (logged s)"
    and k: "k < length (logged s)" and n: "length (logged s) < LOGSIZE"
  shows "\<exists>t. copy_to_log k u = Ret () t \<and> cache_inv t \<and>
    absc t = wrote (log_block k s) (aview (absc u) (logged s ! k)) (absc u) \<and> frame u t"
  unfolding copy_to_log_def
proof (rule bc.copy_to_first [OF inv a(1)])
  note f = frame_log [OF fr]
  have k': "k < LOGSIZE" using k n by simp
  have h: "logged s ! k \<in> set (logged s)" using k by simp
  show "log_block k s < disksize u" "logged s ! k < disksize u"
    using log_block_facts(1) [OF ready k'] logged_home(1) [OF ready k] fr by (auto simp: frame_def)
  show "log_block k s \<noteq> logged s ! k" using log_block_facts(2) [OF ready k'] logged_home(2) [OF ready k] by auto
  show "card (adirty (absc u)) < NBUF"
    using card_length [of "logged s"] n a by (simp add: NBUF_def LOGSIZE_def)
  show "logged s ! k \<in> adirty (absc u) \<or> card (insert (log_block k s) (adirty (absc u))) < NBUF"
    "logged s ! k \<in> adirty (absc u) \<or> aview (absc u) (logged s ! k) = adisk (absc u) (logged s ! k)"
    using h a by simp_all
  show "bread (ldev u) (log_block k u) u = bread 1 (log_block k s) u" using ready f by (simp add: log_ready_def)
  show "bread (ldev t) (lh_block t ! k) t = bread 1 (logged s ! k) t" if "frame u t" for t
    using ready f frame_log [OF that] k by (simp add: log_ready_def logged_nth)
qed

lemma write_log_ok:
  assumes ready: "log_ready s" and dirty: "dirty s = set (logged s)" and n: "length (logged s) < LOGSIZE"
  shows "\<exists>t. write_log s = Ret () t \<and> cache_inv t \<and> frame s t \<and>
    absc t = wrote_all (log_copies s (length (logged s))) (absc s)"
proof -
  let ?N = "length (logged s)"
  let ?P = "\<lambda>k t. cache_inv t \<and> frame s t \<and> absc t = wrote_all (log_copies s k) (absc s)"
  have N: "?N = nat (sint (lh_n s))" by (rule logged_length [OF ready])
  have area: "log_block j s \<notin> set (logged s)" if "j < LOGSIZE" for j
    using log_block_facts(2) [OF ready that] ready by (auto simp: log_ready_def homes_ok_def)
  have "\<exists>t. write_log s = Ret () t \<and> ?P (length [0..<?N]) t"
    unfolding write_log_def upto_n_eq N [symmetric]
  proof (rule each_ok)
    show "?P 0 s" using ready by (simp add: log_ready_def log_copies_def wrote_all_simps)
    fix k u assume k: "k < length [0..<?N]" and P: "?P k u"
    then have kN: "k < ?N" and inv: "cache_inv u" and fr: "frame s u"
      and a: "absc u = wrote_all (log_copies s k) (absc s)" by simp_all
    have dj: "fst ` set (log_copies s k) \<inter> set (logged s) = {}"
      using area n kN by (auto simp: log_copies_def)
    have ad: "adirty (absc u) = set (logged s)"
      unfolding a using dj dirty by (auto simp: wrote_all_def absc_def)
    have ah: "aheld (absc u) = {}" unfolding a using ready by (simp add: wrote_all_def absc_def log_ready_def)
    have "logged s ! k \<notin> fst ` set (log_copies s k)" using dj nth_mem [OF kN] by blast
    then have v: "aview (absc u) (logged s ! k) = view s (logged s ! k)"
      unfolding a by (simp add: wrote_all_def absc_def apply_writes_other)
    have "wrote_all (log_copies s (Suc k)) (absc s) = wrote (log_block k s) (view s (logged s ! k)) (absc u)"
      unfolding a by (simp add: log_copies_def wrote_all_simps)
    with copy_to_log_ok [OF ready fr inv ah ad kN n]
    show "\<exists>t. copy_to_log ([0..<?N] ! k) u = Ret () t \<and> ?P (Suc k) t"
      using kN frame_trans [OF fr] by (auto simp: v)
  qed
  then show ?thesis by simp
qed

definition installs :: "'a lstate_scheme \<Rightarrow> nat \<Rightarrow> (u32 \<times> block) list" where
  "installs s k = map (\<lambda>j. (logged s ! j, view s (log_block j s))) [0..<k]"

lemma install_block_ok:
  assumes ready: "log_ready s" and fr: "frame s u" and inv: "cache_inv u" and a: "aheld (absc u) = {}"
    and d: "card (adirty (absc u)) < NBUF" "logged s ! k \<in> adirty (absc u) \<or> adirty (absc u) = {}"
    and k: "k < length (logged s)" and c: "aview (absc u) (log_block k s) = adisk (absc u) (log_block k s)"
  shows "\<exists>t. install_block k u = Ret () t \<and> cache_inv t \<and>
    absc t = wrote (logged s ! k) (aview (absc u) (log_block k s)) (absc u) \<and> frame u t"
  unfolding install_block_def
proof (rule bc.copy_to_second [OF inv a])
  note f = frame_log [OF fr]
  have k': "k < LOGSIZE" using k logged_length [OF ready] ready by (simp add: log_ready_def)
  show "log_block k s < disksize u" "logged s ! k < disksize u"
    using log_block_facts(1) [OF ready k'] logged_home(1) [OF ready k] fr by (auto simp: frame_def)
  show "log_block k s \<noteq> logged s ! k" using log_block_facts(2) [OF ready k'] logged_home(2) [OF ready k] by auto
  show "card (adirty (absc u)) < NBUF" by (rule d)
  show "logged s ! k \<in> adirty (absc u) \<or> card (insert (log_block k s) (adirty (absc u))) < NBUF"
    using d(2) by (auto simp: NBUF_def)
  show "log_block k s \<in> adirty (absc u) \<or> aview (absc u) (log_block k s) = adisk (absc u) (log_block k s)"
    using c by simp
  show "bread (ldev u) (log_block k u) u = bread 1 (log_block k s) u" using ready f by (simp add: log_ready_def)
  show "bread (ldev t) (lh_block t ! k) t = bread 1 (logged s ! k) t" if "frame u t" for t
    using ready f frame_log [OF that] k by (simp add: log_ready_def logged_nth)
qed

lemma install_trans_ok:
  assumes ready: "log_ready s" and d: "dirty s = set (logged s) \<and> length (logged s) < LOGSIZE \<or> dirty s = {}"
    and clean: "\<And>j. j < length (logged s) \<Longrightarrow> view s (log_block j s) = disk s (log_block j s)"
  shows "\<exists>t. install_trans s = Ret () t \<and> cache_inv t \<and> frame s t \<and>
    absc t = wrote_all (installs s (length (logged s))) (absc s)"
proof -
  let ?N = "length (logged s)"
  let ?P = "\<lambda>k t. cache_inv t \<and> frame s t \<and> absc t = wrote_all (installs s k) (absc s)"
  have N: "?N = nat (sint (lh_n s))" "?N \<le> LOGSIZE" using logged_length [OF ready] ready by (simp_all add: log_ready_def)
  have distinct: "distinct (logged s)" using ready by (simp add: log_ready_def homes_ok_def)
  have "\<exists>t. install_trans s = Ret () t \<and> ?P (length [0..<?N]) t"
    unfolding install_trans_def upto_n_eq N(1) [symmetric]
  proof (rule each_ok)
    show "?P 0 s" using ready by (simp add: log_ready_def installs_def wrote_all_simps)
    fix k u assume k: "k < length [0..<?N]" and P: "?P k u"
    then have kN: "k < ?N" and inv: "cache_inv u" and fr: "frame s u"
      and a: "absc u = wrote_all (installs s k) (absc s)" by simp_all
    have fst: "fst ` set (installs s k) = (!) (logged s) ` {0..<k}" by (auto simp: installs_def image_image)
    have "logged s ! k \<notin> (!) (logged s) ` {0..<k}" using distinct kN by (auto simp: nth_eq_iff_index_eq)
    then have ad: "card (adirty (absc u)) < NBUF" "logged s ! k \<in> adirty (absc u) \<or> adirty (absc u) = {}"
      using d card_length [of "logged s"] nth_mem [OF kN] card_mono [of "dirty s" "adirty (absc u)"]
      unfolding a fst by (auto simp: wrote_all_def absc_def NBUF_def LOGSIZE_def fst)
    have ah: "aheld (absc u) = {}" unfolding a using ready by (simp add: wrote_all_def absc_def log_ready_def)
    have "log_block k s \<notin> fst ` set (installs s k)"
      using log_block_facts(2) [OF ready, of k] logged_home(2) [OF ready] kN N(2) unfolding fst by force
    then have v: "aview (absc u) (log_block k s) = view s (log_block k s)"
        "adisk (absc u) (log_block k s) = disk s (log_block k s)"
      unfolding a by (simp_all add: wrote_all_def absc_def apply_writes_other)
    have c: "aview (absc u) (log_block k s) = adisk (absc u) (log_block k s)" using v clean [OF kN] by simp
    have "wrote_all (installs s (Suc k)) (absc s) = wrote (logged s ! k) (view s (log_block k s)) (absc u)"
      unfolding a by (simp add: installs_def wrote_all_simps)
    with install_block_ok [OF ready fr inv ah ad kN c]
    show "\<exists>t. install_block ([0..<?N] ! k) u = Ret () t \<and> ?P (Suc k) t"
      using kN frame_trans [OF fr] by (auto simp: v)
  qed
  then show ?thesis by simp
qed

subsection \<open>The header block\<close>

definition header :: "u32 list \<Rightarrow> block \<Rightarrow> block" where
  "header bl d = put32s 4 bl (put32 d 0 (word_of_nat (length bl)))"

definition head_blocks :: "block \<Rightarrow> u32 list" where
  "head_blocks d = map (\<lambda>i. get32 d (4 + 4 * i)) (upto_n (get32 d 0))"

lemma header_blocks:
  assumes "length bl \<le> LOGSIZE" "length d = BSIZE"
  shows "head_blocks (header bl d) = bl" "length (header bl d) = BSIZE" "get32 (header bl d) 0 = word_of_nat (length bl)"
proof -
  show 0: "get32 (header bl d) 0 = word_of_nat (length bl)"
    using get32_put32s(2) [of 4 bl "put32 d 0 (word_of_nat (length bl))" 0] assms
    by (simp add: header_def BSIZE_def LOGSIZE_def)
  have "nat (sint (word_of_nat (length bl) :: i32)) = length bl"
  proof -
    have u: "unat (word_of_nat (length bl) :: i32) = length bl"
      using assms unfolding unat_of_nat by (simp add: LOGSIZE_def)
    then have "sint (word_of_nat (length bl) :: i32) = int (length bl)"
      using sint_small_unat [of "word_of_nat (length bl)"] assms(1) by (simp only: u) (simp add: LOGSIZE_def)
    then show ?thesis by simp
  qed
  then show "head_blocks (header bl d) = bl"
    using get32_put32s(1) [of 4 bl "put32 d 0 (word_of_nat (length bl))"] assms
    unfolding head_blocks_def 0 upto_n_eq by (intro nth_equalityI) (simp_all add: header_def BSIZE_def LOGSIZE_def)
  show "length (header bl d) = BSIZE" using assms by (simp add: header_def)
qed

lemma write_head_ok:
  assumes inv: "cache_inv s" and h: "held s = {}" "ldev s = 1" "lstart s < disksize s" "card (dirty s) < NBUF"
    and n: "length (logged s) \<le> LOGSIZE" "lh_n s = word_of_nat (length (logged s))"
  shows "\<exists>t. write_head s = Ret () t \<and> cache_inv t \<and> frame s t \<and>
    absc t = wrote_all [(lstart s, header (logged s) (view s (lstart s)))] (absc s)"
proof -
  let ?f = "\<lambda>d. put32s 4 (take (nat (sint (lh_n s))) (lh_block s)) (put32 d 0 (lh_n s))"
  let ?F = "\<lambda>s d. put32s 4 (take (nat (sint (lh_n s))) (lh_block s)) (put32 d 0 (lh_n s))"
  have "\<exists>t. andthen (bread (ldev s) (lstart s) s) (\<lambda>b s. let s = set_data b (?F s (bdata (bufp s b))) s in
      andthen (bwrite b s) (\<lambda>_ s. brelse b s)) = Ret () t \<and> cache_inv t \<and>
      absc t = wrote (lstart s) (?f (aview (absc s) (lstart s))) (absc s) \<and> frame s t"
  proof (rule bc.update_block [OF inv])
    show "lstart s \<notin> aheld (absc s)" "lstart s \<in> adirty (absc s) \<or> card (adirty (absc s) \<union> aheld (absc s)) < NBUF"
      using h by (simp_all add: absc_def)
    show "length (?f (aview (absc s) (lstart s))) = BSIZE" using view_length [OF inv] by (simp add: absc_def)
    show "?F t = ?f" if "frame s t" for t using frame_log [OF that] by simp
  qed (use h in simp_all)
  moreover have "?f d = header (logged s) d" for d unfolding header_def n(2) [symmetric] by (simp add: logged_def)
  ultimately show ?thesis
    unfolding write_head_def Let_def wrote_wrote_all [symmetric] by (auto simp: absc_def)
qed

subsection \<open>The writes of a commit\<close>

lemma cache_lh_n [simp]:
  "cache_inv (s\<lparr>lh_n := n\<rparr>) = cache_inv s" "absc (s\<lparr>lh_n := n\<rparr>) = absc s" "view (s\<lparr>lh_n := n\<rparr>) = view s"
  "held (s\<lparr>lh_n := n\<rparr>) = held s" "dirty (s\<lparr>lh_n := n\<rparr>) = dirty s"
  by (simp_all add: cache_inv_def buf_ok_def absc_def view_def held_def dirty_def cached_def bufp_def fun_eq_iff
      cong: option.case_cong)

lemma wrote_all_fields:
  assumes "absc t = wrote_all ws (absc s)"
  shows "view t = apply_writes ws (view s)" "disk t = apply_writes ws (disk s)" "dwrites t = dwrites s @ ws"
    "dirty t = dirty s - fst ` set ws" "held t = held s"
  using assms by (simp_all add: absc_def wrote_all_def)

lemma log_ready_frame:
  assumes "log_ready s" "frame s t" "cache_inv t" "held t = held s"
  shows "log_ready t"
  using assms frame_log [OF assms(2)] by (simp add: log_ready_def frame_def)

definition commit_writes :: "'a lstate_scheme \<Rightarrow> (u32 \<times> block) list" where
  "commit_writes s =
     log_copies s (length (logged s)) @
     [(lstart s, header (logged s) (view s (lstart s)))] @
     map (\<lambda>j. (logged s ! j, view s (logged s ! j))) [0..<length (logged s)] @
     [(lstart s, header [] (header (logged s) (view s (lstart s))))]"

lemma log_copies_view:
  assumes ready: "log_ready s" and n: "length (logged s) \<le> LOGSIZE"
  shows "j < length (logged s) \<Longrightarrow> apply_writes (log_copies s (length (logged s))) f (log_block j s) = view s (logged s ! j)"
    "no \<notin> log_area (lstart s) \<or> no = lstart s \<Longrightarrow> apply_writes (log_copies s (length (logged s))) f no = f no"
proof -
  have "distinct (map fst (log_copies s (length (logged s))))"
    using log_block_facts(4) [OF ready] n by (auto simp: log_copies_def distinct_map inj_on_def)
  then show "j < length (logged s) \<Longrightarrow> apply_writes (log_copies s (length (logged s))) f (log_block j s) = view s (logged s ! j)"
    by (rule apply_writes_in) (auto simp: log_copies_def)
  show "no \<notin> log_area (lstart s) \<or> no = lstart s \<Longrightarrow> apply_writes (log_copies s (length (logged s))) f no = f no"
    using log_block_facts(2,3) [OF ready] n by (intro apply_writes_other) (auto simp: log_copies_def)
qed

lemma lh_n_logged: "log_ready s \<Longrightarrow> lh_n s = word_of_nat (length (logged s))"
  using sint_nonneg_unat [of "lh_n s"] logged_length [of s] by (simp add: log_ready_def)

lemma commit_logs:
  assumes ready: "log_ready s" and dirty: "dirty s = set (logged s)" and n: "length (logged s) < LOGSIZE"
  shows "\<exists>s2. andthen (write_log s) (\<lambda>_ s. write_head s) = Ret () s2 \<and> log_ready s2 \<and> frame s s2 \<and>
    absc s2 = wrote_all (log_copies s (length (logged s)) @ [(lstart s, header (logged s) (view s (lstart s)))]) (absc s)"
proof -
  let ?N = "length (logged s)"
  have N: "?N \<le> LOGSIZE" using n by simp
  have card: "card (set (logged s)) < NBUF" using card_length [of "logged s"] n by (simp add: NBUF_def LOGSIZE_def)
  obtain s1 where 1: "write_log s = Ret () s1" "cache_inv s1" "frame s s1" "absc s1 = wrote_all (log_copies s ?N) (absc s)"
    using write_log_ok [OF ready dirty n(1)] by blast
  note f1 = frame_log [OF 1(3)] and w1 = wrote_all_fields [OF 1(4)]
  have d1: "dirty s1 = set (logged s)"
    unfolding w1 dirty using log_block_facts(2) [OF ready] ready N
    by (force simp: log_copies_def log_ready_def homes_ok_def)
  have r1: "log_ready s1" by (rule log_ready_frame [OF ready 1(3,2) w1(5)])
  have "\<exists>t. write_head s1 = Ret () t \<and> cache_inv t \<and> frame s1 t \<and>
      absc t = wrote_all [(lstart s1, header (logged s1) (view s1 (lstart s1)))] (absc s1)"
    using r1 start_facts(1) [OF r1] lh_n_logged [OF r1] N card d1 f1
    by (intro write_head_ok 1(2)) (auto simp: log_ready_def)
  then obtain s2 where 2: "write_head s1 = Ret () s2" "cache_inv s2" "frame s1 s2"
      "absc s2 = wrote_all [(lstart s, header (logged s) (view s (lstart s)))] (absc s1)"
    using log_copies_view(2) [OF ready N] by (auto simp: f1 w1)
  have "log_ready s2" by (rule log_ready_frame [OF r1 2(3,2) wrote_all_fields(5) [OF 2(4)]])
  then show ?thesis
    using 1 2 frame_trans by (intro exI [of _ s2]) (auto simp: wrote_all_wrote_all)
qed

lemma commit_installs:
  assumes ready: "log_ready s" and dirty: "dirty s = set (logged s) \<and> length (logged s) < LOGSIZE \<or> dirty s = {}"
    and v: "\<And>j. j < length (logged s) \<Longrightarrow> view s (log_block j s) = V j \<and> disk s (log_block j s) = V j"
  shows "\<exists>t. andthen (install_trans s) (\<lambda>_ s. write_head (s\<lparr>lh_n := 0\<rparr>)) = Ret () t \<and> cache_inv t \<and> frame (s\<lparr>lh_n := 0\<rparr>) t \<and>
    absc t = wrote_all (map (\<lambda>j. (logged s ! j, V j)) [0..<length (logged s)] @ [(lstart s, header [] (view s (lstart s)))]) (absc s)"
proof -
  let ?N = "length (logged s)"
  obtain s3 where 3: "install_trans s = Ret () s3" "cache_inv s3" "frame s s3" "absc s3 = wrote_all (installs s ?N) (absc s)"
    using install_trans_ok [OF ready dirty] v by auto
  note f3 = frame_log [OF 3(3)] and w3 = wrote_all_fields [OF 3(4)]
  have i: "installs s ?N = map (\<lambda>j. (logged s ! j, V j)) [0..<?N]" using v by (simp add: installs_def)
  have fst: "fst ` set (installs s ?N) = set (logged s)" by (auto simp: i in_set_conv_nth image_image)
  have start: "lstart s \<notin> set (logged s)" using start_facts(2) [of s] ready by (auto simp: log_ready_def homes_ok_def)
  have v3: "view s3 (lstart s) = view s (lstart s)" using start fst by (simp add: w3 apply_writes_other)
  have l: "logged (s3\<lparr>lh_n := 0\<rparr>) = []" by (simp add: logged_def)
  have "\<exists>t. write_head (s3\<lparr>lh_n := 0\<rparr>) = Ret () t \<and> cache_inv t \<and> frame (s3\<lparr>lh_n := 0\<rparr>) t \<and>
      absc t = wrote_all [(lstart (s3\<lparr>lh_n := 0\<rparr>), header (logged (s3\<lparr>lh_n := 0\<rparr>)) (view (s3\<lparr>lh_n := 0\<rparr>) (lstart (s3\<lparr>lh_n := 0\<rparr>))))]
        (absc (s3\<lparr>lh_n := 0\<rparr>))"
    using ready start_facts(1) [OF ready] 3(2,3) f3 w3 dirty fst l
    by (intro write_head_ok) (auto simp: log_ready_def frame_def NBUF_def)
  moreover have "frame (s3\<lparr>lh_n := 0\<rparr>) t \<Longrightarrow> frame (s\<lparr>lh_n := 0\<rparr>) t" for t
    using 3(3) by (cases s; cases s3; cases t) (simp add: frame_def)
  ultimately show ?thesis
    using 3 by (auto simp: l f3 v3 wrote_all_wrote_all i)
qed

lemma commit_ok:
  assumes ready: "log_ready s" and dirty: "dirty s = set (logged s)" and n: "length (logged s) < LOGSIZE" "logged s \<noteq> []"
  shows "\<exists>t. commit s = Ret () t \<and> cache_inv t \<and> frame (s\<lparr>lh_n := 0\<rparr>) t \<and> absc t = wrote_all (commit_writes s) (absc s)"
proof -
  let ?N = "length (logged s)"
  have "0 < length (logged s)" using n(2) by simp
  then have N: "?N \<le> LOGSIZE" and pos: "0 <s lh_n s" using n logged_length [OF ready]
    by (simp_all add: zero_sless_sint)
  obtain s2 where 2: "andthen (write_log s) (\<lambda>_ s. write_head s) = Ret () s2" "log_ready s2" "frame s s2"
    "absc s2 = wrote_all (log_copies s ?N @ [(lstart s, header (logged s) (view s (lstart s)))]) (absc s)"
    using commit_logs [OF ready dirty n(1)] by blast
  note f2 = frame_log [OF 2(3)] and w2 = wrote_all_fields [OF 2(4)]
  have d2: "dirty s2 = set (logged s2)"
    unfolding w2 dirty f2 using log_block_facts(2) [OF ready] start_facts(2) [of s] ready N
    by (force simp: log_copies_def log_ready_def homes_ok_def)
  have v2: "view s2 (log_block j s2) = view s (logged s ! j) \<and> disk s2 (log_block j s2) = view s (logged s ! j)"
    if "j < length (logged s2)" for j
    using log_copies_view(1) [OF ready N] log_block_facts(3) [OF ready, of j] that N by (simp add: w2 f2)
  obtain t where t: "andthen (install_trans s2) (\<lambda>_ s. write_head (s\<lparr>lh_n := 0\<rparr>)) = Ret () t" "cache_inv t" "frame (s2\<lparr>lh_n := 0\<rparr>) t"
    "absc t = wrote_all (map (\<lambda>j. (logged s ! j, view s (logged s ! j))) [0..<?N] @ [(lstart s, header [] (view s2 (lstart s)))]) (absc s2)"
    using commit_installs [OF 2(2) _ v2] d2 n(1) by (auto simp: f2)
  have "view s2 (lstart s) = header (logged s) (view s (lstart s))" by (simp add: w2)
  moreover have "frame (s\<lparr>lh_n := 0\<rparr>) t" using 2(3) t(3) by (cases s; cases s2; cases t) (simp add: frame_def)
  moreover have "commit s = Ret () t"
  proof -
    have "commit s = andthen (andthen (write_log s) (\<lambda>_ s. write_head s)) (\<lambda>_ s. andthen (install_trans s) (\<lambda>_ s. write_head (s\<lparr>lh_n := 0\<rparr>)))"
      using pos by (simp add: commit_def andthen_assoc)
    then show ?thesis using 2(1) t(1) by simp
  qed
  ultimately show ?thesis
    using t by (intro exI [of _ t]) (simp add: 2(4) wrote_all_wrote_all commit_writes_def)
qed

end
