(* ===== verification/Log_Crash.thy ===== *)
theory Log_Crash
  imports Log_Props
begin

text \<open>
  Recovery from the log, and the atomicity of a commit under a crash after any prefix of its writes.
\<close>

subsection \<open>What recovery does\<close>

definition log_at :: "u32 \<Rightarrow> nat \<Rightarrow> u32" where
  "log_at start j = start + word_of_nat j + 1"

definition recover_writes :: "u32 \<Rightarrow> (u32 \<Rightarrow> block) \<Rightarrow> (u32 \<times> block) list" where
  "recover_writes start d =
     map (\<lambda>j. (head_blocks (d start) ! j, d (log_at start j))) [0..<length (head_blocks (d start))] @
     [(start, header [] (d start))]"

definition recovered :: "u32 \<Rightarrow> (u32 \<Rightarrow> block) \<Rightarrow> u32 \<Rightarrow> block" where
  "recovered start d = apply_writes (recover_writes start d) d"

definition head_ok :: "u32 \<Rightarrow> u32 \<Rightarrow> (u32 \<Rightarrow> block) \<Rightarrow> bool" where
  "head_ok start dsz d \<longleftrightarrow> length (head_blocks (d start)) \<le> LOGSIZE \<and>
     get32 (d start) 0 = word_of_nat (length (head_blocks (d start))) \<and> homes_ok start dsz (head_blocks (d start))"

lemma cache_lh [simp]:
  "cache_inv (s\<lparr>lh_block := bl\<rparr>) = cache_inv s" "absc (s\<lparr>lh_block := bl\<rparr>) = absc s"
  "holds (s\<lparr>lh_block := bl\<rparr>) = holds s" "holds (s\<lparr>lh_n := n\<rparr>) = holds s"
  "cache_inv (s\<lparr>lstart := a\<rparr>) = cache_inv s" "absc (s\<lparr>lstart := a\<rparr>) = absc s"
  "cache_inv (s\<lparr>lsize := a\<rparr>) = cache_inv s" "absc (s\<lparr>lsize := a\<rparr>) = absc s"
  "cache_inv (s\<lparr>ldev := a\<rparr>) = cache_inv s" "absc (s\<lparr>ldev := a\<rparr>) = absc s"
  "cache_inv (s\<lparr>outstanding := a\<rparr>) = cache_inv s" "absc (s\<lparr>outstanding := a\<rparr>) = absc s"
  "cache_inv (s\<lparr>committing := c\<rparr>) = cache_inv s" "absc (s\<lparr>committing := c\<rparr>) = absc s"
  by (simp_all add: cache_inv_def buf_ok_def absc_def view_def held_def dirty_def cached_def bufp_def fun_eq_iff holds_def
      cong: option.case_cong)

lemma fold_lh_block:
  "fold (\<lambda>i s. s\<lparr>lh_block := (lh_block s)[i := f i]\<rparr>) is s = s\<lparr>lh_block := fold (\<lambda>i bl. bl[i := f i]) is (lh_block s)\<rparr>"
  by (induction "is" arbitrary: s) simp_all

lemma fold_updates:
  "n \<le> length bl \<Longrightarrow> take n (fold (\<lambda>i bl. bl[i := f i]) [0..<n] bl) = map f [0..<n] \<and>
     length (fold (\<lambda>i bl. bl[i := f i]) [0..<n] bl) = length bl"
proof (induction n)
  case (Suc n)
  then show ?case by (auto simp: take_Suc_conv_app_nth)
qed simp

text \<open>The fields of the log that \<open>read_head\<close> does not set.\<close>

definition log_rest :: "'a lstate_scheme \<Rightarrow> 'a lstate_scheme \<Rightarrow> bool" where
  "log_rest s t \<longleftrightarrow> disksize t = disksize s \<and> curpid t = curpid s \<and> lstart t = lstart s \<and> lsize t = lsize s \<and>
     outstanding t = outstanding s \<and> committing t = committing s \<and> ldev t = ldev s \<and>
     length (lh_block t) = length (lh_block s) \<and> lstate.more t = lstate.more s"

lemma frame_log_rest: "frame s t \<Longrightarrow> log_rest s t"
  by (cases s; cases t) (simp add: frame_def log_rest_def)

lemma read_head_ok:
  assumes inv: "cache_inv s" and h: "held s = {}" "dirty s = {}" "ldev s = 1" "lstart s < disksize s"
    and bl: "length (lh_block s) = LOGSIZE" "head_ok (lstart s) (disksize s) (disk s)"
  shows "\<exists>t. read_head s = Ret () t \<and> cache_inv t \<and> absc t = absc s \<and> log_rest s t \<and>
    lh_n t = get32 (disk s (lstart s)) 0 \<and> logged t = head_blocks (disk s (lstart s))"
proof -
  let ?d = "disk s (lstart s)"
  let ?n = "get32 ?d 0"
  have v: "view s (lstart s) = ?d" using view_clean [OF inv] h by simp
  obtain b s1 where 1: "bread 1 (lstart s) s = Ret b s1" "cache_inv s1" "absc s1 = aheld_update (insert (lstart s)) (absc s)"
      "frame s s1" "holds s1 (lstart s) b"
    using bc.rd_law [OF inv, of "lstart s"] h by (auto simp: absc_def NBUF_def)
  have g: "bdata (bufp s1 b) = ?d" using holdsD(11) [OF 1(2,5)] 1(3) v by (simp add: absc_def)
  have n: "nat (sint ?n) \<le> LOGSIZE" using bl(2) by (simp add: head_ok_def head_blocks_def upto_n_def)
  let ?bl = "fold (\<lambda>i bl. bl[i := get32 ?d (4 + 4 * i)]) (upto_n ?n) (lh_block s)"
  let ?s2 = "s1\<lparr>lh_n := ?n, lh_block := ?bl\<rparr>"
  have a: "absc ?s2 = aheld_update (insert (lstart s)) (absc s)" using 1(3) by simp
  have "lstart s \<in> adirty (absc ?s2) \<or> aview (absc ?s2) (lstart s) = adisk (absc ?s2) (lstart s)"
    unfolding a using v by (simp add: absc_def)
  then obtain t where 2: "brelse b ?s2 = Ret () t" "cache_inv t" "absc t = aheld_update (\<lambda>h. h - {lstart s}) (absc ?s2)" "frame ?s2 t"
    using bc.rl_law [of ?s2 "lstart s" b] 1 by auto
  have "absc t = absc s" unfolding 2(3) a using h by (simp add: absc_def)
  moreover have "read_head s = Ret () t"
    using 1(1) h 2(1) n frame_log [OF 1(4)] g
    by (simp add: read_head_def Let_def fold_lh_block not_less)
  moreover have "logged t = head_blocks ?d" "lh_n t = ?n" "log_rest s t"
    using frame_log [OF 2(4)] fold_updates [of "nat (sint ?n)" "lh_block s" "\<lambda>i. get32 ?d (4 + 4 * i)"] n bl(1)
      frame_log_rest [OF 1(4)] frame_log_rest [OF 2(4)]
    by (simp_all add: logged_def head_blocks_def upto_n_def log_rest_def)
  ultimately show ?thesis using 2(2) by blast
qed

lemma recover_ok:
  assumes inv: "cache_inv s" and h: "held s = {}" "dirty s = {}" "ldev s = 1" "unat (lstart s) + LOGSIZE < unat (disksize s)"
    and bl: "length (lh_block s) = LOGSIZE" "head_ok (lstart s) (disksize s) (disk s)"
  shows "\<exists>t. recover_from_log s = Ret () t \<and> cache_inv t \<and> held t = {} \<and> dirty t = {} \<and> lh_n t = 0 \<and> lstart t = lstart s \<and>
    dwrites t = dwrites s @ recover_writes (lstart s) (disk s) \<and> disk t = recovered (lstart s) (disk s)"
proof -
  let ?bl = "head_blocks (disk s (lstart s))"
  have start: "lstart s < disksize s" using h(4) by (simp add: word_less_nat_alt)
  obtain s1 where 1: "read_head s = Ret () s1" "cache_inv s1" "absc s1 = absc s" "log_rest s s1"
      "lh_n s1 = word_of_nat (length ?bl)" "logged s1 = ?bl"
    using read_head_ok [OF inv h(1,2,3) start bl] bl(2) by (auto simp: head_ok_def)
  have r: "lstart s1 = lstart s" "disksize s1 = disksize s" "ldev s1 = 1" "length (lh_block s1) = LOGSIZE"
    using 1(4) h bl by (auto simp: log_rest_def)
  have a: "held s1 = {}" "dirty s1 = {}" "disk s1 = disk s" "view s1 = view s" "dwrites s1 = dwrites s"
    using 1(3) h by (simp_all add: absc_def)
  have v: "view s = disk s" using view_clean [OF inv] h by auto
  have sn: "sint (lh_n s1) = int (length ?bl)"
    using sint_small_unat [of "word_of_nat (length ?bl)"] bl(2) unfolding 1(5) unat_of_nat
    by (simp add: head_ok_def LOGSIZE_def)
  have ready: "log_ready s1"
    using 1(2,6) a r h(4) bl(2) sn by (simp add: log_ready_def head_ok_def)
  have clean: "view s1 (log_block j s1) = disk s (log_at (lstart s) j)" for j
    by (simp add: a v log_block_def log_at_def r)
  obtain t where t: "andthen (install_trans s1) (\<lambda>_ s. write_head (s\<lparr>lh_n := 0\<rparr>)) = Ret () t" "cache_inv t"
      "frame (s1\<lparr>lh_n := 0\<rparr>) t" "absc t = wrote_all (recover_writes (lstart s) (disk s)) (absc s1)"
    using commit_installs [OF ready disjI2 [OF a(2)], of "\<lambda>j. disk s (log_at (lstart s) j)"] clean by (auto simp: recover_writes_def 1(6) r a v log_block_def log_at_def)
  note w = wrote_all_fields [OF t(4)]
  have "recover_from_log s = Ret () t" using 1(1) t(1) by (simp add: recover_from_log_def)
  moreover have "lh_n t = 0" "lstart t = lstart s" using frame_log [OF t(3)] r by simp_all
  ultimately show ?thesis
    using t(2) w a by (intro exI [of _ t]) (simp add: recovered_def)
qed

subsection \<open>A crash during the commit\<close>

lemma log_block_at: "log_block j s = log_at (lstart s) j"
  by (simp add: log_block_def log_at_def)

text \<open>Where the writes of a commit go, by their position in the sequence.\<close>

definition home_writes :: "'a lstate_scheme \<Rightarrow> (u32 \<times> block) list" where
  "home_writes s = map (\<lambda>j. (logged s ! j, view s (logged s ! j))) [0..<length (logged s)]"

lemma log_copies_take: "log_copies s k = take k (log_copies s n)" if "k \<le> n"
  using that by (simp add: log_copies_def take_map)

lemma log_copies_area:
  "log_ready s \<Longrightarrow> k \<le> LOGSIZE \<Longrightarrow> (no, d) \<in> set (log_copies s k) \<Longrightarrow> no \<in> log_area (lstart s) \<and> no \<noteq> lstart s"
  using log_block_facts(2,3) [of s] by (auto simp: log_copies_def)

lemma home_writes_fst: "fst ` set (home_writes s) = set (logged s)"
  by (auto simp: home_writes_def in_set_conv_nth image_image)

lemma home_writes_distinct: "log_ready s \<Longrightarrow> distinct (map fst (home_writes s))"
  by (auto simp: home_writes_def log_ready_def homes_ok_def distinct_map inj_on_def nth_eq_iff_index_eq)

lemma recovered_empty:
  "head_blocks (d start) = [] \<Longrightarrow> no \<noteq> start \<Longrightarrow> recovered start d no = d no"
  by (simp add: recovered_def recover_writes_def)

lemma crash_before_header:
  assumes "log_ready s" "head_blocks (disk s (lstart s)) = []" "get32 (disk s (lstart s)) 0 = 0" "k \<le> length (logged s)"
  defines "d \<equiv> apply_writes (take k (commit_writes s)) (disk s)"
  shows "head_ok (lstart s) (disksize s) d" "no \<notin> log_area (lstart s) \<Longrightarrow> recovered (lstart s) d no = disk s no"
    "no \<notin> log_area (lstart s) \<Longrightarrow> d no = disk s no"
proof -
  have N: "length (logged s) \<le> LOGSIZE" using logged_length [OF assms(1)] assms(1) by (simp add: log_ready_def)
  have "length (log_copies s (length (logged s))) = length (logged s)" by (simp add: log_copies_def)
  then have "take k (commit_writes s) = log_copies s k"
    using assms(4) log_copies_take [OF assms(4), of s, symmetric] by (simp add: commit_writes_def)
  then have same: "d no = disk s no" if "no \<notin> log_area (lstart s) \<or> no = lstart s" for no
    using that log_copies_area [OF assms(1), of k] assms(4) N unfolding d_def by (auto intro!: apply_writes_other)
  then have start: "d (lstart s) = disk s (lstart s)" by blast
  show "head_ok (lstart s) (disksize s) d" using assms(2,3) by (simp add: head_ok_def start homes_ok_def)
  show "no \<notin> log_area (lstart s) \<Longrightarrow> d no = disk s no" using same by blast
  then show "recovered (lstart s) d no = disk s no" if "no \<notin> log_area (lstart s)"
    using that recovered_empty [of d "lstart s" no] start assms(2) start_facts(2) [of s] by auto
qed

lemma crash_after_header:
  assumes ready: "log_ready s" and dirty: "dirty s = set (logged s)" and k: "k \<le> length (logged s)"
  defines "d \<equiv> apply_writes (log_copies s (length (logged s)) @ [(lstart s, header (logged s) (view s (lstart s)))] @ take k (home_writes s)) (disk s)"
  shows "head_ok (lstart s) (disksize s) d" "no \<notin> log_area (lstart s) \<Longrightarrow> recovered (lstart s) d no = view s no"
proof -
  have inv: "cache_inv s" using ready by (simp add: log_ready_def)
  have N: "length (logged s) \<le> LOGSIZE" using logged_length [OF ready] ready by (simp add: log_ready_def)
  have sub: "fst ` set (take k (home_writes s)) \<subseteq> set (logged s)"
    using home_writes_fst [of s] set_take_subset [of k "home_writes s"] by blast
  have log: "set (logged s) \<inter> log_area (lstart s) = {}" using ready by (auto simp: log_ready_def homes_ok_def)
  have area: "d no = apply_writes (log_copies s (length (logged s)) @ [(lstart s, header (logged s) (view s (lstart s)))]) (disk s) no"
    if "no \<in> log_area (lstart s)" for no
  proof -
    have "no \<notin> fst ` set (take k (home_writes s))" using that sub log by blast
    then show ?thesis by (simp add: d_def apply_writes_other)
  qed
  have bl: "head_blocks (d (lstart s)) = logged s" "get32 (d (lstart s)) 0 = word_of_nat (length (logged s))"
    using area [of "lstart s"] start_facts(2) [of s] header_blocks [OF N view_length [OF inv], of "lstart s"] by simp_all
  have at: "d (log_at (lstart s) j) = view s (logged s ! j)" if "j < length (logged s)" for j
    using area [of "log_block j s"] log_block_facts(2,3) [OF ready, of j] log_copies_view(1) [OF ready N that] that N
    by (simp add: log_block_at)
  show "head_ok (lstart s) (disksize s) d" using ready N by (simp add: head_ok_def bl log_ready_def)
  have "recover_writes (lstart s) d = home_writes s @ [(lstart s, header [] (d (lstart s)))]"
    unfolding recover_writes_def home_writes_def bl by (auto simp: at)
  then have rec: "recovered (lstart s) d no = apply_writes (home_writes s) d no" if "no \<noteq> lstart s"
    using that by (simp add: recovered_def)
  assume no: "no \<notin> log_area (lstart s)"
  show "recovered (lstart s) d no = view s no"
  proof (cases "no \<in> set (logged s)")
    case True
    then have "(no, view s no) \<in> set (home_writes s)" by (auto simp: home_writes_def in_set_conv_nth)
    then show ?thesis
      using rec no start_facts(2) [of s] apply_writes_in [OF home_writes_distinct [OF ready]] by auto
  next
    case False
    have "d no = disk s no"
      unfolding d_def using False sub no log_copies_area [OF ready N] start_facts(2) [of s]
      by (intro apply_writes_other) auto
    moreover have "view s no = disk s no" using view_clean [OF inv] False dirty ready by (simp add: log_ready_def)
    moreover have "recovered (lstart s) d no = d no"
      using rec no start_facts(2) [of s] False by (auto simp: apply_writes_other home_writes_fst)
    ultimately show ?thesis by simp
  qed
qed

lemma crash_full:
  assumes ready: "log_ready s" and dirty: "dirty s = set (logged s)" and no: "no \<notin> log_area (lstart s)"
  shows "apply_writes (log_copies s (length (logged s)) @ [(lstart s, header (logged s) (view s (lstart s)))] @ home_writes s) (disk s) no =
    view s no"
proof -
  have N: "length (logged s) \<le> LOGSIZE" using logged_length [OF ready] ready by (simp add: log_ready_def)
  let ?f = "apply_writes (log_copies s (length (logged s)) @ [(lstart s, header (logged s) (view s (lstart s)))]) (disk s)"
  have f: "?f no = disk s no"
    using no start_facts(2) [of s] log_copies_area [OF ready N] by (intro apply_writes_other) auto
  show ?thesis
  proof (cases "no \<in> set (logged s)")
    case True
    then have "(no, view s no) \<in> set (home_writes s)" by (auto simp: home_writes_def in_set_conv_nth)
    then show ?thesis using apply_writes_in [OF home_writes_distinct [OF ready], of no "view s no" ?f] by simp
  next
    case False
    then have "view s no = disk s no" using view_clean [of s no] dirty ready by (simp add: log_ready_def)
    then show ?thesis
      using f False apply_writes_other [of no "home_writes s" ?f] by (simp add: home_writes_fst)
  qed
qed

lemma commit_writes_split:
  "commit_writes s = log_copies s (length (logged s)) @ [(lstart s, header (logged s) (view s (lstart s)))] @ home_writes s @
     [(lstart s, header [] (header (logged s) (view s (lstart s))))]"
  by (simp add: commit_writes_def home_writes_def)

lemma crash_point:
  assumes ready: "log_ready s" and dirty: "dirty s = set (logged s)"
    and empty: "head_blocks (disk s (lstart s)) = []" "get32 (disk s (lstart s)) 0 = 0"
  defines "d \<equiv> \<lambda>k. apply_writes (take k (commit_writes s)) (disk s)"
  shows "head_ok (lstart s) (disksize s) (d k)"
    "no \<notin> log_area (lstart s) \<Longrightarrow> recovered (lstart s) (d k) no = (if k \<le> length (logged s) then disk s no else view s no)"
proof -
  let ?N = "length (logged s)"
  have inv: "cache_inv s" using ready by (simp add: log_ready_def)
  have N: "?N \<le> LOGSIZE" using logged_length [OF ready] ready by (simp add: log_ready_def)
  have len: "length (log_copies s ?N) = ?N" "length (home_writes s) = ?N" by (simp_all add: log_copies_def home_writes_def)
  consider "k \<le> ?N" | j where "k = Suc ?N + j" "j \<le> ?N" | "take k (commit_writes s) = commit_writes s" "?N < k"
  proof -
    have "k \<le> ?N \<or> (\<exists>j. k = Suc ?N + j \<and> j \<le> ?N) \<or> k \<ge> 2 * ?N + 2" by presburger
    moreover have "k \<ge> 2 * ?N + 2 \<Longrightarrow> take k (commit_writes s) = commit_writes s"
      by (simp add: commit_writes_split len)
    ultimately show ?thesis using that by fastforce
  qed
  then have "head_ok (lstart s) (disksize s) (d k) \<and> (\<forall>no. no \<notin> log_area (lstart s) \<longrightarrow>
      recovered (lstart s) (d k) no = (if k \<le> length (logged s) then disk s no else view s no))"
  proof cases
    case 1
    then show ?thesis using crash_before_header [OF ready empty 1] by (simp add: d_def)
  next
    case 2
    then have "take k (commit_writes s) =
        log_copies s ?N @ [(lstart s, header (logged s) (view s (lstart s)))] @ take j (home_writes s)"
      by (simp add: commit_writes_split len)
    then show ?thesis using 2 crash_after_header [OF ready dirty 2(2)] by (simp add: d_def)
  next
    case 3
    let ?w = "log_copies s ?N @ [(lstart s, header (logged s) (view s (lstart s)))] @ home_writes s"
    let ?e = "apply_writes ?w (disk s)"
    have dk: "d k = ?e(lstart s := header [] (header (logged s) (view s (lstart s))))"
      unfolding d_def 3(1) unfolding commit_writes_split by simp
    have "head_blocks (header [] (header (logged s) (view s (lstart s)))) = []"
        "get32 (header [] (header (logged s) (view s (lstart s)))) 0 = 0"
      using header_blocks [of "[]" "header (logged s) (view s (lstart s))"] header_blocks(2) [OF N view_length [OF inv]] by simp_all
    then have h: "head_blocks (d k (lstart s)) = []" "get32 (d k (lstart s)) 0 = 0" by (simp_all add: dk)
    have "recovered (lstart s) (d k) no = view s no" if "no \<notin> log_area (lstart s)" for no
      using recovered_empty [of "d k" "lstart s" no] h(1) that start_facts(2) [of s] crash_full [OF ready dirty that] by (auto simp: dk)
    then show ?thesis using h 3(2) by (simp add: head_ok_def homes_ok_def)
  qed
  then show "head_ok (lstart s) (disksize s) (d k)"
    "no \<notin> log_area (lstart s) \<Longrightarrow> recovered (lstart s) (d k) no = (if k \<le> length (logged s) then disk s no else view s no)"
    by blast+
qed

lemma log_at_unat:
  assumes "j < LOGSIZE" "unat start + LOGSIZE < unat (dsz :: u32)"
  shows "unat (log_at start j) = unat start + j + 1"
proof -
  have "unat start + LOGSIZE < 2 ^ 32" using assms(2) unsigned_less [of dsz, where 'a = nat] by simp
  have k: "unat (word_of_nat (Suc j) :: u32) = Suc j" using assms(1) unfolding unat_of_nat by (simp add: LOGSIZE_def)
  have "unat (start + word_of_nat (Suc j)) = unat start + Suc j"
    using assms(1) \<open>_ < 2 ^ 32\<close> unfolding unat_word_ariths k by simp
  then show ?thesis by (simp add: log_at_def algebra_simps)
qed

lemma apply_writes_last: "apply_writes ws f no = (case map_of (rev ws) no of Some d \<Rightarrow> d | None \<Rightarrow> f no)"
proof (induction ws arbitrary: f rule: rev_induct)
  case (snoc w ws)
  then show ?case by (cases w) auto
qed simp

lemma apply_writes_absorb:
  assumes "fst ` set vs \<subseteq> fst ` set ws"
  shows "apply_writes ws (apply_writes vs f) = apply_writes ws f"
proof
  fix no
  show "apply_writes ws (apply_writes vs f) no = apply_writes ws f no"
  proof (cases "no \<in> fst ` set ws")
    case True
    then have "map_of (rev ws) no \<noteq> None" by (auto simp: map_of_eq_None_iff)
    then show ?thesis by (auto simp: apply_writes_last [of ws])
  next
    case False
    moreover have "no \<notin> fst ` set vs" using False assms by blast
    ultimately show ?thesis by (simp add: apply_writes_other)
  qed
qed

lemma apply_writes_length:
  "\<forall>(no, d) \<in> set ws. length d = n \<Longrightarrow> (\<And>no. length (f no) = n) \<Longrightarrow> length (apply_writes ws f no) = n"
  by (induction ws arbitrary: f) auto

lemma readsb_ok:
  assumes inv: "cache_inv s" and h: "held s = {}" "dirty s = {}" "1 < disksize s"
  shows "\<exists>t. readsb 1 s = Ret (sb_of (disk s 1)) t \<and> cache_inv t \<and> absc t = absc s \<and> frame s t"
proof -
  have v: "view s 1 = disk s 1" using view_clean [OF inv] h by simp
  obtain b s1 where 1: "bread 1 1 s = Ret b s1" "cache_inv s1" "absc s1 = aheld_update (insert 1) (absc s)"
      "frame s s1" "holds s1 1 b"
    using bc.rd_law [OF inv, of 1] h by (auto simp: absc_def NBUF_def)
  have g: "bdata (bufp s1 b) = disk s 1" using holdsD(11) [OF 1(2,5)] 1(3) v by (simp add: absc_def)
  have "1 \<in> adirty (absc s1) \<or> aview (absc s1) 1 = adisk (absc s1) 1"
    unfolding 1(3) using v by (simp add: absc_def)
  then obtain t where 2: "brelse b s1 = Ret () t" "cache_inv t" "absc t = aheld_update (\<lambda>h. h - {1}) (absc s1)" "frame s1 t"
    using bc.rl_law [of s1 1 b] 1 by auto
  have "absc t = absc s" unfolding 2(3) 1(3) using h by (simp add: absc_def)
  then show ?thesis using 1 2 g frame_trans by (intro exI [of _ t]) (auto simp: readsb_def Let_def)
qed

text \<open>The state of the kernel after a reboot, with the given disk: an empty buffer cache.\<close>

definition rebooted :: "(u32 \<Rightarrow> block) \<Rightarrow> 'a lstate_scheme \<Rightarrow> 'a lstate_scheme \<Rightarrow> bool" where
  "rebooted d s b \<longleftrightarrow> (\<exists>b0. b = boot_cache b0 \<and> disk b0 = d \<and> disksize b0 = disksize s \<and> length (lh_block b0) = LOGSIZE)"

lemma initlog_ok:
  assumes b: "rebooted d s b" and d: "\<And>no. length (d no) = BSIZE" "head_ok start (disksize s) d"
    and sb: "sb_logstart (sb_of (d 1)) = start" "1 < disksize s" "unat start + LOGSIZE < unat (disksize s)"
  shows "\<exists>t. initlog 1 b = Ret () t \<and> disk t = recovered start d \<and> cache_inv t \<and> dirty t = {} \<and> held t = {} \<and> lh_n t = 0 \<and>
    dwrites t = dwrites b @ recover_writes start d"
proof -
  obtain b0 where b0: "b = boot_cache b0" "disk b0 = d" "disksize b0 = disksize s" "length (lh_block b0) = LOGSIZE"
    using b by (auto simp: rebooted_def)
  have inv: "cache_inv b" and a: "absc b = \<lparr>aview = d, adisk = d, awrites = dwrites b0, adirty = {}, aheld = {}\<rparr>" and fr: "frame b0 b"
    using boot_cache_inv [of b0] d(1) b0(1,2) by simp_all
  have f: "held b = {}" "dirty b = {}" "disk b = d" "disksize b = disksize s" "length (lh_block b) = LOGSIZE"
    using a fr frame_log(7) [OF fr] b0 by (simp_all add: absc_def frame_def)
  have "1 < disksize b" using f sb by simp
  from readsb_ok [OF inv f(1,2) this] obtain b1 where 1: "readsb 1 b = Ret (sb_of (d 1)) b1" "cache_inv b1"
      "absc b1 = absc b" "frame b b1" unfolding f(3) by blast
  let ?b2 = "b1\<lparr>lstart := sb_logstart (sb_of (d 1)), lsize := sb_nlog (sb_of (d 1)), ldev := 1\<rparr>"
  have a2: "absc ?b2 = absc b" "cache_inv ?b2" using 1 by simp_all
  have f2: "held ?b2 = {}" "dirty ?b2 = {}" "disk ?b2 = d" "dwrites ?b2 = dwrites b"
    using a2(1) f unfolding absc_def by simp_all
  have "\<exists>t. recover_from_log ?b2 = Ret () t \<and> cache_inv t \<and> held t = {} \<and> dirty t = {} \<and> lh_n t = 0 \<and> lstart t = lstart ?b2 \<and>
      dwrites t = dwrites ?b2 @ recover_writes (lstart ?b2) (disk ?b2) \<and> disk t = recovered (lstart ?b2) (disk ?b2)"
    using f2 1(4) frame_log(7) [OF 1(4)] f sb d(2) by (intro recover_ok a2(2)) (auto simp: frame_def)
  then show ?thesis
    using 1(1) f2 sb(1) by (auto simp: initlog_def LOGSIZE_def BSIZE_def)
qed


subsection \<open>An instance\<close>

text \<open>A disk of 1000 blocks with the log at block 2 and a transaction that has changed block 50.\<close>

definition demo_log :: lstate where
  "demo_log = \<lparr>disk = (\<lambda>no. if no = 1 then put32 (replicate BSIZE 0) 16 2 else replicate BSIZE 0), disksize = 1000, dwrites = [],
     bufs = zero_buf\<lparr>bvalid := True, bdirty := True, bdev := 1, blockno := 50, bdata := replicate BSIZE 7\<rparr> # replicate 29 zero_buf,
     mru = rev [0..<NBUF], curpid = 1, lstart = 2, lsize = 30, outstanding = 0, committing = False, ldev = 1, lh_n = 1,
     lh_block = 50 # replicate 29 0\<rparr>"

lemma demo_log_bufp: "i < 30 \<Longrightarrow> bufp demo_log i = (if i = 0 then
    zero_buf\<lparr>bvalid := True, bdirty := True, bdev := 1, blockno := 50, bdata := replicate BSIZE 7\<rparr> else zero_buf)"
  by (auto simp: demo_log_def bufp_def nth_Cons')

lemma demo_log_cached: "cached demo_log no i \<longleftrightarrow> no = 50 \<and> i = 0"
proof -
  have "length (bufs demo_log) = 30" by (simp add: demo_log_def)
  then show ?thesis by (cases "i = 0") (auto simp: cached_def demo_log_bufp zero_buf_def)
qed

lemma demo_log_facts:
  "log_ready demo_log" "dirty demo_log = {50}" "logged demo_log = [50]" "view demo_log 50 = replicate BSIZE 7"
  "get32 (disk demo_log 2) 0 = 0" "sb_logstart (sb_of (disk demo_log 1)) = 2" "lstart demo_log = 2" "disksize demo_log = 1000"
proof -
  have inv: "cache_inv demo_log"
    unfolding cache_inv_def
  proof (intro conjI allI ballI)
    show "length (bufs demo_log) = NBUF" "distinct (mru demo_log)" "set (mru demo_log) = {..<NBUF}"
      by (simp_all add: demo_log_def NBUF_def atLeast0LessThan)
    show "buf_ok demo_log x" if "x \<in> set (bufs demo_log)" for x
      using that by (auto simp: demo_log_def buf_ok_def zero_buf_def initsleeplock_def)
    show "cached demo_log no i \<and> cached demo_log no j \<longrightarrow> i = j" for no i j by (simp add: demo_log_cached)
    show "length (disk demo_log no) = BSIZE" for no by (simp add: demo_log_def)
  qed
  show "view demo_log 50 = replicate BSIZE 7"
    using view_cached [OF inv, of 50 0] by (simp add: demo_log_cached demo_log_bufp)
  show d: "dirty demo_log = {50}" by (auto simp: dirty_def demo_log_cached demo_log_bufp)
  show l: "logged demo_log = [50]" by (simp add: logged_def demo_log_def)
  have "held demo_log = {}" by (auto simp: held_def demo_log_cached demo_log_bufp zero_buf_def initsleeplock_def)
  moreover have "ldev demo_log = 1" "length (lh_block demo_log) = LOGSIZE" "lh_n demo_log = 1" "lstart demo_log = 2"
      "disksize demo_log = 1000" by (simp_all add: demo_log_def LOGSIZE_def)
  ultimately show "log_ready demo_log"
    using inv l by (simp add: log_ready_def homes_ok_def log_area_def LOGSIZE_def)
  have b: "get32 (put32 (replicate BSIZE 0) 16 2) 16 = 2" by (rule get_put32) (simp add: BSIZE_def)
  then show "sb_logstart (sb_of (disk demo_log 1)) = 2" by (simp add: demo_log_def sb_of_def)
  show "get32 (disk demo_log 2) 0 = 0" "lstart demo_log = 2" "disksize demo_log = 1000"
    by (simp_all add: demo_log_def get32_def BSIZE_def)
qed


subsection \<open>A crash during recovery\<close>

lemma recover_writes_cong:
  "e start = d start \<Longrightarrow> (\<And>j. j < length (head_blocks (d start)) \<Longrightarrow> e (log_at start j) = d (log_at start j)) \<Longrightarrow>
   recover_writes start e = recover_writes start d"
  by (simp add: recover_writes_def)



subsection \<open>Recording a block in the transaction\<close>

lemma cache_lh2: "refines (s\<lparr>lh_block := bl, lh_n := n\<rparr>) no f t \<Longrightarrow> cache_inv t \<and> absc t = f (absc s) \<and> frame (s\<lparr>lh_block := bl, lh_n := n\<rparr>) t"
  by (simp add: refines_def)

lemma scan_upto:
  "scan P [0..<n] = Some i \<Longrightarrow> i < n \<and> P i" "scan P [0..<n] = None \<longleftrightarrow> (\<forall>i < n. \<not> P i)"
  by (auto simp: scan_Some_iff)

lemma sint_Suc: "0 \<le> sint (w :: i32) \<Longrightarrow> nat (sint w) < LOGSIZE \<Longrightarrow> nat (sint (w + 1)) = Suc (nat (sint w))"
proof -
  assume "0 \<le> sint w" "nat (sint w) < LOGSIZE"
  then have "sint (w + 1) = sint w + 1"
    by (subst sint_word_ariths(1)) (simp add: signed_take_bit_int_eq_self LOGSIZE_def)
  then show ?thesis using \<open>0 \<le> sint w\<close> by simp
qed

lemma log_write_ok:
  assumes inv: "cache_inv s" and h: "holds s no b" and len: "length (lh_block s) = LOGSIZE"
    and n: "0 \<le> sint (lh_n s)" "nat (sint (lh_n s)) < LOGSIZE" and room: "\<not> lsize s - 1 \<le>s lh_n s" "\<not> outstanding s <s 1"
  shows "\<exists>t. log_write b s = Ret () t \<and> cache_inv t \<and> absc t = adirty_update (insert no) (absc s) \<and>
      logged t = (if no \<in> set (logged s) then logged s else logged s @ [no]) \<and> log_rest s t \<and>
      0 \<le> sint (lh_n t) \<and> nat (sint (lh_n t)) \<le> LOGSIZE \<and> holds t no b \<and> (\<forall>no' j. holds s no' j \<longrightarrow> holds t no' j)"
proof -
  let ?N = "nat (sint (lh_n s))"
  have small: "\<not> word_of_nat LOGSIZE \<le>s lh_n s" using n by (simp add: word_sle_eq LOGSIZE_def)
  have no: "blockno (bufp s b) = no" by (rule holdsD(4) [OF inv h])
  define i where "i = (case scan (\<lambda>i. lh_block s ! i = no) (upto_n (lh_n s)) of Some i \<Rightarrow> i | None \<Rightarrow> ?N)"
  let ?s = "s\<lparr>lh_block := (lh_block s)[i := no], lh_n := if i = ?N then lh_n s + 1 else lh_n s\<rparr>"
  have i: "if no \<in> set (logged s) then i < ?N \<and> lh_block s ! i = no else i = ?N"
  proof -
    have m: "no \<in> set (logged s) \<longleftrightarrow> (\<exists>j < ?N. lh_block s ! j = no)"
      using len n(2) by (auto simp: logged_def in_set_conv_nth)
    show ?thesis
    proof (cases "scan (\<lambda>i. lh_block s ! i = no) [0..<?N]")
      case None
      then have "i = ?N" unfolding i_def upto_n_def None by simp
      moreover have "no \<notin> set (logged s)" using None m unfolding scan_upto(2) by blast
      ultimately show ?thesis by simp
    next
      case (Some j)
      then have "i = j" unfolding i_def upto_n_def Some by simp
      then show ?thesis using m scan_upto(1) [OF Some] by auto
    qed
  qed
  have hs: "holds ?s no b" "cache_inv ?s" using h inv by simp_all
  define t where t_def: "t = upd_buf b (\<lambda>x. x\<lparr>bdirty := True\<rparr>) ?s"
  note md = mark_dirty_refines [OF hs(2,1), folded t_def]
  from cache_lh2 [OF md(1)] have t: "cache_inv t" "absc t = adirty_update (insert no) (absc s)" "frame ?s t" by blast+
  have "logged ?s = (if no \<in> set (logged s) then logged s else logged s @ [no])"
    using i n len sint_Suc [OF n]
    by (auto simp: logged_def take_Suc_conv_app_nth list_update_same_conv split: if_splits)
  then have l: "logged t = (if no \<in> set (logged s) then logged s else logged s @ [no])" using frame_log(8) [OF t(3)] by simp
  have "log_rest s t" using frame_log_rest [OF t(3)] by (simp add: log_rest_def)
  moreover have "0 \<le> sint (lh_n ?s)" "nat (sint (lh_n ?s)) \<le> LOGSIZE" using n sint_Suc [OF n] by (auto split: if_splits)
  then have "0 \<le> sint (lh_n t)" "nat (sint (lh_n t)) \<le> LOGSIZE" using frame_log(6) [OF t(3)] by simp_all
  moreover have "holds t no' j" if "holds s no' j" for no' j
    using that md h by (cases "no' = no") (auto simp: refines_def holds_def dest: cached_unique [OF inv])
  moreover have "log_write b s = Ret () t"
    using small room unfolding t_def by (simp add: log_write_def Let_def no i_def [symmetric])
  ultimately show ?thesis using t(1,2) l md(2) by blast
qed



subsection \<open>Space in the log\<close>



end
