(* ===== verification/FS_Tx.thy ===== *)
theory FS_Tx
  imports FS Log_Crash
begin

text \<open>
  Transactions as the file system sees them: reading a block and changing a block through the buffer
  cache and \<open>log_write\<close>, as operations on the contents of the blocks.  \<open>tx\<close> is the state inside a
  transaction in which the log has room: the blocks that are dirty in the cache are those the log has
  recorded, and they are few enough that another one can still be logged and two more buffers found.
\<close>

definition tx :: "'a lstate_scheme \<Rightarrow> bool" where
  "tx s \<longleftrightarrow> cache_inv s \<and> length (lh_block s) = LOGSIZE \<and> 0 \<le> sint (lh_n s) \<and> nat (sint (lh_n s)) \<le> LOGSIZE \<and>
     distinct (logged s) \<and> set (logged s) = dirty s \<and> card (dirty s) + 2 \<le> LOGSIZE \<and>
     lsize s = word_of_nat LOGSIZE \<and> 1 \<le>s outstanding s"

text \<open>The effect of a piece of code on the blocks: contents \<open>V\<close> and dirty blocks \<open>D\<close> afterwards, the same
  buffers held, and nothing else of the state changed.\<close>

definition eff :: "'a lstate_scheme \<Rightarrow> (u32 \<Rightarrow> block) \<Rightarrow> u32 set \<Rightarrow> 'a lstate_scheme \<Rightarrow> bool" where
  "eff s V D t \<longleftrightarrow> tx t \<and> view t = V \<and> dirty t = D \<and> held t = held s \<and> log_rest s t \<and>
     (\<forall>no j. holds s no j \<longrightarrow> holds t no j)"

lemma log_rest_trans: "log_rest s t \<Longrightarrow> log_rest t u \<Longrightarrow> log_rest s u"
  by (simp add: log_rest_def)

lemma eff_refl: "tx s \<Longrightarrow> eff s (view s) (dirty s) s"
  by (simp add: eff_def log_rest_def)

lemma eff_trans:
  assumes "eff s V D t" "eff t V' D' u"
  shows "eff s V' D' u"
  using assms log_rest_trans by (auto simp: eff_def)

lemma effD:
  assumes "eff s V D t"
  shows "tx t" "view t = V" "dirty t = D" "held t = held s" "log_rest s t" "disksize t = disksize s" "curpid t = curpid s"
  using assms by (simp_all add: eff_def log_rest_def)

lemma tx_card: "tx s \<Longrightarrow> length (logged s) = card (dirty s)"
  unfolding tx_def by (metis distinct_card)

lemma tx_finite: "tx s \<Longrightarrow> finite (dirty s)"
  unfolding tx_def by (metis List.finite_set)

lemma tx_len: "tx s \<Longrightarrow> nat (sint (lh_n s)) = card (dirty s)"
proof -
  assume t: "tx s"
  then have "length (logged s) = nat (sint (lh_n s))" by (simp add: tx_def logged_def)
  then show ?thesis using tx_card [OF t] by simp
qed

lemma tx_view_length: "tx s \<Longrightarrow> length (view s no) = BSIZE"
  by (rule view_length) (simp add: tx_def)

lemma tx_frame: "tx s \<Longrightarrow> cache_inv t \<Longrightarrow> frame s t \<Longrightarrow> dirty t = dirty s \<Longrightarrow> tx t"
  using frame_log [of s t] by (simp add: tx_def)

lemma absc_fields: "aview (absc s) = view s" "adisk (absc s) = disk s" "adirty (absc s) = dirty s" "aheld (absc s) = held s"
  by (simp_all add: absc_def)

lemma absc_update:
  assumes "absc t = (absc s)\<lparr>aview := v, adirty := d, aheld := h\<rparr>"
  shows "view t = v" "dirty t = d" "held t = h" "disk t = disk s"
  using arg_cong [OF assms, of aview] arg_cong [OF assms, of adirty] arg_cong [OF assms, of aheld] arg_cong [OF assms, of adisk]
  by (simp_all add: absc_def)

lemma holds_unique: "cache_inv s \<Longrightarrow> holds s no i \<Longrightarrow> holds s no j \<Longrightarrow> i = j"
  unfolding holds_def using cached_unique by blast

subsection \<open>Reading a block\<close>

lemma bread_tx:
  assumes t: "tx s" and no: "no \<notin> held s" "no < disksize s" and h: "card (held s) \<le> 1" "finite (held s)"
  obtains b u where "bread 1 no s = Ret b u" "tx u" "view u = view s" "dirty u = dirty s" "held u = insert no (held s)"
    "holds u no b" "bdata (bufp u b) = view s no" "frame s u" "disk u = disk s" "\<And>no' j. no' \<noteq> no \<Longrightarrow> holds s no' j \<Longrightarrow> holds u no' j"
proof -
  have inv: "cache_inv s" using t by (simp add: tx_def)
  have "card (dirty s \<union> held s) \<le> card (dirty s) + card (held s)" by (rule card_Un_le)
  then have "card (dirty s \<union> held s) < NBUF" using t h by (simp add: tx_def LOGSIZE_def NBUF_def)
  then obtain b u where b: "bread 1 no s = Ret b u" "cache_inv u" "absc u = aheld_update (insert no) (absc s)" "frame s u" "holds u no b"
      "\<forall>no' j. no' \<noteq> no \<and> holds s no' j \<longrightarrow> holds u no' j"
    using bc.rd_law [OF inv, of no] no unfolding absc_fields by blast
  have "absc u = (absc s)\<lparr>aview := view s, adirty := dirty s, aheld := insert no (held s)\<rparr>"
    unfolding b(3) by (simp add: absc_def)
  note a = absc_update [OF this]
  have "bdata (bufp u b) = view s no" using bc.get_law [OF b(2,5)] a(1) by (simp add: absc_fields)
  then show ?thesis using that b a tx_frame [OF t b(2,4) a(2)] by blast
qed

lemma brelse_tx:
  assumes t: "tx s" and h: "holds s no b" and ok: "no \<in> dirty s \<or> view s no = disk s no"
  obtains u where "brelse b s = Ret () u" "tx u" "view u = view s" "dirty u = dirty s" "held u = held s - {no}"
    "frame s u" "\<And>no' j. no' \<noteq> no \<Longrightarrow> holds s no' j \<Longrightarrow> holds u no' j"
proof -
  have inv: "cache_inv s" using t by (simp add: tx_def)
  obtain u where u: "brelse b s = Ret () u" "cache_inv u" "absc u = aheld_update (\<lambda>h. h - {no}) (absc s)" "frame s u"
      "\<forall>no' j. no' \<noteq> no \<and> holds s no' j \<longrightarrow> holds u no' j"
    using bc.rl_law [OF inv h] ok unfolding absc_fields by blast
  have "absc u = (absc s)\<lparr>aview := view s, adirty := dirty s, aheld := held s - {no}\<rparr>"
    unfolding u(3) by (simp add: absc_def)
  note a = absc_update [OF this]
  then show ?thesis using that u tx_frame [OF t u(2,4) a(2)] by blast
qed

text \<open>A block is read, and released again unchanged after the code has used the buffer.\<close>

lemma read_block:
  assumes t: "tx s" and no: "no \<notin> held s" "no < disksize s" and h: "card (held s) \<le> 1" "finite (held s)"
  obtains b u w where "bread 1 no s = Ret b u" "bdata (bufp u b) = view s no" "frame s u" "brelse b u = Ret () w" "eff s (view s) (dirty s) w"
proof -
  obtain b u where b: "bread 1 no s = Ret b u" "tx u" "view u = view s" "dirty u = dirty s" "held u = insert no (held s)"
    "holds u no b" "bdata (bufp u b) = view s no" "frame s u" "disk u = disk s" "\<And>no' j. no' \<noteq> no \<Longrightarrow> holds s no' j \<Longrightarrow> holds u no' j"
    using bread_tx [OF t no h] by metis
  have "no \<in> dirty u \<or> view u no = disk u no"
    using view_clean [of s no] t no(1) b(3,4,9) by (auto simp: tx_def)
  then obtain w where w: "brelse b u = Ret () w" "tx w" "view w = view u" "dirty w = dirty u" "held w = held u - {no}"
    "frame u w" "\<And>no' j. no' \<noteq> no \<Longrightarrow> holds u no' j \<Longrightarrow> holds w no' j"
    using brelse_tx [OF b(2,6)] by metis
  have "log_rest s w" by (rule log_rest_trans [OF frame_log_rest [OF b(8)] frame_log_rest [OF w(6)]])
  moreover have "no' \<noteq> no" if "holds s no' j" for no' j
    using that no(1) holdsD(9) [of s no' j] t by (auto simp: tx_def)
  ultimately have "eff s (view s) (dirty s) w"
    unfolding eff_def using w b no(1) by auto
  then show ?thesis using that b(1,7,8) w(1) by blast
qed

subsection \<open>Changing a block\<close>

lemma log_write_tx:
  assumes t: "tx s" and h: "holds s no b" and d: "length d = BSIZE" and room: "card (insert no (dirty s)) + 2 \<le> LOGSIZE"
  obtains u where "log_write b (set_data b d s) = Ret () u" "tx u" "view u = (view s)(no := d)" "dirty u = insert no (dirty s)"
    "held u = held s" "holds u no b" "log_rest s u" "disk u = disk s" "\<And>no' j. holds s no' j \<Longrightarrow> holds u no' j"
proof -
  let ?s = "set_data b d s"
  have inv: "cache_inv s" using t by (simp add: tx_def)
  have p: "cache_inv ?s" "absc ?s = (absc s)\<lparr>aview := (view s)(no := d)\<rparr>" "frame s ?s" "holds ?s no b"
      "\<And>no' j. no' \<noteq> no \<Longrightarrow> holds s no' j \<Longrightarrow> holds ?s no' j"
    using bc.put_law [OF inv h d] by (auto simp: absc_fields)
  note fl = frame_log [OF p(3)]
  have n: "0 \<le> sint (lh_n ?s)" "nat (sint (lh_n ?s)) = card (dirty s)" "card (dirty s) + 2 \<le> LOGSIZE" "length (lh_block ?s) = LOGSIZE"
    using t tx_len [OF t] by (simp_all add: fl tx_def)
  have ls: "\<not> lsize ?s - 1 \<le>s lh_n ?s" "\<not> outstanding ?s <s 1" "nat (sint (lh_n ?s)) < LOGSIZE"
    using n t unfolding fl by (auto simp: tx_def word_sle_eq word_sless_alt LOGSIZE_def)
  obtain u where u: "log_write b ?s = Ret () u" "cache_inv u" "absc u = adirty_update (insert no) (absc ?s)" "log_rest ?s u"
      "logged u = (if no \<in> set (logged ?s) then logged ?s else logged ?s @ [no])" "holds u no b"
      "0 \<le> sint (lh_n u)" "nat (sint (lh_n u)) \<le> LOGSIZE" "\<And>no' j. holds ?s no' j \<Longrightarrow> holds u no' j"
    using log_write_ok [OF p(1,4) n(4,1) ls(3,1,2)] by blast
  have "absc u = (absc s)\<lparr>aview := (view s)(no := d), adirty := insert no (dirty s), aheld := held s\<rparr>"
    unfolding u(3) p(2) by (simp add: absc_def)
  note a = absc_update [OF this]
  have lr: "log_rest s u" using log_rest_trans [OF frame_log_rest [OF p(3)] u(4)] .
  have "logged s = logged ?s" "distinct (logged s)" "set (logged s) = dirty s" using t fl(8) by (simp_all add: tx_def)
  then have "distinct (logged u)" "set (logged u) = insert no (dirty s)" using u(5) by auto
  then have "tx u" using t u(2,7,8) a(2) lr room by (simp add: tx_def log_rest_def)
  moreover have "holds u no' j" if "holds s no' j" for no' j
    using that u(6,9) p(5) holds_unique [OF inv h] by (cases "no' = no") auto
  ultimately show ?thesis using that u(1,6) a lr by blast
qed

text \<open>A block is read, replaced by \<open>d\<close>, logged and released.\<close>

lemma rewrite_block:
  assumes t: "tx s" and no: "no \<notin> held s" "no < disksize s" and h: "card (held s) \<le> 1" "finite (held s)"
    and room: "card (insert no (dirty s)) + 2 \<le> LOGSIZE" and d: "length d = BSIZE"
  obtains b u v w where "bread 1 no s = Ret b u" "bdata (bufp u b) = view s no" "frame s u"
    "log_write b (set_data b d u) = Ret () v" "brelse b v = Ret () w" "eff s ((view s)(no := d)) (insert no (dirty s)) w"
proof -
  obtain b u where b: "bread 1 no s = Ret b u" "tx u" "view u = view s" "dirty u = dirty s" "held u = insert no (held s)"
    "holds u no b" "bdata (bufp u b) = view s no" "frame s u" "disk u = disk s" "\<And>no' j. no' \<noteq> no \<Longrightarrow> holds s no' j \<Longrightarrow> holds u no' j"
    using bread_tx [OF t no h] by metis
  have "card (insert no (dirty u)) + 2 \<le> LOGSIZE" using room b(4) by simp
  from log_write_tx [OF b(2,6) d this] obtain v where v: "log_write b (set_data b d u) = Ret () v" "tx v"
    "view v = (view u)(no := d)" "dirty v = insert no (dirty u)" "held v = held u" "holds v no b" "log_rest u v"
    "\<And>no' j. holds u no' j \<Longrightarrow> holds v no' j" by metis
  have "no \<in> dirty v \<or> view v no = disk v no" using v(4) by simp
  from brelse_tx [OF v(2,6) this] obtain w where w: "brelse b v = Ret () w" "tx w" "view w = view v" "dirty w = dirty v"
    "held w = held v - {no}" "frame v w" "\<And>no' j. no' \<noteq> no \<Longrightarrow> holds v no' j \<Longrightarrow> holds w no' j" by metis
  have "log_rest s w"
    by (rule log_rest_trans [OF frame_log_rest [OF b(8)] log_rest_trans [OF v(7) frame_log_rest [OF w(6)]]])
  moreover have "no' \<noteq> no" if "holds s no' j" for no' j
    using that no(1) holdsD(9) [of s no' j] t by (auto simp: tx_def)
  ultimately have "eff s ((view s)(no := d)) (insert no (dirty s)) w"
    unfolding eff_def using w v b no(1) by auto
  then show ?thesis using that b(1,7,8) v(1) w(1) by blast
qed

text \<open>The same where the code computes the new contents \<open>f\<close> of the old ones from the state after the read.\<close>

lemma change_block:
  assumes t: "tx s" and no: "no \<notin> held s" "no < disksize s" and h: "card (held s) \<le> 1" "finite (held s)"
    and room: "card (insert no (dirty s)) + 2 \<le> LOGSIZE" and d: "length (f (view s no)) = BSIZE"
    and F: "\<And>u. frame s u \<Longrightarrow> F u = f"
  obtains w where "andthen (bread 1 no s) (\<lambda>b s. let s = set_data b (F s (bdata (bufp s b))) s in
      andthen (log_write b s) (\<lambda>_ s. brelse b s)) = Ret () w"
    "eff s ((view s)(no := f (view s no))) (insert no (dirty s)) w"
proof -
  obtain b u v w where w: "bread 1 no s = Ret b u" "bdata (bufp u b) = view s no" "frame s u"
    "log_write b (set_data b (f (view s no)) u) = Ret () v" "brelse b v = Ret () w"
    "eff s ((view s)(no := f (view s no))) (insert no (dirty s)) w"
    using rewrite_block [OF t no h room d] by metis
  then show ?thesis using that F [OF w(3)] by (simp add: Let_def)
qed

subsection \<open>Inode cache and blocks are independent\<close>

lemma icache_cache [simp]:
  "view (s\<lparr>icache := c\<rparr>) = view s" "dirty (s\<lparr>icache := c\<rparr>) = dirty s" "held (s\<lparr>icache := c\<rparr>) = held s"
  "cache_inv (s\<lparr>icache := c\<rparr>) = cache_inv s" "holds (s\<lparr>icache := c\<rparr>) = holds s" "logged (s\<lparr>icache := c\<rparr>) = logged s"
proof -
  have b: "bufp (s\<lparr>icache := c\<rparr>) = bufp s" by (simp add: bufp_def fun_eq_iff)
  have k: "cached (s\<lparr>icache := c\<rparr>) = cached s" by (simp add: cached_def b fun_eq_iff)
  show "view (s\<lparr>icache := c\<rparr>) = view s" by (simp add: view_def b fun_eq_iff cong: option.case_cong)
  show "dirty (s\<lparr>icache := c\<rparr>) = dirty s" "held (s\<lparr>icache := c\<rparr>) = held s" by (simp_all add: dirty_def held_def k b)
  have "buf_ok (s\<lparr>icache := c\<rparr>) = buf_ok s" by (simp add: buf_ok_def fun_eq_iff)
  then show "cache_inv (s\<lparr>icache := c\<rparr>) = cache_inv s" by (simp add: cache_inv_def k)
  show "holds (s\<lparr>icache := c\<rparr>) = holds s" by (simp add: holds_def k b fun_eq_iff)
  show "logged (s\<lparr>icache := c\<rparr>) = logged s" by (simp add: logged_def)
qed

lemma upd_inode_cache [simp]:
  "view (upd_inode ip f s) = view s" "dirty (upd_inode ip f s) = dirty s" "held (upd_inode ip f s) = held s"
  "holds (upd_inode ip f s) = holds s" "disksize (upd_inode ip f s) = disksize s" "curpid (upd_inode ip f s) = curpid s"
  "fsb (upd_inode ip f s) = fsb s" "length (icache (upd_inode ip f s)) = length (icache s)" "cwd (upd_inode ip f s) = cwd s"
  "disk (upd_inode ip f s) = disk s"
  by (simp_all add: upd_inode_def)

lemma tx_upd_inode [simp]: "tx (upd_inode ip f s) = tx s"
  by (simp add: tx_def upd_inode_def)

lemma inode_at_upd [simp]:
  "ip < length (icache s) \<Longrightarrow> inode_at (upd_inode ip f s) jp = (if jp = ip then f (inode_at s ip) else inode_at s jp)"
  by (simp add: inode_at_def upd_inode_def)

lemma log_rest_fs:
  assumes "log_rest s t"
  shows "fsb t = fsb s" "icache t = icache s" "cwd t = cwd s" "inode_at t = inode_at s"
  using assms by (cases s; cases t; simp add: log_rest_def inode_at_def fun_eq_iff)+

lemma eff_fs:
  assumes "eff s V D t"
  shows "fsb t = fsb s" "icache t = icache s" "cwd t = cwd s" "inode_at t = inode_at s"
  using log_rest_fs [OF effD(5) [OF assms]] .

lemma frame_fs:
  assumes "frame s t"
  shows "fsb t = fsb s" "icache t = icache s" "cwd t = cwd s" "inode_at t = inode_at s"
  using log_rest_fs [OF frame_log_rest [OF assms]] .

lemma eff_upd_inode:
  assumes "eff s V D t"
  shows "eff (upd_inode ip f s) V D (upd_inode ip f t)"
proof -
  have "log_rest (upd_inode ip f s) (upd_inode ip f t)"
    using effD(5) [OF assms] by (cases s; cases t) (simp add: log_rest_def upd_inode_def)
  then show ?thesis using assms by (simp add: eff_def)
qed

end
