(* ===== verification/FS_Alloc.thy ===== *)
theory FS_Alloc
  imports FS_Tx
begin

text \<open>
  The block allocator: \<open>balloc\<close> and \<open>bfree\<close> as operations on a set of allocated blocks, for a file
  system whose free map is one block, as the one of \<open>FSSIZE\<close> blocks that src/mkfs.c makes is.
\<close>

subsection \<open>The free map\<close>

lemma bit_clear_iff: "bit_clear d bi \<longleftrightarrow> \<not> bit (d ! (bi div 8)) (bi mod 8)"
  unfolding bit_clear_def bit_mask_def bit_iff_and_push_bit_not_eq_0 by simp

lemma bit_bit_mask: "bit (bit_mask bi) j \<longleftrightarrow> j = bi mod 8"
proof -
  have "bi mod 8 < 8" by simp
  then show ?thesis by (auto simp: bit_mask_def bit_exp_iff possible_bit_def)
qed

lemma same_bit: "b div 8 = c div 8 \<Longrightarrow> b mod 8 = c mod 8 \<Longrightarrow> b = (c :: nat)"
  by (metis div_mult_mod_eq)

lemma set_bit_clear:
  assumes "b div 8 < length d"
  shows "bit_clear (d[b div 8 := or (d ! (b div 8)) (bit_mask b)]) c \<longleftrightarrow> c \<noteq> b \<and> bit_clear d c"
proof (cases "c div 8 = b div 8")
  case True
  have "bit (or (d ! (b div 8)) (bit_mask b)) (c mod 8) \<longleftrightarrow> bit (d ! (b div 8)) (c mod 8) \<or> c mod 8 = b mod 8"
    by (auto simp: bit_bit_mask bit_or_iff)
  then show ?thesis using True assms same_bit [of b c] by (auto simp: bit_clear_iff)
next
  case False
  then show ?thesis by (auto simp: bit_clear_iff)
qed

lemma clear_bit_clear:
  assumes "b div 8 < length d"
  shows "bit_clear (d[b div 8 := and (d ! (b div 8)) (not (bit_mask b))]) c \<longleftrightarrow> c = b \<or> bit_clear d c"
proof (cases "c div 8 = b div 8")
  case True
  have "bit (and (d ! (b div 8)) (not (bit_mask b))) (c mod 8) \<longleftrightarrow> bit (d ! (b div 8)) (c mod 8) \<and> c mod 8 \<noteq> b mod 8"
    by (auto simp: bit_bit_mask bit_and_iff bit_not_iff)
  then show ?thesis using True assms same_bit [of b c] by (auto simp: bit_clear_iff)
next
  case False
  then show ?thesis by (auto simp: bit_clear_iff)
qed

definition bmb :: "'a fs_st_scheme \<Rightarrow> u32" where
  "bmb s = sb_bmapstart (fsb s)"

definition fs_size :: "'a fs_st_scheme \<Rightarrow> nat" where
  "fs_size s = unat (sb_size (fsb s))"

definition data_start :: "'a fs_st_scheme \<Rightarrow> nat" where
  "data_start s = fs_size s - unat (sb_nblocks (fsb s))"

definition allocated :: "'a fs_st_scheme \<Rightarrow> u32 \<Rightarrow> bool" where
  "allocated s b \<longleftrightarrow> \<not> bit_clear (view s (bmb s)) (unat b)"

text \<open>The blocks that \<open>balloc\<close> may hand out.\<close>

definition free_blocks :: "'a fs_st_scheme \<Rightarrow> u32 set" where
  "free_blocks s = {b. unat b < fs_size s \<and> \<not> allocated s b}"

text \<open>The layout of the disk: inode blocks, then the one block of the free map, then data.  Everything
  before the data is marked as allocated.\<close>

definition geom :: "'a fs_st_scheme \<Rightarrow> bool" where
  "geom s \<longleftrightarrow> 0 < fs_size s \<and> fs_size s \<le> BPB \<and> fs_size s \<le> unat (disksize s) \<and>
     unat (sb_inodestart (fsb s)) + unat (sb_ninodes (fsb s)) div IPB < unat (bmb s) \<and> unat (bmb s) < data_start s \<and>
     (\<forall>b. unat b < data_start s \<longrightarrow> allocated s b)"

lemma geomD:
  assumes "geom s"
  shows "0 < fs_size s" "fs_size s \<le> BPB" "fs_size s \<le> unat (disksize s)" "unat (bmb s) < data_start s" "data_start s \<le> fs_size s"
    "unat b < data_start s \<Longrightarrow> allocated s b" "bmb s < disksize s" "unat b < fs_size s \<Longrightarrow> b < disksize s"
  using assms by (auto simp: geom_def data_start_def word_less_nat_alt)

lemma free_data: "geom s \<Longrightarrow> b \<in> free_blocks s \<Longrightarrow> data_start s \<le> unat b \<and> b \<noteq> bmb s \<and> b < disksize s"
  using geomD(4,6,8) [of s] by (force simp: free_blocks_def not_less [symmetric])

lemma BBLOCK_bmb:
  assumes "geom s" "unat b < fs_size s"
  shows "BBLOCK b (fsb s) = bmb s"
proof -
  have "unat b < unat (word_of_nat BPB :: u32)" using assms geomD(2) by (fastforce simp: BPB_def BSIZE_def)
  then have "b div word_of_nat BPB = 0" by (simp add: word_unat_eq_iff unat_div)
  then show ?thesis by (simp add: BBLOCK_def bmb_def)
qed

lemma block_count: "geom s \<Longrightarrow> map (\<lambda>k. k * BPB) [0..<(unat (sb_size (fsb s)) + BPB - 1) div BPB] = [0]"
proof -
  assume g: "geom s"
  have "0 < unat (sb_size (fsb s))" "unat (sb_size (fsb s)) \<le> BPB" using geomD(1,2) [OF g] by (simp_all add: fs_size_def)
  then have "(unat (sb_size (fsb s)) + BPB - 1) div BPB = 1"
    by (intro div_nat_eqI) (auto simp: BPB_def BSIZE_def)
  then show ?thesis by simp
qed

subsection \<open>Allocating and freeing\<close>

definition mark :: "u32 \<Rightarrow> block \<Rightarrow> block" where
  "mark b d = d[unat b div 8 := or (d ! (unat b div 8)) (bit_mask (unat b))]"

definition unmark :: "u32 \<Rightarrow> block \<Rightarrow> block" where
  "unmark b d = d[unat b div 8 := and (d ! (unat b div 8)) (not (bit_mask (unat b)))]"

text \<open>The contents of the blocks after \<open>b\<close> was allocated.\<close>

definition with_block :: "'a fs_st_scheme \<Rightarrow> u32 \<Rightarrow> u32 \<Rightarrow> block" where
  "with_block s b = (view s)(bmb s := mark b (view s (bmb s)), b := replicate BSIZE 0)"

lemma bzero_ok:
  assumes "tx s" "no \<notin> held s" "no < disksize s" "card (held s) \<le> 1" "finite (held s)" "card (insert no (dirty s)) + 2 \<le> LOGSIZE"
  obtains w where "bzero 1 no s = Ret () w" "eff s ((view s)(no := replicate BSIZE 0)) (insert no (dirty s)) w"
  by (rule change_block [OF assms, of "\<lambda>_. replicate BSIZE 0" "\<lambda>_ _. replicate BSIZE 0"]) (auto simp: bzero_def)

lemma balloc_ok:
  assumes t: "tx s" and g: "geom s" and free: "free_blocks s \<noteq> {}"
    and h: "card (held s) \<le> 1" "finite (held s)" "held s \<inter> free_blocks s = {}" "bmb s \<notin> held s"
    and room: "card (insert (bmb s) (dirty s)) + 3 \<le> LOGSIZE"
  obtains b u where "balloc 1 s = Ret b u" "b \<in> free_blocks s" "eff s (with_block s b) (insert b (insert (bmb s) (dirty s))) u"
proof -
  let ?d = "view s (bmb s)"
  let ?l = "[0..<min BPB (unat (sb_size (fsb s)))]"
  have l: "?l = [0..<fs_size s]" using geomD(2) [OF g] by (simp add: fs_size_def min_def)
  obtain f where f: "f \<in> free_blocks s" using free by blast
  then have "scan (bit_clear ?d) ?l \<noteq> None"
    unfolding l by (auto simp: free_blocks_def allocated_def)
  then obtain i where i: "scan (bit_clear ?d) ?l = Some i" by blast
  then have i2: "i < fs_size s" "bit_clear ?d i" unfolding l using scan_SomeD by fastforce+
  define b :: u32 where "b = word_of_nat i"
  have ub: "unat b = i" using i2(1) geomD(2) [OF g] by (simp add: b_def unat_of_nat BPB_def BSIZE_def)
  have bf: "b \<in> free_blocks s" using i2 ub by (simp add: free_blocks_def allocated_def)
  have room1: "card (insert (bmb s) (dirty s)) + 2 \<le> LOGSIZE" using room by simp
  have "length (mark b ?d) = BSIZE" using tx_view_length [OF t] by (simp add: mark_def)
  from rewrite_block [OF t h(4) geomD(7) [OF g] h(1,2) room1 this]
  obtain bp u v w where w: "bread 1 (bmb s) s = Ret bp u" "bdata (bufp u bp) = ?d" "frame s u"
    "log_write bp (set_data bp (mark b ?d) u) = Ret () v" "brelse bp v = Ret () w"
    "eff s ((view s)(bmb s := mark b ?d)) (insert (bmb s) (dirty s)) w" by metis
  note ew = effD [OF w(6)]
  have nb: "b \<notin> held w" "b < disksize w" "card (held w) \<le> 1" "finite (held w)" using h bf free_data [OF g bf] ew by auto
  have room2: "card (insert b (dirty w)) + 2 \<le> LOGSIZE"
    using room card_insert_le_m1 [of "Suc (card (dirty w))" "dirty w" b] ew(3) by simp
  obtain x where x: "bzero 1 b w = Ret () x" "eff w ((view w)(b := replicate BSIZE 0)) (insert b (dirty w)) x"
    by (rule bzero_ok [OF ew(1) nb room2])
  have "eff s (with_block s b) (insert b (insert (bmb s) (dirty s))) x"
    using eff_trans [OF w(6) x(2)] ew by (simp add: with_block_def)
  moreover have "BBLOCK 0 (fsb s) = bmb s" using BBLOCK_bmb [OF g, of 0] geomD(1) [OF g] by simp
  then have "balloc 1 s = Ret b x"
    unfolding balloc_def block_count [OF g] using w(1-5) x(1) i ub frame_fs(1) [OF w(3)]
    by (simp add: mark_def Let_def flip: b_def)
  ultimately show ?thesis using that bf by blast
qed

text \<open>What the changes of the free map mean for the sets of allocated and free blocks.\<close>

lemma small_block: "geom s \<Longrightarrow> unat b < fs_size s \<Longrightarrow> unat b div 8 < BSIZE"
  using geomD(2) [of s] by (simp add: BPB_def BSIZE_def)

lemma mark_allocated:
  assumes "length (view s (bmb s)) = BSIZE" "geom s" "unat b < fs_size s" "fsb t = fsb s" "view t (bmb s) = mark b (view s (bmb s))"
  shows "allocated t c \<longleftrightarrow> c = b \<or> allocated s c"
  using assms set_bit_clear [of "unat b" "view s (bmb s)" "unat c"] small_block [OF assms(2,3)]
  by (auto simp: allocated_def mark_def bmb_def word_unat_eq_iff)

lemma unmark_allocated:
  assumes "length (view s (bmb s)) = BSIZE" "geom s" "unat b < fs_size s" "fsb t = fsb s" "view t (bmb s) = unmark b (view s (bmb s))"
  shows "allocated t c \<longleftrightarrow> c \<noteq> b \<and> allocated s c"
  using assms clear_bit_clear [of "unat b" "view s (bmb s)" "unat c"] small_block [OF assms(2,3)]
  by (auto simp: allocated_def unmark_def bmb_def word_unat_eq_iff)

lemma geom_fs: "fsb t = fsb s \<Longrightarrow> bmb t = bmb s \<and> fs_size t = fs_size s \<and> data_start t = data_start s"
  by (simp add: bmb_def fs_size_def data_start_def)

lemma geom_keep:
  assumes "geom s" "fsb t = fsb s" "disksize t = disksize s" "\<And>b. unat b < data_start s \<Longrightarrow> allocated s b \<Longrightarrow> allocated t b"
  shows "geom t"
  using assms geom_fs [OF assms(2)] by (auto simp: geom_def)

lemma bfree_ok:
  assumes t: "tx s" and g: "geom s" and b: "unat b < fs_size s"
    and h: "card (held s) \<le> 1" "finite (held s)" "bmb s \<notin> held s"
    and room: "card (insert (bmb s) (dirty s)) + 2 \<le> LOGSIZE"
  shows "if allocated s b
      then \<exists>u. bfree 1 b s = Ret () u \<and> eff s ((view s)(bmb s := unmark b (view s (bmb s)))) (insert (bmb s) (dirty s)) u
      else \<exists>u. bfree 1 b s = Panic ''freeing free block'' u"
proof -
  let ?d = "view s (bmb s)"
  have m: "unat b mod BPB = unat b" using b geomD(2) [OF g] by (simp add: BPB_def BSIZE_def)
  have "length (unmark b ?d) = BSIZE" using tx_view_length [OF t] by (simp add: unmark_def)
  from rewrite_block [OF t h(3) geomD(7) [OF g] h(1,2) room this]
  obtain bp u v w where w: "bread 1 (bmb s) s = Ret bp u" "bdata (bufp u bp) = ?d" "frame s u"
    "log_write bp (set_data bp (unmark b ?d) u) = Ret () v" "brelse bp v = Ret () w"
    "eff s ((view s)(bmb s := unmark b ?d)) (insert (bmb s) (dirty s)) w" by metis
  have "bfree 1 b s = (if allocated s b then Ret () w else Panic ''freeing free block'' u)"
    unfolding bfree_def BBLOCK_bmb [OF g b] m using w(1,2,4,5) by (simp add: allocated_def unmark_def Let_def)
  then show ?thesis using w(6) by auto
qed

lemma balloc_full:
  assumes t: "tx s" and g: "geom s" and free: "free_blocks s = {}"
    and h: "card (held s) \<le> 1" "finite (held s)" "bmb s \<notin> held s"
  shows "\<exists>u. balloc 1 s = Panic ''balloc: out of blocks'' u"
proof -
  let ?d = "view s (bmb s)"
  let ?l = "[0..<min BPB (unat (sb_size (fsb s)))]"
  have l: "?l = [0..<fs_size s]" using geomD(2) [OF g] by (simp add: fs_size_def min_def)
  have "\<not> bit_clear ?d i" if "i < fs_size s" for i
  proof -
    have "unat (word_of_nat i :: u32) = i" using that geomD(2) [OF g] by (simp add: unat_of_nat BPB_def BSIZE_def)
    moreover have "(word_of_nat i :: u32) \<notin> free_blocks s" using free by simp
    ultimately show ?thesis using that by (simp add: free_blocks_def allocated_def)
  qed
  then have none: "scan (bit_clear ?d) ?l = None" unfolding l by simp
  obtain bp u w where w: "bread 1 (bmb s) s = Ret bp u" "bdata (bufp u bp) = ?d" "frame s u" "brelse bp u = Ret () w"
    using read_block [OF t h(3) geomD(7) [OF g] h(1,2)] by metis
  have "BBLOCK 0 (fsb s) = bmb s" using BBLOCK_bmb [OF g, of 0] geomD(1) [OF g] by simp
  then have "balloc 1 s = Panic ''balloc: out of blocks'' w"
    unfolding balloc_def block_count [OF g] using w none frame_fs(1) [OF w(3)] by (simp del: scan_None_iff)
  then show ?thesis by blast
qed

end
