(* ===== verification/FS_File.thy ===== *)
theory FS_File
  imports FS_Alloc
begin

text \<open>
  The contents of files: \<open>bmap\<close>, \<open>readi\<close>, \<open>writei\<close> and \<open>iupdate\<close> as operations on an array of bytes.

  \<open>adr s ip k\<close> is the address the inode \<open>ip\<close> gives for block \<open>k\<close> of the file, 0 if it has none, and for
  \<open>k = MAXFILE\<close> the address of its indirect block.  \<open>fok ip s\<close> says that the state is one inside a
  transaction and that the inode is well formed: the addresses are distinct allocated data blocks and
  everything below the size of the file has an address.
\<close>

definition adr :: "'a fs_st_scheme \<Rightarrow> nat \<Rightarrow> nat \<Rightarrow> u32" where
  "adr s ip k =
     (let a = i_addrs (inode_at s ip) in
      if k < NDIRECT then a ! k
      else if k = MAXFILE then a ! NDIRECT
      else if a ! NDIRECT = 0 then 0
      else get32 (view s (a ! NDIRECT)) (4 * (k - NDIRECT)))"

definition file_ok :: "nat \<Rightarrow> 'a fs_st_scheme \<Rightarrow> bool" where
  "file_ok ip s \<longleftrightarrow>
     (let x = inode_at s ip in
      i_dev x = 1 \<and> unat (i_inum x) < unat (sb_ninodes (fsb s)) \<and> length (i_addrs x) = NDIRECT + 1 \<and>
      unat (i_size x) \<le> MAXFILE * BSIZE \<and>
      (\<forall>k \<le> MAXFILE. adr s ip k \<noteq> 0 \<longrightarrow> data_start s \<le> unat (adr s ip k) \<and> unat (adr s ip k) < fs_size s \<and> allocated s (adr s ip k)) \<and>
      (\<forall>j \<le> MAXFILE. \<forall>k \<le> MAXFILE. adr s ip j = adr s ip k \<and> adr s ip k \<noteq> 0 \<longrightarrow> j = k) \<and>
      (\<forall>k < MAXFILE. k * BSIZE < unat (i_size x) \<longrightarrow> adr s ip k \<noteq> 0))"

definition fok :: "nat \<Rightarrow> 'a fs_st_scheme \<Rightarrow> bool" where
  "fok ip s \<longleftrightarrow> tx s \<and> geom s \<and> held s = {} \<and> ip < length (icache s) \<and> file_ok ip s"

definition fbyte :: "'a fs_st_scheme \<Rightarrow> nat \<Rightarrow> nat \<Rightarrow> u8" where
  "fbyte s ip i = view s (adr s ip (i div BSIZE)) ! (i mod BSIZE)"

definition fdata :: "'a fs_st_scheme \<Rightarrow> nat \<Rightarrow> u8 list" where
  "fdata s ip = map (fbyte s ip) [0..<unat (i_size (inode_at s ip))]"

lemma fokD:
  assumes "fok ip s"
  shows "tx s" "geom s" "held s = {}" "ip < length (icache s)" "i_dev (inode_at s ip) = 1" "length (i_addrs (inode_at s ip)) = NDIRECT + 1"
    "unat (i_size (inode_at s ip)) \<le> MAXFILE * BSIZE" "unat (i_inum (inode_at s ip)) < unat (sb_ninodes (fsb s))" "file_ok ip s"
  using assms by (simp_all add: fok_def file_ok_def Let_def)

lemma fok_adr:
  assumes "fok ip s" "k \<le> MAXFILE" "adr s ip k \<noteq> 0"
  shows "data_start s \<le> unat (adr s ip k)" "unat (adr s ip k) < fs_size s" "allocated s (adr s ip k)" "adr s ip k < disksize s"
    "adr s ip k \<noteq> bmb s" "adr s ip k \<notin> free_blocks s" "j \<le> MAXFILE \<Longrightarrow> adr s ip j = adr s ip k \<Longrightarrow> j = k"
proof -
  show d: "data_start s \<le> unat (adr s ip k)" "unat (adr s ip k) < fs_size s" "allocated s (adr s ip k)"
    "j \<le> MAXFILE \<Longrightarrow> adr s ip j = adr s ip k \<Longrightarrow> j = k"
    using assms by (auto simp: fok_def file_ok_def Let_def)
  show "adr s ip k < disksize s" "adr s ip k \<noteq> bmb s" "adr s ip k \<notin> free_blocks s"
    using geomD(4,8) [OF fokD(2) [OF assms(1)]] d by (auto simp: free_blocks_def)
qed

lemma fok_mapped: "fok ip s \<Longrightarrow> k < MAXFILE \<Longrightarrow> k * BSIZE < unat (i_size (inode_at s ip)) \<Longrightarrow> adr s ip k \<noteq> 0"
  by (simp add: fok_def file_ok_def Let_def)

lemma free_nonzero: "geom s \<Longrightarrow> b \<in> free_blocks s \<Longrightarrow> b \<noteq> 0"
  using free_data [of s b] geomD(4) [of s] by auto

lemma finite_free [simp]: "finite (free_blocks s)"
  by (rule finite_subset [OF subset_UNIV]) simp

text \<open>The blocks of the file at the positions in \<open>K\<close> and its indirect block.\<close>

definition ablks :: "'a fs_st_scheme \<Rightarrow> nat \<Rightarrow> nat set \<Rightarrow> u32 set" where
  "ablks s ip K = {adr s ip k |k. k \<in> insert MAXFILE K \<and> adr s ip k \<noteq> 0}"

lemma ablksI: "k \<in> insert MAXFILE K \<Longrightarrow> adr s ip k \<noteq> 0 \<Longrightarrow> adr s ip k \<in> ablks s ip K"
  unfolding ablks_def by blast

lemma ablks_card:
  assumes "finite K"
  shows "finite (ablks s ip K)" "card (ablks s ip K) \<le> card K + 1"
proof -
  have sub: "ablks s ip K \<subseteq> adr s ip ` insert MAXFILE K" by (auto simp: ablks_def)
  then show "finite (ablks s ip K)" by (rule finite_subset) (simp add: assms)
  have "card (ablks s ip K) \<le> card (adr s ip ` insert MAXFILE K)" by (rule card_mono [OF _ sub]) (simp add: assms)
  also have "\<dots> \<le> card (insert MAXFILE K)" by (rule card_image_le) (simp add: assms)
  also have "\<dots> \<le> card K + 1" by (simp add: card_insert_if assms)
  finally show "card (ablks s ip K) \<le> card K + 1" .
qed

lemma ablks_mono: "K \<subseteq> L \<Longrightarrow> ablks s ip K \<subseteq> ablks s ip L"
  by (auto simp: ablks_def)

subsection \<open>Changes to one file\<close>

text \<open>\<open>rest ip s t\<close>: apart from blocks, buffers and the log, only the addresses in inode \<open>ip\<close> differ.\<close>

definition set_addrs :: "nat \<Rightarrow> u32 list \<Rightarrow> 'a fs_st_scheme \<Rightarrow> 'a fs_st_scheme" where
  "set_addrs ip as = upd_inode ip (\<lambda>x. x\<lparr>i_addrs := as\<rparr>)"

definition rest :: "nat \<Rightarrow> 'a fs_st_scheme \<Rightarrow> 'a fs_st_scheme \<Rightarrow> bool" where
  "rest ip s t \<longleftrightarrow> (\<exists>as. log_rest (set_addrs ip as s) t)"

text \<open>\<open>fstep ip K s t\<close>: \<open>t\<close> arises from \<open>s\<close> by giving addresses to blocks of the file at positions in \<open>K\<close>
  and changing the contents of blocks there.\<close>

definition fstep :: "nat \<Rightarrow> nat set \<Rightarrow> 'a fs_st_scheme \<Rightarrow> 'a fs_st_scheme \<Rightarrow> bool" where
  "fstep ip K s t \<longleftrightarrow> fok ip t \<and> rest ip s t \<and>
     free_blocks t = free_blocks s - ablks t ip K \<and>
     (\<forall>k \<le> MAXFILE. adr s ip k \<noteq> 0 \<longrightarrow> adr t ip k = adr s ip k) \<and>
     (\<forall>k \<le> MAXFILE. adr s ip k = 0 \<and> adr t ip k \<noteq> 0 \<longrightarrow> adr t ip k \<in> free_blocks s \<and> k \<in> insert MAXFILE K) \<and>
     (\<forall>b. b \<notin> free_blocks s \<and> b \<noteq> bmb s \<and> b \<notin> ablks s ip K \<longrightarrow> view t b = view s b) \<and>
     dirty t \<subseteq> insert (bmb s) (dirty s) \<union> ablks t ip K \<and>
     ((\<forall>k \<in> K. adr s ip k \<noteq> 0) \<longrightarrow> (\<forall>k \<le> MAXFILE. adr t ip k = adr s ip k))"

lemma log_rest_upd: "log_rest s t \<Longrightarrow> log_rest (upd_inode ip f s) (upd_inode ip f t)"
  by (cases s; cases t) (simp add: log_rest_def upd_inode_def)

lemma set_addrs_twice: "set_addrs ip as (set_addrs ip bs s) = set_addrs ip as s"
  by (cases "ip < length (icache s)") (simp_all add: set_addrs_def upd_inode_def list_update_beyond)

lemma set_addrs_same: "set_addrs ip (i_addrs (inode_at s ip)) s = s"
  by (cases "ip < length (icache s)") (simp_all add: set_addrs_def upd_inode_def inode_at_def list_update_beyond)

lemma log_rest_refl: "log_rest s s"
  by (simp add: log_rest_def)

lemma rest_refl: "rest ip s s"
  unfolding rest_def using set_addrs_same log_rest_refl by metis

lemma rest_trans:
  assumes "rest ip s t" "rest ip t u"
  shows "rest ip s u"
proof -
  obtain as bs where a: "log_rest (set_addrs ip as s) t" "log_rest (set_addrs ip bs t) u" using assms by (auto simp: rest_def)
  have "log_rest (set_addrs ip bs s) (set_addrs ip bs t)"
    using log_rest_upd [OF a(1), of ip "\<lambda>x. x\<lparr>i_addrs := bs\<rparr>"] set_addrs_twice [of ip bs as s] by (simp add: set_addrs_def)
  then show ?thesis unfolding rest_def using log_rest_trans [OF _ a(2)] by blast
qed

lemma restD:
  assumes "rest ip s t" "ip < length (icache s)"
  shows "fsb t = fsb s" "cwd t = cwd s" "disksize t = disksize s" "length (icache t) = length (icache s)"
    "inode_at t ip = (inode_at s ip)\<lparr>i_addrs := i_addrs (inode_at t ip)\<rparr>" "jp \<noteq> ip \<Longrightarrow> inode_at t jp = inode_at s jp"
proof -
  obtain as where a: "log_rest (set_addrs ip as s) t" using assms by (auto simp: rest_def)
  note l = log_rest_fs [OF a]
  show "fsb t = fsb s" "cwd t = cwd s" "length (icache t) = length (icache s)" using l(1-3) by (simp_all add: set_addrs_def)
  show "disksize t = disksize s" using a by (simp add: log_rest_def set_addrs_def)
  have "inode_at t = inode_at (set_addrs ip as s)" by (rule l(4))
  then show "inode_at t ip = (inode_at s ip)\<lparr>i_addrs := i_addrs (inode_at t ip)\<rparr>" "jp \<noteq> ip \<Longrightarrow> inode_at t jp = inode_at s jp"
    using assms(2) by (simp_all add: set_addrs_def)
qed

lemma fstepD:
  assumes "fstep ip K s t"
  shows "fok ip t" "rest ip s t" "free_blocks t = free_blocks s - ablks t ip K"
    "k \<le> MAXFILE \<Longrightarrow> adr s ip k \<noteq> 0 \<Longrightarrow> adr t ip k = adr s ip k"
    "k \<le> MAXFILE \<Longrightarrow> adr s ip k = 0 \<Longrightarrow> adr t ip k \<noteq> 0 \<Longrightarrow> adr t ip k \<in> free_blocks s \<and> k \<in> insert MAXFILE K"
    "b \<notin> free_blocks s \<Longrightarrow> b \<noteq> bmb s \<Longrightarrow> b \<notin> ablks s ip K \<Longrightarrow> view t b = view s b"
    "dirty t \<subseteq> insert (bmb s) (dirty s) \<union> ablks t ip K"
    "(\<And>k. k \<in> K \<Longrightarrow> adr s ip k \<noteq> 0) \<Longrightarrow> k \<le> MAXFILE \<Longrightarrow> adr t ip k = adr s ip k"
  using assms by (auto simp: fstep_def)

lemma fstep_refl: "fok ip s \<Longrightarrow> K \<subseteq> {..<MAXFILE} \<Longrightarrow> fstep ip K s s"
  using fok_adr(6) [of ip s] by (fastforce simp: fstep_def rest_refl ablks_def)

lemma fstep_ablks:
  assumes "fstep ip K s t" "K \<subseteq> {..<MAXFILE}"
  shows "ablks s ip K \<subseteq> ablks t ip K" "ablks t ip K \<subseteq> ablks s ip K \<union> free_blocks s"
proof -
  show "ablks s ip K \<subseteq> ablks t ip K"
  proof
    fix b assume "b \<in> ablks s ip K"
    then obtain k where k: "b = adr s ip k" "k \<in> insert MAXFILE K" "adr s ip k \<noteq> 0" by (auto simp: ablks_def)
    then have "k \<le> MAXFILE" using assms(2) by auto
    then have "adr t ip k = adr s ip k" using fstepD(4) [OF assms(1) _ k(3)] by simp
    then show "b \<in> ablks t ip K" using k ablksI [OF k(2), of t ip] by simp
  qed
  show "ablks t ip K \<subseteq> ablks s ip K \<union> free_blocks s"
  proof
    fix b assume "b \<in> ablks t ip K"
    then obtain k where k: "b = adr t ip k" "k \<in> insert MAXFILE K" "adr t ip k \<noteq> 0" by (auto simp: ablks_def)
    then have le: "k \<le> MAXFILE" using assms(2) by auto
    show "b \<in> ablks s ip K \<union> free_blocks s"
    proof (cases "adr s ip k = 0")
      case True
      then show ?thesis using fstepD(5) [OF assms(1) le True k(3)] k(1) by simp
    next
      case False
      then have "adr s ip k = b" using fstepD(4) [OF assms(1) le False] k(1) by simp
      then show ?thesis using ablksI [OF k(2) False] by simp
    qed
  qed
qed

lemma fstep_trans:
  assumes f: "fstep ip K s t" and g: "fstep ip K t u" and K: "K \<subseteq> {..<MAXFILE}" and s: "fok ip s"
  shows "fstep ip K s u"
proof -
  note a = fstep_ablks [OF f K] and b = fstep_ablks [OF g K]
  have bm: "bmb t = bmb s" using restD(1) [OF fstepD(2) [OF f] fokD(4) [OF s]] by (simp add: bmb_def)
  have free: "free_blocks u = free_blocks s - ablks u ip K" using fstepD(3) [OF f] fstepD(3) [OF g] b(1) by blast
  have keep: "adr u ip k = adr s ip k" if "k \<le> MAXFILE" "adr s ip k \<noteq> 0" for k
    using fstepD(4) [OF f that] fstepD(4) [OF g that(1)] that(2) by simp
  have new: "adr u ip k \<in> free_blocks s \<and> k \<in> insert MAXFILE K" if "k \<le> MAXFILE" "adr s ip k = 0" "adr u ip k \<noteq> 0" for k
  proof (cases "adr t ip k = 0")
    case True
    then show ?thesis using fstepD(5) [OF g that(1) True that(3)] fstepD(3) [OF f] by blast
  next
    case False
    then show ?thesis using fstepD(5) [OF f that(1,2) False] fstepD(4) [OF g that(1) False] by simp
  qed
  have same: "view u no = view s no" if "no \<notin> free_blocks s" "no \<noteq> bmb s" "no \<notin> ablks s ip K" for no
  proof -
    have "no \<notin> ablks t ip K" "no \<notin> free_blocks t" using a(2) that fstepD(3) [OF f] by blast+
    then show ?thesis using fstepD(6) [OF f that] fstepD(6) [OF g, of no] that(2) bm by simp
  qed
  have all: "adr u ip k = adr s ip k" if "\<And>k. k \<in> K \<Longrightarrow> adr s ip k \<noteq> 0" "k \<le> MAXFILE" for k
  proof -
    have "adr t ip k = adr s ip k" if "k \<le> MAXFILE" for k using fstepD(8) [OF f \<open>\<And>k. k \<in> K \<Longrightarrow> adr s ip k \<noteq> 0\<close> that] .
    moreover from this have "adr t ip k \<noteq> 0" if "k \<in> K" for k using that K \<open>\<And>k. k \<in> K \<Longrightarrow> adr s ip k \<noteq> 0\<close> by fastforce
    ultimately show ?thesis using fstepD(8) [OF g] that(2) by simp
  qed
  have "dirty u \<subseteq> insert (bmb s) (dirty s) \<union> ablks u ip K"
    using fstepD(7) [OF f] fstepD(7) [OF g] b(1) bm by blast
  then show ?thesis
    unfolding fstep_def using fstepD(1) [OF g] rest_trans [OF fstepD(2) [OF f] fstepD(2) [OF g]] free keep new same all by blast
qed

text \<open>A free block \<open>b\<close> becomes the block of the file at position \<open>k\<close>.\<close>

lemma map_new:
  assumes s: "fok ip s" and b: "b \<in> free_blocks s" and k: "k \<le> MAXFILE" "adr s ip k = 0" "k \<in> insert MAXFILE K" "K \<subseteq> {..<MAXFILE}"
    and need: "\<exists>j \<in> K. adr s ip j = 0"
    and t: "tx t" "held t = {}" "rest ip s t" "length (i_addrs (inode_at t ip)) = NDIRECT + 1"
    and a: "\<And>j. j \<le> MAXFILE \<Longrightarrow> adr t ip j = (if j = k then b else adr s ip j)"
    and V: "view t (bmb s) = mark b (view s (bmb s))" "\<And>c. c \<noteq> b \<Longrightarrow> c \<noteq> bmb s \<Longrightarrow> c \<notin> ablks s ip K \<Longrightarrow> view t c = view s c"
    and D: "dirty t \<subseteq> insert (bmb s) (dirty s) \<union> insert b (ablks s ip K)"
  shows "fstep ip K s t"
proof -
  note r = restD [OF t(3) fokD(4) [OF s]] and g = fokD(2) [OF s]
  have bs: "unat b < fs_size s" "\<not> allocated s b" "b \<noteq> 0" "data_start s \<le> unat b"
    using b free_nonzero [OF g b] free_data [OF g b] by (auto simp: free_blocks_def)
  note gf = geom_fs [OF r(1)]
  have al: "allocated t c \<longleftrightarrow> c = b \<or> allocated s c" for c
    by (rule mark_allocated [OF tx_view_length [OF fokD(1) [OF s]] g bs(1) r(1) V(1)])
  have gt: "geom t" by (rule geom_keep [OF g r(1,3)]) (simp add: al)
  have ft: "free_blocks t = free_blocks s - {b}" using al gf by (auto simp: free_blocks_def)
  have other: "adr s ip j \<noteq> b" if "j \<le> MAXFILE" for j
    using fok_adr(6) [OF s that] b bs(3) by metis
  have le: "j \<le> MAXFILE" if "j \<in> insert MAXFILE K" for j using that k(4) by auto
  have "c \<in> insert b (ablks s ip K)" if "c \<in> ablks t ip K" for c
    using that a [OF le] by (auto simp: ablks_def split: if_splits)
  moreover have "c \<in> ablks t ip K" if c: "c \<in> ablks s ip K" for c
  proof -
    obtain j where j: "c = adr s ip j" "j \<in> insert MAXFILE K" "adr s ip j \<noteq> 0" using c by (auto simp: ablks_def)
    then have "adr t ip j = c" using a [OF le [OF j(2)]] k(2) by auto
    then show ?thesis using ablksI [OF j(2), of t ip] j by simp
  qed
  moreover have "b \<in> ablks t ip K" using ablksI [OF k(3), of t ip] a [OF k(1)] bs(3) by simp
  ultimately have ab: "ablks t ip K = insert b (ablks s ip K)" by blast
  have sz: "i_size (inode_at t ip) = i_size (inode_at s ip)" "i_dev (inode_at t ip) = i_dev (inode_at s ip)"
    "i_inum (inode_at t ip) = i_inum (inode_at s ip)" by (subst r(5); simp)+
  have "file_ok ip t"
    unfolding file_ok_def Let_def sz
  proof (intro conjI allI impI)
    fix j assume j: "j \<le> MAXFILE" "adr t ip j \<noteq> 0"
    show "data_start t \<le> unat (adr t ip j)" "unat (adr t ip j) < fs_size t" "allocated t (adr t ip j)"
      using fok_adr(1,2,3) [OF s j(1)] j a [OF j(1)] bs gf al by (auto split: if_splits)
  next
    fix i j assume i: "i \<le> MAXFILE" "j \<le> MAXFILE" "adr t ip i = adr t ip j \<and> adr t ip j \<noteq> 0"
    then show "i = j" using a [OF i(1)] a [OF i(2)] other [OF i(1)] other [OF i(2)] fok_adr(7) [OF s i(2) _ i(1)] by (auto split: if_splits)
  next
    fix j assume "j < MAXFILE" "j * BSIZE < unat (i_size (inode_at s ip))"
    then show "adr t ip j \<noteq> 0" using fok_mapped [OF s] a [of j] bs(3) by auto
  qed (use fokD(5,7,8) [OF s] t(4) r(1) in auto)
  then have "fok ip t" using t(1,2) gt r(4) fokD(4) [OF s] by (simp add: fok_def)
  moreover have "ablks s ip K \<inter> free_blocks s = {}"
    using fok_adr(6) [OF s] k(4) by (fastforce simp: ablks_def)
  moreover have "view t c = view s c" if "c \<notin> free_blocks s" "c \<noteq> bmb s" "c \<notin> ablks s ip K" for c
    using V(2) [of c] that b by auto
  ultimately show ?thesis
    unfolding fstep_def ab ft using t(3) a b k D need by auto
qed

subsection \<open>bmap\<close>

lemma NDIRECT_MAXFILE: "NDIRECT < MAXFILE" "NDIRECT + NINDIRECT = MAXFILE" "NINDIRECT = 128"
  by (simp_all add: MAXFILE_def NINDIRECT_def BSIZE_def)

lemma fresh_entry: "k < NINDIRECT \<Longrightarrow> get32 (replicate BSIZE 0) (4 * k) = 0"
  by (simp add: get32_def NINDIRECT_def BSIZE_def)

definition pos :: "nat \<Rightarrow> nat" where
  "pos i = (if i = NDIRECT then MAXFILE else i)"

lemma bmap_addr_ok:
  assumes s: "fok ip s" and i: "i \<le> NDIRECT" "pos i \<in> insert MAXFILE K" "K \<subseteq> {..<MAXFILE}"
    and need: "adr s ip (pos i) = 0 \<Longrightarrow> \<exists>j \<in> K. adr s ip j = 0"
    and free: "free_blocks s \<noteq> {}" and room: "card (insert (bmb s) (dirty s)) + 3 \<le> LOGSIZE"
  obtains a t where "bmap_addr ip i s = Ret a t" "fstep ip K s t" "adr t ip (pos i) = a" "a \<noteq> 0"
    "adr s ip (pos i) = 0 \<Longrightarrow> view t a = replicate BSIZE 0" "\<And>k. k \<le> MAXFILE \<Longrightarrow> k \<noteq> pos i \<Longrightarrow> adr t ip k = adr s ip k"
    "\<And>c. c \<notin> free_blocks s \<Longrightarrow> c \<noteq> bmb s \<Longrightarrow> view t c = view s c"
proof (cases "adr s ip (pos i) = 0")
  case False
  then have "bmap_addr ip i s = Ret (adr s ip (pos i)) s"
    using i(1) NDIRECT_MAXFILE(1) by (auto simp: bmap_addr_def adr_def pos_def Let_def)
  then show ?thesis using False fstep_refl [OF s i(3)] by (intro that) auto
next
  case True
  let ?x = "inode_at s ip"
  have z: "i_addrs ?x ! i = 0" using True i(1) NDIRECT_MAXFILE(1) by (auto simp: adr_def pos_def Let_def split: if_splits)
  from balloc_ok [OF fokD(1,2) [OF s] free _ _ _ _ room] fokD(3) [OF s]
  obtain b u where u: "balloc 1 s = Ret b u" "b \<in> free_blocks s" "eff s (with_block s b) (insert b (insert (bmb s) (dirty s))) u" by auto
  let ?t = "upd_inode ip (\<lambda>x. x\<lparr>i_addrs := (i_addrs x)[i := b]\<rparr>) u"
  note e = effD [OF u(3)] and ef = eff_fs [OF u(3)] and g = fokD(2) [OF s]
  have call: "bmap_addr ip i s = Ret b ?t" using u(1) z fokD(5) [OF s] by (simp add: bmap_addr_def)
  have len: "ip < length (icache u)" "length (i_addrs ?x) = NDIRECT + 1" using fokD(4,6) [OF s] ef(2) by simp_all
  have x: "i_addrs (inode_at ?t ip) = (i_addrs ?x)[i := b]" using len ef(4) by simp
  have vw: "view ?t = with_block s b" using e(2) by simp
  have bd: "b \<noteq> bmb s" "b \<noteq> 0" using free_data [OF g u(2)] free_nonzero [OF g u(2)] by auto
  have oth: "adr s ip MAXFILE \<noteq> 0 \<Longrightarrow> adr s ip MAXFILE \<noteq> bmb s \<and> adr s ip MAXFILE \<noteq> b"
    using fok_adr(5,6) [OF s, of MAXFILE] u(2) by auto
  have a: "adr ?t ip j = (if j = pos i then b else adr s ip j)" if "j \<le> MAXFILE" for j
    using that i(1) oth len(2) z fresh_entry [of "j - NDIRECT"] NDIRECT_MAXFILE unfolding adr_def x vw Let_def
    by (auto simp: pos_def with_block_def nth_list_update)
  have "set_addrs ip ((i_addrs ?x)[i := b]) u = ?t"
    by (simp add: set_addrs_def upd_inode_def inode_at_def flip: ef(2))
  then have r: "rest ip s ?t"
    unfolding rest_def set_addrs_def using log_rest_upd [OF e(5)] by metis
  have le: "pos i \<le> MAXFILE" using i(1) NDIRECT_MAXFILE(1) by (auto simp: pos_def)
  have "fstep ip K s ?t"
    by (rule map_new [OF s u(2) le True i(2,3) need [OF True] _ _ r _ a])
      (use e fokD(3) [OF s] bd x len vw in \<open>auto simp: with_block_def\<close>)
  then show ?thesis
    using call a le bd vw u(2) by (intro that [of b ?t]) (auto simp: with_block_def)
qed

text \<open>What has to be left in the log and on the disk for work on the positions \<open>K\<close> of a file.\<close>

definition budget :: "nat \<Rightarrow> nat set \<Rightarrow> 'a fs_st_scheme \<Rightarrow> bool" where
  "budget ip K s \<longleftrightarrow> fok ip s \<and> K \<subseteq> {..<MAXFILE} \<and> card (dirty s) + card K + 5 \<le> LOGSIZE \<and> card K + 1 < card (free_blocks s)"

lemma budget_step:
  assumes "budget ip K s" "fstep ip K s t"
  shows "card (insert (bmb t) (dirty t) \<union> ablks t ip K) \<le> card (dirty s) + card K + 2"
    "D \<subseteq> insert (bmb t) (dirty t) \<union> ablks t ip K \<Longrightarrow> card D + 3 \<le> LOGSIZE" "free_blocks t \<noteq> {}" "fok ip t"
proof -
  let ?D = "insert (bmb t) (dirty t) \<union> ablks t ip K"
  have K: "K \<subseteq> {..<MAXFILE}" "finite K" using assms(1) finite_subset [of K "{..<MAXFILE}"] by (auto simp: budget_def)
  note c = ablks_card [OF K(2), of t ip]
  have s: "fok ip s" using assms(1) by (simp add: budget_def)
  have fin: "finite (dirty s)" by (rule tx_finite [OF fokD(1) [OF s]])
  have "bmb t = bmb s" using restD(1) [OF fstepD(2) [OF assms(2)] fokD(4) [OF s]] by (simp add: bmb_def)
  then have "?D \<subseteq> insert (bmb s) (dirty s) \<union> ablks t ip K" using fstepD(7) [OF assms(2)] by blast
  then have "card ?D \<le> card (insert (bmb s) (dirty s) \<union> ablks t ip K)"
    by (rule card_mono [rotated]) (simp add: c(1) fin)
  also have "\<dots> \<le> card (insert (bmb s) (dirty s)) + card (ablks t ip K)" by (rule card_Un_le)
  also have "\<dots> \<le> card (dirty s) + card K + 2" using c(2) fin by (simp add: card_insert_if)
  finally show d: "card ?D \<le> card (dirty s) + card K + 2" .
  show f: "fok ip t" by (rule fstepD(1) [OF assms(2)])
  have "finite (dirty t)" by (rule tx_finite [OF fokD(1) [OF f]])
  then have "card D \<le> card ?D" if "D \<subseteq> ?D" using that c(1) by (intro card_mono) auto
  then show "D \<subseteq> ?D \<Longrightarrow> card D + 3 \<le> LOGSIZE" using d assms(1) by (fastforce simp: budget_def)
  have "card (free_blocks s) \<le> card (ablks t ip K)" if "free_blocks t = {}"
    using that fstepD(3) [OF assms(2)] by (intro card_mono c(1)) blast
  then show "free_blocks t \<noteq> {}" using c(2) assms(1) by (fastforce simp: budget_def)
qed

lemma adr_cong: "view t = view s \<Longrightarrow> inode_at t = inode_at s \<Longrightarrow> adr t = adr s"
  by (intro ext) (simp add: adr_def Let_def)

lemma geom_cong:
  assumes "view t = view s" "fsb t = fsb s"
  shows "allocated t = allocated s" "free_blocks t = free_blocks s" "disksize t = disksize s \<Longrightarrow> geom t = geom s"
proof -
  note gf = geom_fs [OF assms(2)]
  show a: "allocated t = allocated s" using assms(1) gf by (auto simp: allocated_def)
  then show "free_blocks t = free_blocks s" using gf by (simp add: free_blocks_def)
  show "disksize t = disksize s \<Longrightarrow> geom t = geom s" using gf a assms(2) by (simp add: geom_def)
qed

lemma eff_same:
  assumes e: "eff s (view s) D t" and s: "fok ip s"
  shows "fok ip t" "adr t = adr s" "free_blocks t = free_blocks s"
proof -
  note f = eff_fs [OF e] and d = effD [OF e]
  note gc = geom_cong [OF d(2) f(1)] and gf = geom_fs [OF f(1)]
  show a: "adr t = adr s" by (rule adr_cong [OF d(2) f(4)])
  show "free_blocks t = free_blocks s" by (rule gc(2))
  have "file_ok ip t = file_ok ip s" unfolding file_ok_def a f(1,4) gc(1) using gf by simp
  then show "fok ip t" using s d gc(3) [OF d(6)] f(2) by (simp add: fok_def)
qed

lemma eff_fstep:
  assumes e: "eff s (view s) (dirty s) t" and s: "fok ip s" and K: "K \<subseteq> {..<MAXFILE}"
  shows "fstep ip K s t"
proof -
  note es = eff_same [OF e s] and d = effD [OF e]
  have "rest ip s t" unfolding rest_def using set_addrs_same [of ip s] d(5) by metis
  moreover have "ablks t ip K = ablks s ip K" by (simp add: ablks_def es(2))
  ultimately show ?thesis
    using fstepD(3) [OF fstep_refl [OF s K]] es d by (auto simp: fstep_def)
qed

text \<open>The code of \<open>bmap\<close> that adds an entry to the indirect block \<open>no\<close>, which it holds meanwhile.\<close>

lemma add_entry:
  assumes s: "fok ip s" and no: "no = adr s ip MAXFILE" "no \<noteq> 0"
    and free: "free_blocks s \<noteq> {}" and room: "card (insert no (insert (bmb s) (dirty s))) + 3 \<le> LOGSIZE"
  obtains bp u b v w x where "bread 1 no s = Ret bp u" "bdata (bufp u bp) = view s no" "balloc 1 u = Ret b v" "b \<in> free_blocks s"
    "bdata (bufp v bp) = view s no"
    "log_write bp (set_data bp (put32 (view s no) off b) v) = Ret () w" "brelse bp w = Ret () x"
    "eff s ((with_block s b)(no := put32 (view s no) off b)) (insert no (insert b (insert (bmb s) (dirty s)))) x"
proof -
  note tx = fokD(1) [OF s] and g = fokD(2) [OF s] and h = fokD(3) [OF s]
  note fa = fok_adr [OF s order_refl, folded no(1), OF no(2)]
  have fin: "finite (dirty s)" by (rule tx_finite [OF tx])
  have hh: "no \<notin> held s" "card (held s) \<le> 1" "finite (held s)" using h by simp_all
  obtain bp u where u: "bread 1 no s = Ret bp u" "tx u" "view u = view s" "dirty u = dirty s" "held u = insert no (held s)"
    "holds u no bp" "bdata (bufp u bp) = view s no" "frame s u"
    using bread_tx [OF tx hh(1) fa(4) hh(2,3)] by metis
  note ff = frame_fs [OF u(8)]
  note gc = geom_cong [OF u(3) ff(1)]
  have bm: "bmb u = bmb s" "geom u" using gc(3) g u(8) ff(1) by (simp_all add: bmb_def frame_def)
  have hu: "card (held u) \<le> 1" "finite (held u)" "held u \<inter> free_blocks u = {}" "bmb u \<notin> held u" using u(5) h fa(5,6) gc(2) bm(1) by simp_all
  have "card (insert (bmb u) (dirty u)) \<le> card (insert no (insert (bmb s) (dirty s)))"
    unfolding u(4) bm(1) using fin by (intro card_mono) auto
  then have "card (insert (bmb u) (dirty u)) + 3 \<le> LOGSIZE" using room by simp
  from balloc_ok [OF u(2) bm(2) _ hu this] free gc(2)
  obtain b v where v: "balloc 1 u = Ret b v" "b \<in> free_blocks s" "eff u (with_block u b) (insert b (insert (bmb u) (dirty u))) v" by auto
  note e = effD [OF v(3)]
  have hv: "holds v no bp" using v(3) u(6) by (simp add: eff_def)
  have "no \<noteq> b" using fa(6) v(2) by auto
  then have vno: "view v no = view s no" using e(2) u(3) fa(5) bm(1) by (simp add: with_block_def)
  have "cache_inv v" using e(1) by (simp add: tx_def)
  then have dv: "bdata (bufp v bp) = view s no" using bc.get_law [OF _ hv] vno by (simp add: absc_fields)
  have len: "length (put32 (view s no) off b) = BSIZE" using tx_view_length [OF tx] by simp
  have "card (insert b (insert no (insert (bmb s) (dirty s)))) \<le> Suc (card (insert no (insert (bmb s) (dirty s))))"
    by (rule card_insert_le_m1) simp_all
  then have "card (insert no (dirty v)) + 2 \<le> LOGSIZE"
    using room e(3) u(4) bm(1) by (simp add: insert_commute)
  from log_write_tx [OF e(1) hv len this] obtain w where w: "log_write bp (set_data bp (put32 (view s no) off b) v) = Ret () w" "tx w"
    "view w = (view v)(no := put32 (view s no) off b)" "dirty w = insert no (dirty v)" "held w = held v" "holds w no bp" "log_rest v w" by metis
  have "no \<in> dirty w \<or> view w no = disk w no" using w(4) by simp
  from brelse_tx [OF w(2,6) this] obtain x where x: "brelse bp w = Ret () x" "tx x" "view x = view w" "dirty x = dirty w"
    "held x = held w - {no}" "frame w x" by metis
  have lr: "log_rest s x"
    using frame_log_rest [OF u(8)] e(5) w(7) frame_log_rest [OF x(6)] log_rest_trans by metis
  have "no' \<in> held s" if "holds s no' j" for no' j using that holdsD(9) [of s no' j] tx by (auto simp: tx_def)
  then have "eff s ((with_block s b)(no := put32 (view s no) off b)) (insert no (insert b (insert (bmb s) (dirty s)))) x"
    unfolding eff_def using x w e u lr h bm(1) by (auto simp: with_block_def)
  then show ?thesis using that u(1,7) v(1,2) dv w(1) x(1) by blast
qed

lemma indirect_entry:
  assumes s: "fok ip s" and k: "k < NINDIRECT" "NDIRECT + k \<in> K" "K \<subseteq> {..<MAXFILE}"
    and ind: "ind = adr s ip MAXFILE" "ind \<noteq> 0" and free: "free_blocks s \<noteq> {}"
    and room: "card (insert ind (insert (bmb s) (dirty s))) + 3 \<le> LOGSIZE"
  obtains a t where "andthen (bread 1 ind s) (\<lambda>bp s.
          let addr = get32 (bdata (bufp s bp)) (4 * k) in
          if addr = 0 then
            andthen (balloc 1 s) (\<lambda>addr s.
            let s = set_data bp (put32 (bdata (bufp s bp)) (4 * k) addr) s in
            andthen (log_write bp s) (\<lambda>_ s.
            andthen (brelse bp s) (\<lambda>_ s. Ret addr s)))
          else andthen (brelse bp s) (\<lambda>_ s. Ret addr s)) = Ret a t"
    "fstep ip K s t" "adr t ip (NDIRECT + k) = a" "a \<noteq> 0" "adr s ip (NDIRECT + k) = 0 \<Longrightarrow> view t a = replicate BSIZE 0"
    "\<And>c. c \<notin> free_blocks s \<Longrightarrow> c \<noteq> bmb s \<Longrightarrow> c \<noteq> ind \<Longrightarrow> view t c = view s c"
proof -
  note tx = fokD(1) [OF s] and g = fokD(2) [OF s] and h = fokD(3) [OF s]
  note fa = fok_adr [OF s order_refl, folded ind(1), OF ind(2)]
  have hh: "ind \<notin> held s" "card (held s) \<le> 1" "finite (held s)" using h by simp_all
  have kk: "NDIRECT + k < MAXFILE" "\<not> NDIRECT + k < NDIRECT" using k(1) NDIRECT_MAXFILE by simp_all
  have a12: "i_addrs (inode_at s ip) ! NDIRECT = ind" using ind(1) NDIRECT_MAXFILE(1) by (simp add: adr_def)
  have ak: "adr s ip (NDIRECT + k) = get32 (view s ind) (4 * k)" using kk ind(2) a12 by (simp add: adr_def)
  show ?thesis
  proof (cases "adr s ip (NDIRECT + k) = 0")
    case False
    obtain bp u w where w: "bread 1 ind s = Ret bp u" "bdata (bufp u bp) = view s ind" "frame s u" "brelse bp u = Ret () w" "eff s (view s) (dirty s) w"
      using read_block [OF tx hh(1) fa(4) hh(2,3)] by metis
    show ?thesis
      using False ak w(1,2,4) effD(2) [OF w(5)] eff_fstep [OF w(5) s k(3)] eff_same(2) [OF w(5) s]
      by (intro that [of "adr s ip (NDIRECT + k)" w]) auto
  next
    case True
    obtain bp u b v w x where x: "bread 1 ind s = Ret bp u" "bdata (bufp u bp) = view s ind" "balloc 1 u = Ret b v" "b \<in> free_blocks s"
        "bdata (bufp v bp) = view s ind"
        "log_write bp (set_data bp (put32 (view s ind) (4 * k) b) v) = Ret () w" "brelse bp w = Ret () x"
        "eff s ((with_block s b)(ind := put32 (view s ind) (4 * k) b)) (insert ind (insert b (insert (bmb s) (dirty s)))) x"
      using add_entry [OF s ind free room] by metis
    note e = effD [OF x(8)] and ef = eff_fs [OF x(8)]
    have bd: "b \<noteq> bmb s" "b \<noteq> 0" "b \<noteq> ind" using free_data [OF g x(4)] free_nonzero [OF g x(4)] fa(6) x(4) by auto
    have off: "4 * k + 3 < length (view s ind)" using k(1) tx_view_length [OF tx] by (simp add: NINDIRECT_def BSIZE_def)
    have a: "adr x ip j = (if j = NDIRECT + k then b else adr s ip j)" if "j \<le> MAXFILE" for j
    proof (cases "j = MAXFILE \<or> j < NDIRECT")
      case True
      then show ?thesis using kk by (auto simp: adr_def ef(4))
    next
      case False
      then have "4 * (j - NDIRECT) + 4 \<le> 4 * k \<or> 4 * k + 4 \<le> 4 * (j - NDIRECT)" if "j \<noteq> NDIRECT + k" using that by arith
      then show ?thesis using False a12 ind(2) off by (auto simp: adr_def ef(4) e(2))
    qed
    have r: "rest ip s x" unfolding rest_def using set_addrs_same [of ip s] e(5) by metis
    have "ind \<in> ablks s ip K" using ablksI [of MAXFILE K s ip] ind by simp
    moreover have "\<exists>j \<in> K. adr s ip j = 0" using True k(2) by blast
    ultimately have "fstep ip K s x"
      using e h bd ef(4) fokD(6) [OF s] fa(5) k(2)
      by (intro map_new [OF s x(4) _ True _ k(3) _ _ _ r _ a]) (use kk in \<open>auto simp: with_block_def\<close>)
    then show ?thesis
      using True ak x bd e(2) a [of "NDIRECT + k"] kk by (intro that [of b x]) (auto simp: with_block_def)
  qed
qed

lemma bmap_ok:
  assumes B: "budget ip K s0" and f: "fstep ip K s0 s" and k: "unat bn \<in> K"
  obtains a t where "bmap ip bn s = Ret a t" "fstep ip K s t" "adr t ip (unat bn) = a" "a \<noteq> 0"
    "adr s ip (unat bn) = 0 \<Longrightarrow> view t a = replicate BSIZE 0"
    "\<And>j. j < MAXFILE \<Longrightarrow> adr s ip j \<noteq> 0 \<Longrightarrow> view t (adr s ip j) = view s (adr s ip j)"
proof -
  note b = budget_step [OF B f]
  have K: "K \<subseteq> {..<MAXFILE}" using B by (simp add: budget_def)
  have lt: "unat bn < MAXFILE" using k K by auto
  have room: "card (insert (bmb s) (dirty s)) + 3 \<le> LOGSIZE" by (rule b(2)) auto
  show ?thesis
  proof (cases "unat bn < NDIRECT")
    case True
    have p: "pos (unat bn) = unat bn" using True by (simp add: pos_def)
    have pk: "pos (unat bn) \<in> insert MAXFILE K" "unat bn \<le> NDIRECT" using p k True by simp_all
    have need: "\<exists>j \<in> K. adr s ip j = 0" if "adr s ip (pos (unat bn)) = 0" using that k p by auto
    obtain a t where t: "bmap_addr ip (unat bn) s = Ret a t" "fstep ip K s t" "adr t ip (pos (unat bn)) = a" "a \<noteq> 0"
        "adr s ip (pos (unat bn)) = 0 \<Longrightarrow> view t a = replicate BSIZE 0"
        "\<And>k. k \<le> MAXFILE \<Longrightarrow> k \<noteq> pos (unat bn) \<Longrightarrow> adr t ip k = adr s ip k"
        "\<And>c. c \<notin> free_blocks s \<Longrightarrow> c \<noteq> bmb s \<Longrightarrow> view t c = view s c"
      by (rule bmap_addr_ok [OF b(4) pk(2,1) K need b(3) room]) (assumption, rule that)
    have "view t (adr s ip j) = view s (adr s ip j)" if "j < MAXFILE" "adr s ip j \<noteq> 0" for j
      using t(7) fok_adr(5,6) [OF b(4) _ that(2)] that(1) by simp
    then show ?thesis using t(1-5) True unfolding p by (intro that [of a t]) (simp_all add: bmap_def)
  next
    case False
    have p: "pos NDIRECT = MAXFILE" by (simp add: pos_def)
    have pk: "pos NDIRECT \<in> insert MAXFILE K" using p by simp
    have "adr s ip (unat bn) = 0" if "adr s ip (pos NDIRECT) = 0"
      using that False lt NDIRECT_MAXFILE(1) unfolding p by (simp add: adr_def)
    then have need: "\<exists>j \<in> K. adr s ip j = 0" if "adr s ip (pos NDIRECT) = 0" using that k by blast
    obtain ind u where u: "bmap_addr ip NDIRECT s = Ret ind u" "fstep ip K s u" "adr u ip (pos NDIRECT) = ind" "ind \<noteq> 0"
        "adr s ip (pos NDIRECT) = 0 \<Longrightarrow> view u ind = replicate BSIZE 0"
        "\<And>k. k \<le> MAXFILE \<Longrightarrow> k \<noteq> pos NDIRECT \<Longrightarrow> adr u ip k = adr s ip k"
        "\<And>c. c \<notin> free_blocks s \<Longrightarrow> c \<noteq> bmb s \<Longrightarrow> view u c = view s c"
      by (rule bmap_addr_ok [OF b(4) order_refl pk K need b(3) room]) (assumption, rule that)
    have s0: "fok ip s0" using B by (simp add: budget_def)
    note fu = fstep_trans [OF f u(2) K s0]
    note bu = budget_step [OF B fu]
    note ri = restD [OF fstepD(2) [OF u(2)] fokD(4) [OF b(4)]]
    have bm: "bmb u = bmb s" using ri(1) by (simp add: bmb_def)
    define j where "j = unat bn - NDIRECT"
    have j: "j < NINDIRECT" "NDIRECT + j \<in> K" "NDIRECT + j = unat bn" using False lt k NDIRECT_MAXFILE by (auto simp: j_def)
    have "ind \<in> ablks u ip K" using ablksI [of MAXFILE K u ip] u(3,4) p by simp
    then have rm: "card (insert ind (insert (bmb u) (dirty u))) + 3 \<le> LOGSIZE" by (intro bu(2)) auto
    have ind: "ind = adr u ip MAXFILE" using u(3) p by simp
    show ?thesis
    proof (rule indirect_entry [OF bu(4) j(1,2) K ind u(4) bu(3) rm])
      fix a t
      let ?m = "andthen (bread 1 ind u) (\<lambda>bp s.
          let addr = get32 (bdata (bufp s bp)) (4 * j) in
          if addr = 0 then
            andthen (balloc 1 s) (\<lambda>addr s.
            let s = set_data bp (put32 (bdata (bufp s bp)) (4 * j) addr) s in
            andthen (log_write bp s) (\<lambda>_ s.
            andthen (brelse bp s) (\<lambda>_ s. Ret addr s)))
          else andthen (brelse bp s) (\<lambda>_ s. Ret addr s))"
      assume t: "?m = Ret a t" "fstep ip K u t" "adr t ip (NDIRECT + j) = a" "a \<noteq> 0"
        "adr u ip (NDIRECT + j) = 0 \<Longrightarrow> view t a = replicate BSIZE 0"
        "\<And>c. c \<notin> free_blocks u \<Longrightarrow> c \<noteq> bmb u \<Longrightarrow> c \<noteq> ind \<Longrightarrow> view t c = view u c"
      have call: "bmap ip bn s = Ret a t"
        using False j(1) u(1) t(1) unfolding bmap_def j_def Let_def fokD(5) [OF b(4)] by simp
      have adr: "adr u ip i = adr s ip i" if "i < MAXFILE" for i using u(6) [of i] that p by simp
      have keep: "view t (adr s ip i) = view s (adr s ip i)" if i: "i < MAXFILE" "adr s ip i \<noteq> 0" for i
      proof -
        have "adr u ip i \<noteq> ind" using fok_adr(7) [OF bu(4), of i MAXFILE] adr [OF i(1)] i ind by auto
        then have "view t (adr s ip i) = view u (adr s ip i)"
          using t(6) fok_adr(5,6) [OF bu(4), of i] i adr [OF i(1)] by simp
        also have "\<dots> = view s (adr s ip i)" using u(7) fok_adr(5,6) [OF b(4) _ i(2)] i(1) by simp
        finally show ?thesis .
      qed
      show ?thesis
        using call fstep_trans [OF u(2) t(2) K b(4)] t(3,4,5) j(3) adr [OF lt] keep by (intro that [of a t]) auto
    qed
  qed
qed

end
