(* ===== verification/FS_RW.thy ===== *)
theory FS_RW
  imports FS_File
begin

text \<open>
  \<open>readi\<close> and \<open>writei\<close> against the contents of a file as one list of bytes.
\<close>

subsection \<open>Blocks that are there\<close>

lemma bmap_mapped:
  assumes s: "fok ip s" and k: "unat bn < MAXFILE" "adr s ip (unat bn) \<noteq> 0"
  obtains t where "bmap ip bn s = Ret (adr s ip (unat bn)) t" "eff s (view s) (dirty s) t"
proof (cases "unat bn < NDIRECT")
  case True
  then have "bmap ip bn s = Ret (adr s ip (unat bn)) s" using k(2) by (simp add: bmap_def bmap_addr_def adr_def)
  then show ?thesis using that eff_refl [OF fokD(1) [OF s]] by blast
next
  case False
  define ind where "ind = i_addrs (inode_at s ip) ! NDIRECT"
  have ak: "ind \<noteq> 0" "adr s ip (unat bn) = get32 (view s ind) (4 * (unat bn - NDIRECT))"
    using False k by (auto simp: adr_def ind_def Let_def split: if_splits)
  have im: "adr s ip MAXFILE = ind" using NDIRECT_MAXFILE(1) by (simp add: adr_def ind_def)
  have h: "ind \<notin> held s" "card (held s) \<le> 1" "finite (held s)" using fokD(3) [OF s] by simp_all
  have "ind < disksize s" using fok_adr(4) [OF s order_refl] im ak(1) by simp
  from read_block [OF fokD(1) [OF s] h(1) this h(2,3)]
  obtain b u w where w: "bread 1 ind s = Ret b u" "bdata (bufp u b) = view s ind" "brelse b u = Ret () w" "eff s (view s) (dirty s) w" by metis
  have lt: "unat bn - NDIRECT < NINDIRECT" using k(1) False NDIRECT_MAXFILE(2) by simp
  have "get32 (view s ind) (4 * (unat bn - NDIRECT)) \<noteq> 0" using k(2) ak(2) by simp
  then have "bmap ip bn s = Ret (adr s ip (unat bn)) w"
    unfolding bmap_def bmap_addr_def Let_def fokD(5) [OF s] ak(2)
    using False lt ak(1) w(1-3) by (simp flip: ind_def)
  then show ?thesis using that w(4) by blast
qed

subsection \<open>Positions in a file\<close>

lemma block_of_off: "unat (off div word_of_nat BSIZE :: u32) = unat off div BSIZE"
  by (simp add: unat_div BSIZE_def)

lemma chunk_bytes:
  assumes "unat off mod BSIZE + m \<le> BSIZE" "length d = BSIZE"
  shows "take m (drop (unat off mod BSIZE) d) = map (\<lambda>i. d ! (i mod BSIZE)) [unat off..<unat off + m]"
proof (rule nth_equalityI)
  fix i assume "i < length (take m (drop (unat off mod BSIZE) d))"
  then have i: "i < m" "unat off mod BSIZE + i < BSIZE" using assms by auto
  then have "(unat off + i) mod BSIZE = unat off mod BSIZE + i" by (metis mod_add_left_eq mod_less)
  then show "take m (drop (unat off mod BSIZE) d) ! i = map (\<lambda>i. d ! (i mod BSIZE)) [unat off..<unat off + m] ! i"
    using i assms by simp
qed (use assms in auto)

lemma same_block:
  assumes "q mod BSIZE + m \<le> BSIZE" "q \<le> i" "i < q + m"
  shows "i div BSIZE = q div BSIZE" "i mod BSIZE = q mod BSIZE + (i - q)"
proof -
  have q: "q = BSIZE * (q div BSIZE) + q mod BSIZE" by simp
  show d: "i div BSIZE = q div BSIZE"
  proof (rule div_nat_eqI)
    show "BSIZE * (q div BSIZE) \<le> i" using q assms(2) by linarith
    have "i < BSIZE * (q div BSIZE) + BSIZE" using q assms by linarith
    then show "i < BSIZE * Suc (q div BSIZE)" by simp
  qed
  have "i = BSIZE * (i div BSIZE) + i mod BSIZE" by simp
  then show "i mod BSIZE = q mod BSIZE + (i - q)" using q assms(2) unfolding d by linarith
qed

text \<open>The part of the file that one round of the loops in \<open>readi\<close> and \<open>writei\<close> works on.\<close>

lemma chunk_range:
  assumes "tot < n" "unat off + (unat n - unat tot) \<le> MAXFILE * BSIZE"
  shows "unat off mod BSIZE + unat (chunk tot n off) \<le> BSIZE" "unat (off + chunk tot n off) = unat off + unat (chunk tot n off)"
    "unat n - unat (tot + chunk tot n off) = unat n - unat tot - unat (chunk tot n off)" "unat (chunk tot n off) \<le> unat n - unat tot"
    "unat off div BSIZE < MAXFILE" "tot + chunk tot n off \<le> n" "0 < unat (chunk tot n off)"
proof -
  note c = chunk_pos [OF assms(1), of off] and st = chunk_step [OF assms(1), of off]
  have B: "0 < BSIZE" by (simp add: BSIZE_def)
  then have "unat off mod BSIZE < BSIZE" by simp
  then show "unat off mod BSIZE + unat (chunk tot n off) \<le> BSIZE" using c(3) by linarith
  have "unat off + unat (chunk tot n off) \<le> MAXFILE * BSIZE" using c(2) assms(2) by linarith
  then have "unat off + unat (chunk tot n off) < 2 ^ 32" by (simp add: MAXFILE_def NDIRECT_def NINDIRECT_def BSIZE_def)
  then show "unat (off + chunk tot n off) = unat off + unat (chunk tot n off)" by (simp add: unat_word_ariths)
  show "unat n - unat (tot + chunk tot n off) = unat n - unat tot - unat (chunk tot n off)" unfolding st(1) by simp
  show "unat (chunk tot n off) \<le> unat n - unat tot" "0 < unat (chunk tot n off)" using c by simp_all
  have "unat off < MAXFILE * BSIZE" using c assms(2) by linarith
  then show "unat off div BSIZE < MAXFILE" by (simp add: less_mult_imp_div_less)
  show "tot + chunk tot n off \<le> n" unfolding word_le_nat_alt st(1) using c(2) assms(1) by (simp add: word_less_nat_alt)
qed

lemma upt_split: "i \<le> j \<Longrightarrow> j \<le> k \<Longrightarrow> [i..<k] = [i..<j] @ [j..<k]"
  using upt_add_eq_append [of i j "k - j"] by simp

lemma file_bytes:
  assumes "tx s" "unat off mod BSIZE + m \<le> BSIZE"
  shows "take m (drop (unat off mod BSIZE) (view s (adr s ip (unat off div BSIZE)))) = map (fbyte s ip) [unat off..<unat off + m]"
  unfolding chunk_bytes [OF assms(2) tx_view_length [OF assms(1)]]
proof (rule map_cong [OF refl])
  fix i assume "i \<in> set [unat off..<unat off + m]"
  then have i: "unat off \<le> i" "i < unat off + m" by simp_all
  note e = same_block(1) [OF assms(2) i]
  show "view s (adr s ip (unat off div BSIZE)) ! (i mod BSIZE) = fbyte s ip i" unfolding fbyte_def e ..
qed

subsection \<open>readi\<close>

lemma readi_loop_ok:
  assumes "fok ip s" "tot \<le> n" "unat off + (unat n - unat tot) \<le> unat (i_size (inode_at s ip))"
  shows "\<exists>t. readi_loop ip tot n off dst s = Ret (dst @ map (fbyte s ip) [unat off..<unat off + (unat n - unat tot)]) t \<and>
      eff s (view s) (dirty s) t"
  using assms
proof (induction "unat n - unat tot" arbitrary: tot off dst s rule: less_induct)
  case less
  note s = less.prems(1)
  show ?case
  proof (cases "tot < n")
    case False
    then have "tot = n" using less.prems(2) by simp
    then show ?thesis using eff_refl [OF fokD(1) [OF s]] by (subst readi_loop.simps) simp
  next
    case True
    let ?m = "chunk tot n off" and ?k = "unat off div BSIZE"
    have fit: "unat off + (unat n - unat tot) \<le> MAXFILE * BSIZE" using less.prems(3) fokD(7) [OF s] by linarith
    note c = chunk_range [OF True fit]
    have "?k * BSIZE \<le> unat off" by simp
    also have "\<dots> < unat (i_size (inode_at s ip))" using c(4,7) less.prems(3) by linarith
    finally have a: "adr s ip ?k \<noteq> 0" using fok_mapped [OF s c(5)] by simp
    obtain u where u: "bmap ip (off div word_of_nat BSIZE) s = Ret (adr s ip ?k) u" "eff s (view s) (dirty s) u"
      using bmap_mapped [OF s, of "off div word_of_nat BSIZE"] c(5) a by (auto simp: block_of_off)
    note eu = effD [OF u(2)] and su = eff_same [OF u(2) s] and fu = eff_fs [OF u(2)]
    have h: "adr s ip ?k \<notin> held u" "card (held u) \<le> 1" "finite (held u)" using fokD(3) [OF su(1)] by simp_all
    have "adr s ip ?k < disksize u" using fok_adr(4) [OF s] c(5) a eu(6) by simp
    from read_block [OF eu(1) h(1) this h(2,3)]
    obtain b v w where w: "bread 1 (adr s ip ?k) u = Ret b v" "bdata (bufp v b) = view u (adr s ip ?k)" "brelse b v = Ret () w" "eff u (view u) (dirty u) w"
      by metis
    have ew: "eff s (view s) (dirty s) w" using eff_trans [OF u(2) w(4)] eu by simp
    note dw = effD [OF ew] and sw = eff_same [OF ew s] and fw = eff_fs [OF ew]
    note bytes = file_bytes [OF fokD(1) [OF s] c(1)]
    have "fbyte w = fbyte s" using sw(2) dw(2) by (intro ext) (simp add: fbyte_def)
    moreover have "unat off + unat ?m + (unat n - unat tot - unat ?m) = unat off + (unat n - unat tot)" using c(4) by simp
    moreover have "unat n - unat tot - unat ?m < unat n - unat tot" using c(4,7) by linarith
    ultimately obtain t where t: "readi_loop ip (tot + ?m) n (off + ?m) (dst @ map (fbyte s ip) [unat off..<unat off + unat ?m]) w =
        Ret (dst @ map (fbyte s ip) [unat off..<unat off + unat ?m] @ map (fbyte s ip) [unat off + unat ?m..<unat off + (unat n - unat tot)]) t"
        "eff w (view w) (dirty w) t"
      using less.hyps [of "tot + ?m" w "off + ?m" "dst @ map (fbyte s ip) [unat off..<unat off + unat ?m]"] sw(1) c(2,3,6) less.prems(3) fw(4)
      by auto
    have "[unat off..<unat off + (unat n - unat tot)] = [unat off..<unat off + unat ?m] @ [unat off + unat ?m..<unat off + (unat n - unat tot)]"
      using c(4) by (intro upt_split) simp_all
    then have "readi_loop ip tot n off dst s = Ret (dst @ map (fbyte s ip) [unat off..<unat off + (unat n - unat tot)]) t"
      using True u(1) w(1-3) t(1) fokD(5) [OF s] fu(4) eu(2) bytes by (subst readi_loop.simps) (simp add: Let_def)
    moreover have "eff s (view s) (dirty s) t" using eff_trans [OF ew t(2)] dw by simp
    ultimately show ?thesis by blast
  qed
qed

lemma fdata_slice:
  "a + k \<le> unat (i_size (inode_at s ip)) \<Longrightarrow> map (fbyte s ip) [a..<a + k] = take k (drop a (fdata s ip))"
  by (simp add: fdata_def take_map drop_map take_upt)

lemma readi_ok:
  assumes s: "fok ip s" "i_type (inode_at s ip) \<noteq> T_DEV" and off: "off \<le> i_size (inode_at s ip)" "unat off + unat n < 2 ^ 32"
  shows "\<exists>t. readi dt ip off n s = Ret (min n (i_size (inode_at s ip) - off), take (unat n) (drop (unat off) (fdata s ip))) t \<and>
    eff s (view s) (dirty s) t"
proof -
  let ?z = "i_size (inode_at s ip)"
  define n' where "n' = (if off + n > ?z then ?z - off else n)"
  have on: "unat (off + n) = unat off + unat n" using off(2) by (simp add: unat_word_ariths)
  have zo: "unat (?z - off) = unat ?z - unat off" using off(1) by (simp add: unat_sub)
  have un: "unat n' = min (unat n) (unat ?z - unat off)"
    using off(1) zo on by (auto simp: n'_def word_less_nat_alt min_def)
  have mn: "min n (?z - off) = n'"
    using off(1) zo on by (auto simp: n'_def word_less_nat_alt word_le_nat_alt min_def)
  have "\<not> off + n < off" "\<not> ?z < off" using on off(1) by (simp_all add: word_less_nat_alt word_le_nat_alt)
  then have r: "readi dt ip off n s = andthen (readi_loop ip 0 n' off [] s) (\<lambda>dst s. Ret (n', dst) s)"
    using s(2) by (simp add: readi_def Let_def n'_def)
  have fit: "unat off + (unat n' - unat (0 :: u32)) \<le> unat ?z" using un off(1) by (simp add: word_le_nat_alt)
  obtain t where t: "readi_loop ip 0 n' off [] s = Ret (map (fbyte s ip) [unat off..<unat off + unat n']) t" "eff s (view s) (dirty s) t"
    using readi_loop_ok [OF s(1) _ fit, of "[]"] by auto
  have "map (fbyte s ip) [unat off..<unat off + unat n'] = take (unat n') (drop (unat off) (fdata s ip))"
    using fit by (intro fdata_slice) simp
  also have "\<dots> = take (unat n) (drop (unat off) (fdata s ip))"
    unfolding un by (simp add: fdata_def min_def)
  finally show ?thesis using r t mn by auto
qed

subsection \<open>writei\<close>

lemma write_fstep:
  assumes s: "fok ip s" and k: "k \<in> K" "K \<subseteq> {..<MAXFILE}" "adr s ip k \<noteq> 0"
    and e: "eff s ((view s)(adr s ip k := d)) (insert (adr s ip k) (dirty s)) t"
  shows "fstep ip K s t" "adr t ip j = adr s ip j"
proof -
  let ?a = "adr s ip k"
  have kM: "k < MAXFILE" using k(1,2) by auto
  note fa = fok_adr [OF s less_imp_le [OF kM] k(3)]
  note d = effD [OF e] and f = eff_fs [OF e]
  note gf = geom_fs [OF f(1)]
  have vb: "view t (bmb s) = view s (bmb s)" using fa(5) d(2) by simp
  have al: "allocated t = allocated s" using vb gf by (auto simp: allocated_def)
  have fr: "free_blocks t = free_blocks s" using al gf by (simp add: free_blocks_def)
  have gt: "geom t" using geom_keep [OF fokD(2) [OF s] f(1) d(6)] al by simp
  have ind: "i_addrs (inode_at s ip) ! NDIRECT \<noteq> ?a \<or> i_addrs (inode_at s ip) ! NDIRECT = 0"
    using fa(7) [OF order_refl] kM NDIRECT_MAXFILE(1) by (auto simp: adr_def)
  define b where "b = ?a"
  have "view t no = view s no" if "no \<noteq> b" for no using d(2) that by (simp add: b_def)
  then have a: "adr t ip j = adr s ip j" for j using ind unfolding b_def [symmetric] by (auto simp: adr_def f(4) Let_def)
  then show "adr t ip j = adr s ip j" .
  have "file_ok ip t = file_ok ip s" unfolding file_ok_def a f(1,4) al using gf by simp
  then have ft: "fok ip t" using s d(1,4) gt f(2) by (simp add: fok_def)
  have r: "rest ip s t" unfolding rest_def using set_addrs_same [of ip s] d(5) by metis
  have ab: "ablks t ip K = ablks s ip K" by (simp add: ablks_def a)
  have "?a \<in> ablks s ip K" using k by (intro ablksI) auto
  then show "fstep ip K s t"
    using fstepD(3) [OF fstep_refl [OF s k(2)]] ft r a fr d(2,3) by (auto simp: fstep_def ab)
qed

lemma write_bytes:
  assumes k: "k = q div BSIZE" and m: "q mod BSIZE + m \<le> BSIZE" "m \<le> length src" and d: "length d = BSIZE"
    and v: "view t a = take (q mod BSIZE) d @ take m src @ drop (q mod BSIZE + m) d" "adr t ip k = a"
  shows "q \<le> i \<Longrightarrow> i < q + m \<Longrightarrow> fbyte t ip i = src ! (i - q)"
    "i div BSIZE = k \<Longrightarrow> \<not> (q \<le> i \<and> i < q + m) \<Longrightarrow> fbyte t ip i = d ! (i mod BSIZE)"
proof -
  show "fbyte t ip i = src ! (i - q)" if "q \<le> i" "i < q + m"
  proof -
    note b = same_block [OF m(1) that]
    have "i - q < m" using that by simp
    then show ?thesis unfolding fbyte_def b k [symmetric] v using m d by (simp add: nth_append)
  qed
  show "fbyte t ip i = d ! (i mod BSIZE)" if i: "i div BSIZE = k" "\<not> (q \<le> i \<and> i < q + m)"
  proof -
    have "i mod BSIZE < BSIZE" by (simp add: BSIZE_def)
    moreover have "i = BSIZE * k + i mod BSIZE" "q = BSIZE * k + q mod BSIZE" using i(1) k by (metis mult_div_mod_eq)+
    then have "i mod BSIZE < q mod BSIZE \<or> q mod BSIZE + m \<le> i mod BSIZE" using i(2) by linarith
    ultimately show ?thesis unfolding fbyte_def i(1) v using m d by (auto simp: nth_append)
  qed
qed

text \<open>From \<open>s\<close> to \<open>t\<close> the bytes \<open>bs\<close> were written at position \<open>q\<close> of the file.\<close>

definition written :: "nat \<Rightarrow> nat \<Rightarrow> u8 list \<Rightarrow> 'a fs_st_scheme \<Rightarrow> 'a fs_st_scheme \<Rightarrow> bool" where
  "written ip q bs s t \<longleftrightarrow>
     (\<forall>i. q \<le> i \<and> i < q + length bs \<longrightarrow> adr t ip (i div BSIZE) \<noteq> 0 \<and> fbyte t ip i = bs ! (i - q)) \<and>
     (\<forall>i < MAXFILE * BSIZE. \<not> (q \<le> i \<and> i < q + length bs) \<and> adr s ip (i div BSIZE) \<noteq> 0 \<longrightarrow> fbyte t ip i = fbyte s ip i)"

lemma writtenD:
  assumes "written ip q bs s t"
  shows "q \<le> i \<Longrightarrow> i < q + length bs \<Longrightarrow> adr t ip (i div BSIZE) \<noteq> 0" "q \<le> i \<Longrightarrow> i < q + length bs \<Longrightarrow> fbyte t ip i = bs ! (i - q)"
    "i < MAXFILE * BSIZE \<Longrightarrow> \<not> (q \<le> i \<and> i < q + length bs) \<Longrightarrow> adr s ip (i div BSIZE) \<noteq> 0 \<Longrightarrow> fbyte t ip i = fbyte s ip i"
  using assms by (auto simp: written_def)

lemma written_trans:
  assumes a: "written ip q (take m bs) s u" and b: "written ip (q + m) (drop m bs) u t" and f: "fstep ip K s u" "fstep ip K u t"
    and m: "m \<le> length bs" "q + length bs \<le> MAXFILE * BSIZE"
  shows "written ip q bs s t"
proof -
  have len: "length (take m bs) = m" "length (drop m bs) = length bs - m" using m by simp_all
  have blk: "i div BSIZE \<le> MAXFILE" if "i < MAXFILE * BSIZE" for i
    using less_mult_imp_div_less [OF that] by simp
  have "adr t ip (i div BSIZE) \<noteq> 0 \<and> fbyte t ip i = bs ! (i - q)" if i: "q \<le> i" "i < q + length bs" for i
  proof (cases "i < q + m")
    case True
    have iM: "i < MAXFILE * BSIZE" using i m by simp
    have nz: "adr u ip (i div BSIZE) \<noteq> 0" and u: "fbyte u ip i = bs ! (i - q)"
      using writtenD(1,2) [OF a, of i] i(1) True len(1) by simp_all
    have "\<not> (q + m \<le> i \<and> i < q + m + length (drop m bs))" using True by simp
    then show ?thesis using writtenD(3) [OF b iM _ nz] u fstepD(4) [OF f(2) blk [OF iM] nz] nz by simp
  next
    case False
    then have "q + m \<le> i" "i < q + m + length (drop m bs)" using i m(1) by simp_all
    then show ?thesis using writtenD(1,2) [OF b, of i] m(1) by simp
  qed
  moreover have "fbyte t ip i = fbyte s ip i" if i: "i < MAXFILE * BSIZE" "\<not> (q \<le> i \<and> i < q + length bs)" "adr s ip (i div BSIZE) \<noteq> 0" for i
  proof -
    have "adr u ip (i div BSIZE) \<noteq> 0" using fstepD(4) [OF f(1) blk [OF i(1)] i(3)] i(3) by simp
    moreover have "\<not> (q + m \<le> i \<and> i < q + m + length (drop m bs))" "\<not> (q \<le> i \<and> i < q + length (take m bs))" using i(2) m(1) by auto
    ultimately show ?thesis using writtenD(3) [OF b i(1)] writtenD(3) [OF a i(1) _ i(3)] by simp
  qed
  ultimately show ?thesis by (simp add: written_def)
qed

lemma write_round:
  assumes B: "budget ip K s0" and f: "fstep ip K s0 s" and k: "unat off div BSIZE \<in> K"
    and m: "unat off mod BSIZE + m \<le> BSIZE" "m \<le> length src"
  obtains t where "andthen (bmap ip (off div word_of_nat BSIZE) s) (\<lambda>addr s.
        andthen (bread (i_dev (inode_at s ip)) addr s) (\<lambda>bp s.
        let o' = unat off mod BSIZE; d = bdata (bufp s bp);
            s = set_data bp (take o' d @ take m src @ drop (o' + m) d) s in
        andthen (log_write bp s) (\<lambda>_ s. andthen (brelse bp s) (\<lambda>_ s. F s)))) = F t"
    "fstep ip K s t" "written ip (unat off) (take m src) s t"
proof -
  let ?k = "unat off div BSIZE"
  have K: "K \<subseteq> {..<MAXFILE}" and s0: "fok ip s0" using B by (simp_all add: budget_def)
  note s = fstepD(1) [OF f]
  have kM: "?k < MAXFILE" using k K by auto
  have kb: "unat (off div word_of_nat BSIZE :: u32) \<in> K" using k by (simp add: block_of_off)
  note bo = bmap_ok [OF B f kb, unfolded block_of_off]
  obtain a u where u: "bmap ip (off div word_of_nat BSIZE) s = Ret a u" "fstep ip K s u" "adr u ip ?k = a" "a \<noteq> 0"
    "adr s ip ?k = 0 \<Longrightarrow> view u a = replicate BSIZE 0"
    "\<And>j. j < MAXFILE \<Longrightarrow> adr s ip j \<noteq> 0 \<Longrightarrow> view u (adr s ip j) = view s (adr s ip j)"
    by (rule bo) (rule that)
  note fu = fstep_trans [OF f u(2) K s0]
  note bu = budget_step [OF B fu]
  have h: "a \<notin> held u" "card (held u) \<le> 1" "finite (held u)" using fokD(3) [OF bu(4)] by simp_all
  have ad: "a < disksize u" using fok_adr(4) [OF bu(4), of ?k] kM u(3,4) by simp
  have "insert a (dirty u) \<subseteq> insert (bmb u) (dirty u) \<union> ablks u ip K" using ablksI [of ?k K u ip] k u(3,4) by auto
  from bu(2) [OF this] have room: "card (insert a (dirty u)) + 2 \<le> LOGSIZE" by simp
  let ?d = "view u a"
  let ?d' = "take (unat off mod BSIZE) ?d @ take m src @ drop (unat off mod BSIZE + m) ?d"
  have dl: "length ?d = BSIZE" by (rule tx_view_length [OF fokD(1) [OF bu(4)]])
  then have "length ?d' = BSIZE" using m by simp
  from rewrite_block [OF fokD(1) [OF bu(4)] h(1) ad h(2,3) room this]
  obtain b v w t where t: "bread 1 a u = Ret b v" "bdata (bufp v b) = ?d" "frame u v"
    "log_write b (set_data b ?d' v) = Ret () w" "brelse b w = Ret () t" "eff u ((view u)(a := ?d')) (insert a (dirty u)) t" by metis
  note wf = write_fstep [OF bu(4) k K, unfolded u(3), OF u(4) t(6)]
  have vt: "view t a = ?d'" using effD(2) [OF t(6)] by simp
  have at: "adr t ip ?k = a" using wf(2) u(3) by simp
  note wb = write_bytes [OF refl m dl vt at]
  have "written ip (unat off) (take m src) s t"
    unfolding written_def
  proof (intro conjI allI impI)
    fix i assume i: "unat off \<le> i \<and> i < unat off + length (take m src)"
    then have i': "unat off \<le> i" "i < unat off + m" using m(2) by simp_all
    show "fbyte t ip i = take m src ! (i - unat off)" using wb(1) [OF i'] i' by simp
    show "adr t ip (i div BSIZE) \<noteq> 0" unfolding same_block(1) [OF m(1) i'] using at u(4) by simp
  next
    fix i assume i: "i < MAXFILE * BSIZE" "\<not> (unat off \<le> i \<and> i < unat off + length (take m src)) \<and> adr s ip (i div BSIZE) \<noteq> 0"
    have ib: "i div BSIZE < MAXFILE" by (rule less_mult_imp_div_less [OF i(1)])
    have au: "adr u ip (i div BSIZE) = adr s ip (i div BSIZE)" using fstepD(4) [OF u(2)] ib i(2) by simp
    have vu: "view u (adr s ip (i div BSIZE)) = view s (adr s ip (i div BSIZE))" using u(6) ib i(2) by simp
    show "fbyte t ip i = fbyte s ip i"
    proof (cases "i div BSIZE = ?k")
      case True
      then show ?thesis using wb(2) [of i] i(2) m(2) vu au u(3) by (simp add: fbyte_def)
    next
      case False
      then have "adr u ip (i div BSIZE) \<noteq> a"
        using fok_adr(7) [OF bu(4), of ?k "i div BSIZE"] kM ib u(3,4) by auto
      then show ?thesis using effD(2) [OF t(6)] wf(2) au vu by (simp add: fbyte_def)
    qed
  qed
  moreover have "i_dev (inode_at u ip) = 1" by (rule fokD(5) [OF bu(4)])
  ultimately show ?thesis using that [of t] u(1) t(1,2,4,5) fstep_trans [OF u(2) wf(1) K s] by (simp add: Let_def)
qed

lemma writei_loop_ok:
  assumes B: "budget ip K s0" and "fstep ip K s0 s" "tot \<le> n" "unat off + (unat n - unat tot) \<le> MAXFILE * BSIZE"
    "length src = unat n - unat tot" "\<And>i. unat off \<le> i \<Longrightarrow> i < unat off + (unat n - unat tot) \<Longrightarrow> i div BSIZE \<in> K"
  shows "\<exists>t. writei_loop ip tot n off src s = Ret (off + (n - tot)) t \<and> fstep ip K s t \<and> written ip (unat off) src s t"
  using assms(2-)
proof (induction "unat n - unat tot" arbitrary: tot off src s rule: less_induct)
  case less
  have K: "K \<subseteq> {..<MAXFILE}" and s0: "fok ip s0" using B by (simp_all add: budget_def)
  show ?case
  proof (cases "tot < n")
    case False
    then have "tot = n" using less.prems(2) by simp
    then show ?thesis using less.prems(4) fstep_refl [OF fstepD(1) [OF less.prems(1)] K]
      by (subst writei_loop.simps) (auto simp: written_def)
  next
    case True
    let ?m = "chunk tot n off"
    note c = chunk_range [OF True less.prems(3)]
    have k: "unat off div BSIZE \<in> K" using less.prems(5) [of "unat off"] c(4,7) by simp
    have m: "unat ?m \<le> length src" using c(4) less.prems(4) by simp
    let ?F = "\<lambda>s. writei_loop ip (tot + ?m) n (off + ?m) (drop (unat ?m) src) s"
    obtain u where u: "andthen (bmap ip (off div word_of_nat BSIZE) s) (\<lambda>addr s.
        andthen (bread (i_dev (inode_at s ip)) addr s) (\<lambda>bp s.
        let o' = unat off mod BSIZE; d = bdata (bufp s bp);
            s = set_data bp (take o' d @ take (unat ?m) src @ drop (o' + unat ?m) d) s in
        andthen (log_write bp s) (\<lambda>_ s. andthen (brelse bp s) (\<lambda>_ s. ?F s)))) = ?F u"
      "fstep ip K s u" "written ip (unat off) (take (unat ?m) src) s u"
      by (rule write_round [OF B less.prems(1) k c(1) m, of ?F])
    have "unat n - unat (tot + ?m) < unat n - unat tot" using c(3,4,7) by linarith
    moreover have "unat (off + ?m) + (unat n - unat (tot + ?m)) \<le> MAXFILE * BSIZE"
      "length (drop (unat ?m) src) = unat n - unat (tot + ?m)"
      using less.prems(3,4) c(2,3,4) by simp_all
    moreover have "i div BSIZE \<in> K" if "unat (off + ?m) \<le> i" "i < unat (off + ?m) + (unat n - unat (tot + ?m))" for i
      using that less.prems(5) [of i] c(2,3,4) by simp
    ultimately obtain t where t: "?F u = Ret (off + ?m + (n - (tot + ?m))) t" "fstep ip K u t"
      "written ip (unat (off + ?m)) (drop (unat ?m) src) u t"
      using less.hyps [OF _ fstep_trans [OF less.prems(1) u(2) K s0] c(6)] by blast
    have "written ip (unat off) src s t"
      using written_trans [OF u(3) t(3) [unfolded c(2)] u(2) t(2) m] less.prems(3,4) by simp
    moreover have "writei_loop ip tot n off src s = ?F u"
      using True by (subst writei_loop.simps) (simp add: Let_def flip: u(1))
    ultimately show ?thesis using t fstep_trans [OF u(2) t(2) K fstepD(1) [OF less.prems(1)]] by simp
  qed
qed

end
