(* ===== verification/FS_Inode.thy ===== *)
theory FS_Inode
  imports FS_RW
begin

text \<open>
  Inodes on disk and in memory: the structure \<open>struct dinode\<close> in a block, \<open>iupdate\<close>, \<open>writei\<close> as a whole,
  and the cache of inodes.
\<close>

subsection \<open>Inodes in a block\<close>

lemma get16_put32s_other:
  assumes "off + 4 * length ws \<le> length b" "off' + 2 \<le> off \<or> off + 4 * length ws \<le> off'"
  shows "get16 (put32s off ws b) off' = get16 b off'"
proof -
  let ?f = "\<lambda>k. fold (\<lambda>i b. put32 b (off + 4 * i) (ws ! i)) [0..<k] b"
  have len: "length (?f k) = length b" for k by (induction k) simp_all
  have "get16 (?f k) off' = get16 b off'" if "k \<le> length ws" for k
    using that
  proof (induction k)
    case (Suc k)
    then show ?case using assms len [of k] by auto
  qed simp
  then show ?thesis by (simp add: put32s_def)
qed

lemma put_dinode_length [simp]: "length (put_dinode di off d) = length d"
  by (simp add: put_dinode_def Let_def)

lemma dinode_round_trip:
  assumes "off + 64 \<le> length d" "length (d_addrs di) = NDIRECT + 1"
  shows "dinode_of (put_dinode di off d) off = di"
proof -
  let ?e = "put32 (put16 (put16 (put16 (put16 d off (d_type di)) (off + 2) (d_major di)) (off + 4) (d_minor di)) (off + 6) (d_nlink di)) (off + 8) (d_size di)"
  have p: "put_dinode di off d = put32s (off + 12) (d_addrs di) ?e" by (simp add: put_dinode_def Let_def)
  have l: "off + 12 + 4 * length (d_addrs di) \<le> length ?e" using assms by (simp add: NDIRECT_def)
  have "map (\<lambda>i. get32 (put_dinode di off d) (off + 12 + 4 * i)) [0..<NDIRECT + 1] = d_addrs di"
    using get32_put32s(1) [OF l] assms(2) by (intro nth_equalityI) (auto simp: p simp del: upt_Suc)
  moreover have "get16 (put_dinode di off d) q = get16 ?e q" if "q + 2 \<le> off + 12" for q
    unfolding p by (rule get16_put32s_other [OF l disjI1 [OF that]])
  moreover have "get32 (put_dinode di off d) (off + 8) = get32 ?e (off + 8)"
    unfolding p by (rule get32_put32s(2) [OF l]) simp
  ultimately show ?thesis using assms(1) by (simp add: dinode_of_def)
qed

lemma dinode_other:
  assumes "off + 64 \<le> length d" "length (d_addrs di) = NDIRECT + 1" "off' + 64 \<le> off \<or> off + 64 \<le> off'"
  shows "dinode_of (put_dinode di off d) off' = dinode_of d off'"
proof -
  let ?e = "put32 (put16 (put16 (put16 (put16 d off (d_type di)) (off + 2) (d_major di)) (off + 4) (d_minor di)) (off + 6) (d_nlink di)) (off + 8) (d_size di)"
  have p: "put_dinode di off d = put32s (off + 12) (d_addrs di) ?e" by (simp add: put_dinode_def Let_def)
  have l: "off + 12 + 4 * length (d_addrs di) \<le> length ?e" using assms by (simp add: NDIRECT_def)
  have al: "length (d_addrs di) = 13" using assms(2) by (simp add: NDIRECT_def)
  have g16: "get16 (put_dinode di off d) q = get16 d q" if "q + 2 \<le> off \<or> off + 64 \<le> q" for q
    using that get16_put32s_other [OF l, of q] assms(1) al unfolding p by auto
  have g32: "get32 (put_dinode di off d) q = get32 d q" if "q + 4 \<le> off \<or> off + 64 \<le> q" for q
    using that get32_put32s(2) [OF l, of q] assms(1) al unfolding p by auto
  show ?thesis
    using assms(3) unfolding dinode_of_def NDIRECT_def by (auto simp: g16 g32 simp del: upt_Suc)
qed

subsection \<open>iupdate\<close>

text \<open>The block of the inode, and that the structure there is the one in memory.\<close>

definition iblk :: "'a fs_st_scheme \<Rightarrow> nat \<Rightarrow> u32" where
  "iblk s ip = IBLOCK (i_inum (inode_at s ip)) (fsb s)"

definition synced :: "nat \<Rightarrow> 'a fs_st_scheme \<Rightarrow> bool" where
  "synced ip s \<longleftrightarrow> dinode_of (view s (iblk s ip)) (ioff (i_inum (inode_at s ip))) = dinode_of_inode (inode_at s ip)"

lemma iblock_meta:
  assumes g: "geom s" and i: "unat inum < unat (sb_ninodes (fsb s))"
  shows "unat (IBLOCK inum (fsb s)) < unat (bmb s)"
proof -
  have "unat inum div IPB \<le> unat (sb_ninodes (fsb s)) div IPB" using i by (simp add: div_le_mono)
  then have l: "unat inum div IPB + unat (sb_inodestart (fsb s)) < unat (bmb s)" using g by (simp add: geom_def)
  have d: "unat (inum div word_of_nat IPB :: u32) = unat inum div IPB" by (simp add: unat_div IPB_def BSIZE_def)
  have "unat (bmb s) < 2 ^ 32" using unsigned_less [of "bmb s", where 'a = nat] by simp
  then have "unat (IBLOCK inum (fsb s)) = unat inum div IPB + unat (sb_inodestart (fsb s))"
    using l unfolding IBLOCK_def unat_word_ariths(1) d by simp
  then show ?thesis using l by simp
qed

lemma iblk_ok:
  assumes "fok ip s"
  shows "iblk s ip < disksize s" "iblk s ip \<noteq> bmb s" "unat (iblk s ip) < data_start s"
    "k \<le> MAXFILE \<Longrightarrow> adr s ip k \<noteq> 0 \<Longrightarrow> adr s ip k \<noteq> iblk s ip" "iblk s ip \<notin> free_blocks s" "K \<subseteq> {..<MAXFILE} \<Longrightarrow> iblk s ip \<notin> ablks s ip K"
proof -
  note g = fokD(2) [OF assms]
  have lt: "unat (iblk s ip) < unat (bmb s)" unfolding iblk_def by (rule iblock_meta [OF g fokD(8) [OF assms]])
  then show d: "unat (iblk s ip) < data_start s" using geomD(4) [OF g] by linarith
  show "iblk s ip < disksize s" using geomD(5,8) [OF g] d by fastforce
  show "iblk s ip \<noteq> bmb s" using lt by auto
  show ne: "adr s ip k \<noteq> iblk s ip" if "k \<le> MAXFILE" "adr s ip k \<noteq> 0" for k using fok_adr(1) [OF assms that] d by auto
  show "iblk s ip \<notin> free_blocks s" using geomD(6) [OF g d] by (simp add: free_blocks_def)
  show "iblk s ip \<notin> ablks s ip K" if K: "K \<subseteq> {..<MAXFILE}"
  proof
    assume "iblk s ip \<in> ablks s ip K"
    then obtain k where k: "iblk s ip = adr s ip k" "k \<in> insert MAXFILE K" "adr s ip k \<noteq> 0" by (auto simp: ablks_def)
    then have "k \<le> MAXFILE" using K by auto
    then show False using ne k by metis
  qed
qed

lemma ioff_fits: "ioff inum + 64 \<le> BSIZE"
proof -
  have "unat inum mod IPB < IPB" by (simp add: IPB_def BSIZE_def)
  then show ?thesis by (simp add: ioff_def IPB_def BSIZE_def)
qed

lemma iupdate_ok:
  assumes t: "tx s" "held s = {}" "i_dev (inode_at s ip) = 1" "iblk s ip < disksize s"
    and room: "card (insert (iblk s ip) (dirty s)) + 2 \<le> LOGSIZE"
  obtains t where "iupdate ip s = Ret () t"
    "eff s ((view s)(iblk s ip := put_dinode (dinode_of_inode (inode_at s ip)) (ioff (i_inum (inode_at s ip))) (view s (iblk s ip))))
       (insert (iblk s ip) (dirty s)) t"
proof -
  let ?f = "put_dinode (dinode_of_inode (inode_at s ip)) (ioff (i_inum (inode_at s ip)))"
  have h: "iblk s ip \<notin> held s" "card (held s) \<le> 1" "finite (held s)" using t(2) by simp_all
  have l: "length (?f (view s (iblk s ip))) = BSIZE" using tx_view_length [OF t(1)] by simp
  obtain w where w: "andthen (bread 1 (iblk s ip) s) (\<lambda>b s. let s = set_data b (?f (bdata (bufp s b))) s in
      andthen (log_write b s) (\<lambda>_ s. brelse b s)) = Ret () w"
    "eff s ((view s)(iblk s ip := ?f (view s (iblk s ip)))) (insert (iblk s ip) (dirty s)) w"
    by (rule change_block [where f = ?f and F = "\<lambda>_. ?f", OF t(1) h(1) t(4) h(2,3) room l]) simp_all
  then show ?thesis using that t(3) by (simp add: iupdate_def iblk_def)
qed

subsection \<open>writei\<close>

definition overwrite :: "nat \<Rightarrow> u8 list \<Rightarrow> u8 list \<Rightarrow> u8 list" where
  "overwrite q bs xs = take q xs @ bs @ drop (q + length bs) xs"

lemma overwrite_nth:
  assumes "q \<le> length xs" "i < max (length xs) (q + length bs)"
  shows "overwrite q bs xs ! i = (if q \<le> i \<and> i < q + length bs then bs ! (i - q) else xs ! i)"
  using assms by (auto simp: overwrite_def nth_append min_def max_def split: if_splits)

lemma overwrite_length: "q \<le> length xs \<Longrightarrow> length (overwrite q bs xs) = max (length xs) (q + length bs)"
  by (simp add: overwrite_def max_def)

text \<open>The positions of the blocks that hold the bytes from \<open>q\<close> on.\<close>

definition span :: "nat \<Rightarrow> nat \<Rightarrow> nat set" where
  "span q n = {k. \<exists>i. q \<le> i \<and> i < q + n \<and> k = i div BSIZE}"

lemma span_card:
  assumes "n \<le> 3 * BSIZE"
  shows "card (span q n) \<le> 4"
proof -
  have "i div BSIZE \<in> {q div BSIZE..q div BSIZE + 3}" if "q \<le> i" "i < q + n" for i
  proof -
    have "i div BSIZE \<le> (q + 3 * BSIZE) div BSIZE" using that assms by (intro div_le_mono) simp
    then show ?thesis using that(1) div_le_mono [of q i BSIZE] by (simp add: BSIZE_def)
  qed
  then have "span q n \<subseteq> {q div BSIZE..q div BSIZE + 3}" by (auto simp: span_def)
  from card_mono [OF _ this] show ?thesis by simp
qed

lemma span_MAXFILE: "q + n \<le> MAXFILE * BSIZE \<Longrightarrow> span q n \<subseteq> {..<MAXFILE}"
  by (auto simp: span_def intro: less_mult_imp_div_less)

lemma fdata_nth: "i < unat (i_size (inode_at s ip)) \<Longrightarrow> fdata s ip ! i = fbyte s ip i"
  by (simp add: fdata_def)

lemma fdata_length [simp]: "length (fdata s ip) = unat (i_size (inode_at s ip))"
  by (simp add: fdata_def)

lemma written_mapped:
  assumes s: "fok ip s" and w: "written ip q bs s t" and q: "q \<le> unat (i_size (inode_at s ip))"
    and M: "q + length bs \<le> MAXFILE * BSIZE" and f: "fstep ip K s t" and i: "i < max (unat (i_size (inode_at s ip))) (q + length bs)"
  shows "i < MAXFILE * BSIZE" "i div BSIZE < MAXFILE" "adr t ip (i div BSIZE) \<noteq> 0"
    "i < unat (i_size (inode_at s ip)) \<Longrightarrow> adr s ip (i div BSIZE) \<noteq> 0"
proof -
  let ?z = "unat (i_size (inode_at s ip))"
  show iM: "i < MAXFILE * BSIZE" using i M fokD(7) [OF s] by simp
  show dv: "i div BSIZE < MAXFILE" by (rule less_mult_imp_div_less [OF iM])
  show old: "adr s ip (i div BSIZE) \<noteq> 0" if "i < ?z"
  proof -
    have "i div BSIZE * BSIZE < ?z" using that by (meson div_times_less_eq_dividend le_less_trans)
    then show ?thesis using fok_mapped [OF s dv] by simp
  qed
  show "adr t ip (i div BSIZE) \<noteq> 0"
  proof (cases "i < ?z")
    case True
    then show ?thesis using fstepD(4) [OF f] old [OF True] dv by simp
  next
    case False
    then show ?thesis using writtenD(1) [OF w, of i] i q by simp
  qed
qed

lemma written_contents:
  assumes s: "fok ip s" and w: "written ip q bs s t" and q: "q \<le> unat (i_size (inode_at s ip))"
    and M: "q + length bs \<le> MAXFILE * BSIZE" and f: "fstep ip K s t"
    and z: "unat (i_size (inode_at u ip)) = max (unat (i_size (inode_at s ip))) (q + length bs)" "adr u ip = adr t ip"
      "\<And>k. k < MAXFILE \<Longrightarrow> adr t ip k \<noteq> 0 \<Longrightarrow> view u (adr t ip k) = view t (adr t ip k)"
  shows "fdata u ip = overwrite q bs (fdata s ip)"
proof (rule nth_equalityI)
  show "length (fdata u ip) = length (overwrite q bs (fdata s ip))" using z(1) q by (simp add: overwrite_length)
  fix i assume "i < length (fdata u ip)"
  then have i: "i < unat (i_size (inode_at u ip))" by simp
  note wm = written_mapped [OF s w q M f i [unfolded z(1)]]
  have "fdata u ip ! i = fbyte t ip i"
    using fdata_nth [OF i] z(2,3) wm(2,3) by (simp add: fbyte_def)
  also have "\<dots> = (if q \<le> i \<and> i < q + length bs then bs ! (i - q) else fdata s ip ! i)"
    using writtenD(2) [OF w, of i] writtenD(3) [OF w wm(1)] wm(4) i z(1) q by (auto simp: fdata_nth)
  also have "\<dots> = overwrite q bs (fdata s ip) ! i" using overwrite_nth [of q "fdata s ip" i bs] q i z(1) by simp
  finally show "fdata u ip ! i = overwrite q bs (fdata s ip) ! i" .
qed

text \<open>Setting the size and writing the inode back keeps a file well formed.\<close>

lemma grow_fok:
  assumes t: "fok ip t" and z: "unat z \<le> MAXFILE * BSIZE" "\<And>k. k < MAXFILE \<Longrightarrow> k * BSIZE < unat z \<Longrightarrow> adr t ip k \<noteq> 0"
    and e: "eff (upd_inode ip (\<lambda>x. x\<lparr>i_size := z\<rparr>) t) ((view t)(iblk t ip := d)) D u"
  shows "fok ip u" "adr u ip = adr t ip" "inode_at u ip = (inode_at t ip)\<lparr>i_size := z\<rparr>" "jp \<noteq> ip \<Longrightarrow> inode_at u jp = inode_at t jp"
    "fsb u = fsb t" "free_blocks u = free_blocks t" "disksize u = disksize t" "cwd u = cwd t"
proof -
  let ?s = "upd_inode ip (\<lambda>x. x\<lparr>i_size := z\<rparr>) t"
  note d = effD [OF e] and f = eff_fs [OF e] and ib = iblk_ok [OF t]
  show fs: "fsb u = fsb t" and ds: "disksize u = disksize t" "cwd u = cwd t" using f(1,3) d(6) by simp_all
  note gf = geom_fs [OF fs]
  show x: "inode_at u ip = (inode_at t ip)\<lparr>i_size := z\<rparr>" "jp \<noteq> ip \<Longrightarrow> inode_at u jp = inode_at t jp" for jp
    using f(4) fokD(4) [OF t] by simp_all
  have vw: "view u b = view t b" if "b \<noteq> iblk t ip" for b using d(2) that by simp
  have al: "allocated u = allocated t" using vw [of "bmb t"] ib(2) gf by (auto simp: allocated_def)
  show fr: "free_blocks u = free_blocks t" using al gf by (simp add: free_blocks_def)
  have gu: "geom u" using geom_keep [OF fokD(2) [OF t] fs ds(1)] al by simp
  have i12: "i_addrs (inode_at t ip) ! NDIRECT \<noteq> 0 \<Longrightarrow> i_addrs (inode_at t ip) ! NDIRECT \<noteq> iblk t ip"
    using ib(4) [OF order_refl] NDIRECT_MAXFILE(1) by (simp add: adr_def)
  show a: "adr u ip = adr t ip"
    using vw i12 by (intro ext) (auto simp: adr_def x(1) Let_def)
  have "file_ok ip u"
    using fokD(9) [OF t] z gf unfolding file_ok_def Let_def a x(1) fs al by simp
  then show "fok ip u" using d(1,4) gu f(2) fokD(3,4) [OF t] by (simp add: fok_def)
qed

lemma addrs_of_adr:
  assumes "length (i_addrs (inode_at t ip)) = NDIRECT + 1" "length (i_addrs (inode_at s ip)) = NDIRECT + 1"
    "\<And>k. k \<le> MAXFILE \<Longrightarrow> adr t ip k = adr s ip k"
  shows "i_addrs (inode_at t ip) = i_addrs (inode_at s ip)"
proof (rule nth_equalityI)
  fix i assume "i < length (i_addrs (inode_at t ip))"
  then consider "i < NDIRECT" | "i = NDIRECT" using assms(1) by fastforce
  then show "i_addrs (inode_at t ip) ! i = i_addrs (inode_at s ip) ! i"
    using assms(3) [of i] assms(3) [of MAXFILE] NDIRECT_MAXFILE(1) by cases (simp_all add: adr_def)
qed (use assms in simp)

text \<open>\<open>writei\<close> up to the point where it looks at the size: a state \<open>u\<close> in which the bytes are in place.\<close>

lemma writei_bytes:
  assumes s: "fok ip s" "i_type (inode_at s ip) \<noteq> T_DEV" and off: "off \<le> i_size (inode_at s ip)" "unat off + unat n \<le> MAXFILE * BSIZE"
    and n: "unat n \<le> 3 * BSIZE" "length src = unat n" and room: "card (dirty s) + MAXOPBLOCKS \<le> LOGSIZE" "5 < card (free_blocks s)"
  obtains u where "fstep ip (span (unat off) (unat n)) s u" "written ip (unat off) src s u" "card (dirty u) \<le> card (dirty s) + 6"
    "writei dt ip src off n s = (if n > 0 \<and> off + n > i_size (inode_at s ip)
       then andthen (iupdate ip (upd_inode ip (\<lambda>x. x\<lparr>i_size := off + n\<rparr>) u)) (\<lambda>_ s. Ret n s) else Ret n u)"
proof -
  let ?K = "span (unat off) (unat n)" and ?z = "i_size (inode_at s ip)"
  have K: "?K \<subseteq> {..<MAXFILE}" "card ?K \<le> 4" using span_MAXFILE [OF off(2)] span_card [OF n(1)] by simp_all
  have B: "budget ip ?K s" using s(1) K room by (simp add: budget_def MAXOPBLOCKS_def)
  have on: "unat (off + n) = unat off + unat n"
    using off(2) by (simp add: unat_word_ariths MAXFILE_def NDIRECT_def NINDIRECT_def BSIZE_def)
  have src: "length src = unat n - unat (0 :: u32)" "unat off + (unat n - unat (0 :: u32)) \<le> MAXFILE * BSIZE" using n(2) off(2) by simp_all
  have rng: "i div BSIZE \<in> ?K" if "unat off \<le> i" "i < unat off + (unat n - unat (0 :: u32))" for i using that by (auto simp: span_def)
  obtain u where u: "writei_loop ip 0 n off src s = Ret (off + n) u" "fstep ip ?K s u" "written ip (unat off) src s u"
    using writei_loop_ok [OF B fstep_refl [OF s(1) K(1)] word_zero_le src(2,1) rng] by auto
  note bu = budget_step [OF B u(2)] and r = restD [OF fstepD(2) [OF u(2)] fokD(4) [OF s(1)]]
  have fin: "finite ?K" using K(1) finite_subset by blast
  have "card (dirty u) \<le> card (insert (bmb u) (dirty u) \<union> ablks u ip ?K)"
    using ablks_card(1) [OF fin] tx_finite [OF fokD(1) [OF bu(4)]] by (intro card_mono) auto
  then have c: "card (dirty u) \<le> card (dirty s) + 6" using bu(1) K(2) by linarith
  have sz: "i_size (inode_at u ip) = ?z" by (subst r(5), simp)
  have "\<not> off + n < off" "\<not> ?z < off" "\<not> word_of_nat (MAXFILE * BSIZE) < off + n"
    using on off by (simp_all add: word_less_nat_alt word_le_nat_alt MAXFILE_def NDIRECT_def NINDIRECT_def BSIZE_def)
  then have "writei dt ip src off n s =
      (if n > 0 \<and> off + n > ?z then andthen (iupdate ip (upd_inode ip (\<lambda>x. x\<lparr>i_size := off + n\<rparr>) u)) (\<lambda>_ s. Ret n s) else Ret n u)"
    using s(2) u(1) sz by (simp add: writei_def)
  then show ?thesis using that u(2,3) c by blast
qed

lemma span_mapped:
  assumes "fok ip s" "q + n \<le> unat (i_size (inode_at s ip))" "k \<in> span q n"
  shows "adr s ip k \<noteq> 0"
proof -
  obtain i where i: "i < q + n" "k = i div BSIZE" using assms(3) by (auto simp: span_def)
  have "k * BSIZE \<le> i" by (simp add: i(2))
  then have "k * BSIZE < unat (i_size (inode_at s ip))" using i(1) assms(2) by linarith
  moreover have "k < MAXFILE" using i assms(2) fokD(7) [OF assms(1)] by (auto intro: less_mult_imp_div_less)
  ultimately show ?thesis using fok_mapped [OF assms(1)] by simp
qed

text \<open>Without a change of the size the inode is as before, so it need not be written.\<close>

lemma no_growth:
  assumes s: "fok ip s" and u: "fstep ip (span q n) s u" and z: "q + n \<le> unat (i_size (inode_at s ip))"
  shows "inode_at u ip = inode_at s ip" "synced ip s \<Longrightarrow> synced ip u"
proof -
  note r = restD [OF fstepD(2) [OF u] fokD(4) [OF s]]
  have K: "span q n \<subseteq> {..<MAXFILE}" using span_MAXFILE z fokD(7) [OF s] by simp
  have "i_addrs (inode_at u ip) = i_addrs (inode_at s ip)"
    by (rule addrs_of_adr [OF fokD(6) [OF fstepD(1) [OF u]] fokD(6) [OF s]]) (rule fstepD(8) [OF u span_mapped [OF s z]])
  then show x: "inode_at u ip = inode_at s ip" by (subst r(5)) simp
  have "view u (iblk s ip) = view s (iblk s ip)" using fstepD(6) [OF u] iblk_ok(2,5,6) [OF s] K by blast
  then show "synced ip s \<Longrightarrow> synced ip u" by (simp add: synced_def x iblk_def r(1))
qed

lemma growth:
  assumes u: "fok ip u" and c: "card (dirty u) + 4 \<le> LOGSIZE"
    and z: "unat z \<le> MAXFILE * BSIZE" "\<And>k. k < MAXFILE \<Longrightarrow> k * BSIZE < unat z \<Longrightarrow> adr u ip k \<noteq> 0"
  obtains t where "iupdate ip (upd_inode ip (\<lambda>x. x\<lparr>i_size := z\<rparr>) u) = Ret () t" "fok ip t" "adr t ip = adr u ip"
    "inode_at t = (inode_at u)(ip := (inode_at u ip)\<lparr>i_size := z\<rparr>)" "synced ip t" "\<And>b. b \<noteq> iblk u ip \<Longrightarrow> view t b = view u b"
    "card (dirty t) \<le> card (dirty u) + 1" "length (icache t) = length (icache u)" "free_blocks t = free_blocks u" "fsb t = fsb u"
proof -
  let ?v = "upd_inode ip (\<lambda>x. x\<lparr>i_size := z\<rparr>) u"
  have x: "inode_at ?v ip = (inode_at u ip)\<lparr>i_size := z\<rparr>" using fokD(4) [OF u] by simp
  have ib: "iblk ?v ip = iblk u ip" by (simp add: iblk_def x del: inode_at_upd)
  have fin: "finite (dirty u)" by (rule tx_finite [OF fokD(1) [OF u]])
  have v: "tx ?v" "held ?v = {}" "i_dev (inode_at ?v ip) = 1" "iblk ?v ip < disksize ?v"
    using fokD(1,3,5) [OF u] iblk_ok(1) [OF u] ib by (simp_all add: x del: inode_at_upd)
  have "card (insert (iblk ?v ip) (dirty ?v)) + 2 \<le> LOGSIZE" using c fin by (simp add: card_insert_if)
  from iupdate_ok [OF v this]
  obtain t where t: "iupdate ip ?v = Ret () t"
    "eff ?v ((view ?v)(iblk ?v ip := put_dinode (dinode_of_inode (inode_at ?v ip)) (ioff (i_inum (inode_at ?v ip))) (view ?v (iblk ?v ip))))
       (insert (iblk ?v ip) (dirty ?v)) t" by blast
  have e: "eff ?v ((view u)(iblk u ip := put_dinode (dinode_of_inode (inode_at ?v ip)) (ioff (i_inum (inode_at ?v ip))) (view u (iblk u ip))))
       (insert (iblk u ip) (dirty u)) t" using t(2) unfolding ib by simp
  note g = grow_fok [OF u z e] and d = effD [OF e]
  have it: "inode_at t = (inode_at u)(ip := (inode_at u ip)\<lparr>i_size := z\<rparr>)" using g(3,4) by auto
  have xt: "inode_at ?v ip = inode_at t ip" using x g(3) by simp
  have "iblk t ip = iblk u ip" using g(3,5) by (simp add: iblk_def)
  then have vt: "view t (iblk t ip) = put_dinode (dinode_of_inode (inode_at t ip)) (ioff (i_inum (inode_at t ip))) (view u (iblk u ip))"
    using d(2) unfolding xt by simp
  have "length (view u (iblk u ip)) = BSIZE" by (rule tx_view_length [OF fokD(1) [OF u]])
  then have "synced ip t"
    unfolding synced_def vt using ioff_fits fokD(6) [OF g(1)] by (intro dinode_round_trip) (auto simp: dinode_of_inode_def)
  moreover have "card (dirty t) \<le> card (dirty u) + 1" using d(3) fin by (simp add: card_insert_if)
  moreover have "length (icache t) = length (icache u)" using eff_fs(2) [OF e] by simp
  ultimately show ?thesis using that t(1) g(1,2,5,6) it d(2) by auto
qed

text \<open>Two inodes that share no block.\<close>

definition apart :: "nat \<Rightarrow> nat \<Rightarrow> 'a fs_st_scheme \<Rightarrow> bool" where
  "apart ip jp s \<longleftrightarrow> (\<forall>j \<le> MAXFILE. \<forall>k \<le> MAXFILE. adr s jp k \<noteq> 0 \<longrightarrow> adr s ip j \<noteq> adr s jp k)"

lemma other_contents:
  assumes j: "fok jp s" and i: "inode_at t jp = inode_at s jp"
    and v: "\<And>k. k \<le> MAXFILE \<Longrightarrow> adr s jp k \<noteq> 0 \<Longrightarrow> view t (adr s jp k) = view s (adr s jp k)"
  shows "fdata t jp = fdata s jp"
proof -
  have "adr s jp MAXFILE = i_addrs (inode_at s jp) ! NDIRECT" using NDIRECT_MAXFILE(1) by (simp add: adr_def)
  then have a: "adr t jp = adr s jp" using v [OF order_refl] by (intro ext) (auto simp: adr_def i Let_def)
  have "fbyte t jp q = fbyte s jp q" if "q < unat (i_size (inode_at s jp))" for q
  proof -
    have "q < MAXFILE * BSIZE" using that fokD(7) [OF j] by simp
    then have k: "q div BSIZE < MAXFILE" by (rule less_mult_imp_div_less)
    have "q div BSIZE * BSIZE \<le> q" by simp
    then have "adr s jp (q div BSIZE) \<noteq> 0" using fok_mapped [OF j k] that by linarith
    then show ?thesis using v k a by (simp add: fbyte_def)
  qed
  then show ?thesis by (simp add: fdata_def i)
qed

end
