(* ===== verification/Mkfs_Image.thy ===== *)
theory Mkfs_Image
  imports Mkfs FS_Inode
begin

text \<open>
  What \<open>iappend\<close> and the other parts of src/mkfs.c do to an image, in terms of a table of inodes and the
  bytes of their files.  \<open>D\<close> is the table of inodes, on disk or, for the one that is being written, in
  memory; \<open>owned N D s\<close> says that the image is well formed with that table: addresses are distinct sectors
  that have been taken, a file has a sector exactly for the positions of \<open>N\<close>, and what has not been taken is zero.
\<close>

lemma xshort_id [simp]: "xshort x = x"
proof -
  have "xshort x = get16 (put16 [0, 0] 0 x) 0" by (simp add: xshort_def put16_def)
  then show ?thesis by simp
qed

lemma xint_id [simp]: "xint x = x"
proof -
  have "xint x = get32 (put32 [0, 0, 0, 0] 0 x) 0" by (simp add: xint_def put32_def numeral_2_eq_2 numeral_3_eq_3)
  then show ?thesis by simp
qed

lemma mkfs_consts: "nmeta = 59" "nblocks = 941" "nbitmap = 1" "ninodeblocks = 26" "nlog = 30"
  by (simp_all add: nmeta_def nblocks_def nbitmap_def ninodeblocks_def nlog_def FSSIZE_def NINODES_def LOGSIZE_def IPB_def BSIZE_def)

lemma mkfs_sb_fields: "mkfs_sb = \<lparr>sb_size = 1000, sb_nblocks = 941, sb_ninodes = 200, sb_nlog = 30, sb_logstart = 2, sb_inodestart = 32, sb_bmapstart = 58\<rparr>"
  by (simp add: mkfs_sb_def mkfs_consts FSSIZE_def NINODES_def)

subsection \<open>Inodes of the image\<close>

text \<open>The number of inodes the inode blocks have room for, and the inode with a given number.\<close>

definition NI :: nat where "NI = ninodeblocks * IPB"

lemma NI_208: "NI = 208"
  by (simp add: NI_def mkfs_consts IPB_def BSIZE_def)

definition sec :: "img \<Rightarrow> u32 \<Rightarrow> block" where
  "sec s a = (case sectors s a of Some d \<Rightarrow> d | None \<Rightarrow> [])"

definition ib :: "nat \<Rightarrow> u32" where
  "ib i = word_of_nat (32 + i div 8)"

definition dino :: "img \<Rightarrow> nat \<Rightarrow> dinode" where
  "dino s i = dinode_of (sec s (ib i)) (64 * (i mod 8))"

lemma ib_unat: "i < NI \<Longrightarrow> unat (ib i) = 32 + i div 8"
  unfolding ib_def by (rule unat_of_small) (auto simp: NI_208)

lemma IBLOCK_ib:
  assumes "i < NI"
  shows "IBLOCK (word_of_nat i) mkfs_sb = ib i" "ioff (word_of_nat i) = 64 * (i mod 8)"
proof -
  have u: "unat (word_of_nat i :: u32) = i" using assms by (simp add: unat_of_nat NI_208)
  have "unat (word_of_nat i div word_of_nat IPB :: u32) = i div 8" by (simp only: unat_div_distrib u) (simp add: IPB_def BSIZE_def)
  moreover have "unat (word_of_nat (i div 8) :: u32) = i div 8" using assms by (intro unat_of_small) (simp add: NI_208)
  ultimately have "(word_of_nat i div word_of_nat IPB :: u32) = word_of_nat (i div 8)" unfolding word_unat_eq_iff by simp
  then show "IBLOCK (word_of_nat i) mkfs_sb = ib i" by (simp add: IBLOCK_def mkfs_sb_fields ib_def)
  show "ioff (word_of_nat i) = 64 * (i mod 8)" unfolding ioff_def u by (simp add: IPB_def BSIZE_def)
qed

subsection \<open>Well-formed images\<close>

definition ia :: "(nat \<Rightarrow> dinode) \<Rightarrow> img \<Rightarrow> nat \<Rightarrow> nat \<Rightarrow> u32" where
  "ia D s i k =
     (let a = d_addrs (D i) in
      if k < NDIRECT then a ! k
      else if k = MAXFILE then a ! NDIRECT
      else if a ! NDIRECT = 0 then 0
      else get32 (sec s (a ! NDIRECT)) (4 * (k - NDIRECT)))"

text \<open>The position \<open>k\<close> of a file of \<open>n\<close> bytes needs a sector; \<open>MAXFILE\<close> stands for the indirect block.\<close>

definition needs :: "nat \<Rightarrow> nat \<Rightarrow> bool" where
  "needs n k \<longleftrightarrow> (if k = MAXFILE then NDIRECT * BSIZE < n else k * BSIZE < n)"

text \<open>The sectors in use: \<open>N i k\<close> says whether position \<open>k\<close> of inode \<open>i\<close> has one.\<close>

definition owned :: "(nat \<Rightarrow> nat \<Rightarrow> bool) \<Rightarrow> (nat \<Rightarrow> dinode) \<Rightarrow> img \<Rightarrow> bool" where
  "owned N D s \<longleftrightarrow> isb s = mkfs_sb \<and> (\<forall>b. unat b < FSSIZE \<longrightarrow> (\<exists>d. sectors s b = Some d \<and> length d = BSIZE)) \<and>
     nmeta \<le> unat (freeblock s) \<and> unat (freeblock s) \<le> FSSIZE \<and>
     (\<forall>b. unat (freeblock s) \<le> unat b \<and> unat b < FSSIZE \<longrightarrow> sec s b = replicate BSIZE 0) \<and>
     (\<forall>i < NI. length (d_addrs (D i)) = NDIRECT + 1) \<and>
     (\<forall>i < NI. \<forall>k \<le> MAXFILE. (ia D s i k \<noteq> 0 \<longleftrightarrow> N i k) \<and>
        (ia D s i k \<noteq> 0 \<longrightarrow> nmeta \<le> unat (ia D s i k) \<and> unat (ia D s i k) < unat (freeblock s))) \<and>
     (\<forall>i < NI. \<forall>k \<le> MAXFILE. \<forall>j < NI. \<forall>l \<le> MAXFILE. ia D s i k = ia D s j l \<and> ia D s i k \<noteq> 0 \<longrightarrow> i = j \<and> k = l)"

lemma ownedD:
  assumes "owned N D s"
  shows "isb s = mkfs_sb" "unat b < FSSIZE \<Longrightarrow> sectors s b = Some (sec s b)" "unat b < FSSIZE \<Longrightarrow> length (sec s b) = BSIZE"
    "59 \<le> unat (freeblock s)" "unat (freeblock s) \<le> FSSIZE"
    "unat (freeblock s) \<le> unat b \<Longrightarrow> unat b < FSSIZE \<Longrightarrow> sec s b = replicate BSIZE 0"
    "i < NI \<Longrightarrow> length (d_addrs (D i)) = NDIRECT + 1"
    "i < NI \<Longrightarrow> k \<le> MAXFILE \<Longrightarrow> ia D s i k \<noteq> 0 \<longleftrightarrow> N i k"
    "i < NI \<Longrightarrow> k \<le> MAXFILE \<Longrightarrow> N i k \<Longrightarrow> 59 \<le> unat (ia D s i k)" "i < NI \<Longrightarrow> k \<le> MAXFILE \<Longrightarrow> N i k \<Longrightarrow> unat (ia D s i k) < unat (freeblock s)"
    "i < NI \<Longrightarrow> k \<le> MAXFILE \<Longrightarrow> j < NI \<Longrightarrow> l \<le> MAXFILE \<Longrightarrow> ia D s i k = ia D s j l \<Longrightarrow> N i k \<Longrightarrow> i = j \<and> k = l"
proof -
  have e: "\<exists>d. sectors s b = Some d \<and> length d = BSIZE" if "unat b < FSSIZE" for b using assms that by (simp add: owned_def)
  show "unat b < FSSIZE \<Longrightarrow> sectors s b = Some (sec s b)" "unat b < FSSIZE \<Longrightarrow> length (sec s b) = BSIZE"
    using e [of b] by (auto simp: sec_def)
  show "i < NI \<Longrightarrow> k \<le> MAXFILE \<Longrightarrow> j < NI \<Longrightarrow> l \<le> MAXFILE \<Longrightarrow> ia D s i k = ia D s j l \<Longrightarrow> N i k \<Longrightarrow> i = j \<and> k = l"
    using assms unfolding owned_def by metis
qed (use assms in \<open>auto simp: owned_def mkfs_consts\<close>)

lemma ownedI:
  assumes "isb s = mkfs_sb" "\<And>b. unat b < FSSIZE \<Longrightarrow> \<exists>d. sectors s b = Some d \<and> length d = BSIZE"
    "nmeta \<le> unat (freeblock s)" "unat (freeblock s) \<le> FSSIZE"
    "\<And>b. unat (freeblock s) \<le> unat b \<Longrightarrow> unat b < FSSIZE \<Longrightarrow> sec s b = replicate BSIZE 0"
    "\<And>i. i < NI \<Longrightarrow> length (d_addrs (D i)) = NDIRECT + 1"
    "\<And>i k. i < NI \<Longrightarrow> k \<le> MAXFILE \<Longrightarrow> ia D s i k \<noteq> 0 \<longleftrightarrow> N i k"
    "\<And>i k. i < NI \<Longrightarrow> k \<le> MAXFILE \<Longrightarrow> ia D s i k \<noteq> 0 \<Longrightarrow> nmeta \<le> unat (ia D s i k) \<and> unat (ia D s i k) < unat (freeblock s)"
    "\<And>i k j l. i < NI \<Longrightarrow> k \<le> MAXFILE \<Longrightarrow> j < NI \<Longrightarrow> l \<le> MAXFILE \<Longrightarrow> ia D s i k = ia D s j l \<Longrightarrow> ia D s i k \<noteq> 0 \<Longrightarrow> i = j \<and> k = l"
  shows "owned N D s"
  unfolding owned_def using assms by blast

lemma sec_wsect [simp]: "sec (wsect a d s) b = (if b = a then d else sec s b)"
  by (simp add: sec_def wsect_def)

lemma sec_fields [simp]: "sec (s\<lparr>freeblock := b\<rparr>) = sec s" "sec (s\<lparr>freeinode := i\<rparr>) = sec s"
  by (simp_all add: sec_def fun_eq_iff)

lemma wsect_fields [simp]: "isb (wsect a d s) = isb s" "freeinode (wsect a d s) = freeinode s" "freeblock (wsect a d s) = freeblock s"
  "sectors (wsect a d s) = (sectors s)(a \<mapsto> d)"
  by (simp_all add: wsect_def)

lemma rsect_ok: "owned N D s \<Longrightarrow> unat b < FSSIZE \<Longrightarrow> rsect b s = Ret (sec s b) s"
  using ownedD(2) [of N D s b] by (simp add: rsect_def)

lemma NDIRECT_LE: "NDIRECT < MAXFILE" "NDIRECT + NINDIRECT = MAXFILE" "NINDIRECT = 128" "NDIRECT = 12" "MAXFILE = 140"
  by (simp_all add: MAXFILE_def NINDIRECT_def BSIZE_def NDIRECT_def)

text \<open>The next free sector becomes position \<open>k\<close> of inode \<open>i\<close>.\<close>

lemma take_next:
  assumes o: "owned N D s" and i: "i < NI" "k \<le> MAXFILE" "\<not> N i k" and fb: "unat (freeblock s) < FSSIZE"
    and s': "isb s' = mkfs_sb" "freeblock s' = freeblock s + 1" "\<And>b. unat b < FSSIZE \<Longrightarrow> \<exists>d. sectors s' b = Some d \<and> length d = BSIZE"
      "\<And>b. unat (freeblock s) \<le> unat b \<Longrightarrow> sec s' b = sec s b" "\<And>j. j < NI \<Longrightarrow> length (d_addrs (D' j)) = NDIRECT + 1"
    and a: "\<And>j l. j < NI \<Longrightarrow> l \<le> MAXFILE \<Longrightarrow> ia D' s' j l = (if j = i \<and> l = k then freeblock s else ia D s j l)"
  shows "owned (N(i := (N i)(k := True))) D' s'"
proof -
  let ?N = "N(i := (N i)(k := True))" and ?b = "freeblock s"
  have b: "unat (?b + 1) = unat ?b + 1" using fb by (simp add: unat_word_ariths FSSIZE_def)
  have nz: "?b \<noteq> 0" "59 \<le> unat ?b" using ownedD(4) [OF o] by auto
  have other: "ia D s j l \<noteq> ?b" if "j < NI" "l \<le> MAXFILE" for j l
    using ownedD(8,10) [OF o that] nz(1) by (cases "N j l") auto
  show ?thesis
  proof (rule ownedI)
    show "nmeta \<le> unat (freeblock s')" "unat (freeblock s') \<le> FSSIZE" using s'(2) b fb nz(2) by (simp_all add: mkfs_consts)
    show "ia D' s' j l \<noteq> 0 \<longleftrightarrow> ?N j l" if "j < NI" "l \<le> MAXFILE" for j l
    using a [OF that] ownedD(8) [OF o that] nz(1) by auto
    show "nmeta \<le> unat (ia D' s' j l) \<and> unat (ia D' s' j l) < unat (freeblock s')" if "j < NI" "l \<le> MAXFILE" "ia D' s' j l \<noteq> 0" for j l
    using a [OF that(1,2)] ownedD(8,9,10) [OF o that(1,2)] that(3) nz(2) b s'(2) by (auto simp: mkfs_consts)
    show "j = j' \<and> l = l'" if "j < NI" "l \<le> MAXFILE" "j' < NI" "l' \<le> MAXFILE" "ia D' s' j l = ia D' s' j' l'" "ia D' s' j l \<noteq> 0" for j l j' l'
    using that(5,6) a [OF that(1,2)] a [OF that(3,4)] other [OF that(1,2)] other [OF that(3,4)] ownedD(8) [OF o that(1,2)] ownedD(11) [OF o that(1-4)]
    by (auto split: if_splits)
    show "sec s' c = replicate BSIZE 0" if "unat (freeblock s') \<le> unat c" "unat c < FSSIZE" for c
    using that s'(2,4) b ownedD(6) [OF o, of c] by simp
  qed (use s' in auto)
qed

text \<open>The effect on the sectors of taking what position \<open>k\<close> of inode \<open>i\<close> needs.\<close>

lemma ia_pos: "p \<le> NDIRECT \<Longrightarrow> ia D s i (pos p) = d_addrs (D i) ! p"
  using NDIRECT_LE(1) by (auto simp: ia_def pos_def Let_def)

lemma addr_slot_ok:
  assumes o: "owned N D s" and i: "i < NI" "p \<le> NDIRECT" "D i = din" and fb: "\<not> N i (pos p) \<Longrightarrow> unat (freeblock s) < FSSIZE"
  obtains din' s' where "addr_slot din p s = (din', s')" "owned (N(i := (N i)(pos p := True))) (D(i := din')) s'"
    "\<exists>as. din' = din\<lparr>d_addrs := as\<rparr>" "sec s' = sec s" "freeinode s' = freeinode s"
    "unat (freeblock s') = unat (freeblock s) + (if N i (pos p) then 0 else 1)"
    "\<And>j l. j < NI \<Longrightarrow> l \<le> MAXFILE \<Longrightarrow> ia (D(i := din')) s' j l = (if j = i \<and> l = pos p \<and> \<not> N i (pos p) then freeblock s else ia D s j l)"
proof (cases "N i (pos p)")
  case True
  have le: "pos p \<le> MAXFILE" using i(2) NDIRECT_LE(1) by (simp add: pos_def)
  have "d_addrs din ! p \<noteq> 0" using ownedD(8) [OF o i(1) le] ia_pos [OF i(2), of D s i] True i(3) by simp
  then have c: "addr_slot din p s = (din, s)" by (simp add: addr_slot_def)
  have "N(i := (N i)(pos p := True)) = N" "D(i := din) = D" using True i(3) by (auto simp: fun_eq_iff)
  moreover have "\<exists>as. din = din\<lparr>d_addrs := as\<rparr>" by (rule exI [of _ "d_addrs din"]) simp
  ultimately show ?thesis using that [OF c] o True by simp
next
  case False
  let ?b = "freeblock s" and ?din = "din\<lparr>d_addrs := (d_addrs din)[p := freeblock s]\<rparr>"
  let ?s = "s\<lparr>freeblock := freeblock s + 1\<rparr>" and ?D = "D(i := din\<lparr>d_addrs := (d_addrs din)[p := freeblock s]\<rparr>)"
  have le: "pos p \<le> MAXFILE" using i(2) NDIRECT_LE(1) by (simp add: pos_def)
  have z: "d_addrs din ! p = 0" using ownedD(8) [OF o i(1) le] ia_pos [OF i(2), of D s i] False i(3) by simp
  have len: "length (d_addrs din) = NDIRECT + 1" using ownedD(7) [OF o i(1)] i(3) by simp
  have sec: "sec ?s = sec s" by (rule ext) (simp add: sec_def)
  have zero: "sec s ?b = replicate BSIZE 0" using ownedD(6) [OF o, of ?b] fb [OF False] by simp
  have a: "ia ?D ?s j l = (if j = i \<and> l = pos p then ?b else ia D s j l)" if "j < NI" "l \<le> MAXFILE" for j l
    using that i(2,3) z len zero fresh_entry [of "l - NDIRECT"] NDIRECT_LE(1,2)
    unfolding ia_def sec by (auto simp: Let_def pos_def nth_list_update)
  show ?thesis
  proof (rule that)
    show "addr_slot din p s = (?din, ?s)" using z by (simp add: addr_slot_def next_block_def)
    show "owned (N(i := (N i)(pos p := True))) ?D ?s"
      using ownedD(2,3,7) [OF o] len i(1)
      by (intro take_next [OF o i(1) le False fb [OF False] _ _ _ _ _ a]) (simp_all add: ownedD(1) [OF o] sec)
    show "\<exists>as. ?din = din\<lparr>d_addrs := as\<rparr>" by blast
    show "unat (freeblock ?s) = unat ?b + (if N i (pos p) then 0 else 1)" using fb [OF False] False by (simp add: unat_word_ariths FSSIZE_def)
    show "ia ?D ?s j l = (if j = i \<and> l = pos p \<and> \<not> N i (pos p) then ?b else ia D s j l)" if "j < NI" "l \<le> MAXFILE" for j l
      unfolding a [OF that] using False by simp
  qed (simp_all add: sec)
qed

text \<open>The entry of the indirect block of inode \<open>i\<close>.\<close>

lemma entry_ok:
  assumes o: "owned N D s" and i: "i < NI" "N i MAXFILE" and k: "NDIRECT \<le> k" "k < MAXFILE" and fb: "\<not> N i k \<Longrightarrow> unat (freeblock s) < FSSIZE"
  defines "ind \<equiv> ia D s i MAXFILE"
  obtains x s' where "andthen (rsect ind s) (\<lambda>indirect s.
            if get32 indirect (4 * (k - NDIRECT)) = 0 then
              case next_block s of (b, s) \<Rightarrow>
                let indirect = put32 indirect (4 * (k - NDIRECT)) (xint b);
                    s = wsect ind indirect s in
                Ret (din, xint (get32 indirect (4 * (k - NDIRECT)))) s
            else Ret (din, xint (get32 indirect (4 * (k - NDIRECT)))) s) = Ret (din, x) s'"
    "owned (N(i := (N i)(k := True))) D s'" "x = ia D s' i k" "freeinode s' = freeinode s"
    "unat (freeblock s') = unat (freeblock s) + (if N i k then 0 else 1)"
    "\<And>j l. j < NI \<Longrightarrow> l \<le> MAXFILE \<Longrightarrow> ia D s' j l = (if j = i \<and> l = k \<and> \<not> N i k then freeblock s else ia D s j l)"
    "\<And>c. c \<noteq> ind \<Longrightarrow> sec s' c = sec s c"
proof -
  have nz: "ind \<noteq> 0" "unat ind < unat (freeblock s)" using ownedD(8,10) [OF o i(1) order_refl] i(2) by (auto simp: ind_def)
  have lt: "unat ind < FSSIZE" using nz(2) ownedD(5) [OF o] by simp
  have ad: "d_addrs (D i) ! NDIRECT = ind" using NDIRECT_LE(1) by (simp add: ind_def ia_def)
  have ek: "ia D s i k = get32 (sec s ind) (4 * (k - NDIRECT))" using k nz(1) ad by (simp add: ia_def)
  have off: "4 * (k - NDIRECT) + 3 < length (sec s ind)" using k ownedD(3) [OF o lt] by (simp add: NDIRECT_LE BSIZE_def)
  note rd = rsect_ok [OF o lt]
  show ?thesis
  proof (cases "N i k")
    case True
    then have nz': "get32 (sec s ind) (4 * (k - NDIRECT)) \<noteq> 0" using ownedD(8) [OF o i(1), of k] k(2) ek by simp
    have "N(i := (N i)(k := True)) = N" using True by (auto simp: fun_eq_iff)
    then show ?thesis using that [of "ia D s i k" s] o True rd nz' ek by simp
  next
    case False
    let ?b = "freeblock s" and ?d = "put32 (sec s ind) (4 * (k - NDIRECT)) (freeblock s)"
    let ?s = "wsect ind ?d (s\<lparr>freeblock := freeblock s + 1\<rparr>)"
    have z: "get32 (sec s ind) (4 * (k - NDIRECT)) = 0" using False ownedD(8) [OF o i(1), of k] k(2) ek by simp
    have sec: "sec ?s c = (if c = ind then ?d else sec s c)" for c by simp
    have a: "ia D ?s j l = (if j = i \<and> l = k then ?b else ia D s j l)" if j: "j < NI" "l \<le> MAXFILE" for j l
    proof (cases "l < NDIRECT \<or> l = MAXFILE \<or> d_addrs (D j) ! NDIRECT = 0")
      case True
      then show ?thesis using k ad nz(1) by (auto simp: ia_def Let_def)
    next
      case F: False
      show ?thesis
      proof (cases "j = i")
        case True
        have "4 * (l - NDIRECT) + 4 \<le> 4 * (k - NDIRECT) \<or> 4 * (k - NDIRECT) + 4 \<le> 4 * (l - NDIRECT)" if "l \<noteq> k" using that F k(1) by arith
        then show ?thesis using True F ad nz(1) off by (auto simp: ia_def Let_def sec)
      next
        case False
        have "ia D s j MAXFILE = d_addrs (D j) ! NDIRECT" using NDIRECT_LE(1) by (simp add: ia_def)
        then have "d_addrs (D j) ! NDIRECT \<noteq> ind"
          using ownedD(11) [OF o i(1) order_refl j(1) order_refl _ i(2)] False by (auto simp: ind_def)
        then show ?thesis using False F by (simp add: ia_def sec)
      qed
    qed
    have "owned (N(i := (N i)(k := True))) D ?s"
    proof (rule take_next [OF o i(1) _ False fb [OF False] _ _ _ _ _ a])
      show "\<exists>d. sectors ?s b = Some d \<and> length d = BSIZE" if "unat b < FSSIZE" for b
        using ownedD(2,3) [OF o that] ownedD(3) [OF o lt] by simp
      show "sec ?s b = sec s b" if "unat ?b \<le> unat b" for b using that nz(2) unfolding sec by auto
    qed (use k(2) ownedD(1,7) [OF o] in simp_all)
    moreover have "unat (?b + 1) = unat ?b + 1" using fb [OF False] by (simp add: unat_word_ariths FSSIZE_def)
    ultimately show ?thesis
      using rd z off a [OF i(1), of k] a k(2) False sec by (intro that [of ?b ?s]) (simp_all add: next_block_def)
  qed
qed

definition grown :: "(nat \<Rightarrow> nat \<Rightarrow> bool) \<Rightarrow> nat \<Rightarrow> nat \<Rightarrow> nat \<Rightarrow> nat \<Rightarrow> bool" where
  "grown N i k = (if k < NDIRECT then N(i := (N i)(k := True)) else N(i := (N i)(MAXFILE := True, k := True)))"

definition cost :: "(nat \<Rightarrow> nat \<Rightarrow> bool) \<Rightarrow> nat \<Rightarrow> nat \<Rightarrow> nat" where
  "cost N i k = (if N i k then 0 else 1) + (if NDIRECT \<le> k \<and> \<not> N i MAXFILE then 1 else 0)"

lemma owned_zero: "owned N D s \<Longrightarrow> i < NI \<Longrightarrow> NDIRECT \<le> k \<Longrightarrow> k < MAXFILE \<Longrightarrow> N i k \<Longrightarrow> N i MAXFILE"
  using ownedD(8) [of N D s i k] ownedD(8) [of N D s i MAXFILE] NDIRECT_LE(1) by (auto simp: ia_def Let_def)

lemma iappend_addr_ok:
  assumes o: "owned N D s" and i: "i < NI" "k < MAXFILE" "D i = din" and fb: "unat (freeblock s) + cost N i k \<le> FSSIZE"
  obtains din' s' where "iappend_addr din k s = Ret (din', ia (D(i := din')) s' i k) s'" "owned (grown N i k) (D(i := din')) s'"
    "\<exists>as. din' = din\<lparr>d_addrs := as\<rparr>" "freeinode s' = freeinode s" "unat (freeblock s') = unat (freeblock s) + cost N i k"
    "\<And>j l. j < NI \<Longrightarrow> l \<le> MAXFILE \<Longrightarrow> N j l \<Longrightarrow> ia (D(i := din')) s' j l = ia D s j l"
    "\<And>c. unat c < 59 \<Longrightarrow> sec s' c = sec s c" "\<And>j l. j < NI \<Longrightarrow> l < MAXFILE \<Longrightarrow> N j l \<Longrightarrow> sec s' (ia D s j l) = sec s (ia D s j l)"
    "\<not> N i k \<Longrightarrow> sec s' (ia (D(i := din')) s' i k) = replicate BSIZE 0"
proof (cases "k < NDIRECT")
  case True
  have p: "pos k = k" using True by (simp add: pos_def)
  have "\<not> N i (pos k) \<Longrightarrow> unat (freeblock s) < FSSIZE" using fb True p by (simp add: cost_def)
  then obtain din' s' where d: "addr_slot din k s = (din', s')" "owned (N(i := (N i)(pos k := True))) (D(i := din')) s'"
    "\<exists>as. din' = din\<lparr>d_addrs := as\<rparr>" "sec s' = sec s" "freeinode s' = freeinode s"
    "unat (freeblock s') = unat (freeblock s) + (if N i (pos k) then 0 else 1)"
    "\<And>j l. j < NI \<Longrightarrow> l \<le> MAXFILE \<Longrightarrow> ia (D(i := din')) s' j l = (if j = i \<and> l = pos k \<and> \<not> N i (pos k) then freeblock s else ia D s j l)"
    by (rule addr_slot_ok [OF o i(1) less_imp_le [OF True] i(3)]) (assumption, rule that)
  have "iappend_addr din k s = Ret (din', ia (D(i := din')) s' i k) s'" using True d(1) by (simp add: iappend_addr_def ia_def)
  moreover have "sec s' (ia (D(i := din')) s' i k) = replicate BSIZE 0" if "\<not> N i k"
    using that d(4) d(7) [OF i(1) less_imp_le [OF i(2)]] ownedD(6) [OF o order_refl] fb unfolding p by (simp add: cost_def)
  ultimately show ?thesis
    using d True unfolding p by (intro that [of din' s']) (auto simp: grown_def cost_def)
next
  case False
  have p: "pos NDIRECT = MAXFILE" by (simp add: pos_def)
  have "\<not> N i (pos NDIRECT) \<Longrightarrow> unat (freeblock s) < FSSIZE" using fb False p by (simp add: cost_def)
  then obtain din' u where d: "addr_slot din NDIRECT s = (din', u)" "owned (N(i := (N i)(pos NDIRECT := True))) (D(i := din')) u"
    "\<exists>as. din' = din\<lparr>d_addrs := as\<rparr>" "sec u = sec s" "freeinode u = freeinode s"
    "unat (freeblock u) = unat (freeblock s) + (if N i (pos NDIRECT) then 0 else 1)"
    "\<And>j l. j < NI \<Longrightarrow> l \<le> MAXFILE \<Longrightarrow> ia (D(i := din')) u j l = (if j = i \<and> l = pos NDIRECT \<and> \<not> N i (pos NDIRECT) then freeblock s else ia D s j l)"
    by (rule addr_slot_ok [OF o i(1) order_refl i(3)]) (assumption, rule that)
  let ?N = "N(i := (N i)(MAXFILE := True))" and ?D = "D(i := din')"
  have o2: "owned ?N ?D u" using d(2) p by simp
  have nk: "?N i k = N i k" using i(2) by simp
  have f2: "\<not> ?N i k \<Longrightarrow> unat (freeblock u) < FSSIZE" using fb d(6) False nk p by (auto simp: cost_def split: if_splits)
  have ind: "ia ?D u i MAXFILE = d_addrs din' ! NDIRECT" using NDIRECT_LE(1) by (simp add: ia_def)
  have kk: "NDIRECT \<le> k" "?N i MAXFILE" using False by simp_all
  show ?thesis
  proof (rule entry_ok [OF o2 i(1) kk(2,1) i(2) f2, where din = din'])
    fix x s'
    assume e: "andthen (rsect (ia ?D u i MAXFILE) u) (\<lambda>indirect s.
            if get32 indirect (4 * (k - NDIRECT)) = 0 then
              case next_block s of (b, s) \<Rightarrow>
                let indirect = put32 indirect (4 * (k - NDIRECT)) (xint b);
                    s = wsect (ia ?D u i MAXFILE) indirect s in
                Ret (din', xint (get32 indirect (4 * (k - NDIRECT)))) s
            else Ret (din', xint (get32 indirect (4 * (k - NDIRECT)))) s) = Ret (din', x) s'"
      "owned (?N(i := (?N i)(k := True))) ?D s'" "x = ia ?D s' i k" "freeinode s' = freeinode u"
      "unat (freeblock s') = unat (freeblock u) + (if ?N i k then 0 else 1)"
      "\<And>j l. j < NI \<Longrightarrow> l \<le> MAXFILE \<Longrightarrow> ia ?D s' j l = (if j = i \<and> l = k \<and> \<not> ?N i k then freeblock u else ia ?D u j l)"
      "\<And>c. c \<noteq> ia ?D u i MAXFILE \<Longrightarrow> sec s' c = sec u c"
    have same: "ia ?D u j l = ia D s j l" if "j < NI" "l \<le> MAXFILE" "N j l" for j l using d(7) [OF that(1,2)] that(3) unfolding p by auto
    show ?thesis
    proof (rule that)
      show "iappend_addr din k s = Ret (din', ia ?D s' i k) s'"
        unfolding iappend_addr_def using False d(1) e(1,3) unfolding ind xint_id by simp
      show "owned (grown N i k) ?D s'" using e(2) False by (simp add: grown_def)
      show "unat (freeblock s') = unat (freeblock s) + cost N i k" using e(5) d(6) nk kk(1) unfolding p by (simp add: cost_def)
      show "ia ?D s' j l = ia D s j l" if "j < NI" "l \<le> MAXFILE" "N j l" for j l using e(6) [OF that(1,2)] same [OF that] that(3) nk by auto
      show "sec s' c = sec s c" if "unat c < 59" for c
      proof -
        have "c \<noteq> ia ?D u i MAXFILE" using ownedD(9) [OF o2 i(1) order_refl kk(2)] that by auto
        then show ?thesis using e(7) d(4) by simp
      qed
      show "sec s' (ia D s j l) = sec s (ia D s j l)" if "j < NI" "l < MAXFILE" "N j l" for j l
      proof -
        have "?N j l" using that(3) by auto
        then have "ia D s j l \<noteq> ia ?D u i MAXFILE"
          using ownedD(11) [OF o2 that(1) less_imp_le [OF that(2)] i(1) order_refl] same [OF that(1) less_imp_le [OF that(2)] that(3)] that(2,3) by auto
        then show ?thesis using e(7) d(4) by simp
      qed
      show "sec s' (ia ?D s' i k) = replicate BSIZE 0" if n: "\<not> N i k"
      proof -
        have x: "ia ?D s' i k = freeblock u" using e(6) [OF i(1) less_imp_le [OF i(2)]] n nk by simp
        have "freeblock u \<noteq> ia ?D u i MAXFILE" using ownedD(10) [OF o2 i(1) order_refl kk(2)] by auto
        then show ?thesis unfolding x using e(7) ownedD(6) [OF o2 order_refl] f2 n nk by simp
      qed
    qed (use d(3,5) e(4) in simp_all)
  qed assumption
qed

end
