(* ===== verification/Mkfs_Files.thy ===== *)
theory Mkfs_Files
  imports Mkfs_Image
begin

text \<open>
  The files of an image: \<open>iappend\<close> extends one file by the bytes it is given and leaves the others alone, and
  the image \<open>mkfs\<close> makes has the layout the kernel expects.
\<close>

subsection \<open>Sectors by size\<close>

definition blocks :: "nat \<Rightarrow> nat" where
  "blocks n = (n + (BSIZE - 1)) div BSIZE + (if NDIRECT * BSIZE < n then 1 else 0)"

definition sizes :: "(nat \<Rightarrow> u8 list) \<Rightarrow> nat \<Rightarrow> nat \<Rightarrow> bool" where
  "sizes F i k = needs (length (F i)) k"

lemma sizes_append:
  assumes p: "p \<noteq> []" "length (F i) + length p \<le> (length (F i) div BSIZE + 1) * BSIZE" and M: "length (F i) div BSIZE < MAXFILE"
  shows "sizes (F(i := F i @ p)) = grown (sizes F) i (length (F i) div BSIZE)"
    "blocks (length (F i @ p)) = blocks (length (F i)) + cost (sizes F) i (length (F i) div BSIZE)"
proof -
  let ?off = "length (F i)"
  define m where m_eq: "m = length p"
  define f r where fr: "f = ?off div 512" "r = ?off mod 512"
  have off: "?off = 512 * f + r" "r < 512" by (simp_all add: fr)
  have m: "0 < m" using p(1) by (simp add: m_eq)
  have mr: "r + m \<le> 512" using p(2) off by (simp add: BSIZE_def flip: fr m_eq)
  have f: "?off div BSIZE = f" "f < 140" using M by (simp_all add: fr BSIZE_def NDIRECT_LE)
  have n: "needs (?off + m) k \<longleftrightarrow> needs ?off k \<or> k = f \<or> k = MAXFILE \<and> NDIRECT \<le> f" for k
    unfolding needs_def using off mr m f(2) by (auto simp: BSIZE_def NDIRECT_LE)
  show "sizes (F(i := F i @ p)) = grown (sizes F) i (?off div BSIZE)"
    unfolding f(1) by (intro ext) (auto simp: sizes_def grown_def n [unfolded m_eq])
  have a: "(?off + m + 511) div 512 = f + 1" using off mr m by (intro div_nat_eqI) auto
  have b: "(?off + 511) div 512 = f + (if r = 0 then 0 else 1)" using off by (intro div_nat_eqI) auto
  have c: "needs ?off f \<longleftrightarrow> r \<noteq> 0" "needs ?off MAXFILE \<longleftrightarrow> 6144 < ?off" using off f(2) by (simp_all add: needs_def BSIZE_def NDIRECT_LE)
  have d: "6144 < ?off + m \<longleftrightarrow> 12 \<le> f" using off mr m by linarith
  show "blocks (length (F i @ p)) = blocks ?off + cost (sizes F) i (?off div BSIZE)"
    unfolding f(1) blocks_def cost_def sizes_def length_append m_eq [symmetric] using a b c d off by (auto simp: BSIZE_def NDIRECT_LE)
qed

lemma blocks_mono: "m \<le> n \<Longrightarrow> blocks m \<le> blocks n"
  using div_le_mono [of "m + (BSIZE - 1)" "n + (BSIZE - 1)" BSIZE] by (auto simp: blocks_def)

subsection \<open>The files of an image\<close>

definition ibyte :: "(nat \<Rightarrow> dinode) \<Rightarrow> img \<Rightarrow> nat \<Rightarrow> nat \<Rightarrow> u8" where
  "ibyte D s i q = sec s (ia D s i (q div BSIZE)) ! (q mod BSIZE)"

text \<open>The image \<open>s\<close> with the inodes \<open>D\<close> holds the files \<open>F\<close>, in exactly the sectors they need, with zeros after
  the end of a file.\<close>

definition pad :: "u8 list \<Rightarrow> nat \<Rightarrow> u8" where
  "pad d q = (if q < length d then d ! q else 0)"

definition used :: "(nat \<Rightarrow> u8 list) \<Rightarrow> nat" where
  "used F = nmeta + (\<Sum>i<NI. blocks (length (F i)))"

definition holds_files :: "(nat \<Rightarrow> u8 list) \<Rightarrow> (nat \<Rightarrow> dinode) \<Rightarrow> img \<Rightarrow> bool" where
  "holds_files F D s \<longleftrightarrow> owned (sizes F) D s \<and> (\<forall>i < NI. length (F i) \<le> MAXFILE * BSIZE) \<and>
     (\<forall>i < NI. \<forall>q. q div BSIZE < MAXFILE \<and> sizes F i (q div BSIZE) \<longrightarrow> ibyte D s i q = pad (F i) q) \<and> unat (freeblock s) = used F"

lemma sizes_byte: "q < length (F j) \<Longrightarrow> length (F j) \<le> MAXFILE * BSIZE \<Longrightarrow> sizes F j (q div BSIZE) \<and> q div BSIZE < MAXFILE"
proof -
  assume q: "q < length (F j)" "length (F j) \<le> MAXFILE * BSIZE"
  have "q div BSIZE < MAXFILE" using q by (intro less_mult_imp_div_less) simp
  moreover have "q div BSIZE * BSIZE < length (F j)" using q(1) by (rule le_less_trans [OF div_times_less_eq_dividend])
  ultimately show ?thesis using q(1) by (auto simp: sizes_def needs_def)
qed

lemma used_append:
  assumes "i < NI"
  shows "used (F(i := p)) + blocks (length (F i)) = used F + blocks (length p)"
proof -
  have s: "(\<Sum>j<NI. blocks (length (G j))) = blocks (length (G i)) + (\<Sum>j\<in>{..<NI} - {i}. blocks (length (G j)))" for G
    using assms by (intro sum.remove) auto
  have "(\<Sum>j\<in>{..<NI} - {i}. blocks (length ((F(i := p)) j))) = (\<Sum>j\<in>{..<NI} - {i}. blocks (length (F j)))"
    by (intro sum.cong) auto
  then show ?thesis unfolding used_def s [of F] s [of "F(i := p)"] by simp
qed

text \<open>Writing into a sector of inode \<open>i\<close> leaves every address as it is.\<close>

lemma write_owned:
  assumes o: "owned N D s" and i: "i < NI" "k < MAXFILE" "N i k" and d: "length d = BSIZE"
  shows "owned N D (wsect (ia D s i k) d s)" "j < NI \<Longrightarrow> l \<le> MAXFILE \<Longrightarrow> ia D (wsect (ia D s i k) d s) j l = ia D s j l"
proof -
  let ?x = "ia D s i k" and ?s = "wsect (ia D s i k) d s"
  note ad = ownedD(8,9,10) [OF o i(1) less_imp_le [OF i(2)]]
  have ind: "d_addrs (D j) ! NDIRECT \<noteq> ?x" if "j < NI" for j
  proof -
    have "ia D s j MAXFILE = d_addrs (D j) ! NDIRECT" using NDIRECT_LE(1) by (simp add: ia_def)
    then show ?thesis using ownedD(11) [OF o i(1) less_imp_le [OF i(2)] that order_refl _ i(3)] i(2) by auto
  qed
  have a: "ia D ?s j l = ia D s j l" if "j < NI" for j l
    unfolding ia_def [of D ?s] ia_def [of D s j l] Let_def using ind [OF that] by simp
  show "j < NI \<Longrightarrow> l \<le> MAXFILE \<Longrightarrow> ia D ?s j l = ia D s j l" by (rule a)
  show "owned N D ?s"
  proof (rule ownedI)
    show "\<exists>d. sectors ?s b = Some d \<and> length d = BSIZE" if "unat b < FSSIZE" for b using ownedD(2,3) [OF o that] d by auto
    show "sec ?s b = replicate BSIZE 0" if "unat (freeblock ?s) \<le> unat b" "unat b < FSSIZE" for b
      using that ad(3) i(3) ownedD(6) [OF o, of b] by auto
    show "j = j' \<and> l = l'" if "j < NI" "l \<le> MAXFILE" "j' < NI" "l' \<le> MAXFILE" "ia D ?s j l = ia D ?s j' l'" "ia D ?s j l \<noteq> 0" for j l j' l'
      using that ownedD(11) [OF o that(1-4)] ownedD(8) [OF o that(1,2)] unfolding a [OF that(1)] a [OF that(3)] by simp
    show "nmeta \<le> unat (ia D ?s j l) \<and> unat (ia D ?s j l) < unat (freeblock ?s)" if "j < NI" "l \<le> MAXFILE" "ia D ?s j l \<noteq> 0" for j l
      using that(3) ownedD(8,9,10) [OF o that(1,2)] unfolding a [OF that(1)] by (simp add: mkfs_consts)
  qed (use a ownedD(1,4,5,7,8) [OF o] in \<open>simp_all add: mkfs_consts\<close>)
qed

lemma splice_nth:
  assumes "length d = BSIZE" "q + length p \<le> BSIZE"
  shows "(take q d @ p @ drop (q + length p) d) ! m = (if m < q then d ! m else if m < q + length p then p ! (m - q) else d ! m)"
  using assms by (auto simp: nth_append)

text \<open>One round of the loop of \<open>iappend\<close>.\<close>

lemma append_round:
  assumes h: "holds_files F D s" and i: "i < NI" "D i = din" and p: "p \<noteq> []" "length (F i) + length p \<le> (length (F i) div BSIZE + 1) * BSIZE"
    and M: "length (F i) div BSIZE < MAXFILE" and fb: "used (F(i := F i @ p)) \<le> FSSIZE"
  defines "k \<equiv> length (F i) div BSIZE" and "q \<equiv> length (F i) - length (F i) div BSIZE * BSIZE"
  obtains din' x u buf s' where "iappend_addr din k s = Ret (din', x) u" "rsect x u = Ret buf u"
    "s' = wsect x (take q buf @ p @ drop (q + length p) buf) u" "holds_files (F(i := F i @ p)) (D(i := din')) s'"
    "\<exists>as. din' = din\<lparr>d_addrs := as\<rparr>" "freeinode s' = freeinode s" "\<And>c. unat c < 59 \<Longrightarrow> sec s' c = sec s c"
proof -
  let ?F = "F(i := F i @ p)"
  note sz = sizes_append [of p F i, OF p M, folded k_def]
  have o: "owned (sizes F) D s" and dat: "\<And>j r. j < NI \<Longrightarrow> r div BSIZE < MAXFILE \<Longrightarrow> sizes F j (r div BSIZE) \<Longrightarrow> ibyte D s j r = pad (F j) r"
    and fs: "unat (freeblock s) = used F" and le: "\<And>j. j < NI \<Longrightarrow> length (F j) \<le> MAXFILE * BSIZE"
    using h by (auto simp: holds_files_def)
  have us: "used ?F = used F + cost (sizes F) i k" using used_append [OF i(1), of F "F i @ p"] sz(2) by simp
  obtain din' u where d: "iappend_addr din k s = Ret (din', ia (D(i := din')) u i k) u" "owned (grown (sizes F) i k) (D(i := din')) u"
    "\<exists>as. din' = din\<lparr>d_addrs := as\<rparr>" "freeinode u = freeinode s" "unat (freeblock u) = unat (freeblock s) + cost (sizes F) i k"
    "\<And>j l. j < NI \<Longrightarrow> l \<le> MAXFILE \<Longrightarrow> sizes F j l \<Longrightarrow> ia (D(i := din')) u j l = ia D s j l"
    "\<And>c. unat c < 59 \<Longrightarrow> sec u c = sec s c" "\<And>j l. j < NI \<Longrightarrow> l < MAXFILE \<Longrightarrow> sizes F j l \<Longrightarrow> sec u (ia D s j l) = sec s (ia D s j l)"
    "\<not> sizes F i k \<Longrightarrow> sec u (ia (D(i := din')) u i k) = replicate BSIZE 0"
    by (rule iappend_addr_ok [OF o i(1) M [folded k_def] i(2) fb [unfolded us, folded fs]]) (rule that)
  let ?D = "D(i := din')"
  let ?x = "ia ?D u i k"
  let ?new = "take q (sec u ?x) @ p @ drop (q + length p) (sec u ?x)"
  let ?s = "wsect ?x ?new u"
  have ou: "owned (sizes ?F) ?D u" using d(2) sz(1) by simp
  have kM: "k < MAXFILE" "k \<le> MAXFILE" using M by (simp_all add: k_def)
  have nk: "sizes ?F i k" unfolding sz(1) by (simp add: grown_def)
  have x: "59 \<le> unat ?x" "unat ?x < FSSIZE" using ownedD(9,10) [OF ou i(1) kM(2) nk] ownedD(5) [OF ou] by simp_all
  have qm: "q = length (F i) mod BSIZE" "k * BSIZE + q = length (F i)" by (simp_all add: q_def k_def minus_div_mult_eq_mod)
  have q: "q + length p \<le> BSIZE" using p(2) qm(2) unfolding k_def [symmetric] by (simp add: add.commute)
  have ln: "length (sec u ?x) = BSIZE" "length ?new = BSIZE" using ownedD(3) [OF ou x(2)] q by auto
  note w = write_owned [OF ou i(1) kM(1) nk ln(2)]
  have M': "length (?F i) \<le> MAXFILE * BSIZE"
    using p(2) mult_le_mono1 [of "k + 1" MAXFILE BSIZE] kM(1) unfolding k_def [symmetric] by simp
  have bytes: "ibyte ?D ?s j r = pad (?F j) r" if j: "j < NI" and l: "r div BSIZE < MAXFILE" "sizes ?F j (r div BSIZE)" for j r
  proof -
    let ?l = "r div BSIZE"
    have eq: "ia ?D u j ?l = ?x \<longleftrightarrow> j = i \<and> ?l = k"
      using ownedD(11) [OF ou j less_imp_le [OF l(1)] i(1) kM(2) _ l(2)] by auto
    have b: "ibyte ?D ?s j r = (if j = i \<and> ?l = k then ?new else sec u (ia ?D u j ?l)) ! (r mod BSIZE)"
      unfolding ibyte_def w(2) [OF j less_imp_le [OF l(1)]] sec_wsect eq by simp
    have old: "sec u (ia ?D u j ?l) ! (r mod BSIZE) = pad (F j) r"
    proof (cases "sizes F j ?l")
      case True
      then show ?thesis
        using dat [OF j l(1)] unfolding ibyte_def d(6) [OF j less_imp_le [OF l(1)] True] d(8) [OF j l(1) True] by simp
    next
      case False
      then have jk: "j = i" "?l = k" using l unfolding sz(1) by (auto simp: grown_def split: if_splits)
      have "\<not> r < length (F i)" using sizes_byte [of r F i] le [OF i(1)] False jk by auto
      then show ?thesis unfolding jk using d(9) False jk by (simp add: pad_def BSIZE_def)
    qed
    show ?thesis
    proof (cases "j = i \<and> ?l = k")
      case True
      have rq: "r + q = length (F i) + r mod BSIZE" using div_mult_mod_eq [of r BSIZE] qm(2) True by simp
      have "r mod BSIZE - q = r - length (F i)" "r mod BSIZE < q \<longleftrightarrow> r < length (F i)" "r mod BSIZE < q + length p \<longleftrightarrow> r < length (F i) + length p"
        using rq by arith+
      then have "?new ! (r mod BSIZE) = pad (F i @ p) r"
        using old True unfolding splice_nth [OF ln(1) q, of "r mod BSIZE"] by (auto simp: pad_def nth_append)
      then show ?thesis using b True by simp
    next
      case False
      have "pad (?F j) r = pad (F j) r" if "j = i"
      proof -
        have "?l < k" using l False that unfolding sz(1) by (auto simp: grown_def sizes_def needs_def k_def div_less_iff_less_mult BSIZE_def split: if_splits)
        then have "r < length (F i)" unfolding k_def by (meson div_le_mono not_le)
        then show ?thesis using that by (simp add: pad_def nth_append)
      qed
      then show ?thesis using b old False by auto
    qed
  qed
  show ?thesis
  proof (rule that [OF d(1) rsect_ok [OF ou x(2)] refl _ d(3)])
    show "holds_files ?F ?D ?s"
      unfolding holds_files_def
    proof (intro conjI allI impI)
      show "length (?F j) \<le> MAXFILE * BSIZE" if "j < NI" for j using le [OF that] M' by simp
      show "unat (freeblock ?s) = used ?F" using us d(5) fs by simp
    qed (use w(1) bytes in blast)+
    show "sec ?s c = sec s c" if "unat c < 59" for c using that x(1) d(7) [OF that] by auto
  qed (simp add: d(4))
qed

lemma iappend_loop_ok:
  assumes "holds_files F D s" "i < NI" "D i = din" "length (F i) + length p \<le> MAXFILE * BSIZE" "used (F(i := F i @ p)) \<le> FSSIZE"
  shows "\<exists>din' s'. iappend_loop din (length (F i)) p s = Ret (din', length (F i) + length p) s' \<and>
    holds_files (F(i := F i @ p)) (D(i := din')) s' \<and> (\<exists>as. din' = din\<lparr>d_addrs := as\<rparr>) \<and> freeinode s' = freeinode s \<and>
    (\<forall>c. unat c < 59 \<longrightarrow> sec s' c = sec s c)"
  using assms
proof (induction "length p" arbitrary: p F D s din rule: less_induct)
  case less
  show ?case
  proof (cases "p = []")
    case True
    moreover have "\<exists>as. din = din\<lparr>d_addrs := as\<rparr>" by (rule exI [of _ "d_addrs din"]) simp
    moreover have "D(i := din) = D" "F(i := F i) = F" using less.prems(3) by auto
    ultimately show ?thesis using less.prems(1) by (simp add: iappend_loop.simps)
  next
    case False
    let ?k = "length (F i) div BSIZE"
    let ?n = "min (length p) ((?k + 1) * BSIZE - length (F i))"
    let ?p = "take ?n p" and ?r = "drop ?n p"
    have lt: "length (F i) < (?k + 1) * BSIZE" using dividend_less_div_times [of BSIZE "length (F i)"] by (simp add: BSIZE_def)
    have n: "0 < ?n" "?p \<noteq> []" "length ?p = ?n" "length (F i) + length ?p \<le> (?k + 1) * BSIZE" using False lt by auto
    have M: "?k < MAXFILE" using less.prems(4) False by (intro less_mult_imp_div_less) (simp add: less_le_trans [OF _ less.prems(4)])
    let ?F = "F(i := F i @ ?p)"
    have app: "F i @ ?p @ ?r = F i @ p" by simp
    have len: "length ?p + length ?r = length p" "?F i @ ?r = F i @ p" "?F(i := F i @ p) = F(i := F i @ p)" using n(3) by simp_all
    have "blocks (length (F i @ ?p)) \<le> blocks (length (F i @ p))" by (intro blocks_mono) simp
    then have fb: "used ?F \<le> FSSIZE"
      using used_append [OF less.prems(2), of F "F i @ ?p"] used_append [OF less.prems(2), of F "F i @ p"] less.prems(5) by simp
    obtain din' x u buf s' where a: "iappend_addr din ?k s = Ret (din', x) u" "rsect x u = Ret buf u"
      "s' = wsect x (take (length (F i) - ?k * BSIZE) buf @ ?p @ drop (length (F i) - ?k * BSIZE + length ?p) buf) u" "holds_files ?F (D(i := din')) s'"
      "\<exists>as. din' = din\<lparr>d_addrs := as\<rparr>" "freeinode s' = freeinode s" "\<And>c. unat c < 59 \<Longrightarrow> sec s' c = sec s c"
      by (rule append_round [OF less.prems(1-3) n(2,4) M fb]) (rule that)
    have "\<exists>din'' s''. iappend_loop din' (length (?F i)) ?r s' = Ret (din'', length (?F i) + length ?r) s'' \<and>
      holds_files (?F(i := ?F i @ ?r)) ((D(i := din'))(i := din'')) s'' \<and> (\<exists>as. din'' = din'\<lparr>d_addrs := as\<rparr>) \<and> freeinode s'' = freeinode s' \<and>
      (\<forall>c. unat c < 59 \<longrightarrow> sec s'' c = sec s' c)"
    proof (rule less.hyps [OF _ a(4) less.prems(2)])
      show "length ?r < length p" using n(1) by simp
      show "used (?F(i := ?F i @ ?r)) \<le> FSSIZE" unfolding len(2,3) by (rule less.prems(5))
    qed (use len(1) less.prems(4) in simp_all)
    then obtain din'' s'' where b: "iappend_loop din' (length (?F i)) ?r s' = Ret (din'', length (?F i) + length ?r) s''"
      "holds_files (F(i := F i @ p)) (D(i := din'')) s''" "\<exists>as. din'' = din'\<lparr>d_addrs := as\<rparr>" "freeinode s'' = freeinode s'"
      "\<forall>c. unat c < 59 \<longrightarrow> sec s'' c = sec s' c" unfolding len(2,3) fun_upd_upd by blast
    have "iappend_loop din (length (F i)) p s = iappend_loop din' (length (F i) + ?n) ?r s'"
      using False M a(1,2,3) n(3) by (simp add: iappend_loop.simps [of din] Let_def)
    then have "iappend_loop din (length (F i)) p s = Ret (din'', length (F i) + length p) s''" using b(1) len(1) n(3) by simp
    then show ?thesis using a(5,6,7) b(2-5) by auto
  qed
qed

end
