(* ===== verification/FS_Props.thy ===== *)
theory FS_Props
  imports FS_Inode File
begin

text \<open>
  The properties of the block allocator and of reading and writing files, with a small file system on
  which they are applied.
\<close>

subsection \<open>A file system\<close>

text \<open>A disk of 1000 blocks laid out as src/mkfs.c does it: log at 2, inodes at 32, free map at 58, data
  from 59.  Inode 7 in memory is a file of three bytes in block 59.\<close>

definition demo_map :: block where
  "demo_map = replicate 7 255 @ [15] @ replicate 504 0"

definition demo_inode :: inode where
  "demo_inode = \<lparr>i_dev = 1, i_inum = 7, i_ref = 1, i_lock = \<lparr>slocked = True, spid = 1\<rparr>, i_valid = True, i_type = T_FILE, i_major = 0,
     i_minor = 0, i_nlink = 1, i_size = 3, i_addrs = 59 # replicate NDIRECT 0\<rparr>"

definition demo_fs :: fs_st where
  "demo_fs = boot_cache \<lparr>disk = (\<lambda>no. if no = 58 then demo_map
         else if no = 32 then put_dinode (dinode_of_inode demo_inode) 448 (replicate BSIZE 0) else replicate BSIZE 65),
     disksize = 1000, dwrites = [], bufs = [], mru = [], curpid = 1, lstart = 2, lsize = 30, outstanding = 1, committing = False,
     ldev = 1, lh_n = 0, lh_block = replicate LOGSIZE 0,
     fsb = \<lparr>sb_size = 1000, sb_nblocks = 941, sb_ninodes = 200, sb_nlog = 30, sb_logstart = 2, sb_inodestart = 32, sb_bmapstart = 58\<rparr>,
     icache = [demo_inode], cwd = 0\<rparr>"

lemma demo_map_bits:
  "i < 60 \<Longrightarrow> \<not> bit_clear demo_map i" "60 \<le> i \<Longrightarrow> i < 4096 \<Longrightarrow> bit_clear demo_map i"
proof -
  have n: "demo_map ! j = (if j < 7 then 255 else if j = 7 then 15 else 0)" if "j < 512" for j
    using that by (auto simp: demo_map_def nth_append nth_Cons')
  have b255: "bit (255 :: u8) j" if "j < 8" for j :: nat
  proof -
    have e: "(255 :: u8) = mask 8" by (simp add: mask_eq_exp_minus_1)
    show ?thesis unfolding e bit_mask_iff using that by simp
  qed
  have b15: "bit (15 :: u8) j \<longleftrightarrow> j < 4" for j :: nat
  proof -
    have e: "(15 :: u8) = mask 4" by (simp add: mask_eq_exp_minus_1)
    show ?thesis unfolding e bit_mask_iff by auto
  qed
  define a r where ar: "a = i div 8" "r = i mod 8"
  have i: "i = 8 * a + r" "r < 8" by (simp_all add: ar)
  have c: "bit_clear demo_map i \<longleftrightarrow> \<not> bit (demo_map ! a) r" by (simp add: bit_clear_iff ar)
  show "\<not> bit_clear demo_map i" if "i < 60"
  proof -
    have "a < 7 \<or> a = 7 \<and> r < 4" using that i by linarith
    then show ?thesis unfolding c using n [of a] b255 [OF i(2)] b15 [of r] by fastforce
  qed
  show "bit_clear demo_map i" if "60 \<le> i" "i < 4096"
  proof -
    have "a = 7 \<and> \<not> r < 4 \<or> 7 < a \<and> a < 512" using that i by linarith
    then show ?thesis unfolding c using n [of a] b15 [of r] by fastforce
  qed
qed

lemma demo_fs_cache:
  "cache_inv demo_fs" "dirty demo_fs = {}" "held demo_fs = {}" "logged demo_fs = []"
  "view demo_fs = (\<lambda>no. if no = 58 then demo_map
         else if no = 32 then put_dinode (dinode_of_inode demo_inode) 448 (replicate BSIZE 0) else replicate BSIZE 65)"
proof -
  let ?s = "\<lparr>disk = (\<lambda>no. if no = 58 then demo_map
         else if no = 32 then put_dinode (dinode_of_inode demo_inode) 448 (replicate BSIZE 0) else replicate BSIZE 65),
     disksize = 1000, dwrites = [], bufs = [], mru = [], curpid = 1, lstart = 2, lsize = 30, outstanding = 1, committing = False,
     ldev = 1, lh_n = 0, lh_block = replicate LOGSIZE 0,
     fsb = \<lparr>sb_size = 1000, sb_nblocks = 941, sb_ninodes = 200, sb_nlog = 30, sb_logstart = 2, sb_inodestart = 32, sb_bmapstart = 58\<rparr>,
     icache = [demo_inode], cwd = 0\<rparr>"
  have l: "length (disk ?s no) = BSIZE" for no by (simp add: demo_map_def BSIZE_def)
  note b = boot_cache_inv [of ?s, OF l, folded demo_fs_def]
  show "cache_inv demo_fs" by (rule b(1))
  show "dirty demo_fs = {}" "held demo_fs = {}"
    "view demo_fs = (\<lambda>no. if no = 58 then demo_map
         else if no = 32 then put_dinode (dinode_of_inode demo_inode) 448 (replicate BSIZE 0) else replicate BSIZE 65)"
    using arg_cong [OF b(2), of adirty] arg_cong [OF b(2), of aheld] arg_cong [OF b(2), of aview] by (simp_all add: absc_fields)
  show "logged demo_fs = []" by (simp add: demo_fs_def boot_cache_eq logged_def)
qed

lemma demo_fs_fields:
  "fsb demo_fs = \<lparr>sb_size = 1000, sb_nblocks = 941, sb_ninodes = 200, sb_nlog = 30, sb_logstart = 2, sb_inodestart = 32, sb_bmapstart = 58\<rparr>"
  "disksize demo_fs = 1000" "icache demo_fs = [demo_inode]" "lh_n demo_fs = 0" "length (lh_block demo_fs) = LOGSIZE" "lsize demo_fs = 30"
  "outstanding demo_fs = 1" "inode_at demo_fs 0 = demo_inode" "bmb demo_fs = 58" "fs_size demo_fs = 1000" "data_start demo_fs = 59"
  by (simp_all add: demo_fs_def boot_cache_eq inode_at_def bmb_def fs_size_def data_start_def)

lemma demo_fs_allocated: "unat b < 1000 \<Longrightarrow> allocated demo_fs b \<longleftrightarrow> unat b < 60"
  using demo_map_bits [of "unat b"] by (cases "unat b < 60") (simp_all add: allocated_def demo_fs_fields demo_fs_cache)

lemma demo_fs_ok: "tx demo_fs" "geom demo_fs"
proof -
  show "tx demo_fs"
    by (simp add: tx_def demo_fs_cache demo_fs_fields LOGSIZE_def word_sle_eq)
  show "geom demo_fs"
    unfolding geom_def demo_fs_fields using demo_fs_allocated by (auto simp: BPB_def IPB_def BSIZE_def)
qed

lemma demo_adr: "k \<le> MAXFILE \<Longrightarrow> adr demo_fs 0 k = (if k = 0 then 59 else 0)"
  by (auto simp: adr_def demo_fs_fields demo_inode_def NDIRECT_def nth_Cons' Let_def)

lemma demo_fok: "fok 0 demo_fs"
proof -
  have "file_ok 0 demo_fs"
    unfolding file_ok_def Let_def demo_fs_fields
    using demo_adr demo_fs_allocated [of 59]
    by (auto simp: demo_inode_def NDIRECT_def MAXFILE_def BSIZE_def NINDIRECT_def split: if_splits)
  then show ?thesis using demo_fs_ok by (simp add: fok_def demo_fs_cache demo_fs_fields)
qed

lemma demo_free: "5 < card (free_blocks demo_fs)"
proof -
  have "{100, 101, 102, 103, 104, 105} \<subseteq> free_blocks demo_fs" using demo_fs_allocated by (auto simp: free_blocks_def demo_fs_fields)
  then have "card {100, 101, 102, 103, 104, 105 :: u32} \<le> card (free_blocks demo_fs)" by (intro card_mono) simp_all
  then show ?thesis by simp
qed

subsection \<open>The block allocator\<close>

lemma balloc_spec:
  assumes "tx s" "geom s" "held s = {}" "card (dirty s) + 4 \<le> LOGSIZE" "free_blocks s \<noteq> {}"
  shows "\<exists>b t. balloc 1 s = Ret b t \<and> b \<in> free_blocks s \<and> free_blocks t = free_blocks s - {b} \<and>
      view t b = replicate BSIZE 0 \<and> (\<forall>c. c \<noteq> b \<and> c \<noteq> bmb s \<longrightarrow> view t c = view s c) \<and> tx t \<and> geom t"
proof -
  have "card (insert (bmb s) (dirty s)) + 3 \<le> LOGSIZE" using assms(4) tx_finite [OF assms(1)] by (simp add: card_insert_if)
  from balloc_ok [OF assms(1,2,5) _ _ _ _ this] assms(3) obtain b t
    where t: "balloc 1 s = Ret b t" "b \<in> free_blocks s" "eff s (with_block s b) (insert b (insert (bmb s) (dirty s))) t" by auto
  note e = effD [OF t(3)] and f = eff_fs [OF t(3)]
  have b: "unat b < fs_size s" "b \<noteq> bmb s" using t(2) free_data [OF assms(2) t(2)] by (simp_all add: free_blocks_def)
  have vb: "view t (bmb s) = mark b (view s (bmb s))" using e(2) b(2) by (simp add: with_block_def)
  note al = mark_allocated [OF tx_view_length [OF assms(1)] assms(2) b(1) f(1) vb]
  have "geom t" by (rule geom_keep [OF assms(2) f(1) e(6)]) (simp add: al)
  moreover have "free_blocks t = free_blocks s - {b}" using al geom_fs [OF f(1)] by (auto simp: free_blocks_def)
  ultimately show ?thesis using t(1,2) e by (intro exI [of _ b] exI [of _ t]) (auto simp: with_block_def)
qed

lemma bfree_spec:
  assumes "tx s" "geom s" "held s = {}" "card (dirty s) + 4 \<le> LOGSIZE" "unat b < fs_size s"
  shows "if allocated s b
    then \<exists>t. bfree 1 b s = Ret () t \<and> free_blocks t = insert b (free_blocks s) \<and> (\<forall>c. c \<noteq> bmb s \<longrightarrow> view t c = view s c) \<and> tx t
    else \<exists>t. bfree 1 b s = Panic ''freeing free block'' t"
proof -
  have "card (insert (bmb s) (dirty s)) + 2 \<le> LOGSIZE" using assms(4) tx_finite [OF assms(1)] by (simp add: card_insert_if)
  from bfree_ok [OF assms(1,2,5) _ _ _ this] assms(3)
  have r: "if allocated s b
      then \<exists>u. bfree 1 b s = Ret () u \<and> eff s ((view s)(bmb s := unmark b (view s (bmb s)))) (insert (bmb s) (dirty s)) u
      else \<exists>u. bfree 1 b s = Panic ''freeing free block'' u" by simp
  show ?thesis
  proof (cases "allocated s b")
    case True
    then obtain t where t: "bfree 1 b s = Ret () t" "eff s ((view s)(bmb s := unmark b (view s (bmb s)))) (insert (bmb s) (dirty s)) t"
      using r by auto
    note e = effD [OF t(2)] and f = eff_fs [OF t(2)]
    have vb: "view t (bmb s) = unmark b (view s (bmb s))" using e(2) by simp
    note al = unmark_allocated [OF tx_view_length [OF assms(1)] assms(2,5) f(1) vb]
    have "free_blocks t = insert b (free_blocks s)" using al assms(5) geom_fs [OF f(1)] by (auto simp: free_blocks_def)
    then show ?thesis using t(1) e True by auto
  qed (use r in simp)
qed

text \<open>C7. Inside a transaction with room in the log, \<open>balloc\<close> returns a block that was free, marks exactly
  that block as allocated, fills it with zeros and changes no other block; when no block is free it
  panics.  \<open>bfree\<close> of an allocated block gives exactly that block back, and panics on a free block.\<close>

theorem block_allocator:
  assumes "tx s" "geom s" "held s = {}" "card (dirty s) + 4 \<le> LOGSIZE" "unat b0 < fs_size s"
  shows "(if free_blocks s \<noteq> {}
     then \<exists>b t. balloc 1 s = Ret b t \<and> b \<in> free_blocks s \<and> free_blocks t = free_blocks s - {b} \<and>
      view t b = replicate BSIZE 0 \<and> (\<forall>c. c \<noteq> b \<and> c \<noteq> bmb s \<longrightarrow> view t c = view s c) \<and> tx t \<and> geom t
     else \<exists>t. balloc 1 s = Panic ''balloc: out of blocks'' t) \<and>
    (if allocated s b0
     then \<exists>t. bfree 1 b0 s = Ret () t \<and> free_blocks t = insert b0 (free_blocks s) \<and> (\<forall>c. c \<noteq> bmb s \<longrightarrow> view t c = view s c) \<and> tx t
     else \<exists>t. bfree 1 b0 s = Panic ''freeing free block'' t)"
  using balloc_spec [OF assms(1-4)] balloc_full [OF assms(1,2)] bfree_spec [OF assms] assms(3) by simp

theorem block_allocator_witness:
  "tx demo_fs \<and> (\<exists>b t. balloc 1 demo_fs = Ret b t \<and> b \<in> free_blocks demo_fs \<and> view t b = replicate BSIZE 0) \<and>
   (\<exists>t. bfree 1 59 demo_fs = Ret () t \<and> free_blocks t = insert 59 (free_blocks demo_fs)) \<and> (\<exists>t. bfree 1 77 demo_fs = Panic ''freeing free block'' t)"
proof -
  have ne: "free_blocks demo_fs \<noteq> {}" using demo_free by fastforce
  note w = block_allocator [OF demo_fs_ok demo_fs_cache(3), unfolded demo_fs_cache(2) demo_fs_fields]
  have room: "card ({} :: u32 set) + 4 \<le> LOGSIZE" by (simp add: LOGSIZE_def)
  show ?thesis
    using w [of 59] w [of 77] room ne demo_fs_ok demo_fs_allocated [of 59] demo_fs_allocated [of 77] by auto
qed

subsection \<open>Files\<close>

lemma fstep_view:
  assumes f: "fstep ip K s t" "K \<subseteq> {..<MAXFILE}"
    and b: "b \<notin> free_blocks s" "b \<noteq> bmb s" "\<And>k. k \<le> MAXFILE \<Longrightarrow> adr s ip k \<noteq> 0 \<Longrightarrow> adr s ip k \<noteq> b"
  shows "view t b = view s b"
proof -
  have "k \<le> MAXFILE" if "k \<in> insert MAXFILE K" for k using that f(2) by auto
  then have "b \<notin> ablks s ip K" using b(3) by (auto simp: ablks_def)
  then show ?thesis using fstepD(6) [OF f(1) b(1,2)] by blast
qed

lemma writei_spec:
  assumes s: "fok ip s" "i_type (inode_at s ip) \<noteq> T_DEV" and off: "off \<le> i_size (inode_at s ip)" "unat off + unat n \<le> MAXFILE * BSIZE"
    and n: "unat n \<le> max_write" "length src = unat n" and room: "card (dirty s) + MAXOPBLOCKS \<le> LOGSIZE" "5 < card (free_blocks s)"
  obtains t where "writei dt ip src off n s = Ret n t" "fok ip t" "fdata t ip = overwrite (unat off) src (fdata s ip)"
    "i_size (inode_at t ip) = max (i_size (inode_at s ip)) (off + n)" "\<And>jp. jp \<noteq> ip \<Longrightarrow> inode_at t jp = inode_at s jp"
    "card (dirty t) \<le> card (dirty s) + 7" "synced ip s \<Longrightarrow> synced ip t"
    "\<And>b. b \<notin> free_blocks s \<Longrightarrow> b \<noteq> bmb s \<Longrightarrow> b \<noteq> iblk s ip \<Longrightarrow> (\<And>k. k \<le> MAXFILE \<Longrightarrow> adr s ip k \<noteq> 0 \<Longrightarrow> adr s ip k \<noteq> b) \<Longrightarrow>
       view t b = view s b"
    "\<exists>z as. inode_at t ip = (inode_at s ip)\<lparr>i_size := z, i_addrs := as\<rparr>" "length (icache t) = length (icache s)"
proof -
  let ?z = "i_size (inode_at s ip)" and ?K = "span (unat off) (unat n)"
  have n3: "unat n \<le> 3 * BSIZE" using n(1) by (simp add: max_write_def MAXOPBLOCKS_def BSIZE_def)
  obtain u where u: "fstep ip ?K s u" "written ip (unat off) src s u" "card (dirty u) \<le> card (dirty s) + 6"
    "writei dt ip src off n s = (if n > 0 \<and> off + n > ?z
       then andthen (iupdate ip (upd_inode ip (\<lambda>x. x\<lparr>i_size := off + n\<rparr>) u)) (\<lambda>_ s. Ret n s) else Ret n u)"
    by (rule writei_bytes [OF s off n3 n(2) room])
  note r = restD [OF fstepD(2) [OF u(1)] fokD(4) [OF s(1)]]
  have on: "unat (off + n) = unat off + unat n"
    using off(2) by (simp add: unat_word_ariths MAXFILE_def NDIRECT_def NINDIRECT_def BSIZE_def)
  have q: "unat off \<le> unat ?z" "unat off + length src \<le> MAXFILE * BSIZE" using off n(2) by (simp_all add: word_le_nat_alt)
  have sz: "i_size (inode_at u ip) = ?z" "i_inum (inode_at u ip) = i_inum (inode_at s ip)" by (subst r(5), simp)+
  have iu: "\<exists>z as. (inode_at u ip)\<lparr>i_size := y\<rparr> = (inode_at s ip)\<lparr>i_size := z, i_addrs := as\<rparr>" for y
    by (intro exI [of _ y] exI [of _ "i_addrs (inode_at u ip)"]) (subst r(5), simp)
  have iu': "\<exists>z as. inode_at u ip = (inode_at s ip)\<lparr>i_size := z, i_addrs := as\<rparr>" using iu [of "i_size (inode_at u ip)"] by simp
  note view = fstep_view [OF u(1) span_MAXFILE [OF off(2)]]
  note wc = written_contents [OF s(1) u(2) q u(1)]
  show ?thesis
  proof (cases "n > 0 \<and> off + n > ?z")
    case False
    have le: "unat off + unat n \<le> unat ?z" using False on q(1) by (auto simp: word_less_nat_alt not_less word_gt_0 unat_eq_0)
    have mx: "max ?z (off + n) = ?z" using le on by (intro max_absorb1) (simp add: word_le_nat_alt)
    note ng = no_growth [OF s(1) u(1) le]
    have "fdata u ip = overwrite (unat off) src (fdata s ip)" using sz(1) le n(2) by (intro wc) (simp_all add: max_def)
    then show ?thesis
      using u(3,4) False fstepD(1) [OF u(1)] mx sz r(4,6) ng(2) view iu' by (intro that [of u]) auto
  next
    case True
    then have gr: "unat ?z < unat off + unat n" using on by (simp add: word_less_nat_alt)
    have mx: "max ?z (off + n) = off + n" using True by (intro max_absorb2) (simp add: order_less_imp_le)
    have "adr u ip k \<noteq> 0" if "k < MAXFILE" "k * BSIZE < unat (off + n)" for k
      using written_mapped(3) [OF s(1) u(2) q u(1), of "k * BSIZE"] that(2) on n(2) by (simp add: BSIZE_def)
    moreover have "card (dirty u) + 4 \<le> LOGSIZE" using u(3) room(1) by (simp add: MAXOPBLOCKS_def)
    moreover have "unat (off + n) \<le> MAXFILE * BSIZE" using on off(2) by simp
    ultimately obtain t where t: "iupdate ip (upd_inode ip (\<lambda>x. x\<lparr>i_size := off + n\<rparr>) u) = Ret () t" "fok ip t" "adr t ip = adr u ip"
      "inode_at t = (inode_at u)(ip := (inode_at u ip)\<lparr>i_size := off + n\<rparr>)" "synced ip t" "\<And>b. b \<noteq> iblk u ip \<Longrightarrow> view t b = view u b"
      "card (dirty t) \<le> card (dirty u) + 1" "length (icache t) = length (icache u)"
      using growth [OF fstepD(1) [OF u(1)]] by metis
    have ib: "iblk u ip = iblk s ip" by (simp add: iblk_def sz(2) r(1))
    have "fdata t ip = overwrite (unat off) src (fdata s ip)"
      using t(3,4,6) gr on n(2) iblk_ok(4) [OF fstepD(1) [OF u(1)]] by (intro wc) (simp_all add: max_def)
    then show ?thesis
      using u(3,4) True t mx r(4,6) view ib iu [of "off + n"] by (intro that [of t]) auto
  qed
qed

text \<open>C6. \<open>writei\<close> of at most the number of bytes \<open>filewrite\<close> passes at once, at a position within the file
  and on a disk with free blocks, writes all of them: afterwards the file is its old contents
  overwritten, and extended where the write goes behind the end.  It needs no more than the
  \<open>MAXOPBLOCKS\<close> log blocks that \<open>begin_op\<close> has reserved, keeps the file well formed and the inode on disk
  equal to the one in memory, and leaves the contents of every other file alone.\<close>

theorem writei_correct:
  assumes "fok ip s" "i_type (inode_at s ip) \<noteq> T_DEV" "off \<le> i_size (inode_at s ip)" "unat off + unat n \<le> MAXFILE * BSIZE"
    "unat n \<le> max_write" "length src = unat n" "card (dirty s) + MAXOPBLOCKS \<le> LOGSIZE" "5 < card (free_blocks s)"
  shows "\<exists>t. writei dt ip src off n s = Ret n t \<and> fok ip t \<and> fdata t ip = overwrite (unat off) src (fdata s ip) \<and>
    i_size (inode_at t ip) = max (i_size (inode_at s ip)) (off + n) \<and> card (dirty t) \<le> card (dirty s) + MAXOPBLOCKS \<and>
    (synced ip s \<longrightarrow> synced ip t) \<and> (\<forall>jp. jp \<noteq> ip \<and> fok jp s \<and> apart ip jp s \<longrightarrow> fdata t jp = fdata s jp)"
proof (rule writei_spec [OF assms])
  fix t
  assume t: "writei dt ip src off n s = Ret n t" "fok ip t" "fdata t ip = overwrite (unat off) src (fdata s ip)"
    "i_size (inode_at t ip) = max (i_size (inode_at s ip)) (off + n)" "\<And>jp. jp \<noteq> ip \<Longrightarrow> inode_at t jp = inode_at s jp"
    "card (dirty t) \<le> card (dirty s) + 7" "synced ip s \<Longrightarrow> synced ip t"
    "\<And>b. b \<notin> free_blocks s \<Longrightarrow> b \<noteq> bmb s \<Longrightarrow> b \<noteq> iblk s ip \<Longrightarrow> (\<And>k. k \<le> MAXFILE \<Longrightarrow> adr s ip k \<noteq> 0 \<Longrightarrow> adr s ip k \<noteq> b) \<Longrightarrow>
       view t b = view s b"
    "\<exists>z as. inode_at t ip = (inode_at s ip)\<lparr>i_size := z, i_addrs := as\<rparr>" "length (icache t) = length (icache s)"
  have "fdata t jp = fdata s jp" if j: "jp \<noteq> ip" "fok jp s" "apart ip jp s" for jp
  proof (rule other_contents [OF j(2) t(5) [OF j(1)]])
    fix k assume k: "k \<le> MAXFILE" "adr s jp k \<noteq> 0"
    note fa = fok_adr [OF j(2) k]
    have "adr s jp k \<noteq> iblk s ip" using fa(1) iblk_ok(3) [OF assms(1)] by auto
    moreover have "adr s ip i \<noteq> adr s jp k" if "i \<le> MAXFILE" for i using j(3) k that by (auto simp: apart_def)
    ultimately show "view t (adr s jp k) = view s (adr s jp k)" using t(8) fa(5,6) by blast
  qed
  then show ?thesis using t(1-4,6,7) by (intro exI [of _ t]) (auto simp: MAXOPBLOCKS_def)
qed

lemma demo_data: "fdata demo_fs 0 = [65, 65, 65]"
  by (simp add: fdata_def fbyte_def demo_fs_fields demo_adr demo_fs_cache demo_inode_def BSIZE_def MAXFILE_def upt_rec)

lemma demo_synced: "synced 0 demo_fs"
proof -
  have i: "i_inum demo_inode = 7" "ioff 7 = 448" by (simp_all add: demo_inode_def ioff_def IPB_def BSIZE_def)
  have b: "iblk demo_fs 0 = 32" by (simp add: iblk_def demo_fs_fields i(1) IBLOCK_def IPB_def BSIZE_def)
  have "dinode_of (put_dinode (dinode_of_inode demo_inode) 448 (replicate BSIZE 0)) 448 = dinode_of_inode demo_inode"
    by (rule dinode_round_trip) (simp_all add: BSIZE_def dinode_of_inode_def demo_inode_def)
  then show ?thesis unfolding synced_def b demo_fs_fields i demo_fs_cache by simp
qed

theorem writei_correct_witness:
  "fok 0 demo_fs \<and> fdata demo_fs 0 = [65, 65, 65] \<and>
   (\<exists>t. writei (\<lambda>_. \<lparr>dev_read = None, dev_write = None\<rparr>) 0 [7, 8] 2 2 demo_fs = Ret 2 t \<and> fdata t 0 = [65, 65, 7, 8] \<and>
     i_size (inode_at t 0) = 4 \<and> synced 0 t)"
proof -
  have h: "i_type (inode_at demo_fs 0) \<noteq> T_DEV" "2 \<le> i_size (inode_at demo_fs 0)" "unat (2 :: u32) + unat (2 :: u32) \<le> MAXFILE * BSIZE"
    "unat (2 :: u32) \<le> max_write" "length [7 :: u8, 8] = unat (2 :: u32)" "card (dirty demo_fs) + MAXOPBLOCKS \<le> LOGSIZE"
    by (simp_all add: demo_fs_fields demo_inode_def T_DEV_def T_FILE_def MAXFILE_def BSIZE_def max_write_def MAXOPBLOCKS_def
        demo_fs_cache LOGSIZE_def NDIRECT_def NINDIRECT_def)
  have z: "i_size (inode_at demo_fs 0) = 3" by (simp add: demo_fs_fields demo_inode_def)
  show ?thesis
    using writei_correct [OF demo_fok h demo_free, of "\<lambda>_. \<lparr>dev_read = None, dev_write = None\<rparr>"] demo_fok demo_data demo_synced z
    by (auto simp: overwrite_def)
qed

text \<open>C28. \<open>readi\<close> on a file returns the bytes of its contents from the given position on, as many as were
  asked for and the file has, and changes neither a block nor an inode.\<close>

theorem readi_correct:
  assumes "fok ip s" "i_type (inode_at s ip) \<noteq> T_DEV" "off \<le> i_size (inode_at s ip)" "unat off + unat n < 2 ^ 32"
  shows "\<exists>t. readi dt ip off n s = Ret (min n (i_size (inode_at s ip) - off), take (unat n) (drop (unat off) (fdata s ip))) t \<and>
    fok ip t \<and> view t = view s \<and> dirty t = dirty s \<and> icache t = icache s"
proof -
  obtain t where t: "readi dt ip off n s = Ret (min n (i_size (inode_at s ip) - off), take (unat n) (drop (unat off) (fdata s ip))) t"
    "eff s (view s) (dirty s) t" using readi_ok [OF assms] by blast
  then show ?thesis using effD(2,3) [OF t(2)] eff_fs(2) [OF t(2)] eff_same(1) [OF t(2) assms(1)] by auto
qed

theorem readi_correct_witness:
  "fok 0 demo_fs \<and> (\<exists>t. readi (\<lambda>_. \<lparr>dev_read = None, dev_write = None\<rparr>) 0 1 100 demo_fs = Ret (2, [65, 65]) t \<and> view t = view demo_fs)"
proof -
  have h: "i_type (inode_at demo_fs 0) \<noteq> T_DEV" "1 \<le> i_size (inode_at demo_fs 0)" "unat (1 :: u32) + unat (100 :: u32) < 2 ^ 32"
    by (simp_all add: demo_fs_fields demo_inode_def T_DEV_def T_FILE_def)
  have z: "i_size (inode_at demo_fs 0) = 3" by (simp add: demo_fs_fields demo_inode_def)
  show ?thesis using readi_correct [OF demo_fok h, of "\<lambda>_. \<lparr>dev_read = None, dev_write = None\<rparr>"] demo_fok demo_data z by auto
qed

end
