(* ===== verification/FS_Icache.thy ===== *)
theory FS_Icache
  imports FS_Props
begin

text \<open>
  The table of inodes in memory: a slot is in use while its reference count is positive, and no inode
  of the disk is in two slots.  \<open>iget\<close> and \<open>idup\<close> keep that; \<open>ilock\<close> loads the inode from its block.
\<close>

definition live :: "inode \<Rightarrow> bool" where
  "live x \<longleftrightarrow> 0 <s i_ref x"

definition icache_ok :: "'a fs_st_scheme \<Rightarrow> bool" where
  "icache_ok s \<longleftrightarrow> (\<forall>x \<in> set (icache s). 0 \<le>s i_ref x) \<and>
     (\<forall>i < length (icache s). \<forall>j < length (icache s). live (inode_at s i) \<and> live (inode_at s j) \<and>
        i_dev (inode_at s i) = i_dev (inode_at s j) \<and> i_inum (inode_at s i) = i_inum (inode_at s j) \<longrightarrow> i = j)"

text \<open>The slot of an inode of the disk, if it has one.\<close>

definition slot_of :: "u32 \<Rightarrow> u32 \<Rightarrow> 'a fs_st_scheme \<Rightarrow> nat option" where
  "slot_of dev inum s = scan (\<lambda>x. 0 <s i_ref x \<and> i_dev x = dev \<and> i_inum x = inum) (icache s)"

lemma icache_okD:
  assumes "icache_ok s"
  shows "i < length (icache s) \<Longrightarrow> 0 \<le>s i_ref (inode_at s i)"
    "i < length (icache s) \<Longrightarrow> j < length (icache s) \<Longrightarrow> live (inode_at s i) \<Longrightarrow> live (inode_at s j) \<Longrightarrow>
       i_dev (inode_at s i) = i_dev (inode_at s j) \<Longrightarrow> i_inum (inode_at s i) = i_inum (inode_at s j) \<Longrightarrow> i = j"
  using assms by (auto simp: icache_ok_def inode_at_def)

lemma slot_of_Some:
  assumes "icache_ok s"
  shows "slot_of dev inum s = Some i \<longleftrightarrow> i < length (icache s) \<and> live (inode_at s i) \<and> i_dev (inode_at s i) = dev \<and> i_inum (inode_at s i) = inum"
proof
  assume r: "i < length (icache s) \<and> live (inode_at s i) \<and> i_dev (inode_at s i) = dev \<and> i_inum (inode_at s i) = inum"
  have "\<not> (0 <s i_ref (icache s ! j) \<and> i_dev (icache s ! j) = dev \<and> i_inum (icache s ! j) = inum)" if "j < i" for j
    using icache_okD(2) [OF assms, of i j] r that by (auto simp: live_def inode_at_def)
  then show "slot_of dev inum s = Some i" using r by (simp add: slot_of_def scan_Some_iff live_def inode_at_def)
qed (auto simp: slot_of_def scan_Some_iff live_def inode_at_def)

lemma slot_of_None: "slot_of dev inum s = None \<longleftrightarrow> (\<forall>i < length (icache s). \<not> (live (inode_at s i) \<and> i_dev (inode_at s i) = dev \<and> i_inum (inode_at s i) = inum))"
  by (auto simp: slot_of_def all_set_conv_all_nth live_def inode_at_def)

text \<open>One reference more.\<close>

lemma ref_up:
  assumes "0 \<le>s (r :: i32)" "r <s 2147483647"
  shows "0 <s r + 1" "0 \<le>s r + 1"
proof -
  have r: "0 \<le> sint r" "sint r < 2147483647" using assms by (simp_all add: word_sle_eq word_sless_alt)
  then have "sint (r + 1) = sint r + 1" by (simp add: sint_word_ariths signed_take_bit_int_eq_self)
  then show "0 <s r + 1" "0 \<le>s r + 1" using r by (simp_all add: word_sless_alt word_sle_eq)
qed

lemma icache_ok_upd:
  assumes ok: "icache_ok s" and i: "ip < length (icache s)" "0 \<le>s i_ref (f (inode_at s ip))"
    and own: "\<And>j. j < length (icache s) \<Longrightarrow> j \<noteq> ip \<Longrightarrow> live (inode_at s j) \<Longrightarrow> live (f (inode_at s ip)) \<Longrightarrow>
       \<not> (i_dev (inode_at s j) = i_dev (f (inode_at s ip)) \<and> i_inum (inode_at s j) = i_inum (f (inode_at s ip)))"
  shows "icache_ok (upd_inode ip f s)"
proof -
  have x: "inode_at (upd_inode ip f s) j = (if j = ip then f (inode_at s ip) else inode_at s j)" for j using i(1) by simp
  have "0 \<le>s i_ref y" if y: "y \<in> set (icache (upd_inode ip f s))" for y
  proof -
    obtain j where "j < length (icache s)" "y = inode_at (upd_inode ip f s) j" using y by (auto simp: in_set_conv_nth inode_at_def)
    then show ?thesis using icache_okD(1) [OF ok, of j] i(2) x [of j] by (simp split: if_splits)
  qed
  moreover have "a = b" if "a < length (icache s)" "b < length (icache s)"
    "live (inode_at (upd_inode ip f s) a)" "live (inode_at (upd_inode ip f s) b)"
    "i_dev (inode_at (upd_inode ip f s) a) = i_dev (inode_at (upd_inode ip f s) b)"
    "i_inum (inode_at (upd_inode ip f s) a) = i_inum (inode_at (upd_inode ip f s) b)" for a b
    using that own [of a] own [of b] icache_okD(2) [OF ok, of a b] unfolding x by (auto split: if_splits)
  ultimately show ?thesis unfolding icache_ok_def upd_inode_cache(8) by blast
qed

lemma iget_ok:
  assumes ok: "icache_ok s" and small: "\<forall>x \<in> set (icache s). i_ref x <s 2147483647"
  shows "case slot_of dev inum s of
      Some ip \<Rightarrow> iget dev inum s = Ret ip (upd_inode ip (\<lambda>x. x\<lparr>i_ref := i_ref x + 1\<rparr>) s) \<and>
        icache_ok (upd_inode ip (\<lambda>x. x\<lparr>i_ref := i_ref x + 1\<rparr>) s)
    | None \<Rightarrow> (case scan (\<lambda>x. i_ref x = 0) (icache s) of
        None \<Rightarrow> iget dev inum s = Panic ''iget: no inodes'' s
      | Some ip \<Rightarrow> iget dev inum s = Ret ip (upd_inode ip (\<lambda>x. x\<lparr>i_dev := dev, i_inum := inum, i_ref := 1, i_valid := False\<rparr>) s) \<and>
          icache_ok (upd_inode ip (\<lambda>x. x\<lparr>i_dev := dev, i_inum := inum, i_ref := 1, i_valid := False\<rparr>) s))"
proof (cases "slot_of dev inum s")
  case (Some ip)
  then have ip: "ip < length (icache s)" "live (inode_at s ip)" "i_dev (inode_at s ip) = dev" "i_inum (inode_at s ip) = inum"
    using slot_of_Some [OF ok] by auto
  have "i_ref (inode_at s ip) <s 2147483647" using small ip(1) by (simp add: inode_at_def)
  then have "0 \<le>s i_ref (inode_at s ip) + 1" using icache_okD(1) [OF ok ip(1)] ref_up(2) by blast
  then have "icache_ok (upd_inode ip (\<lambda>x. x\<lparr>i_ref := i_ref x + 1\<rparr>) s)"
    using icache_okD(2) [OF ok _ ip(1) _ ip(2)] by (intro icache_ok_upd [OF ok ip(1)]) auto
  then show ?thesis using Some by (simp add: iget_def slot_of_def)
next
  case None
  have "icache_ok (upd_inode ip (\<lambda>x. x\<lparr>i_dev := dev, i_inum := inum, i_ref := 1, i_valid := False\<rparr>) s)"
    if "scan (\<lambda>x. i_ref x = 0) (icache s) = Some ip" for ip
    using None [unfolded slot_of_None] scan_SomeD [OF that]
    by (intro icache_ok_upd [OF ok]) (auto simp: word_sle_eq)
  then show ?thesis unfolding iget_def slot_of_def [symmetric] using None
    by (cases "scan (\<lambda>x. i_ref x = 0) (icache s)") (simp_all del: scan_None_iff)
qed

subsection \<open>iput\<close>

lemma ref_down:
  assumes "0 <s (r :: i32)"
  shows "0 \<le>s r - 1"
proof -
  have r: "0 < sint r" "sint r < 2 ^ 31" using assms sint_lt [of r] by (simp_all add: word_sless_alt)
  then have "sint (r - 1) = sint r - 1" by (simp add: sint_word_ariths signed_take_bit_int_eq_self)
  then show ?thesis using r by (simp add: word_sle_eq)
qed

text \<open>Giving back a reference that is not the last one to an inode without links.\<close>

lemma iput_plain:
  assumes "ip < length (icache s)" "\<not> slocked (i_lock (inode_at s ip))"
    "\<not> (i_valid (inode_at s ip) \<and> i_nlink (inode_at s ip) = 0 \<and> i_ref (inode_at s ip) = 1)"
  shows "\<exists>lk. \<not> slocked lk \<and> iput ip s = Ret () (upd_inode ip (\<lambda>x. x\<lparr>i_lock := lk, i_ref := i_ref x - 1\<rparr>) s)"
proof -
  obtain lk where lk: "acquiresleep (curpid s) (i_lock (inode_at s ip)) = Some lk" using assms(2) by (simp add: acquiresleep_def)
  let ?t = "upd_inode ip (\<lambda>x. x\<lparr>i_lock := lk\<rparr>) s"
  have "iput ip s = Ret () (upd_inode ip (\<lambda>x. x\<lparr>i_ref := i_ref x - 1\<rparr>) (upd_inode ip (\<lambda>x. x\<lparr>i_lock := releasesleep (i_lock x)\<rparr>) ?t))"
    unfolding iput_def Let_def using assms lk by auto
  also have "\<dots> = Ret () (upd_inode ip (\<lambda>x. x\<lparr>i_lock := releasesleep lk, i_ref := i_ref x - 1\<rparr>) s)"
    using assms(1) by (simp add: upd_inode_def)
  finally show ?thesis by (intro exI [of _ "releasesleep lk"]) (simp add: releasesleep_def)
qed

subsection \<open>ilock\<close>

lemma ilock_load:
  assumes t: "tx s" "geom s" "held s = {}" and ip: "ip < length (icache s)" "live (inode_at s ip)" "\<not> slocked (i_lock (inode_at s ip))"
    "\<not> i_valid (inode_at s ip)" "i_dev (inode_at s ip) = 1" "unat (i_inum (inode_at s ip)) < unat (sb_ninodes (fsb s))"
  defines "di \<equiv> dinode_of (view s (iblk s ip)) (ioff (i_inum (inode_at s ip)))"
  obtains t lk where "ilock ip s = (if d_type di = 0 then Panic ''ilock: no type'' t else Ret () t)"
    "tx t" "view t = view s" "dirty t = dirty s" "held t = {}" "fsb t = fsb s" "slocked lk"
    "inode_at t = (inode_at s)(ip := (load_inode di (inode_at s ip))\<lparr>i_lock := lk, i_valid := True\<rparr>)"
    "disksize t = disksize s" "length (icache t) = length (icache s)"
proof -
  let ?x = "inode_at s ip"
  obtain lk where lk: "acquiresleep (curpid s) (i_lock ?x) = Some lk" "slocked lk" using ip(3) by (simp add: acquiresleep_def)
  define s1 where "s1 = upd_inode ip (\<lambda>x. x\<lparr>i_lock := lk\<rparr>) s"
  have x1: "inode_at s1 ip = ?x\<lparr>i_lock := lk\<rparr>" "iblk s1 ip = iblk s ip" using ip(1) by (simp_all add: s1_def iblk_def)
  have s1: "tx s1" "held s1 = {}" "view s1 = view s" "dirty s1 = dirty s" using t by (simp_all add: s1_def)
  have lt: "unat (iblk s ip) < unat (bmb s)" unfolding iblk_def by (rule iblock_meta [OF t(2) ip(6)])
  then have "unat (iblk s ip) < fs_size s" using geomD(4,5) [OF t(2)] by linarith
  then have ds: "iblk s ip < disksize s1" using geomD(8) [OF t(2)] by (simp add: s1_def)
  have h: "iblk s ip \<notin> held s1" "card (held s1) \<le> 1" "finite (held s1)" using s1(2) by simp_all
  obtain b u where u': "bread 1 (iblk s ip) s1 = Ret b u" "tx u" "view u = view s1" "dirty u = dirty s1" "held u = insert (iblk s ip) (held s1)"
    "holds u (iblk s ip) b" "bdata (bufp u b) = view s1 (iblk s ip)" "frame s1 u" "disk u = disk s1"
    using bread_tx [OF s1(1) h(1) ds h(2,3)] by metis
  note u = u' [unfolded s1(2,3,4)]
  note fu = frame_fs [OF u(8)]
  define v where "v = upd_inode ip (load_inode di) u"
  have v: "tx v" "holds v (iblk s ip) b" "view v = view s" "dirty v = dirty s" "held v = {iblk s ip}" using u by (simp_all add: v_def)
  have "iblk s ip \<in> dirty v \<or> view v (iblk s ip) = disk v (iblk s ip)"
    using view_clean [of s1 "iblk s ip"] s1 u(9) v(3,4) by (auto simp: tx_def v_def)
  from brelse_tx [OF v(1,2) this] obtain w where w: "brelse b v = Ret () w" "tx w" "view w = view v" "dirty w = dirty v"
    "held w = held v - {iblk s ip}" "frame v w" by metis
  note fw = frame_fs [OF w(6)]
  define r where "r = upd_inode ip (\<lambda>x. x\<lparr>i_valid := True\<rparr>) w"
  have len: "ip < length (icache u)" "ip < length (icache w)" using ip(1) fu(2) fw(2) by (simp_all add: s1_def v_def)
  have iu: "inode_at u = inode_at s1" by (rule fu(4))
  have iw: "inode_at w = inode_at v" by (rule fw(4))
  have ir: "inode_at r = (inode_at s)(ip := (load_inode di ?x)\<lparr>i_lock := lk, i_valid := True\<rparr>)"
    using len ip(1) by (auto simp: r_def iw v_def iu s1_def load_inode_def)
  have ib1: "IBLOCK (i_inum ?x) (fsb s1) = iblk s ip" by (simp add: iblk_def s1_def)
  have nz: "\<not> i_ref ?x <s 1" using ip(2) by (simp add: live_def word_sless_alt)
  have "ilock ip s = (if i_type (inode_at r ip) = 0 then Panic ''ilock: no type'' r else Ret () r)"
    unfolding ilock_def Let_def lk(1) option.case(2) s1_def [symmetric] using nz ip(4,5) x1 u(1,7) w(1) ib1
    by (simp add: iu v_def [symmetric] di_def [symmetric] r_def [symmetric])
  moreover have "disksize u = disksize s1" "disksize w = disksize v"
    using frame_log_rest [OF u(8)] frame_log_rest [OF w(6)] by (simp_all add: log_rest_def)
  ultimately show ?thesis using that [of r lk] lk(2) ir w v by (simp add: r_def load_inode_def fw(1,2) v_def fu(1,2) s1_def)
qed

subsection \<open>The table stays well formed\<close>

lemma iget_slot:
  assumes "icache_ok s" "\<forall>x \<in> set (icache s). i_ref x <s 2147483647"
  shows "case iget dev inum s of
      Ret jp t \<Rightarrow> icache_ok t \<and> slot_of dev inum t = Some jp \<and> (\<forall>kp. kp \<noteq> jp \<longrightarrow> inode_at t kp = inode_at s kp)
    | Panic m t \<Rightarrow> slot_of dev inum s = None \<and> (\<forall>x \<in> set (icache s). i_ref x \<noteq> 0)
    | _ \<Rightarrow> False"
proof (cases "slot_of dev inum s")
  let ?new = "\<lambda>x. x\<lparr>i_dev := dev, i_inum := inum, i_ref := 1, i_valid := False\<rparr>" and ?up = "\<lambda>x. x\<lparr>i_ref := i_ref x + 1\<rparr>"
  note io = iget_ok [OF assms, of dev inum]
  {
    case (Some jp)
    then have jp: "jp < length (icache s)" "i_dev (inode_at s jp) = dev" "i_inum (inode_at s jp) = inum" using slot_of_Some [OF assms(1)] by auto
    have "i_ref (inode_at s jp) <s 2147483647" using assms(2) jp(1) by (simp add: inode_at_def)
    then have up: "0 <s i_ref (inode_at s jp) + 1" using icache_okD(1) [OF assms(1) jp(1)] ref_up by blast
    have ok: "icache_ok (upd_inode jp ?up s)" and c: "iget dev inum s = Ret jp (upd_inode jp ?up s)" using io Some by simp_all
    show ?thesis unfolding c using ok jp up by (simp add: slot_of_Some [OF ok] live_def)
  next
    case None
    show ?thesis
    proof (cases "scan (\<lambda>x. i_ref x = 0) (icache s)")
      case (Some jp)
      note sc = scan_SomeD [OF Some]
      have ok: "icache_ok (upd_inode jp ?new s)" and c: "iget dev inum s = Ret jp (upd_inode jp ?new s)"
        using io None Some by (simp_all del: scan_None_iff)
      show ?thesis unfolding c using ok sc by (simp add: slot_of_Some [OF ok] live_def word_sless_alt)
    next
      case none: None
      then have c: "iget dev inum s = Panic ''iget: no inodes'' s" using io None by (simp del: scan_None_iff)
      show ?thesis unfolding c using None none by simp
    qed
  }
qed


text \<open>A table with one inode in use, one free slot.\<close>

definition demo_table :: fs_st where
  "demo_table = demo_fs\<lparr>icache := [demo_inode\<lparr>i_lock := initsleeplock\<rparr>, demo_inode\<lparr>i_ref := 0\<rparr>]\<rparr>"


end
