(* ===== verification/FS_Dir.thy ===== *)
theory FS_Dir
  imports FS_Icache
begin

text \<open>
  Directories and path names: \<open>namecmp\<close>, \<open>dirlookup\<close>, \<open>dirlink\<close> and \<open>skipelem\<close> of src/fs.c, against a directory
  as a table from names to inode numbers and a path as a list of its elements.
\<close>

subsection \<open>Names\<close>

text \<open>The name in a field of \<open>DIRSIZ\<close> characters.\<close>

definition key :: "u8 list \<Rightarrow> u8 list" where
  "key p = takeWhile (\<lambda>c. c \<noteq> 0) (take DIRSIZ p)"

lemma key_step:
  "takeWhile (\<lambda>c. c \<noteq> 0) (take (Suc n) (drop k p)) =
     (if chr_at p k = 0 then [] else chr_at p k # takeWhile (\<lambda>c. c \<noteq> 0) (take n (drop (Suc k) p)))"
proof (cases "k < length p")
  case True
  then have "drop k p = p ! k # drop (Suc k) p" by (simp add: Cons_nth_drop_Suc)
  then show ?thesis using True by (simp add: chr_at_def)
qed (simp add: chr_at_def)

lemma unat_widen8: "unat (ucast a :: u32) = unat a" for a :: u8
proof -
  have "unat a < 2 ^ 8" using unsigned_less [of a, where 'a = nat] by simp
  then show ?thesis by (simp add: unsigned_ucast_eq take_bit_nat_eq_self)
qed

lemma ucast_diff: "(ucast a - ucast b :: i32) = 0 \<longleftrightarrow> a = b" for a b :: u8
  by (metis eq_iff_diff_eq_0 unat_widen8 word_unat_eq_iff)

lemma strncmp_key:
  "strncmp_from n k p q = 0 \<longleftrightarrow>
     takeWhile (\<lambda>c. c \<noteq> 0) (take n (drop k p)) = takeWhile (\<lambda>c. c \<noteq> 0) (take n (drop k q))"
proof (induction n arbitrary: k)
  case (Suc n)
  show ?case unfolding key_step strncmp_from.simps using Suc ucast_diff [of "chr_at p k" "chr_at q k"] by auto
qed simp

lemma namecmp_key: "namecmp p q = 0 \<longleftrightarrow> key p = key q"
  using strncmp_key [of DIRSIZ 0 p q] by (simp add: namecmp_def key_def)

lemma name_field_length: "length (name_field n) = DIRSIZ"
  by (simp add: name_field_def)

lemma takeWhile_take: "takeWhile P (take n xs) = take n (takeWhile P xs)"
proof (induction xs arbitrary: n)
  case (Cons x xs)
  then show ?case by (cases n) auto
qed simp

lemma key_name_field: "key (name_field n) = key n"
proof -
  have "takeWhile (\<lambda>c. c \<noteq> 0) (takeWhile (\<lambda>c. c \<noteq> 0) n @ replicate DIRSIZ 0) = takeWhile (\<lambda>c. c \<noteq> 0) n"
    by (subst takeWhile_append2) (auto dest: set_takeWhileD simp: DIRSIZ_def)
  then show ?thesis unfolding key_def name_field_def takeWhile_take by (simp del: take_append)
qed

subsection \<open>Directories as tables\<close>

text \<open>The entries of a directory with the given contents, and the table they stand for.\<close>

definition entries :: "u8 list \<Rightarrow> u8 list list" where
  "entries d = map (\<lambda>k. take 16 (drop (16 * k) d)) [0..<length d div 16]"

definition hit :: "u8 list \<Rightarrow> u8 list \<Rightarrow> bool" where
  "hit n e \<longleftrightarrow> get16 e 0 \<noteq> 0 \<and> key (drop 2 e) = n"

definition dir_map :: "u8 list \<Rightarrow> u8 list \<Rightarrow> u16 option" where
  "dir_map d n = map_option (\<lambda>e. get16 e 0) (find (hit n) (entries d))"

definition dir_ok :: "nat \<Rightarrow> 'a fs_st_scheme \<Rightarrow> bool" where
  "dir_ok dp s \<longleftrightarrow> fok dp s \<and> i_type (inode_at s dp) = T_DIR \<and> unat (i_size (inode_at s dp)) mod 16 = 0"

lemma find_None: "find P xs = None \<longleftrightarrow> (\<forall>x \<in> set xs. \<not> P x)"
  by (induction xs) auto

lemma find_fill:
  assumes "k < length xs" "\<not> P (xs ! k)" "\<not> (\<exists>x \<in> set xs. P x) \<or> \<not> P y"
  shows "find P (xs[k := y]) = (if P y then Some y else find P xs)"
  using assms
proof (induction xs arbitrary: k)
  case (Cons x xs)
  show ?case
  proof (cases k)
    case (Suc j)
    then show ?thesis using Cons.prems Cons.IH [of j] by auto
  qed (use Cons.prems in \<open>auto simp: find_None\<close>)
qed simp

lemma find_snoc:
  assumes "\<not> (\<exists>x \<in> set xs. P x) \<or> \<not> P y"
  shows "find P (xs @ [y]) = (if P y then Some y else find P xs)"
  using assms by (induction xs) auto

lemma entries_length [simp]: "length (entries d) = length d div 16"
  by (simp add: entries_def)

lemma entries_nth [simp]: "k < length d div 16 \<Longrightarrow> entries d ! k = take 16 (drop (16 * k) d)"
  by (simp add: entries_def)

lemma slot_overwrite:
  assumes "length de = 16" "length d = 16 * n" "k \<le> n" "j < n \<or> j = k"
  shows "take 16 (drop (16 * j) (overwrite (16 * k) de d)) = (if j = k then de else take 16 (drop (16 * j) d))"
proof (rule nth_equalityI)
  have le: "16 * k \<le> length d" using assms(2,3) by simp
  have l: "length (overwrite (16 * k) de d) = max (16 * n) (16 * k + 16)" using overwrite_length [OF le, of de] assms(1,2) by simp
  have e: "16 * j + 16 \<le> max (16 * n) (16 * k + 16)" "j \<noteq> k \<Longrightarrow> 16 * j + 16 \<le> 16 * n" using assms(4) by auto
  then show "length (take 16 (drop (16 * j) (overwrite (16 * k) de d))) = length (if j = k then de else take 16 (drop (16 * j) d))"
    using l assms(1,2) by (auto simp: min_def)
  fix i assume "i < length (take 16 (drop (16 * j) (overwrite (16 * k) de d)))"
  then have i: "i < 16" "16 * j + i < max (16 * n) (16 * k + 16)" using l by (simp_all add: less_diff_conv add.commute)
  then have "take 16 (drop (16 * j) (overwrite (16 * k) de d)) ! i = overwrite (16 * k) de d ! (16 * j + i)" using l by simp
  also have "\<dots> = (if 16 * k \<le> 16 * j + i \<and> 16 * j + i < 16 * k + 16 then de ! (16 * j + i - 16 * k) else d ! (16 * j + i))"
    using overwrite_nth [OF le, of "16 * j + i" de] i(2) assms(1,2) by simp
  also have "\<dots> = (if j = k then de else take 16 (drop (16 * j) d)) ! i"
  proof (cases "j = k")
    case False
    then have nn: "\<not> (16 * k \<le> 16 * j + i \<and> 16 * j + i < 16 * k + 16)" using i(1) by linarith
    show ?thesis unfolding if_not_P [OF nn] using False e(2) i(1) assms(2) by simp
  qed (use i(1) in simp)
  finally show "take 16 (drop (16 * j) (overwrite (16 * k) de d)) ! i = (if j = k then de else take 16 (drop (16 * j) d)) ! i" .
qed

lemma entries_put:
  assumes "length de = 16" "length d = 16 * n" "k \<le> n"
  shows "entries (overwrite (16 * k) de d) = (if k < n then (entries d)[k := de] else entries d @ [de])"
proof (rule nth_equalityI)
  have "length (overwrite (16 * k) de d) = 16 * max n (Suc k)" using overwrite_length [of "16 * k" d de] assms by (simp add: max_def)
  then have l: "length (overwrite (16 * k) de d) div 16 = max n (Suc k)" by simp
  then show "length (entries (overwrite (16 * k) de d)) = length (if k < n then (entries d)[k := de] else entries d @ [de])"
    using assms by (auto simp: max_def)
  fix j assume "j < length (entries (overwrite (16 * k) de d))"
  then have j: "j < max n (Suc k)" using l by simp
  then have "j < n \<or> j = k" using assms(3) by (auto simp: max_def split: if_splits)
  note so = slot_overwrite [OF assms this]
  show "entries (overwrite (16 * k) de d) ! j = (if k < n then (entries d)[k := de] else entries d @ [de]) ! j"
    using j l so assms(2,3) by (auto simp: nth_append nth_list_update max_def split: if_splits)
qed

subsection \<open>dirlookup\<close>

lemma dir_okD:
  assumes "dir_ok dp s"
  shows "fok dp s" "i_type (inode_at s dp) = T_DIR" "i_type (inode_at s dp) \<noteq> T_DEV" "length (fdata s dp) = 16 * (unat (i_size (inode_at s dp)) div 16)"
  using assms by (auto simp: dir_ok_def T_DIR_def T_DEV_def)

lemma eff_fdata:
  assumes "eff s (view s) D t" "fok dp s"
  shows "fdata t dp = fdata s dp"
  using eff_same(2) [OF assms] effD(2) [OF assms(1)] eff_fs(4) [OF assms(1)] by (simp add: fdata_def fbyte_def)

lemma eff_dir_ok: "eff s (view s) D t \<Longrightarrow> dir_ok dp s \<Longrightarrow> dir_ok dp t"
  using eff_same(1) [of s D t dp] eff_fs(4) [of s "view s" D t] by (simp add: dir_ok_def)

lemma read_entry:
  assumes d: "dir_ok dp s" and k: "k < unat (i_size (inode_at s dp)) div 16"
  obtains t where "readi dt dp (word_of_nat (16 * k)) 16 s = Ret (16, entries (fdata s dp) ! k) t" "eff s (view s) (dirty s) t"
proof -
  note s = dir_okD [OF d]
  define q :: u32 where "q = word_of_nat (16 * k)"
  let ?z = "i_size (inode_at s dp)"
  have le: "16 * k + 16 \<le> unat ?z" using k by linarith
  have "unat ?z < 2 ^ 32" using unsigned_less [of ?z, where 'a = nat] by simp
  then have o: "unat q = 16 * k" using le unfolding q_def by (intro unat_of_small) simp
  have oz: "q \<le> ?z" using le o by (simp add: word_le_nat_alt)
  have "unat (?z - q) = unat ?z - 16 * k" using oz o by (simp add: unat_sub)
  then have "(16 :: u32) \<le> ?z - q" using le by (simp add: word_le_nat_alt)
  then have mn: "min 16 (?z - q) = 16" by (rule min_absorb1)
  have ov: "unat q + unat (16 :: u32) < 2 ^ 32" using o le fokD(7) [OF s(1)] by (simp add: MAXFILE_def NDIRECT_def NINDIRECT_def BSIZE_def)
  from readi_ok [OF s(1,3) oz ov, of dt] mn o
  obtain t where t: "readi dt dp q 16 s = Ret (16, take 16 (drop (16 * k) (fdata s dp))) t" "eff s (view s) (dirty s) t" by auto
  have "entries (fdata s dp) ! k = take 16 (drop (16 * k) (fdata s dp))" using k by simp
  then show ?thesis using that t unfolding q_def by metis
qed

lemma get16_nz_hit: "get16 e 0 \<noteq> 0 \<Longrightarrow> namecmp name (drop 2 e) = 0 \<longleftrightarrow> hit (key name) e"
  by (auto simp: hit_def namecmp_key)

lemma dirlookup_loop_ok:
  assumes "dir_ok dp s" "\<And>k. k \<in> set ks \<Longrightarrow> k < unat (i_size (inode_at s dp)) div 16"
  shows "\<exists>t. eff s (view s) (dirty s) t \<and> dirlookup_loop dt dp name (map (\<lambda>k. word_of_nat (16 * k)) ks) s =
    (case find (\<lambda>k. hit (key name) (entries (fdata s dp) ! k)) ks of
       None \<Rightarrow> Ret None t
     | Some k \<Rightarrow> andthen (iget 1 (ucast (get16 (entries (fdata s dp) ! k) 0)) t) (\<lambda>ip s. Ret (Some (ip, word_of_nat (16 * k))) s))"
  using assms
proof (induction ks arbitrary: s)
  case Nil
  then show ?case using eff_refl [OF fokD(1) [OF dir_okD(1) [OF Nil(1)]]] by auto
next
  case (Cons k ks)
  note d = Cons.prems(1)
  let ?e = "entries (fdata s dp) ! k"
  obtain u where u: "readi dt dp (word_of_nat (16 * k)) 16 s = Ret (16, ?e) u" "eff s (view s) (dirty s) u"
    using read_entry [OF d] Cons.prems(2) by (metis list.set_intros(1))
  note f = eff_fs [OF u(2)] and du = eff_dir_ok [OF u(2) d] and fd = eff_fdata [OF u(2) dir_okD(1) [OF d]]
  have dev: "i_dev (inode_at u dp) = 1" by (rule fokD(5) [OF dir_okD(1) [OF du]])
  show ?case
  proof (cases "hit (key name) ?e")
    case True
    then have "get16 ?e 0 \<noteq> 0" by (simp add: hit_def)
    then show ?thesis using True u dev get16_nz_hit [of ?e name] by (intro exI [of _ u]) simp
  next
    case False
    obtain t where t: "eff u (view u) (dirty u) t" "dirlookup_loop dt dp name (map (\<lambda>k. word_of_nat (16 * k)) ks) u =
      (case find (\<lambda>k. hit (key name) (entries (fdata s dp) ! k)) ks of
         None \<Rightarrow> Ret None t
       | Some k \<Rightarrow> andthen (iget 1 (ucast (get16 (entries (fdata s dp) ! k) 0)) t) (\<lambda>ip s. Ret (Some (ip, word_of_nat (16 * k))) s))"
      using Cons.IH [OF du] Cons.prems(2) unfolding f(4) fd by auto
    have "dirlookup_loop dt dp name (map (\<lambda>k. word_of_nat (16 * k)) (k # ks)) s = dirlookup_loop dt dp name (map (\<lambda>k. word_of_nat (16 * k)) ks) u"
      using u(1) False get16_nz_hit [of ?e name] by auto
    moreover have "eff s (view s) (dirty s) t" using eff_trans [OF u(2) t(1)] effD(2,3) [OF u(2)] by simp
    ultimately show ?thesis using t(2) False by (intro exI [of _ t]) simp
  qed
qed

lemma find_upt:
  "find P xs = map_option (\<lambda>k. xs ! k) (find (\<lambda>k. P (xs ! k)) [0..<length xs])"
proof -
  have "find P (map f ks) = map_option f (find (\<lambda>k. P (f k)) ks)" for f :: "nat \<Rightarrow> 'a" and ks
    by (induction ks) auto
  from this [of "\<lambda>k. xs ! k" "[0..<length xs]"] show ?thesis by (simp add: map_nth)
qed

lemma dirlookup_ok:
  assumes d: "dir_ok dp s"
  obtains t where "eff s (view s) (dirty s) t" "dir_map (fdata s dp) (key name) = None" "dirlookup dt dp name s = Ret None t"
  | t k inum where "eff s (view s) (dirty s) t" "dir_map (fdata s dp) (key name) = Some inum" "k < unat (i_size (inode_at s dp)) div 16"
      "inum = get16 (entries (fdata s dp) ! k) 0" "hit (key name) (entries (fdata s dp) ! k)"
      "dirlookup dt dp name s = andthen (iget 1 (ucast inum) t) (\<lambda>ip s. Ret (Some (ip, word_of_nat (16 * k))) s)"
proof -
  let ?n = "unat (i_size (inode_at s dp)) div 16" and ?E = "entries (fdata s dp)"
  have n: "(unat (i_size (inode_at s dp)) + 15) div 16 = ?n" "length ?E = ?n" using d by (auto simp: dir_ok_def)
  have "dirlookup dt dp name s = dirlookup_loop dt dp name (map (\<lambda>k. word_of_nat (16 * k)) [0..<?n]) s"
    using dir_okD(2) [OF d] n(1) by (simp add: dirlookup_def dir_offs_def)
  then obtain t where t: "eff s (view s) (dirty s) t" "dirlookup dt dp name s =
    (case find (\<lambda>k. hit (key name) (?E ! k)) [0..<?n] of
       None \<Rightarrow> Ret None t
     | Some k \<Rightarrow> andthen (iget 1 (ucast (get16 (?E ! k) 0)) t) (\<lambda>ip s. Ret (Some (ip, word_of_nat (16 * k))) s))"
    using dirlookup_loop_ok [OF d, of "[0..<?n]" dt name] by auto
  have m: "dir_map (fdata s dp) (key name) = map_option (\<lambda>k. get16 (?E ! k) 0) (find (\<lambda>k. hit (key name) (?E ! k)) [0..<?n])"
    unfolding dir_map_def by (subst find_upt) (simp add: n(2) option.map_comp comp_def)
  show ?thesis
  proof (cases "find (\<lambda>k. hit (key name) (?E ! k)) [0..<?n]")
    case None
    then show ?thesis using that(1) t m by simp
  next
    case (Some k)
    then have "k < ?n" "hit (key name) (?E ! k)" using find_Some_iff [of _ "[0..<?n]" k] by (auto simp: find_Some_iff)
    then show ?thesis using that(2) t m Some by simp
  qed
qed

subsection \<open>dirlink\<close>

lemma free_dirent_ok:
  assumes "dir_ok dp s" "n = unat (i_size (inode_at s dp)) div 16" "j \<le> n"
  shows "\<exists>t k. free_dirent dt dp (word_of_nat (16 * j)) (map (\<lambda>k. word_of_nat (16 * k)) [j..<n]) s = Ret (word_of_nat (16 * k)) t \<and>
    eff s (view s) (dirty s) t \<and> k \<le> n \<and> (k < n \<longrightarrow> get16 (entries (fdata s dp) ! k) 0 = 0)"
  using assms
proof (induction "n - j" arbitrary: j s)
  case 0
  then have "[j..<n] = []" "j = n" by simp_all
  then show ?case using eff_refl [OF fokD(1) [OF dir_okD(1) [OF 0(2)]]] by auto
next
  case (Suc m)
  note d = Suc.prems(1)
  have lt: "j < n" using Suc.hyps(2) by simp
  then have upt: "[j..<n] = j # [Suc j..<n]" by (simp add: upt_conv_Cons)
  obtain u where u: "readi dt dp (word_of_nat (16 * j)) 16 s = Ret (16, entries (fdata s dp) ! j) u" "eff s (view s) (dirty s) u"
    using read_entry [OF d] lt Suc.prems(2) by metis
  note f = eff_fs [OF u(2)] and fd = eff_fdata [OF u(2) dir_okD(1) [OF d]]
  show ?case
  proof (cases "get16 (entries (fdata s dp) ! j) 0 = 0")
    case True
    then have "free_dirent dt dp (word_of_nat (16 * j)) (map (\<lambda>k. word_of_nat (16 * k)) [j..<n]) s = Ret (word_of_nat (16 * j)) u"
      unfolding upt using u(1) by simp
    then show ?thesis using True u(2) lt by (intro exI [of _ u] exI [of _ j]) simp
  next
    case False
    have "free_dirent dt dp (word_of_nat (16 * j)) (map (\<lambda>k. word_of_nat (16 * k)) [j..<n]) s =
        free_dirent dt dp (word_of_nat (16 * Suc j)) (map (\<lambda>k. word_of_nat (16 * k)) [Suc j..<n]) u"
      unfolding upt using u(1) False by (simp add: algebra_simps)
    moreover have h: "m = n - Suc j" "n = unat (i_size (inode_at u dp)) div 16" "Suc j \<le> n"
      using Suc.hyps(2) Suc.prems(2) lt f(4) by simp_all
    obtain t k where t: "free_dirent dt dp (word_of_nat (16 * Suc j)) (map (\<lambda>k. word_of_nat (16 * k)) [Suc j..<n]) u = Ret (word_of_nat (16 * k)) t"
        "eff u (view u) (dirty u) t" "k \<le> n" "k < n \<longrightarrow> get16 (entries (fdata s dp) ! k) 0 = 0"
      using Suc.hyps(1) [OF h(1) eff_dir_ok [OF u(2) d] h(2,3)] unfolding fd by blast
    moreover have "eff s (view s) (dirty s) t" using eff_trans [OF u(2) t(2)] effD(2,3) [OF u(2)] by simp
    ultimately show ?thesis using t by (intro exI [of _ t] exI [of _ k]) simp
  qed
qed

definition dirent :: "u8 list \<Rightarrow> u32 \<Rightarrow> u8 list" where
  "dirent name inum = put16 (0 # 0 # name_field name) 0 (ucast inum)"

lemma dirent_facts: "length (dirent name inum) = 16" "get16 (dirent name inum) 0 = ucast inum"
  "(ucast inum :: u16) \<noteq> 0 \<Longrightarrow> hit n (dirent name inum) \<longleftrightarrow> n = key name"
proof -
  show "length (dirent name inum) = 16" by (simp add: dirent_def name_field_length DIRSIZ_def)
  show g: "get16 (dirent name inum) 0 = ucast inum" by (simp add: dirent_def)
  have "drop 2 (dirent name inum) = name_field name" by (simp add: dirent_def put16_def numeral_2_eq_2)
  then show "(ucast inum :: u16) \<noteq> 0 \<Longrightarrow> hit n (dirent name inum) \<longleftrightarrow> n = key name" using g key_name_field by (auto simp: hit_def)
qed

lemma dir_map_put:
  assumes d: "length d = 16 * n" "k \<le> n" "k < n \<longrightarrow> get16 (entries d ! k) 0 = 0"
    and i: "(ucast inum :: u16) \<noteq> 0" and none: "dir_map d (key name) = None"
  shows "dir_map (overwrite (16 * k) (dirent name inum) d) = (dir_map d)(key name \<mapsto> ucast inum)"
proof (rule ext)
  fix m
  note de = dirent_facts(1,2) [of name inum] dirent_facts(3) [OF i, of _ name]
  have no: "\<not> (\<exists>x \<in> set (entries d). hit m x) \<or> \<not> hit m (dirent name inum)" using none de(3) by (auto simp: dir_map_def find_None)
  have "find (hit m) (entries (overwrite (16 * k) (dirent name inum) d)) =
      (if hit m (dirent name inum) then Some (dirent name inum) else find (hit m) (entries d))"
  proof (cases "k < n")
    case True
    then have "\<not> hit m (entries d ! k)" using d(3) by (simp add: hit_def)
    then show ?thesis using find_fill [OF _ _ no] True d(1) entries_put [OF de(1) d(1,2)] by simp
  next
    case False
    then show ?thesis using find_snoc [OF no] entries_put [OF de(1) d(1,2)] by simp
  qed
  then show "dir_map (overwrite (16 * k) (dirent name inum) d) m = ((dir_map d)(key name \<mapsto> ucast inum)) m"
    using de(2,3) by (simp add: dir_map_def)
qed

lemma dirlink_ok:
  assumes d: "dir_ok dp s" and none: "dir_map (fdata s dp) (key name) = None" and i: "(ucast inum :: u16) \<noteq> 0"
    and z: "unat (i_size (inode_at s dp)) + 16 \<le> MAXFILE * BSIZE"
    and room: "card (dirty s) + MAXOPBLOCKS \<le> LOGSIZE" "5 < card (free_blocks s)"
  shows "\<exists>t. dirlink dt dp name inum s = Ret 0 t \<and> dir_ok dp t \<and> dir_map (fdata t dp) = (dir_map (fdata s dp))(key name \<mapsto> ucast inum) \<and>
    length (icache t) = length (icache s) \<and> (\<forall>jp. \<exists>z as. inode_at t jp = (inode_at s jp)\<lparr>i_size := z, i_addrs := as\<rparr>)"
proof -
  define n where "n = unat (i_size (inode_at s dp)) div 16"
  have n: "(unat (i_size (inode_at s dp)) + 15) div 16 = n" "16 * n = unat (i_size (inode_at s dp))" using d by (auto simp: dir_ok_def n_def)
  obtain u where u: "eff s (view s) (dirty s) u" "dirlookup dt dp name s = Ret None u"
    using dirlookup_ok [OF d] none by (metis option.distinct(1))
  note fu = eff_fs [OF u(1)] and du = eff_dir_ok [OF u(1) d] and fdu = eff_fdata [OF u(1) dir_okD(1) [OF d]]
  have nu: "n = unat (i_size (inode_at u dp)) div 16" using n_def fu(4) by simp
  obtain v k where v: "free_dirent dt dp (word_of_nat (16 * 0)) (map (\<lambda>k. word_of_nat (16 * k)) [0..<n]) u = Ret (word_of_nat (16 * k)) v"
    "eff u (view u) (dirty u) v" "k \<le> n" "k < n \<longrightarrow> get16 (entries (fdata s dp) ! k) 0 = 0"
    using free_dirent_ok [OF du nu, of 0 dt] unfolding fdu by blast
  note fv = eff_fs [OF v(2)] and dv = eff_dir_ok [OF v(2) du] and fdv = eff_fdata [OF v(2) dir_okD(1) [OF du]]
  define q :: u32 where "q = word_of_nat (16 * k)"
  have q: "unat q = 16 * k" using v(3) n(2) z unfolding q_def
    by (intro unat_of_small) (simp add: MAXFILE_def NDIRECT_def NINDIRECT_def BSIZE_def)
  have in_v: "inode_at v = inode_at s" "dirty v = dirty s" "free_blocks v = free_blocks s" "fdata v dp = fdata s dp"
    using fu(4) fv(4) effD(3) [OF u(1)] effD(3) [OF v(2)] eff_same(3) [OF u(1) dir_okD(1) [OF d]] eff_same(3) [OF v(2) dir_okD(1) [OF du]] fdu fdv
    by simp_all
  have h: "q \<le> i_size (inode_at v dp)" "unat q + unat (16 :: u32) \<le> MAXFILE * BSIZE" "unat (16 :: u32) \<le> max_write"
    "length (dirent name inum) = unat (16 :: u32)" "card (dirty v) + MAXOPBLOCKS \<le> LOGSIZE" "5 < card (free_blocks v)"
    using q v(3) n(2) z room dirent_facts(1) by (simp_all add: in_v word_le_nat_alt max_write_def MAXOPBLOCKS_def)
  show ?thesis
  proof (rule writei_spec [OF dir_okD(1,3) [OF dv] h, of dt])
    fix t
    assume t: "writei dt dp (dirent name inum) q 16 v = Ret 16 t" "fok dp t"
      "fdata t dp = overwrite (unat q) (dirent name inum) (fdata v dp)" "i_size (inode_at t dp) = max (i_size (inode_at v dp)) (q + 16)"
      "\<And>jp. jp \<noteq> dp \<Longrightarrow> inode_at t jp = inode_at v jp"
      "\<exists>z as. inode_at t dp = (inode_at v dp)\<lparr>i_size := z, i_addrs := as\<rparr>" "length (icache t) = length (icache v)"
    have ty: "i_type (inode_at t dp) = i_type (inode_at v dp)" using t(6) by auto
    have "\<exists>z as. inode_at t jp = (inode_at s jp)\<lparr>i_size := z, i_addrs := as\<rparr>" for jp
    proof (cases "jp = dp")
      case False
      then have "inode_at t jp = (inode_at s jp)\<lparr>i_size := i_size (inode_at s jp), i_addrs := i_addrs (inode_at s jp)\<rparr>" using t(5) in_v(1) by simp
      then show ?thesis by blast
    qed (use t(6) in_v(1) in simp)
    moreover have "length (icache t) = length (icache s)" using t(7) fu(2) fv(2) by simp
    moreover have m: "dir_map (fdata t dp) = (dir_map (fdata s dp))(key name \<mapsto> ucast inum)"
      unfolding t(3) q in_v(4) by (rule dir_map_put [OF _ v(3,4) i none]) (simp add: n(2))
    have "length (fdata t dp) = max (16 * n) (16 * k + 16)"
      unfolding t(3) q in_v(4) using dirent_facts(1) v(3) by (subst overwrite_length) (simp_all flip: n(2))
    then have "length (fdata t dp) mod 16 = 0" by (simp add: max_def)
    then have "dir_ok dp t" using t(2) ty dir_okD(2) [OF d] by (simp add: dir_ok_def in_v)
    moreover have "dirlink dt dp name inum s = Ret 0 t"
      using u(2) v(1) t(1) n(1) fu(4) by (simp add: dirlink_def dir_offs_def q_def flip: dirent_def)
    ultimately show ?thesis using m by blast
  qed
qed

lemma icache_refs:
  assumes "length (icache t) = length (icache s)" "\<forall>jp. \<exists>z as. inode_at t jp = (inode_at s jp)\<lparr>i_size := z, i_addrs := as\<rparr>"
  shows "map i_ref (icache t) = map i_ref (icache s)"
proof (rule nth_equalityI)
  fix j assume "j < length (map i_ref (icache t))"
  then have j: "j < length (icache t)" "j < length (icache s)" using assms(1) by simp_all
  have "i_ref (inode_at t j) = i_ref (inode_at s j)" using assms(2) [rule_format, of j] by auto
  then show "map i_ref (icache t) ! j = map i_ref (icache s) ! j" using j by (simp add: inode_at_def)
qed (use assms(1) in simp)

lemma icache_ok_cong:
  assumes "icache_ok s" "length (icache t) = length (icache s)" "\<forall>jp. \<exists>z as. inode_at t jp = (inode_at s jp)\<lparr>i_size := z, i_addrs := as\<rparr>"
  shows "icache_ok t" "\<forall>x \<in> set (icache s). P (i_ref x) \<Longrightarrow> \<forall>x \<in> set (icache t). P (i_ref x)"
proof -
  have f: "i_ref (inode_at t j) = i_ref (inode_at s j)" "i_dev (inode_at t j) = i_dev (inode_at s j)" "i_inum (inode_at t j) = i_inum (inode_at s j)" for j
    using assms(3) [rule_format, of j] by auto
  then show p: "\<forall>x \<in> set (icache s). P (i_ref x) \<Longrightarrow> \<forall>x \<in> set (icache t). P (i_ref x)" for P
    using assms(2) by (simp add: all_set_conv_all_nth inode_at_def)
  show "icache_ok t" using assms(1) p [of "\<lambda>r. 0 \<le>s r"] unfolding icache_ok_def live_def f assms(2) by blast
qed

lemma dirlookup_correct:
  assumes d: "dir_ok dp s" and c: "icache_ok s" "\<forall>x \<in> set (icache s). i_ref x <s 2147483647" "\<exists>x \<in> set (icache s). i_ref x = 0"
  shows "case dir_map (fdata s dp) (key name) of
      None \<Rightarrow> \<exists>t. dirlookup dt dp name s = Ret None t
    | Some inum \<Rightarrow> \<exists>ip k t. dirlookup dt dp name s = Ret (Some (ip, k)) t \<and> slot_of 1 (ucast inum) t = Some ip"
proof (rule dirlookup_ok [OF d, where name = name and dt = dt])
  fix t k inum
  assume t: "eff s (view s) (dirty s) t" "dir_map (fdata s dp) (key name) = Some inum"
    "dirlookup dt dp name s = andthen (iget 1 (ucast inum) t) (\<lambda>ip s. Ret (Some (ip, word_of_nat (16 * k))) s)"
  note f = eff_fs [OF t(1)]
  have ct: "icache_ok t" "\<forall>x \<in> set (icache t). i_ref x <s 2147483647" "\<exists>x \<in> set (icache t). i_ref x = 0"
    using c f(2,4) by (simp_all add: icache_ok_def)
  obtain ip u where u: "iget 1 (ucast inum) t = Ret ip u" "slot_of 1 (ucast inum) u = Some ip"
    using iget_slot [OF ct(1,2), of 1 "ucast inum"] ct(3) by (auto split: outcome.splits)
  then show ?thesis using t(2,3) by auto
qed simp

text \<open>C11. A directory is a table from names to inode numbers.  \<open>dirlink\<close> of a name that is not there adds
  exactly that name, taking a free entry or extending the directory; afterwards \<open>dirlookup\<close> of any name
  returns the inode the table gives for it, or null when there is none.\<close>

theorem directory_insert_lookup:
  assumes "dir_ok dp s" "dir_map (fdata s dp) (key name) = None" "(ucast inum :: u16) \<noteq> 0"
    "unat (i_size (inode_at s dp)) + 16 \<le> MAXFILE * BSIZE" "card (dirty s) + MAXOPBLOCKS \<le> LOGSIZE" "5 < card (free_blocks s)"
    "icache_ok s" "\<forall>x \<in> set (icache s). i_ref x <s 2147483647" "\<exists>x \<in> set (icache s). i_ref x = 0"
  shows "\<exists>t. dirlink dt dp name inum s = Ret 0 t \<and> dir_map (fdata t dp) = (dir_map (fdata s dp))(key name \<mapsto> ucast inum) \<and>
    (\<forall>n. case ((dir_map (fdata s dp))(key name \<mapsto> ucast inum)) (key n) of
       None \<Rightarrow> \<exists>u. dirlookup dt dp n t = Ret None u
     | Some i \<Rightarrow> \<exists>ip k u. dirlookup dt dp n t = Ret (Some (ip, k)) u \<and> slot_of 1 (ucast i) u = Some ip)"
proof -
  obtain t where t: "dirlink dt dp name inum s = Ret 0 t" "dir_ok dp t" "dir_map (fdata t dp) = (dir_map (fdata s dp))(key name \<mapsto> ucast inum)"
    "length (icache t) = length (icache s)" "\<forall>jp. \<exists>z as. inode_at t jp = (inode_at s jp)\<lparr>i_size := z, i_addrs := as\<rparr>"
    using dirlink_ok [OF assms(1-6)] by blast
  note c = icache_ok_cong [OF assms(7) t(4,5)]
  have free: "\<exists>x \<in> set (icache t). i_ref x = 0"
    using assms(9) icache_refs [OF t(4,5)] by (metis (no_types, lifting) image_iff image_set)
  note lk = dirlookup_correct [OF t(2) c(1) c(2) [OF assms(8)] free, unfolded t(3)]
  show ?thesis using t(1,3) lk by (intro exI [of _ t] conjI allI) simp_all
qed

definition demo_dir :: fs_st where
  "demo_dir = demo_fs\<lparr>icache := [demo_inode\<lparr>i_type := T_DIR, i_size := 16\<rparr>, demo_inode\<lparr>i_ref := 0\<rparr>]\<rparr>"

lemma demo_dir_fields:
  "view demo_dir = view demo_fs" "dirty demo_dir = {}" "held demo_dir = {}" "fsb demo_dir = fsb demo_fs" "disksize demo_dir = disksize demo_fs"
  "inode_at demo_dir 0 = demo_inode\<lparr>i_type := T_DIR, i_size := 16\<rparr>" "tx demo_dir"
  "icache demo_dir = [demo_inode\<lparr>i_type := T_DIR, i_size := 16\<rparr>, demo_inode\<lparr>i_ref := 0\<rparr>]"
proof -
  show "tx demo_dir" using demo_fs_ok(1) by (simp add: demo_dir_def tx_def)
qed (simp_all add: demo_dir_def inode_at_def demo_fs_cache)

lemma demo_dir_ok: "dir_ok 0 demo_dir" "free_blocks demo_dir = free_blocks demo_fs" "fdata demo_dir 0 = replicate 16 65"
proof -
  note gf = geom_fs [OF demo_dir_fields(4)] and gc = geom_cong [OF demo_dir_fields(1,4)]
  have a: "adr demo_dir 0 k = adr demo_fs 0 k" for k
    unfolding adr_def demo_dir_fields demo_fs_fields Let_def by simp
  have ds: "data_start demo_dir = 59" "fs_size demo_dir = 1000" using gf demo_fs_fields(10,11) by simp_all
  have "file_ok 0 demo_dir"
    unfolding file_ok_def Let_def a gc(1) demo_dir_fields(4,6) ds demo_fs_fields
    using demo_adr demo_fs_allocated [of 59]
    by (auto simp: demo_inode_def NDIRECT_def MAXFILE_def BSIZE_def NINDIRECT_def split: if_splits)
  then have "fok 0 demo_dir" using demo_fs_ok(2) gc(3) demo_dir_fields by (simp add: fok_def)
  then show "dir_ok 0 demo_dir" by (simp add: dir_ok_def demo_dir_fields)
  show "free_blocks demo_dir = free_blocks demo_fs" by (rule gc(2))
  have "fbyte demo_dir 0 i = 65" if "i < 16" for i
    using that demo_adr [of 0] by (simp add: fbyte_def a demo_dir_fields demo_fs_cache BSIZE_def)
  then show "fdata demo_dir 0 = replicate 16 65"
    by (intro nth_equalityI) (simp_all add: fdata_def demo_dir_fields)
qed

theorem directory_insert_lookup_witness:
  "dir_ok 0 demo_dir \<and> (\<exists>t. dirlink (\<lambda>_. \<lparr>dev_read = None, dev_write = None\<rparr>) 0 [97] 9 demo_dir = Ret 0 t \<and>
     (\<exists>ip k u. dirlookup (\<lambda>_. \<lparr>dev_read = None, dev_write = None\<rparr>) 0 [97] t = Ret (Some (ip, k)) u \<and> slot_of 1 9 u = Some ip) \<and>
     (\<exists>u. dirlookup (\<lambda>_. \<lparr>dev_read = None, dev_write = None\<rparr>) 0 [98] t = Ret None u))"
proof -
  have e: "entries (replicate 16 65) = [replicate 16 65]" by (simp add: entries_def)
  have k: "key [97] = [97]" "key [98] = [98]" "key (drop 2 (replicate 16 (65 :: u8))) = replicate 14 65" by (simp_all add: key_def DIRSIZ_def)
  have none: "dir_map (fdata demo_dir 0) n = None" if "n \<noteq> replicate 14 65" for n
    unfolding demo_dir_ok(3) dir_map_def e using that k(3) by (simp add: hit_def)
  have h: "(ucast (9 :: u32) :: u16) \<noteq> 0" "unat (i_size (inode_at demo_dir 0)) + 16 \<le> MAXFILE * BSIZE"
    "card (dirty demo_dir) + MAXOPBLOCKS \<le> LOGSIZE" "5 < card (free_blocks demo_dir)" "icache_ok demo_dir"
    "\<forall>x \<in> set (icache demo_dir). i_ref x <s 2147483647" "\<exists>x \<in> set (icache demo_dir). i_ref x = 0"
    using demo_free by (auto simp: demo_dir_fields demo_dir_ok MAXFILE_def NDIRECT_def NINDIRECT_def BSIZE_def MAXOPBLOCKS_def LOGSIZE_def
        icache_ok_def inode_at_def live_def demo_inode_def less_Suc_eq word_sle_eq word_sless_alt)
  have n: "dir_map (fdata demo_dir 0) (key [97]) = None" "dir_map (fdata demo_dir 0) (key [98]) = None" using none by (simp_all add: k numeral_eq_Suc)
  from directory_insert_lookup [OF demo_dir_ok(1) n(1) h, of "\<lambda>_. \<lparr>dev_read = None, dev_write = None\<rparr>"]
  show ?thesis using demo_dir_ok(1) n(2) k by (fastforce dest: spec [of _ "[97]"] spec [of _ "[98]"])
qed

subsection \<open>Path names\<close>

text \<open>The parts of a path between slashes, and those that are not empty.\<close>

fun splits :: "u8 list \<Rightarrow> u8 list list" where
  "splits [] = [[]]"
| "splits (c # cs) = (if c = SLASH then [] # splits cs else (c # hd (splits cs)) # tl (splits cs))"

definition elems :: "u8 list \<Rightarrow> u8 list list" where
  "elems path = filter (\<lambda>w. w \<noteq> []) (splits path)"

lemma splits_not_Nil [simp]: "splits p \<noteq> []"
  by (cases p) simp_all

lemma splits_hd: "splits p = takeWhile (\<lambda>c. c \<noteq> SLASH) p # tl (splits p)"
proof (induction p)
  case (Cons c p)
  have "hd (splits p) = takeWhile (\<lambda>c. c \<noteq> SLASH) p" by (subst Cons) simp
  then show ?case by simp
qed simp

lemma splits_tl:
  "tl (splits p) = (case dropWhile (\<lambda>c. c \<noteq> SLASH) p of [] \<Rightarrow> [] | _ # p' \<Rightarrow> splits p')"
  by (induction p) (auto split: list.splits)

lemma elems_slash: "elems (SLASH # p) = elems p"
  by (simp add: elems_def)

lemma elems_skip: "elems (dropWhile (\<lambda>c. c = SLASH) p) = elems p"
  by (induction p) (auto simp: elems_slash)

lemma elems_first:
  assumes "p \<noteq> []" "hd p \<noteq> SLASH"
  shows "elems p = takeWhile (\<lambda>c. c \<noteq> SLASH) p # elems (dropWhile (\<lambda>c. c \<noteq> SLASH) p)"
proof -
  let ?r = "dropWhile (\<lambda>c. c \<noteq> SLASH) p"
  have "takeWhile (\<lambda>c. c \<noteq> SLASH) p \<noteq> []" using assms by (cases p) auto
  then have "elems p = takeWhile (\<lambda>c. c \<noteq> SLASH) p # filter (\<lambda>w. w \<noteq> []) (tl (splits p))"
    unfolding elems_def by (subst splits_hd) simp
  also have "filter (\<lambda>w. w \<noteq> []) (tl (splits p)) = elems ?r"
  proof (cases ?r)
    case (Cons c p')
    then have "c = SLASH" using hd_dropWhile [of "\<lambda>c. c \<noteq> SLASH" p] by simp
    then show ?thesis using Cons by (simp add: splits_tl elems_slash) (simp add: elems_def)
  next
    case Nil
    then show ?thesis by (simp add: splits_tl elems_def del: dropWhile_eq_Nil_conv)
  qed
  finally show ?thesis .
qed

lemma elems_Nil: "elems p = [] \<longleftrightarrow> dropWhile (\<lambda>c. c = SLASH) p = []"
proof -
  have "elems p \<noteq> []" if "dropWhile (\<lambda>c. c = SLASH) p \<noteq> []"
    using elems_first [OF that] hd_dropWhile [OF that] elems_skip [of p] by simp
  moreover have "elems p = []" if "dropWhile (\<lambda>c. c = SLASH) p = []"
    using elems_skip [of p] that by (simp add: elems_def)
  ultimately show ?thesis by blast
qed

lemma key_no_zero: "0 \<notin> set e \<Longrightarrow> key e = take DIRSIZ e"
proof -
  assume "0 \<notin> set e"
  then have e: "takeWhile (\<lambda>c. c \<noteq> 0) e = e" by (induction e) auto
  show ?thesis unfolding key_def takeWhile_take e ..
qed

lemma key_update: "0 \<notin> set e \<Longrightarrow> length e < length name \<Longrightarrow> length e < DIRSIZ \<Longrightarrow> key ((e @ drop (length e) name)[length e := 0]) = e"
proof -
  assume e: "0 \<notin> set e" "length e < length name" "length e < DIRSIZ"
  obtain c cs where c: "drop (length e) name = c # cs" using e(2) by (cases "drop (length e) name") auto
  have "(e @ drop (length e) name)[length e := 0] = e @ 0 # cs" by (simp add: c list_update_append)
  moreover have "takeWhile (\<lambda>c. c \<noteq> 0) (e @ 0 # cs) = e" using e(1) by (subst takeWhile_append2) auto
  ultimately show ?thesis using e(3) unfolding key_def takeWhile_take by simp
qed

text \<open>C29. Called again and again on what it left over, \<open>skipelem\<close> goes through the elements of a path, the
  non-empty parts between slashes, in order: it returns null exactly when there is none left, and
  otherwise puts the next element, cut off after \<open>DIRSIZ\<close> characters, into \<open>name\<close>.\<close>

theorem skipelem_elements:
  assumes "0 \<notin> set path" "length name = DIRSIZ"
  shows "case skipelem path name of None \<Rightarrow> elems path = []
    | Some (path', name') \<Rightarrow> \<exists>e. elems path = e # elems path' \<and> key name' = take DIRSIZ e \<and> length name' = DIRSIZ"
proof (cases "dropWhile (\<lambda>c. c = SLASH) path = []")
  case True
  then show ?thesis by (simp add: skipelem_def elems_Nil)
next
  case False
  let ?p = "dropWhile (\<lambda>c. c = SLASH) path"
  let ?e = "takeWhile (\<lambda>c. c \<noteq> SLASH) ?p" and ?r = "dropWhile (\<lambda>c. c \<noteq> SLASH) ?p"
  have "elems path = ?e # elems (dropWhile (\<lambda>c. c = SLASH) ?r)"
    using elems_first [OF False] hd_dropWhile [OF False] elems_skip [of path] elems_skip [of ?r] by simp
  moreover have z: "0 \<notin> set ?e" using assms(1) by (meson set_dropWhileD set_takeWhileD)
  then have "key (if length ?e \<ge> DIRSIZ then take DIRSIZ ?e else (?e @ drop (length ?e) name)[length ?e := 0]) = take DIRSIZ ?e"
    using key_no_zero [of "take DIRSIZ ?e"] key_update [OF z, of name] assms(2) by (auto dest: in_set_takeD)
  ultimately show ?thesis using False assms(2) by (simp add: skipelem_def Let_def)
qed

theorem skipelem_elements_witness:
  "0 \<notin> set [SLASH, 97, 98, SLASH, SLASH, 99] \<and> skipelem [SLASH, 97, 98, SLASH, SLASH, 99] (replicate DIRSIZ 0) = Some ([99], 97 # 98 # replicate 12 0) \<and>
   elems [SLASH, 97, 98, SLASH, SLASH, 99] = [97, 98] # elems [99]"
proof -
  have s: "skipelem [SLASH, 97, 98, SLASH, SLASH, 99] (replicate DIRSIZ 0) = Some ([99], 97 # 98 # replicate 12 0)"
    using list_update_id [of "replicate 12 (0 :: u8)" 0] by (simp add: skipelem_def SLASH_def DIRSIZ_def)
  have h: "0 \<notin> set [SLASH, 97, 98, SLASH, SLASH, 99]" "length (replicate DIRSIZ (0 :: u8)) = DIRSIZ" by (simp_all add: SLASH_def)
  show ?thesis using skipelem_elements [OF h] h(1) s by (auto simp: elems_def SLASH_def)
qed

end
