(* ===== verification/Mkfs_Props.thy ===== *)
theory Mkfs_Props
  imports Mkfs_Files FS_Dir
begin

text \<open>
  The image \<open>mkfs\<close> leaves: the inodes on it describe the files, the map of free blocks marks exactly the
  sectors in use, and the kernel reads from it the bytes that were put in.
\<close>

subsection \<open>The inode table on the image\<close>

lemma holds_files_cong:
  assumes h: "holds_files F D s" and s': "isb s' = isb s" "freeblock s' = freeblock s" "\<And>b. unat b < FSSIZE \<Longrightarrow> \<exists>d. sectors s' b = Some d \<and> length d = BSIZE"
    "\<And>c. 59 \<le> unat c \<Longrightarrow> sec s' c = sec s c"
    and D': "\<And>j. j < NI \<Longrightarrow> length (d_addrs (D' j)) = NDIRECT + 1" "\<And>j k. j < NI \<Longrightarrow> k \<le> MAXFILE \<Longrightarrow> ia D' s j k = ia D s j k"
  shows "holds_files F D' s'"
proof -
  have o: "owned (sizes F) D s" using h by (simp add: holds_files_def)
  have a: "ia D' s' j k = ia D s j k" if "j < NI" "k \<le> MAXFILE" for j k
  proof -
    have m: "d_addrs (D' j) ! NDIRECT = ia D s j MAXFILE"
      using D'(2) [OF that(1) order_refl] NDIRECT_LE(1) by (simp add: ia_def)
    have "sec s' (ia D s j MAXFILE) = sec s (ia D s j MAXFILE)" if "ia D s j MAXFILE \<noteq> 0"
      using that ownedD(8,9) [OF o \<open>j < NI\<close> order_refl] s'(4) by simp
    then have "ia D' s' j k = ia D' s j k" unfolding ia_def [of D'] Let_def m by simp
    then show ?thesis using D'(2) [OF that] by simp
  qed
  have "owned (sizes F) D' s'"
  proof (rule ownedI)
    show "sec s' b = replicate BSIZE 0" if "unat (freeblock s') \<le> unat b" "unat b < FSSIZE" for b
      using that s'(2,4) ownedD(4) [OF o] ownedD(6) [OF o, of b] by simp
    show "ia D' s' j k \<noteq> 0 \<longleftrightarrow> sizes F j k" if "j < NI" "k \<le> MAXFILE" for j k using a [OF that] ownedD(8) [OF o that] by simp
    show "nmeta \<le> unat (ia D' s' j k) \<and> unat (ia D' s' j k) < unat (freeblock s')" if "j < NI" "k \<le> MAXFILE" "ia D' s' j k \<noteq> 0" for j k
      using that(3) ownedD(8,9,10) [OF o that(1,2)] s'(2) unfolding a [OF that(1,2)] by (simp add: mkfs_consts)
    show "j = j' \<and> l = l'" if "j < NI" "l \<le> MAXFILE" "j' < NI" "l' \<le> MAXFILE" "ia D' s' j l = ia D' s' j' l'" "ia D' s' j l \<noteq> 0" for j l j' l'
      using that(5,6) ownedD(11) [OF o that(1-4)] ownedD(8) [OF o that(1,2)] unfolding a [OF that(1,2)] a [OF that(3,4)] by simp
  qed (use s' D'(1) ownedD(1,4,5) [OF o] in \<open>simp_all add: mkfs_consts\<close>)
  moreover have "ibyte D' s' j q = ibyte D s j q" if "j < NI" "q div BSIZE < MAXFILE" "sizes F j (q div BSIZE)" for j q
    unfolding ibyte_def a [OF that(1) less_imp_le [OF that(2)]] using s'(4) ownedD(9) [OF o that(1) less_imp_le [OF that(2)] that(3)] by simp
  ultimately show ?thesis using h s'(2) by (simp add: holds_files_def)
qed

lemma ib_sector: "i < NI \<Longrightarrow> unat (ib i) < FSSIZE" "i < NI \<Longrightarrow> 32 \<le> unat (ib i) \<and> unat (ib i) < 58"
  using ib_unat by (auto simp: NI_208 FSSIZE_def)

lemma ib_inj: "i < NI \<Longrightarrow> j < NI \<Longrightarrow> ib i = ib j \<Longrightarrow> i div 8 = j div 8"
  using ib_unat [of i] ib_unat [of j] by simp

lemma rinode_ok: "owned N D s \<Longrightarrow> i < NI \<Longrightarrow> rinode (word_of_nat i) s = Ret (dino s i) s"
  using ownedD(1) [of N D s] by (simp add: rinode_def Let_def IBLOCK_ib rsect_ok [OF _ ib_sector(1)] dino_def)

lemma winode_ok:
  assumes o: "owned N D s" and i: "i < NI" "length (d_addrs din) = NDIRECT + 1"
  obtains s' where "winode (word_of_nat i) din s = Ret () s'" "isb s' = isb s" "freeblock s' = freeblock s" "freeinode s' = freeinode s"
    "\<And>b. unat b < FSSIZE \<Longrightarrow> \<exists>d. sectors s' b = Some d \<and> length d = BSIZE" "\<And>c. unat c < 32 \<or> 58 \<le> unat c \<Longrightarrow> sec s' c = sec s c"
    "\<And>j. j < NI \<Longrightarrow> dino s' j = (if j = i then din else dino s j)"
proof (rule that)
  let ?s = "wsect (ib i) (put_dinode din (64 * (i mod 8)) (sec s (ib i))) s"
  note l = ownedD(3) [OF o ib_sector(1) [OF i(1)]]
  show "winode (word_of_nat i) din s = Ret () ?s"
    using ownedD(1) [OF o] by (simp add: winode_def Let_def IBLOCK_ib [OF i(1)] rsect_ok [OF o ib_sector(1) [OF i(1)]])
  show "\<exists>d. sectors ?s b = Some d \<and> length d = BSIZE" if "unat b < FSSIZE" for b using ownedD(2,3) [OF o that] l by simp
  show "sec ?s c = sec s c" if "unat c < 32 \<or> 58 \<le> unat c" for c using that ib_sector(2) [OF i(1)] by auto
  have r: "64 * (m mod 8) + 64 \<le> length (sec s (ib i))" for m using l by (simp add: BSIZE_def)
  show "dino ?s j = (if j = i then din else dino s j)" if "j < NI" for j
  proof (cases "j = i")
    case True
    then show ?thesis by (simp add: dino_def dinode_round_trip [OF r i(2)])
  next
    case False
    show ?thesis
    proof (cases "ib j = ib i")
      case True
      have "j mod 8 \<noteq> i mod 8" using ib_inj [OF that i(1) True] False div_mult_mod_eq [of i 8] div_mult_mod_eq [of j 8] by metis
      then have "64 * (j mod 8) + 64 \<le> 64 * (i mod 8) \<or> 64 * (i mod 8) + 64 \<le> 64 * (j mod 8)" by arith
      then show ?thesis using False True by (simp add: dino_def dinode_other [OF r i(2)])
    qed (use False in \<open>simp add: dino_def\<close>)
  qed
qed simp_all

subsection \<open>Images\<close>

text \<open>The image holds the files \<open>F\<close> with types \<open>T\<close>; the boot block, the log and the map of free blocks are
  still zero; the inodes from \<open>freeinode\<close> on have not been used.\<close>

definition fs_image :: "(nat \<Rightarrow> u8 list) \<Rightarrow> (nat \<Rightarrow> u16) \<Rightarrow> img \<Rightarrow> bool" where
  "fs_image F T s \<longleftrightarrow> holds_files F (dino s) s \<and> (\<forall>i < NI. unat (d_size (dino s i)) = length (F i) \<and> d_type (dino s i) = T i) \<and>
     (\<forall>c. unat c < 32 \<or> c = 58 \<longrightarrow> sec s c = (if c = 1 then sb_bytes mkfs_sb else replicate BSIZE 0)) \<and>
     (\<forall>i < NI. unat (freeinode s) \<le> i \<longrightarrow> F i = [] \<and> T i = 0)"

lemma imageD:
  assumes "fs_image F T s"
  shows "holds_files F (dino s) s" "owned (sizes F) (dino s) s" "i < NI \<Longrightarrow> unat (d_size (dino s i)) = length (F i)" "i < NI \<Longrightarrow> d_type (dino s i) = T i"
    "unat c < 32 \<or> c = 58 \<Longrightarrow> sec s c = (if c = 1 then sb_bytes mkfs_sb else replicate BSIZE 0)"
    "i < NI \<Longrightarrow> unat (freeinode s) \<le> i \<Longrightarrow> F i = [] \<and> T i = 0" "unat (freeblock s) = used F" "i < NI \<Longrightarrow> length (F i) \<le> MAXFILE * BSIZE"
  using assms by (auto simp: fs_image_def holds_files_def)

text \<open>\<open>iappend\<close> extends the file, and \<open>ialloc\<close> gives the next inode a type.\<close>

lemma iappend_ok:
  assumes m: "fs_image F T s" and i: "i < NI" "i < unat (freeinode s)" and p: "length (F i @ p) \<le> MAXFILE * BSIZE" "used (F(i := F i @ p)) \<le> FSSIZE"
  obtains s' where "iappend (word_of_nat i) p s = Ret () s'" "fs_image (F(i := F i @ p)) T s'" "freeinode s' = freeinode s"
proof -
  let ?F = "F(i := F i @ p)"
  have p': "length (F i) + length p \<le> MAXFILE * BSIZE" using p(1) by simp
  obtain din u as where l: "iappend_loop (dino s i) (length (F i)) p s = Ret (din, length (F i) + length p) u" "holds_files ?F ((dino s)(i := din)) u"
    "din = (dino s i)\<lparr>d_addrs := as\<rparr>" "freeinode u = freeinode s" "\<And>c. unat c < 59 \<Longrightarrow> sec u c = sec s c"
    using iappend_loop_ok [OF imageD(1) [OF m] i(1) refl p' p(2)] by blast
  let ?d = "din\<lparr>d_size := word_of_nat (length (F i) + length p)\<rparr>"
  have o: "owned (sizes ?F) ((dino s)(i := din)) u" using l(2) by (simp add: holds_files_def)
  have len: "length (d_addrs ?d) = NDIRECT + 1" using ownedD(7) [OF o i(1)] by simp
  obtain s' where w: "winode (word_of_nat i) ?d u = Ret () s'" "isb s' = isb u" "freeblock s' = freeblock u" "freeinode s' = freeinode u"
    "\<And>b. unat b < FSSIZE \<Longrightarrow> \<exists>d. sectors s' b = Some d \<and> length d = BSIZE" "\<And>c. unat c < 32 \<or> 58 \<le> unat c \<Longrightarrow> sec s' c = sec u c"
    "\<And>j. j < NI \<Longrightarrow> dino s' j = (if j = i then ?d else dino u j)" by (rule winode_ok [OF o i(1) len]) (rule that)
  have du: "dino u j = dino s j" if "j < NI" for j using l(5) ib_sector(2) [OF that] by (simp add: dino_def)
  have dino: "dino s' j = (if j = i then ?d else dino s j)" if "j < NI" for j using w(7) [OF that] du [OF that] by simp
  have sz: "unat (word_of_nat (length (F i) + length p) :: u32) = length (F i) + length p"
    using p' by (intro unat_of_small) (simp add: MAXFILE_def NDIRECT_def NINDIRECT_def BSIZE_def)
  show ?thesis
  proof (rule that)
    show "iappend (word_of_nat i) p s = Ret () s'"
      using l(1) w(1) imageD(3) [OF m i(1)] by (simp add: iappend_def rinode_ok [OF imageD(2) [OF m] i(1)])
    have "holds_files ?F (dino s') s'"
    proof (rule holds_files_cong [OF l(2) w(2,3,5)])
      show "length (d_addrs (dino s' j)) = NDIRECT + 1" if "j < NI" for j using dino [OF that] len ownedD(7) [OF imageD(2) [OF m] that] by simp
      show "ia (dino s') u j k = ia ((dino s)(i := din)) u j k" if "j < NI" "k \<le> MAXFILE" for j k
        using dino [OF that(1)] by (simp add: ia_def)
    qed (use w(6) in simp_all)
    moreover have "sec s' c = sec s c" if "unat c < 32 \<or> c = 58" for c using that w(6) [of c] l(5) [of c] by auto
    ultimately show "fs_image ?F T s'"
      unfolding fs_image_def using dino sz l(3) imageD(3-6) [OF m] w(4) l(4) i(2) by simp
  qed (simp add: w(4) l(4))
qed

lemma ia_freeinode [simp]: "ia D (s\<lparr>freeinode := x\<rparr>) = ia D s" "dino (s\<lparr>freeinode := x\<rparr>) = dino s"
  by (simp_all add: fun_eq_iff ia_def dino_def Let_def)

lemma owned_freeinode [simp]: "owned N D (s\<lparr>freeinode := x\<rparr>) = owned N D s"
  by (simp add: owned_def)

lemma ialloc_ok:
  assumes m: "fs_image F T s" and i: "unat (freeinode s) < NI"
  obtains s' where "ialloc_mkfs ty s = Ret (freeinode s) s'" "fs_image F (T(unat (freeinode s) := ty)) s'" "unat (freeinode s') = unat (freeinode s) + 1"
proof -
  let ?i = "unat (freeinode s)" and ?s = "s\<lparr>freeinode := freeinode s + 1\<rparr>"
  let ?d = "\<lparr>d_type = ty, d_major = 0, d_minor = 0, d_nlink = 1, d_size = 0, d_addrs = replicate (NDIRECT + 1) 0\<rparr>"
  have w: "word_of_nat ?i = freeinode s" by simp
  have n: "unat (freeinode s + 1) = ?i + 1" using i by (simp add: unat_word_ariths NI_208)
  have o: "owned (sizes F) (dino s) ?s" using imageD(2) [OF m] by simp
  have l: "length (d_addrs ?d) = NDIRECT + 1" by simp
  obtain s' where s': "winode (word_of_nat ?i) ?d ?s = Ret () s'" "isb s' = isb ?s" "freeblock s' = freeblock ?s" "freeinode s' = freeinode ?s"
    "\<And>b. unat b < FSSIZE \<Longrightarrow> \<exists>d. sectors s' b = Some d \<and> length d = BSIZE" "\<And>c. unat c < 32 \<or> 58 \<le> unat c \<Longrightarrow> sec s' c = sec ?s c"
    "\<And>j. j < NI \<Longrightarrow> dino s' j = (if j = ?i then ?d else dino ?s j)" by (rule winode_ok [OF o i l]) (rule that)
  have e: "F ?i = []" "T ?i = 0" using imageD(6) [OF m i order_refl] by simp_all
  have z: "\<not> sizes F ?i k" for k using e(1) by (simp add: sizes_def needs_def)
  have dino: "dino s' j = (if j = ?i then ?d else dino s j)" if "j < NI" for j using s'(7) [OF that] by simp
  have "holds_files F (dino s') s'"
  proof (rule holds_files_cong [OF imageD(1) [OF m] _ _ s'(5)])
    show "length (d_addrs (dino s' j)) = NDIRECT + 1" if "j < NI" for j using dino [OF that] ownedD(7) [OF imageD(2) [OF m] that] by simp
    show "ia (dino s') s j k = ia (dino s) s j k" if "j < NI" "k \<le> MAXFILE" for j k
    proof (cases "j = ?i")
      case True
      have "replicate (NDIRECT + 1) 0 ! q = (0 :: u32)" if "q \<le> NDIRECT" for q using that by (intro nth_replicate) simp
      then have "ia (dino s') s j k = 0" unfolding ia_def dino [OF that(1)] Let_def using True by simp
      then show ?thesis using True z [of k] ownedD(8) [OF imageD(2) [OF m] that] by simp
    qed (simp add: ia_def dino [OF that(1)])
  qed (use s'(2,3,6) in simp_all)
  moreover have "sec s' c = sec s c" if "unat c < 32 \<or> c = 58" for c using that s'(6) [of c] by auto
  ultimately have "fs_image F (T(?i := ty)) s'"
    unfolding fs_image_def using dino s'(4) n e imageD(3-6) [OF m] by simp
  moreover have "ialloc_mkfs ty s = Ret (freeinode s) s'" using s'(1) unfolding w by (simp add: ialloc_mkfs_def Let_def)
  ultimately show ?thesis using that s'(4) n by simp
qed

lemma used_mono: "i < NI \<Longrightarrow> length p \<le> length q \<Longrightarrow> used (F(i := p)) \<le> used (F(i := q))"
  using used_append [of i F p] used_append [of i F q] blocks_mono [of "length p" "length q"] by simp

lemma iappend_chunks:
  assumes "fs_image F T s" "i < NI" "i < unat (freeinode s)" "length (F i @ concat cs) \<le> MAXFILE * BSIZE" "used (F(i := F i @ concat cs)) \<le> FSSIZE"
  shows "\<exists>s'. each (iappend (word_of_nat i)) cs s = Ret () s' \<and> fs_image (F(i := F i @ concat cs)) T s' \<and> freeinode s' = freeinode s"
  using assms
proof (induction cs arbitrary: F s)
  case (Cons c cs)
  have "used (F(i := F i @ c)) \<le> FSSIZE" by (rule order_trans [OF used_mono [OF Cons.prems(2)] Cons.prems(5)]) simp
  then obtain u where u: "iappend (word_of_nat i) c s = Ret () u" "fs_image (F(i := F i @ c)) T u" "freeinode u = freeinode s"
    using iappend_ok [OF Cons.prems(1-3), of c] Cons.prems(4) by auto
  let ?F = "F(i := F i @ c)"
  have eq: "?F(i := ?F i @ concat cs) = F(i := F i @ concat (c # cs))" by (simp add: fun_eq_iff)
  have h: "i < unat (freeinode u)" "length (?F i @ concat cs) \<le> MAXFILE * BSIZE" using Cons.prems(3,4) u(3) by simp_all
  show ?case using Cons.IH [OF u(2) Cons.prems(2) h, unfolded eq, OF Cons.prems(5)] u(1,3) by simp
qed simp

subsection \<open>The files on the command line\<close>

definition stored :: "u8 list \<Rightarrow> u8 list" where
  "stored name = (if chr_at name 0 = UNDERSCORE then tl name else name)"

definition ROOT :: nat where "ROOT = 1"

lemma mkfs_file_ok:
  assumes m: "fs_image F T s" and i: "unat (freeinode s) = i" "i < NI" "ROOT < i" and f: "SLASH \<notin> set name"
    and r: "length (F ROOT) + 16 \<le> MAXFILE * BSIZE" "length (concat cs) \<le> MAXFILE * BSIZE"
    and u: "used (F(ROOT := F ROOT @ dot_entry (word_of_nat i) (stored name), i := concat cs)) \<le> FSSIZE"
  obtains s' where "mkfs_file ROOTINO (name, Some cs) s = Ret () s'"
    "fs_image (F(ROOT := F ROOT @ dot_entry (word_of_nat i) (stored name), i := concat cs)) (T(i := T_FILE)) s'" "unat (freeinode s') = i + 1"
proof -
  let ?e = "dot_entry (word_of_nat i) (stored name)"
  let ?F = "F(ROOT := F ROOT @ ?e)"
  have w: "freeinode s = word_of_nat i" "ROOTINO = word_of_nat ROOT" using i(1) by (simp_all add: ROOTINO_def ROOT_def flip: i(1))
  have Fi: "?F i = []" using imageD(6) [OF m i(2)] i(1,3) by simp
  have le: "length ?e = 16" by (simp add: dot_entry_def name_field_def DIRSIZ_def)
  have uF: "used ?F \<le> FSSIZE"
    using used_mono [OF i(2), of "[]" "concat cs" ?F] u fun_upd_idem [of ?F i "[]", OF Fi] by simp
  obtain a where a: "ialloc_mkfs T_FILE s = Ret (freeinode s) a" "fs_image F (T(i := T_FILE)) a" "unat (freeinode a) = i + 1"
    using ialloc_ok [OF m, of T_FILE] i by blast
  have R: "ROOT < NI" "ROOT < unat (freeinode a)" using i a(3) by simp_all
  obtain b where b: "iappend (word_of_nat ROOT) ?e a = Ret () b" "fs_image ?F (T(i := T_FILE)) b" "freeinode b = freeinode a"
    by (rule iappend_ok [OF a(2) R _ uF]) (use r(1) le in \<open>auto intro: that\<close>)
  obtain c where c: "each (iappend (word_of_nat i)) cs b = Ret () c" "fs_image (?F(i := ?F i @ concat cs)) (T(i := T_FILE)) c" "freeinode c = freeinode b"
    using iappend_chunks [OF b(2) i(2), of cs] Fi u r(2) a(3) b(3) by auto
  show ?thesis
  proof (rule that)
    show "mkfs_file ROOTINO (name, Some cs) s = Ret () c"
      using a(1) b(1) c(1) f unfolding w mkfs_file_def stored_def by (simp add: Let_def)
    show "fs_image (?F(i := concat cs)) (T(i := T_FILE)) c" using c(2) unfolding Fi by simp
  qed (simp add: c(3) b(3) a(3))
qed

end
