(* ===== verification/Mkfs_Boot.thy ===== *)
theory Mkfs_Boot
  imports Mkfs_Props
begin

text \<open>
  A whole run of \<open>mkfs\<close>, from the zeroed image to the map of free blocks, and what the kernel finds on the
  image when it uses it as its disk.
\<close>

subsection \<open>The image before the first inode\<close>

lemma zeroed:
  "n \<le> 2 ^ 32 \<Longrightarrow> fold (\<lambda>i. wsect (word_of_nat i) d) [0..<n] s = s\<lparr>sectors := \<lambda>b. if unat b < n then Some d else sectors s b\<rparr>"
proof (induction n)
  case (Suc n)
  have "unat (word_of_nat n :: u32) = n" using Suc.prems by (intro unat_of_small) simp
  then have "unat b < Suc n \<longleftrightarrow> unat b < n \<or> b = word_of_nat n" for b :: u32 by (auto simp: less_Suc_eq)
  then show ?case using Suc by (auto simp: wsect_def fun_eq_iff)
qed simp

lemma get_zero: "q + 4 \<le> n \<Longrightarrow> get32 (replicate n 0) q = 0" "q + 2 \<le> n \<Longrightarrow> get16 (replicate n 0) q = 0"
  by (simp_all add: get32_def get16_def)

lemma dinode_zero: "m < 8 \<Longrightarrow> dinode_of (replicate BSIZE 0) (64 * m) =
    \<lparr>d_type = 0, d_major = 0, d_minor = 0, d_nlink = 0, d_size = 0, d_addrs = replicate (NDIRECT + 1) 0\<rparr>"
  by (auto simp: dinode_of_def get_zero BSIZE_def NDIRECT_def simp del: upt_Suc replicate_Suc intro!: nth_equalityI)

lemma mkfs_init_fields: "isb mkfs_init = mkfs_sb" "freeinode mkfs_init = 1" "unat (freeblock mkfs_init) = 59"
  "unat b < FSSIZE \<Longrightarrow> sectors mkfs_init b = Some (if b = 1 then sb_bytes mkfs_sb else replicate BSIZE 0)"
  by (simp_all add: mkfs_init_def Let_def zeroed FSSIZE_def mkfs_consts)

lemma sb_bytes_length [simp]: "length (sb_bytes b) = BSIZE"
  by (simp add: sb_bytes_def)

lemma mkfs_init_sec: "unat b < FSSIZE \<Longrightarrow> sec mkfs_init b = (if b = 1 then sb_bytes mkfs_sb else replicate BSIZE 0)"
  using mkfs_init_fields(4) [of b] by (simp add: sec_def)

lemma mkfs_init_dino:
  assumes "i < NI"
  shows "dino mkfs_init i = \<lparr>d_type = 0, d_major = 0, d_minor = 0, d_nlink = 0, d_size = 0, d_addrs = replicate (NDIRECT + 1) 0\<rparr>"
proof -
  have "ib i \<noteq> 1" using ib_sector(2) [OF assms] by auto
  then show ?thesis using mkfs_init_sec [OF ib_sector(1) [OF assms]] dinode_zero by (simp add: dino_def)
qed

lemma mkfs_init_image: "fs_image (\<lambda>_. []) (\<lambda>_. 0) mkfs_init"
proof -
  have z: "replicate (NDIRECT + 1) 0 ! q = (0 :: u32)" if "q \<le> NDIRECT" for q using that by (intro nth_replicate) simp
  have a: "ia (dino mkfs_init) mkfs_init i k = 0" if "i < NI" for i k
    unfolding ia_def mkfs_init_dino [OF that] Let_def using z by simp
  have n: "\<not> sizes (\<lambda>_. []) i k" for i k by (simp add: sizes_def needs_def)
  have "owned (sizes (\<lambda>_. [])) (dino mkfs_init) mkfs_init"
  proof (rule ownedI)
    show "sec mkfs_init b = replicate BSIZE 0" if "unat (freeblock mkfs_init) \<le> unat b" "unat b < FSSIZE" for b
    proof -
      have "b \<noteq> 1" using that(1) unfolding mkfs_init_fields by auto
      then show ?thesis using mkfs_init_sec [OF that(2)] by simp
    qed
  qed (use a n in \<open>simp_all add: mkfs_init_fields mkfs_init_dino mkfs_consts FSSIZE_def\<close>)
  moreover have "used (\<lambda>_. []) = 59" by (simp add: used_def blocks_def mkfs_consts BSIZE_def)
  ultimately have "holds_files (\<lambda>_. []) (dino mkfs_init) mkfs_init" using n by (simp add: holds_files_def mkfs_init_fields)
  moreover have "sec mkfs_init c = (if c = 1 then sb_bytes mkfs_sb else replicate BSIZE 0)" if "unat c < 32 \<or> c = 58" for c
    using that by (intro mkfs_init_sec) (auto simp: FSSIZE_def)
  ultimately show ?thesis by (simp add: fs_image_def mkfs_init_dino)
qed

subsection \<open>The files in order\<close>

definition layout :: "(u8 list \<times> u8 list) list \<Rightarrow> nat \<Rightarrow> u8 list" where
  "layout fs i =
     (if i = ROOT then dot_entry 1 [DOT] @ dot_entry 1 [DOT, DOT] @ concat (map (\<lambda>n. dot_entry (word_of_nat (n + 2)) (fst (fs ! n))) [0..<length fs])
      else if 2 \<le> i \<and> i < length fs + 2 then snd (fs ! (i - 2)) else [])"

definition types :: "nat \<Rightarrow> nat \<Rightarrow> u16" where
  "types n i = (if i = ROOT then T_DIR else if 2 \<le> i \<and> i < n + 2 then T_FILE else 0)"

definition given :: "(u8 list \<times> u8 list list option) list \<Rightarrow> (u8 list \<times> u8 list) list" where
  "given files = map (\<lambda>(name, cs). (stored name, concat (the cs))) files"

text \<open>The files can be read, have names without a slash and fit on the disk.\<close>

definition files_ok :: "(u8 list \<times> u8 list list option) list \<Rightarrow> bool" where
  "files_ok files \<longleftrightarrow> (\<forall>(name, cs) \<in> set files. SLASH \<notin> set name \<and> cs \<noteq> None \<and> length (concat (the cs)) \<le> MAXFILE * BSIZE) \<and>
     length files + 2 \<le> NINODES \<and> used (layout (given files)) \<le> FSSIZE"

lemma dot_entry_length [simp]: "length (dot_entry i n) = 16"
  by (simp add: dot_entry_def name_field_def DIRSIZ_def)

lemma layout_root_length: "length (layout fs ROOT) = 16 * (length fs + 2)"
proof -
  have "length (concat (map (\<lambda>n. dot_entry (f n) (g n)) xs)) = 16 * length xs" for f g and xs :: "nat list" by (induction xs) simp_all
  then show ?thesis by (simp add: layout_def)
qed

lemma layout_snoc:
  "layout (fs @ [(n, c)]) = (layout fs)(ROOT := layout fs ROOT @ dot_entry (word_of_nat (length fs + 2)) n, length fs + 2 := c)"
proof
  show "layout (fs @ [(n, c)]) i = ((layout fs)(ROOT := layout fs ROOT @ dot_entry (word_of_nat (length fs + 2)) n, length fs + 2 := c)) i" for i
  proof (cases "i = ROOT")
    case True
    then show ?thesis by (auto simp: layout_def ROOT_def nth_append intro!: arg_cong [where f = concat])
  next
    case False
    moreover have "i - 2 < length fs \<longleftrightarrow> i < length fs + 2" if "2 \<le> i" using that by arith
    ultimately show ?thesis by (auto simp: layout_def nth_append)
  qed
qed

lemma types_snoc: "types (Suc n) = (types n)(n + 2 := T_FILE)"
  by (auto simp: types_def ROOT_def)

lemma used_le: "(\<And>i. i < NI \<Longrightarrow> length (F i) \<le> length (G i)) \<Longrightarrow> used F \<le> used G"
  unfolding used_def by (intro add_left_mono sum_mono blocks_mono) auto

lemma each_append: "each f (xs @ ys) s = andthen (each f xs s) (\<lambda>_. each f ys)"
  by (induction xs arbitrary: s) (simp_all add: andthen_assoc)

lemma mkfs_files_ok:
  assumes m: "fs_image (layout []) (types 0) s" "unat (freeinode s) = 2" and f: "files_ok files"
  shows "\<exists>s'. each (mkfs_file ROOTINO) files s = Ret () s' \<and> fs_image (layout (given files)) (types (length files)) s' \<and> unat (freeinode s') = length files + 2"
  using f
proof (induction files rule: rev_induct)
  case Nil
  then show ?case using m by (simp add: given_def)
next
  case (snoc x xs)
  obtain name cs where x: "x = (name, Some cs)" "SLASH \<notin> set name" "length (concat cs) \<le> MAXFILE * BSIZE"
    using snoc.prems by (cases x) (auto simp: files_ok_def)
  let ?n = "length xs + 2"
  have g: "given (xs @ [x]) = given xs @ [(stored name, concat cs)]" "length (given xs) = length xs" by (simp_all add: given_def x)
  note ly = layout_snoc [of "given xs" "stored name" "concat cs", unfolded g(2)]
  have n: "?n < NI" "ROOT < ?n" using snoc.prems by (simp_all add: files_ok_def NINODES_def NI_208 ROOT_def)
  have z: "layout (given xs) ?n = []" by (simp add: layout_def given_def ROOT_def)
  have "used (layout (given xs)) \<le> used (layout (given (xs @ [x])))"
    unfolding g(1) ly by (rule used_le) (use z n(2) in auto)
  then have "files_ok xs" using snoc.prems by (simp add: files_ok_def)
  then obtain u where u: "each (mkfs_file ROOTINO) xs s = Ret () u" "fs_image (layout (given xs)) (types (length xs)) u" "unat (freeinode u) = ?n"
    using snoc.IH by blast
  have r: "length (layout (given xs) ROOT) + 16 \<le> MAXFILE * BSIZE" unfolding layout_root_length g(2) using n(1) by (simp add: NDIRECT_LE NI_208 BSIZE_def)
  obtain t where t: "mkfs_file ROOTINO (name, Some cs) u = Ret () t"
    "fs_image ((layout (given xs))(ROOT := layout (given xs) ROOT @ dot_entry (word_of_nat ?n) (stored name), ?n := concat cs)) ((types (length xs))(?n := T_FILE)) t"
    "unat (freeinode t) = ?n + 1"
    by (rule mkfs_file_ok [OF u(2,3) n x(2) r x(3)]) (use snoc.prems ly g(1) in \<open>auto simp: files_ok_def intro: that\<close>)
  have "types (length (xs @ [x])) = (types (length xs))(?n := T_FILE)" using types_snoc [of "length xs"] by simp
  then have "fs_image (layout (given (xs @ [x]))) (types (length (xs @ [x]))) t" using t(2) unfolding g(1) ly by simp
  then show ?case using u(1) t(1,3) by (intro exI [of _ t]) (simp add: each_append x(1))
qed

subsection \<open>The last steps\<close>

text \<open>The root directory rounded up to whole blocks; its size must not be a multiple of the block size before.\<close>

definition rounded :: "nat \<Rightarrow> nat" where
  "rounded n = (n div BSIZE + 1) * BSIZE"

definition rounded_root :: "(nat \<Rightarrow> u8 list) \<Rightarrow> nat \<Rightarrow> u8 list" where
  "rounded_root F = F(ROOT := F ROOT @ replicate (rounded (length (F ROOT)) - length (F ROOT)) 0)"

lemma rounded_needs:
  assumes "n mod BSIZE \<noteq> 0" "n \<le> MAXFILE * BSIZE"
  shows "n < rounded n" "rounded n \<le> MAXFILE * BSIZE" "needs (rounded n) k = needs n k" "blocks (rounded n) = blocks n"
proof -
  define f r where fr: "f = n div 512" "r = n mod 512"
  have n: "n = 512 * f + r" "r < 512" "0 < r" using assms by (auto simp: fr BSIZE_def)
  then have n4: "f < 140" using assms(2) by (simp add: BSIZE_def NDIRECT_LE)
  have z: "rounded n = 512 * f + 512" by (simp add: rounded_def BSIZE_def fr)
  show "n < rounded n" "rounded n \<le> MAXFILE * BSIZE" using n n4 z by (simp_all add: NDIRECT_LE BSIZE_def)
  have "k * 512 < 512 * f + 512 \<longleftrightarrow> k < f + 1" "k * 512 < 512 * f + r \<longleftrightarrow> k < f + 1" using n(2,3) by (cases "k \<le> f"; simp)+
  moreover have "6144 < 512 * f + 512 \<longleftrightarrow> 6144 < 512 * f + r" using n(2,3) by (cases "12 \<le> f") auto
  ultimately show "needs (rounded n) k = needs n k" unfolding z needs_def using n(1) by (simp add: NDIRECT_LE BSIZE_def)
  have "(n + 511) div 512 = f + 1" "(rounded n + 511) div 512 = f + 1" using n z by (auto intro!: div_nat_eqI)
  moreover have "6144 < rounded n \<longleftrightarrow> 6144 < n" using z n by (cases "12 \<le> f") auto
  ultimately show "blocks (rounded n) = blocks n" by (simp add: blocks_def NDIRECT_LE BSIZE_def)
qed

lemma rounded_files:
  assumes h: "holds_files F D s" and z: "length (F ROOT) mod BSIZE \<noteq> 0"
  shows "holds_files (rounded_root F) D s" "length (rounded_root F ROOT) = rounded (length (F ROOT))"
proof -
  have R: "ROOT < NI" by (simp add: ROOT_def NI_208)
  have le: "length (F i) \<le> MAXFILE * BSIZE" if "i < NI" for i using h that by (simp add: holds_files_def)
  note r = rounded_needs [OF z le [OF R]]
  show l: "length (rounded_root F ROOT) = rounded (length (F ROOT))" using r(1) by (simp add: rounded_root_def)
  have o: "rounded_root F i = F i" if "i \<noteq> ROOT" for i using that by (simp add: rounded_root_def)
  have "sizes (rounded_root F) i k = sizes F i k" for i k using l r(3) o by (cases "i = ROOT") (simp_all add: sizes_def)
  then have sz: "sizes (rounded_root F) = sizes F" by (intro ext)
  have "blocks (length (rounded_root F i)) = blocks (length (F i))" for i using l r(4) o by (cases "i = ROOT") simp_all
  then have u: "used (rounded_root F) = used F" by (simp add: used_def)
  have p: "pad (rounded_root F i) q = pad (F i) q" for i q
  proof (cases "i = ROOT")
    case True
    then show ?thesis using r(1) by (auto simp: rounded_root_def pad_def nth_append)
  qed (simp add: o)
  have "length (rounded_root F i) \<le> MAXFILE * BSIZE" if "i < NI" for i using l r(2) o le [OF that] by (cases "i = ROOT") simp_all
  then show "holds_files (rounded_root F) D s" using h unfolding holds_files_def sz u p by blast
qed

lemma fix_root_ok:
  assumes m: "fs_image F T s" and z: "length (F ROOT) mod BSIZE \<noteq> 0" and R: "ROOT < unat (freeinode s)"
  obtains s' where "fix_root ROOTINO s = Ret () s'" "fs_image (rounded_root F) T s'" "freeinode s' = freeinode s"
proof -
  have i: "ROOT < NI" "ROOTINO = word_of_nat ROOT" by (simp_all add: ROOT_def NI_208 ROOTINO_def)
  let ?o = "(d_size (dino s ROOT) div word_of_nat BSIZE + 1) * word_of_nat BSIZE"
  let ?d = "(dino s ROOT)\<lparr>d_size := ?o\<rparr>"
  note h = rounded_files [OF imageD(1) [OF m] z]
  have le: "rounded (length (F ROOT)) \<le> MAXFILE * BSIZE" using h by (metis holds_files_def i(1))
  have "unat (d_size (dino s ROOT) div word_of_nat BSIZE) = length (F ROOT) div BSIZE"
    unfolding unat_div_distrib imageD(3) [OF m i(1)] by (simp add: BSIZE_def)
  then have ro: "unat ?o = rounded (length (F ROOT))"
    using le unfolding unat_word_ariths by (simp add: rounded_def BSIZE_def NDIRECT_LE)
  have o: "owned (sizes (rounded_root F)) (dino s) s" using h(1) by (simp add: holds_files_def)
  have len: "length (d_addrs ?d) = NDIRECT + 1" using ownedD(7) [OF o i(1)] by simp
  obtain s' where w: "winode (word_of_nat ROOT) ?d s = Ret () s'" "isb s' = isb s" "freeblock s' = freeblock s" "freeinode s' = freeinode s"
    "\<And>b. unat b < FSSIZE \<Longrightarrow> \<exists>d. sectors s' b = Some d \<and> length d = BSIZE" "\<And>c. unat c < 32 \<or> 58 \<le> unat c \<Longrightarrow> sec s' c = sec s c"
    "\<And>j. j < NI \<Longrightarrow> dino s' j = (if j = ROOT then ?d else dino s j)" by (rule winode_ok [OF o i(1) len]) (rule that)
  have "holds_files (rounded_root F) (dino s') s'"
  proof (rule holds_files_cong [OF h(1) w(2,3,5)])
    show "length (d_addrs (dino s' j)) = NDIRECT + 1" if "j < NI" for j using w(7) [OF that] len ownedD(7) [OF o that] by simp
    show "ia (dino s') s j k = ia (dino s) s j k" if "j < NI" "k \<le> MAXFILE" for j k
      using w(7) [OF that(1)] by (simp add: ia_def)
  qed (use w(6) in simp_all)
  moreover have "sec s' c = sec s c" if "unat c < 32 \<or> c = 58" for c using that w(6) [of c] by auto
  moreover have "unat (d_size (dino s' j)) = length (rounded_root F j) \<and> d_type (dino s' j) = T j" if "j < NI" for j
    using w(7) [OF that] ro h(2) imageD(3,4) [OF m that] by (auto simp: rounded_root_def)
  moreover have "rounded_root F j = [] \<and> T j = 0" if "j < NI" "unat (freeinode s') \<le> j" for j
    using that imageD(6) [OF m that(1)] R w(4) by (simp add: rounded_root_def)
  ultimately have "fs_image (rounded_root F) T s'" using imageD(5) [OF m] by (simp add: fs_image_def)
  moreover have "fix_root ROOTINO s = Ret () s'"
    using w(1) by (simp add: fix_root_def i(2) rinode_ok [OF imageD(2) [OF m] i(1)] Let_def)
  ultimately show ?thesis using that w(4) by blast
qed

lemma bitmap_bits:
  assumes "n \<le> 8 * length d"
  shows "length (fold (\<lambda>i buf. buf[i div 8 := or (buf ! (i div 8)) (bit_mask i)]) [0..<n] d) = length d \<and>
    (\<forall>c. bit_clear (fold (\<lambda>i buf. buf[i div 8 := or (buf ! (i div 8)) (bit_mask i)]) [0..<n] d) c \<longleftrightarrow> n \<le> c \<and> bit_clear d c)"
  using assms
proof (induction n)
  case (Suc n)
  let ?b = "fold (\<lambda>i buf. buf[i div 8 := or (buf ! (i div 8)) (bit_mask i)]) [0..<n] d"
  have IH: "length ?b = length d" "\<And>c. bit_clear ?b c \<longleftrightarrow> n \<le> c \<and> bit_clear d c" using Suc by simp_all
  have "n div 8 < length ?b" using Suc.prems IH(1) by simp
  note sb = set_bit_clear [OF this]
  show ?case using IH(1) by (auto simp: sb IH(2))
qed simp

text \<open>A finished image: the files, the super block, an empty log, and a map of free blocks that marks
  exactly the blocks before \<open>freeblock\<close>.\<close>

definition finished :: "(nat \<Rightarrow> u8 list) \<Rightarrow> (nat \<Rightarrow> u16) \<Rightarrow> img \<Rightarrow> bool" where
  "finished F T s \<longleftrightarrow> holds_files F (dino s) s \<and> (\<forall>i < NI. unat (d_size (dino s i)) = length (F i) \<and> d_type (dino s i) = T i) \<and>
     sec s 1 = sb_bytes mkfs_sb \<and> (\<forall>c. 2 \<le> unat c \<and> unat c < 32 \<longrightarrow> sec s c = replicate BSIZE 0) \<and>
     (\<forall>b < BPB. bit_clear (sec s 58) b \<longleftrightarrow> used F \<le> b)"

lemma balloc_mkfs_ok:
  assumes m: "fs_image F T s"
  obtains s' where "balloc_mkfs (unat (freeblock s)) s = Ret () s'" "finished F T s'"
proof (rule that)
  let ?n = "unat (freeblock s)"
  let ?b = "fold (\<lambda>i buf. buf[i div 8 := or (buf ! (i div 8)) (bit_mask i)]) [0..<?n] (replicate BSIZE 0)"
  let ?s = "wsect 58 ?b s"
  note o = imageD(2) [OF m]
  have n: "?n < BSIZE * 8" "?n = used F" using ownedD(5) [OF o] imageD(7) [OF m] by (simp_all add: FSSIZE_def BSIZE_def)
  have le: "?n \<le> 8 * length (replicate BSIZE (0 :: u8))" using n(1) by simp
  have b: "length ?b = BSIZE" "\<And>c. bit_clear ?b c \<longleftrightarrow> used F \<le> c \<and> bit_clear (replicate BSIZE 0) c"
    using bitmap_bits [OF le] n(2) by simp_all
  show "balloc_mkfs ?n s = Ret () ?s" using n(1) ownedD(1) [OF o] by (simp add: balloc_mkfs_def mkfs_sb_fields Let_def)
  have dino: "dino ?s i = dino s i" if "i < NI" for i
  proof -
    have "ib i \<noteq> 58" using ib_sector(2) [OF that] by auto
    then show ?thesis by (simp add: dino_def)
  qed
  have "holds_files F (dino ?s) ?s"
  proof (rule holds_files_cong [OF imageD(1) [OF m]])
    show "\<exists>d. sectors ?s c = Some d \<and> length d = BSIZE" if "unat c < FSSIZE" for c using ownedD(2,3) [OF o that] b(1) by simp
    show "sec ?s c = sec s c" if "59 \<le> unat c" for c using that by auto
  qed (use dino ownedD(7) [OF o] in \<open>simp_all add: ia_def\<close>)
  moreover have "sec ?s c = sec s c" if "unat c < 32" for c using that by auto
  moreover have "bit_clear (replicate BSIZE 0) c" if "c < BPB" for c using that by (simp add: bit_clear_def BPB_def BSIZE_def)
  ultimately show "finished F T ?s"
    using dino imageD(3-5) [OF m] b(2) unfolding finished_def by auto
qed

subsection \<open>The whole run\<close>

lemma layout_empty: "layout [] = (\<lambda>_. [])(ROOT := dot_entry 1 [DOT] @ dot_entry 1 [DOT, DOT])" "types 0 = (\<lambda>_. 0)(ROOT := T_DIR)"
  by (auto simp: layout_def types_def ROOT_def fun_eq_iff)

lemma mkfs_files_done:
  assumes f: "files_ok files"
  obtains s where "mkfs files = andthen (fix_root ROOTINO s) (\<lambda>_ s. balloc_mkfs (unat (freeblock s)) s)"
    "fs_image (layout (given files)) (types (length files)) s" "ROOT < unat (freeinode s)"
proof -
  have u: "used F \<le> FSSIZE" if "\<And>i. length (F i) \<le> length (layout [] i)" for F
  proof -
    have "length (layout [] i) \<le> length (layout (given files) i)" for i by (auto simp: layout_def)
    then have "used F \<le> used (layout (given files))" using that by (intro used_le) (meson order_trans)
    then show ?thesis using f by (simp add: files_ok_def)
  qed
  have R: "ROOT < NI" "ROOTINO = word_of_nat ROOT" by (simp_all add: ROOT_def NI_208 ROOTINO_def)
  have i1: "freeinode mkfs_init = ROOTINO" "unat ROOTINO = ROOT" by (simp_all add: mkfs_init_fields ROOTINO_def ROOT_def)
  obtain a where a: "ialloc_mkfs T_DIR mkfs_init = Ret ROOTINO a" "fs_image (\<lambda>_. []) (types 0) a" "unat (freeinode a) = ROOT + 1"
    by (rule ialloc_ok [OF mkfs_init_image, of T_DIR, unfolded i1, OF R(1)]) (rule that, simp_all only: layout_empty)
  let ?a = "dot_entry 1 [DOT]" and ?b = "dot_entry 1 [DOT, DOT]"
  have le: "length ((\<lambda>_. []) ROOT @ ?a) \<le> MAXFILE * BSIZE" "length (((\<lambda>_. [])(ROOT := ?a)) ROOT @ ?b) \<le> MAXFILE * BSIZE" by (simp_all add: NDIRECT_LE BSIZE_def)
  have u1: "used ((\<lambda>_. [])(ROOT := [] @ ?a)) \<le> FSSIZE" by (rule u) (auto simp: layout_empty)
  have eq: "((\<lambda>_. [])(ROOT := ?a))(ROOT := ((\<lambda>_. [])(ROOT := ?a)) ROOT @ ?b) = layout []" by (simp add: layout_empty fun_eq_iff)
  obtain b where b: "iappend (word_of_nat ROOT) ?a a = Ret () b" "fs_image ((\<lambda>_. [])(ROOT := ?a)) (types 0) b" "freeinode b = freeinode a"
    by (rule iappend_ok [OF a(2) R(1) _ le(1)]) (use u1 a(3) in \<open>auto intro: that\<close>)
  obtain c where c: "iappend (word_of_nat ROOT) ?b b = Ret () c" "fs_image (layout []) (types 0) c" "freeinode c = freeinode b"
    by (rule iappend_ok [OF b(2) R(1) _ le(2), unfolded eq]) (use u a(3) b(3) in \<open>auto intro: that\<close>)
  have c2: "unat (freeinode c) = 2" using a(3) b(3) c(3) by (simp add: ROOT_def)
  obtain d where d: "each (mkfs_file ROOTINO) files c = Ret () d" "fs_image (layout (given files)) (types (length files)) d" "unat (freeinode d) = length files + 2"
    using mkfs_files_ok [OF c(2) c2 f] by blast
  show ?thesis
  proof (rule that)
    show "mkfs files = andthen (fix_root ROOTINO d) (\<lambda>_ s. balloc_mkfs (unat (freeblock s)) s)"
      unfolding mkfs_def a(1) using b(1) c(1) d(1) R(2) by (simp add: ROOT_def ROOTINO_def)
  qed (use d(2,3) in \<open>simp_all add: ROOT_def\<close>)
qed

lemma given_root_length: "length (layout (given files) ROOT) = 16 * (length files + 2)"
  unfolding layout_root_length by (simp add: given_def)

lemma root_not_full: "length (layout (given files) ROOT) mod BSIZE = 0 \<longleftrightarrow> (length files + 2) mod 32 = 0"
proof -
  have "16 * (length files + 2) mod BSIZE = 16 * ((length files + 2) mod 32)"
    using mult_mod_right [of 16 "length files + 2" 32] by (simp add: BSIZE_def)
  then show ?thesis unfolding given_root_length by (metis mult_0_right mult_eq_0_iff zero_neq_numeral)
qed

lemma mkfs_finished:
  assumes f: "files_ok files" and r: "(length files + 2) mod 32 \<noteq> 0"
  obtains s where "mkfs files = Ret () s" "finished (rounded_root (layout (given files))) (types (length files)) s"
proof -
  obtain d where d: "mkfs files = andthen (fix_root ROOTINO d) (\<lambda>_ s. balloc_mkfs (unat (freeblock s)) s)"
    "fs_image (layout (given files)) (types (length files)) d" "ROOT < unat (freeinode d)" by (rule mkfs_files_done [OF f])
  have z: "length (layout (given files) ROOT) mod BSIZE \<noteq> 0" using r by (simp add: root_not_full)
  obtain e where e: "fix_root ROOTINO d = Ret () e" "fs_image (rounded_root (layout (given files))) (types (length files)) e"
    using fix_root_ok [OF d(2) z d(3)] by blast
  obtain g where g: "balloc_mkfs (unat (freeblock e)) e = Ret () g" "finished (rounded_root (layout (given files))) (types (length files)) g"
    using balloc_mkfs_ok [OF e(2)] by blast
  show ?thesis using that g d(1) e(1) by simp
qed

subsection \<open>The kernel on the image\<close>

text \<open>A kernel inside a transaction whose disk holds the image and which has read the super block, and a slot of its
  table of inodes that \<open>iget\<close> has taken for inode \<open>i\<close> and that has not been read yet.\<close>

definition mounted :: "img \<Rightarrow> 'a fs_st_scheme \<Rightarrow> bool" where
  "mounted s k \<longleftrightarrow> tx k \<and> held k = {} \<and> fsb k = sb_of (view k 1) \<and> FSSIZE \<le> unat (disksize k) \<and> (\<forall>b. unat b < FSSIZE \<longrightarrow> view k b = sec s b)"

definition fresh_slot :: "'a fs_st_scheme \<Rightarrow> nat \<Rightarrow> nat \<Rightarrow> bool" where
  "fresh_slot k ip i \<longleftrightarrow> ip < length (icache k) \<and> live (inode_at k ip) \<and> \<not> slocked (i_lock (inode_at k ip)) \<and> \<not> i_valid (inode_at k ip) \<and>
     i_dev (inode_at k ip) = 1 \<and> i_inum (inode_at k ip) = word_of_nat i"

lemma sb_round_trip: "sb_of (sb_bytes b) = b"
proof -
  let ?w = "[sb_size b, sb_nblocks b, sb_ninodes b, sb_nlog b, sb_logstart b, sb_inodestart b, sb_bmapstart b]"
  have "0 + 4 * length ?w \<le> length (replicate BSIZE (0 :: u8))" by (simp add: BSIZE_def)
  note g = get32_put32s(1) [OF this, folded sb_bytes_def]
  show ?thesis using g [of 0] g [of 1] g [of 2] g [of 3] g [of 4] g [of 5] g [of 6] by (simp add: sb_of_def)
qed

lemma mounted_geom:
  assumes f: "finished F T s" and k: "mounted s k"
  shows "geom k" "fsb k = mkfs_sb" "bmb k = 58" "fs_size k = 1000" "data_start k = 59" "unat b < 1000 \<Longrightarrow> allocated k b \<longleftrightarrow> unat b < used F"
proof -
  have v: "view k b = sec s b" if "unat b < 1000" for b using k that by (simp add: mounted_def FSSIZE_def)
  show sb: "fsb k = mkfs_sb" using k f v [of 1] by (simp add: mounted_def finished_def sb_round_trip)
  show c: "bmb k = 58" "fs_size k = 1000" "data_start k = 59" by (simp_all add: bmb_def fs_size_def data_start_def sb mkfs_sb_fields)
  show al: "allocated k b \<longleftrightarrow> unat b < used F" if "unat b < 1000" for b
    using f that v [of 58] unfolding allocated_def c finished_def by (auto simp: BPB_def BSIZE_def not_le)
  have "59 \<le> used F" by (simp add: used_def mkfs_consts)
  moreover have "1000 \<le> unat (disksize k)" using k by (simp add: mounted_def FSSIZE_def)
  ultimately show "geom k" unfolding geom_def c sb mkfs_sb_fields using al by (auto simp: BPB_def BSIZE_def IPB_def)
qed

lemma mounted_file:
  assumes f: "finished F T s" and k: "mounted s k" and ip: "ip < length (icache k)" "i < NINODES" "i_inum (inode_at k ip) = word_of_nat i" "i_dev (inode_at k ip) = 1"
    "i_addrs (inode_at k ip) = d_addrs (dino s i)" "i_size (inode_at k ip) = d_size (dino s i)"
  shows "fok ip k" "fdata k ip = F i"
proof -
  have h: "holds_files F (dino s) s" and sz: "unat (d_size (dino s i)) = length (F i)" using f ip(2) by (simp_all add: finished_def NINODES_def NI_208)
  then have o: "owned (sizes F) (dino s) s" and le: "length (F i) \<le> MAXFILE * BSIZE" and fb: "unat (freeblock s) = used F"
    using ip(2) by (auto simp: holds_files_def NINODES_def NI_208)
  have i: "i < NI" using ip(2) by (simp add: NINODES_def NI_208)
  have v: "view k b = sec s b" if "unat b < 1000" for b using k that by (simp add: mounted_def FSSIZE_def)
  have uF: "used F \<le> 1000" using ownedD(5) [OF o] fb by (simp add: FSSIZE_def)
  have lt: "59 \<le> unat (ia (dino s) s i l)" "unat (ia (dino s) s i l) < used F" if "l \<le> MAXFILE" "sizes F i l" for l
    using ownedD(9,10) [OF o i that] fb by simp_all
  have m: "ia (dino s) s i MAXFILE = d_addrs (dino s i) ! NDIRECT" using NDIRECT_LE(1) by (simp add: ia_def)
  have "view k (d_addrs (dino s i) ! NDIRECT) = sec s (d_addrs (dino s i) ! NDIRECT)" if "d_addrs (dino s i) ! NDIRECT \<noteq> 0"
    using that ownedD(8) [OF o i order_refl] lt(2) [OF order_refl] uF v unfolding m by simp
  then have a: "adr k ip l = ia (dino s) s i l" for l
    unfolding adr_def ia_def ip(5) Let_def by simp
  have nz: "adr k ip l \<noteq> 0 \<longleftrightarrow> sizes F i l" if "l \<le> MAXFILE" for l using ownedD(8) [OF o i that] by (simp add: a)
  note g = mounted_geom [OF f k]
  have ii: "unat (word_of_nat i :: u32) = i" using ip(2) by (intro unat_of_small) (simp add: NINODES_def)
  have "file_ok ip k"
    unfolding file_ok_def Let_def
  proof (intro conjI allI impI)
    show "length (i_addrs (inode_at k ip)) = NDIRECT + 1" using ownedD(7) [OF o i] ip(5) by simp
    show "unat (i_inum (inode_at k ip)) < unat (sb_ninodes (fsb k))" using ip(2,3) ii by (simp add: g(2) mkfs_sb_fields NINODES_def)
    show "unat (i_size (inode_at k ip)) \<le> MAXFILE * BSIZE" using sz le ip(6) by simp
    show "data_start k \<le> unat (adr k ip l)" "unat (adr k ip l) < fs_size k" "allocated k (adr k ip l)" if "l \<le> MAXFILE" "adr k ip l \<noteq> 0" for l
      using that nz [OF that(1)] lt [OF that(1)] g(4,5,6) uF by (simp_all add: a)
    show "j = l" if "j \<le> MAXFILE" "l \<le> MAXFILE" "adr k ip j = adr k ip l \<and> adr k ip l \<noteq> 0" for j l
      using that(3) nz [OF that(2)] ownedD(11) [OF o i that(2) i that(1)] by (auto simp: a)
    show "adr k ip l \<noteq> 0" if "l < MAXFILE" "l * BSIZE < unat (i_size (inode_at k ip))" for l
      using that nz [of l] sz ip(6) by (simp add: sizes_def needs_def)
  qed (rule ip(4))
  then show "fok ip k" using k g(1) ip(1) by (simp add: fok_def mounted_def)
  have "fbyte k ip q = F i ! q" if "q < length (F i)" for q
  proof -
    note n = sizes_byte [of q F i, OF that le]
    have "fbyte k ip q = ibyte (dino s) s i q"
      unfolding fbyte_def ibyte_def a using v lt(2) [of "q div BSIZE"] n uF by simp
    also have "\<dots> = pad (F i) q" using h i n by (simp add: holds_files_def)
    finally show ?thesis using that by (simp add: pad_def)
  qed
  then show "fdata k ip = F i" by (intro nth_equalityI) (simp_all add: fdata_def ip(6) sz)
qed

lemma mounted_ilock:
  assumes f: "finished F T s" and k: "mounted s k" and ip: "fresh_slot k ip i" and i: "i < NINODES" "T i \<noteq> 0"
  obtains t where "ilock ip k = Ret () t" "mounted s t" "fok ip t" "fdata t ip = F i" "i_type (inode_at t ip) = T i"
proof -
  note p = ip [unfolded fresh_slot_def] and g = mounted_geom [OF f k]
  have iN: "i < NI" using i(1) by (simp add: NINODES_def NI_208)
  have "unat (word_of_nat i :: u32) = i" using i(1) by (intro unat_of_small) (simp add: NINODES_def)
  then have n: "unat (i_inum (inode_at k ip)) < unat (sb_ninodes (fsb k))" using p i(1) by (simp add: g(2) mkfs_sb_fields NINODES_def)
  have tx: "tx k" "held k = {}" using k by (simp_all add: mounted_def)
  have ib: "iblk k ip = ib i" "ioff (i_inum (inode_at k ip)) = 64 * (i mod 8)" using p IBLOCK_ib [OF iN] by (simp_all add: iblk_def g(2))
  have di: "dinode_of (view k (iblk k ip)) (ioff (i_inum (inode_at k ip))) = dino s i"
    unfolding ib dino_def using k ib_sector(1) [OF iN] by (simp add: mounted_def)
  obtain t lk where t: "ilock ip k = (if d_type (dino s i) = 0 then Panic ''ilock: no type'' t else Ret () t)"
    "tx t" "view t = view k" "dirty t = dirty k" "held t = {}" "fsb t = fsb k" "slocked lk"
    "inode_at t = (inode_at k)(ip := (load_inode (dino s i) (inode_at k ip))\<lparr>i_lock := lk, i_valid := True\<rparr>)"
    "disksize t = disksize k" "length (icache t) = length (icache k)"
    by (rule ilock_load [OF tx(1) g(1) tx(2), of ip, unfolded di]) (use p n in \<open>auto intro: that\<close>)
  have ty: "d_type (dino s i) = T i" using f iN by (simp add: finished_def)
  have mt: "mounted s t" using k t(2,3,5,6,9) by (simp add: mounted_def)
  have "fok ip t" "fdata t ip = F i" using mounted_file [OF f mt _ i(1), of ip] t(8,10) p by (simp_all add: load_inode_def)
  then show ?thesis using that [of t] t(1,8) mt ty i(2) by (simp add: load_inode_def)
qed

end
