(* ===== verification/Mkfs_Read.thy ===== *)
theory Mkfs_Read
  imports Mkfs_Boot
begin

text \<open>
  The round trip from the files given to \<open>mkfs\<close> to what the kernel reads, and the hole \<open>mkfs\<close> leaves in a
  root directory that fills its last block.
\<close>

subsection \<open>The root directory\<close>

lemma dot_entry_fields: "get16 (dot_entry i n) 0 = ucast i" "drop 2 (dot_entry i n) = name_field n"
proof -
  have "length (0 # 0 # name_field n) = 16" by (simp add: name_field_def DIRSIZ_def)
  then show "get16 (dot_entry i n) 0 = ucast i" by (simp add: dot_entry_def)
  show "drop 2 (dot_entry i n) = name_field n" by (simp add: dot_entry_def put16_def numeral_2_eq_2)
qed

lemma hit_dot_entry: "hit m (dot_entry i n) \<longleftrightarrow> (ucast i :: u16) \<noteq> 0 \<and> key n = m"
  by (simp add: hit_def dot_entry_fields key_name_field)

lemma entries_Cons:
  assumes "length e = 16"
  shows "entries (e @ d) = e # entries d"
proof -
  have "length (e @ d) div 16 = Suc (length d div 16)" using assms by simp
  then show ?thesis using assms by (simp add: entries_def upt_conv_Cons flip: map_Suc_upt del: upt_Suc)
qed

lemma entries_concat: "(\<And>e. e \<in> set es \<Longrightarrow> length e = 16) \<Longrightarrow> entries (concat es @ d) = es @ entries d"
  by (induction es) (simp_all add: entries_Cons)

text \<open>The names of the directory, in order, with the number of their inode.\<close>

definition root_names :: "(u8 list \<times> u8 list) list \<Rightarrow> (u8 list \<times> u32) list" where
  "root_names fs = ([DOT], 1) # ([DOT, DOT], 1) # map (\<lambda>n. (fst (fs ! n), word_of_nat (n + 2))) [0..<length fs]"

lemma layout_root: "layout fs ROOT = concat (map (\<lambda>(n, i). dot_entry i n) (root_names fs))"
  by (simp add: layout_def root_names_def comp_def)

lemma root_lookup:
  assumes d: "distinct (map (key \<circ> fst) (root_names fs))" and n: "(n, i) \<in> set (root_names fs)" "(ucast i :: u16) \<noteq> 0"
  shows "dir_map (rounded_root (layout fs) ROOT) (key n) = Some (ucast i)"
proof -
  let ?es = "map (\<lambda>(n, i). dot_entry i n) (root_names fs)"
  obtain j where j: "j < length (root_names fs)" "root_names fs ! j = (n, i)" using n(1) by (auto simp: in_set_conv_nth)
  have "key (fst (root_names fs ! l)) \<noteq> key n" if "l < j" for l
    using d that j nth_eq_iff_index_eq [OF d, of l j] by simp
  then have f: "find (hit (key n)) ?es = Some (dot_entry i n)"
    unfolding find_Some_iff using j n(2) by (intro exI [of _ j]) (auto simp: hit_dot_entry split_beta)
  have "find P (xs @ ys) = Some x" if "find P xs = Some x" for P :: "u8 list \<Rightarrow> bool" and xs ys x
    using that by (induction xs) (auto split: if_splits)
  note fa = this [OF f]
  have "entries (rounded_root (layout fs) ROOT) = ?es @ entries (replicate (rounded (length (layout fs ROOT)) - length (layout fs ROOT)) 0)"
    unfolding rounded_root_def fun_upd_same layout_root by (rule entries_concat) auto
  then show ?thesis unfolding dir_map_def by (simp add: fa dot_entry_fields)
qed

subsection \<open>From the command line to the kernel\<close>

text \<open>The names the files get, none of them twice and none of them \<open>.\<close> or \<open>..\<close>, as far as the directory keeps them.\<close>

definition names_ok :: "(u8 list \<times> u8 list list option) list \<Rightarrow> bool" where
  "names_ok files \<longleftrightarrow> distinct ([DOT] # [DOT, DOT] # map (\<lambda>(name, _). key (stored name)) files)"

lemma names_ok_root: "names_ok files \<longleftrightarrow> distinct (map (key \<circ> fst) (root_names (given files)))"
proof -
  have "map (\<lambda>n. key (fst (given files ! n))) [0..<length files] = map (\<lambda>(name, _). key (stored name)) files"
    by (intro nth_equalityI) (auto simp: given_def split_beta)
  moreover have "key [DOT] = [DOT]" "key [DOT, DOT] = [DOT, DOT]" by (simp_all add: key_def DIRSIZ_def DOT_def)
  ultimately show ?thesis by (simp add: names_ok_def root_names_def comp_def given_def)
qed

lemma given_nth: "j < length files \<Longrightarrow> given files ! j = (stored (fst (files ! j)), concat (the (snd (files ! j))))"
  by (simp add: given_def split_beta)

lemma used_rounded: "length (F ROOT) mod BSIZE \<noteq> 0 \<Longrightarrow> length (F ROOT) \<le> MAXFILE * BSIZE \<Longrightarrow> used (rounded_root F) = used F"
proof -
  assume a: "length (F ROOT) mod BSIZE \<noteq> 0" "length (F ROOT) \<le> MAXFILE * BSIZE"
  have "blocks (length (rounded_root F i)) = blocks (length (F i))" for i
    using rounded_needs(1,4) [OF a] by (auto simp: rounded_root_def)
  then show ?thesis by (simp add: used_def)
qed

lemma mkfs_mounted:
  assumes f: "files_ok files" and r: "(length files + 2) mod 32 \<noteq> 0" and d: "names_ok files"
    and s: "finished (rounded_root (layout (given files))) (types (length files)) s" and k: "mounted s k"
  shows "geom k" "free_blocks k = {b. used (layout (given files)) \<le> unat b \<and> unat b < FSSIZE}"
    "fresh_slot k ip ROOT \<Longrightarrow> \<exists>t. ilock ip k = Ret () t \<and> dir_ok ip t \<and>
       (\<forall>j < length files. dir_map (fdata t ip) (key (stored (fst (files ! j)))) = Some (word_of_nat (j + 2)))"
    "fresh_slot k ip (j + 2) \<Longrightarrow> j < length files \<Longrightarrow> c = concat (the (snd (files ! j))) \<Longrightarrow>
       \<exists>t u. ilock ip k = Ret () t \<and> readi dt ip 0 (word_of_nat (length c)) t = Ret (word_of_nat (length c), c) u"
proof -
  let ?F = "layout (given files)"
  have len: "length (given files) = length files" by (simp add: given_def)
  have n: "length files + 2 \<le> 200" using f by (simp add: files_ok_def NINODES_def)
  have z: "length (?F ROOT) mod BSIZE \<noteq> 0" using r by (simp add: root_not_full)
  have rM: "length (?F ROOT) \<le> MAXFILE * BSIZE" using n by (simp add: given_root_length NDIRECT_LE BSIZE_def)
  note g = mounted_geom [OF s k, unfolded used_rounded [where F = ?F, OF z rM]]
  show "geom k" by (rule g(1))
  show "free_blocks k = {b. used ?F \<le> unat b \<and> unat b < FSSIZE}" using g(4,6) by (auto simp: free_blocks_def FSSIZE_def not_less)
  have c14: "ucast (word_of_nat (l + 2) :: u32) = (word_of_nat (l + 2) :: u16)" "(word_of_nat (l + 2) :: u16) \<noteq> 0" if "l < length files" for l
  proof -
    have "unat (word_of_nat (l + 2) :: u16) = l + 2" using that n unfolding unat_of_nat by simp
    then show "(word_of_nat (l + 2) :: u16) \<noteq> 0" by auto
    define m where "m = l + 2"
    have "m < 2 ^ 16" using that n by (simp add: m_def)
    then show "ucast (word_of_nat (l + 2) :: u32) = (word_of_nat (l + 2) :: u16)"
      unfolding m_def [symmetric] word_unat_eq_iff unsigned_ucast_eq unat_of_nat by (simp add: take_bit_nat_def)
  qed
  show "\<exists>t. ilock ip k = Ret () t \<and> dir_ok ip t \<and> (\<forall>j < length files. dir_map (fdata t ip) (key (stored (fst (files ! j)))) = Some (word_of_nat (j + 2)))"
    if sl: "fresh_slot k ip ROOT"
  proof -
    have ty: "types (length files) ROOT = T_DIR" "T_DIR \<noteq> 0" by (simp_all add: types_def T_DIR_def)
    have RN: "ROOT < NINODES" by (simp add: ROOT_def NINODES_def)
    obtain t where t: "ilock ip k = Ret () t" "fok ip t" "fdata t ip = rounded_root ?F ROOT" "i_type (inode_at t ip) = T_DIR"
      using mounted_ilock [OF s k sl RN] ty by auto
    have "unat (i_size (inode_at t ip)) = rounded (length (?F ROOT))"
      using arg_cong [OF t(3), of length] rounded_needs(1) [OF z rM] by (simp add: fdata_def rounded_root_def)
    then have "dir_ok ip t" using t(2,4) by (simp add: dir_ok_def rounded_def BSIZE_def)
    moreover have "dir_map (fdata t ip) (key (stored (fst (files ! j)))) = Some (word_of_nat (j + 2))" if "j < length files" for j
    proof -
      have "(stored (fst (files ! j)), word_of_nat (j + 2)) \<in> set (root_names (given files))"
        using that by (auto simp: root_names_def given_nth len)
      from root_lookup [OF d [unfolded names_ok_root] this] show ?thesis unfolding t(3) using c14 [OF that] by simp
    qed
    ultimately show ?thesis using t(1) by blast
  qed
  show "\<exists>t u. ilock ip k = Ret () t \<and> readi dt ip 0 (word_of_nat (length c)) t = Ret (word_of_nat (length c), c) u"
    if sl: "fresh_slot k ip (j + 2)" and j: "j < length files" and c: "c = concat (the (snd (files ! j)))"
  proof -
    have ty: "types (length files) (j + 2) = T_FILE" "T_FILE \<noteq> 0" "T_FILE \<noteq> T_DEV" using j by (simp_all add: types_def ROOT_def T_FILE_def T_DEV_def)
    have jN: "j + 2 < NINODES" using j n by (simp add: NINODES_def)
    have Fj: "rounded_root ?F (j + 2) = c" using j by (simp add: rounded_root_def layout_def ROOT_def len given_nth c)
    obtain t where t: "ilock ip k = Ret () t" "fok ip t" "fdata t ip = c" "i_type (inode_at t ip) = T_FILE"
      using mounted_ilock [OF s k sl jN] ty Fj by auto
    have z: "unat (i_size (inode_at t ip)) = length c" using arg_cong [OF t(3), of length] by (simp add: fdata_def)
    have w: "i_size (inode_at t ip) = word_of_nat (length c)" unfolding z [symmetric] by simp
    have "unat (0 :: u32) + unat (i_size (inode_at t ip)) < 2 ^ 32" using fokD(7) [OF t(2)] by (simp add: NDIRECT_LE BSIZE_def)
    from readi_ok [OF t(2) _ _ this, of dt] obtain u where "readi dt ip 0 (i_size (inode_at t ip)) t = Ret (i_size (inode_at t ip), c) u"
      using t(3,4) ty z by auto
    then show ?thesis using t(1) unfolding w by blast
  qed
qed

text \<open>C9. What \<open>mkfs\<close> puts into an image, the kernel reads back.  If the files can be read, have different names and
  fit, \<open>mkfs\<close> ends without a failed assertion.  A kernel that has the image as its disk finds the layout it expects and as free
  exactly the blocks \<open>mkfs\<close> did not use; locking the root directory gives a directory in which every file has its inode;
  locking that inode and reading it gives the bytes of the file.\<close>

theorem mkfs_kernel_reads:
  assumes "files_ok files" "(length files + 2) mod 32 \<noteq> 0" "names_ok files"
  shows "\<exists>s. mkfs files = Ret () s \<and> (\<forall>k :: 'a fs_st_scheme. mounted s k \<longrightarrow>
      geom k \<and> free_blocks k = {b. used (layout (given files)) \<le> unat b \<and> unat b < FSSIZE} \<and>
      (\<forall>ip. fresh_slot k ip ROOT \<longrightarrow> (\<exists>t. ilock ip k = Ret () t \<and> dir_ok ip t \<and>
         (\<forall>j < length files. dir_map (fdata t ip) (key (stored (fst (files ! j)))) = Some (word_of_nat (j + 2))))) \<and>
      (\<forall>ip j c. fresh_slot k ip (j + 2) \<and> j < length files \<and> c = concat (the (snd (files ! j))) \<longrightarrow>
         (\<exists>t u. ilock ip k = Ret () t \<and> readi dt ip 0 (word_of_nat (length c)) t = Ret (word_of_nat (length c), c) u)))"
proof -
  obtain s where s: "mkfs files = Ret () s" "finished (rounded_root (layout (given files))) (types (length files)) s"
    by (rule mkfs_finished [OF assms(1,2)])
  note m = mkfs_mounted [OF assms s(2)]
  show ?thesis
    by (intro exI [of _ s] conjI allI impI; (elim conjE)?) (fact s(1) m(1) m(2) | erule (1) m(3) | erule (3) m(4))+
qed

subsection \<open>An example\<close>

definition boot_fs :: "u32 \<Rightarrow> img \<Rightarrow> fs_st" where
  "boot_fs inum s = boot_cache \<lparr>disk = (\<lambda>b. if unat b < FSSIZE then sec s b else replicate BSIZE 0),
     disksize = 1000, dwrites = [], bufs = [], mru = [], curpid = 1, lstart = 2, lsize = 30, outstanding = 1, committing = False,
     ldev = 1, lh_n = 0, lh_block = replicate LOGSIZE 0, fsb = mkfs_sb,
     icache = [demo_inode\<lparr>i_inum := inum, i_valid := False, i_lock := initsleeplock\<rparr>], cwd = 0\<rparr>"

lemma boot_fs_mounted:
  assumes "finished F T s"
  shows "mounted s (boot_fs inum s)"
proof -
  have o: "owned (sizes F) (dino s) s" using assms by (simp add: finished_def holds_files_def)
  let ?s = "\<lparr>disk = (\<lambda>b. if unat b < FSSIZE then sec s b else replicate BSIZE 0),
     disksize = 1000, dwrites = [], bufs = [], mru = [], curpid = 1, lstart = 2, lsize = 30, outstanding = 1, committing = False,
     ldev = 1, lh_n = 0, lh_block = replicate LOGSIZE 0, fsb = mkfs_sb,
     icache = [demo_inode\<lparr>i_inum := inum, i_valid := False, i_lock := initsleeplock\<rparr>], cwd = 0\<rparr>"
  have l: "length (disk ?s no) = BSIZE" for no using ownedD(3) [OF o, of no] by simp
  note b = boot_cache_inv [of ?s, OF l, folded boot_fs_def]
  have v: "dirty (boot_fs inum s) = {}" "held (boot_fs inum s) = {}" "view (boot_fs inum s) = (\<lambda>b. if unat b < FSSIZE then sec s b else replicate BSIZE 0)"
    using arg_cong [OF b(2), of adirty] arg_cong [OF b(2), of aheld] arg_cong [OF b(2), of aview] by (simp_all add: absc_fields)
  have "tx (boot_fs inum s)" using b(1) v(1) by (simp add: tx_def boot_fs_def boot_cache_eq logged_def LOGSIZE_def word_sle_eq)
  moreover have "fsb (boot_fs inum s) = sb_of (view (boot_fs inum s) 1)"
    using assms by (simp add: v(3) FSSIZE_def finished_def sb_round_trip) (simp add: boot_fs_def boot_cache_eq)
  moreover have "disksize (boot_fs inum s) = 1000" by (simp add: boot_fs_def boot_cache_eq)
  ultimately show ?thesis using v by (simp add: mounted_def FSSIZE_def)
qed

lemma small_files_fit: "(\<And>i. i < NI \<Longrightarrow> length (F i) \<le> BSIZE) \<Longrightarrow> used F \<le> 267"
proof -
  assume a: "\<And>i. i < NI \<Longrightarrow> length (F i) \<le> BSIZE"
  have "blocks BSIZE = 1" by (simp add: blocks_def NDIRECT_LE BSIZE_def)
  then have "(\<Sum>i<NI. blocks (length (F i))) \<le> (\<Sum>i<NI. 1)" using a by (intro sum_mono) (metis blocks_mono lessThan_iff)
  then show ?thesis by (simp add: used_def mkfs_consts NI_208)
qed

definition demo_files :: "(u8 list \<times> u8 list list option) list" where
  "demo_files = [([95, 97], Some [[1, 2], [3]]), ([98], Some [])]"

lemma demo_files_ok: "files_ok demo_files" "(length demo_files + 2) mod 32 \<noteq> 0" "names_ok demo_files" "used (layout (given demo_files)) \<le> 267"
proof -
  have g: "given demo_files = [([97], [1, 2, 3]), ([98], [])]"
    by (simp add: given_def demo_files_def stored_def chr_at_def UNDERSCORE_def)
  have "length (layout (given demo_files) i) \<le> BSIZE" for i
    using layout_root_length [of "given demo_files"] unfolding g by (auto simp: layout_def BSIZE_def nth_Cons')
  then show u: "used (layout (given demo_files)) \<le> 267" by (rule small_files_fit)
  then show "files_ok demo_files" by (simp add: files_ok_def FSSIZE_def) (simp add: demo_files_def SLASH_def MAXFILE_def NDIRECT_def BSIZE_def NINODES_def)
  show "names_ok demo_files"
    by (simp add: names_ok_def demo_files_def stored_def chr_at_def UNDERSCORE_def key_def DIRSIZ_def DOT_def)
qed (simp add: demo_files_def)

theorem mkfs_kernel_reads_witness:
  "\<exists>s t u. mkfs demo_files = Ret () s \<and> free_blocks (boot_fs 2 s) \<noteq> {} \<and> ilock 0 (boot_fs 2 s) = Ret () t \<and>
     readi (\<lambda>_. \<lparr>dev_read = None, dev_write = None\<rparr>) 0 0 3 t = Ret (3, [1, 2, 3]) u"
proof -
  obtain s where s: "mkfs demo_files = Ret () s" "finished (rounded_root (layout (given demo_files))) (types (length demo_files)) s"
    by (rule mkfs_finished [OF demo_files_ok(1,2)])
  note m = boot_fs_mounted [OF s(2), of 2]
  have sl: "fresh_slot (boot_fs 2 s) 0 (0 + 2)"
    by (simp add: fresh_slot_def boot_fs_def boot_cache_eq inode_at_def demo_inode_def live_def initsleeplock_def word_sless_alt)
  have c: "concat (the (snd (demo_files ! 0))) = [1, 2, 3]" "0 < length demo_files" by (simp_all add: demo_files_def)
  have fr: "(999 :: u32) \<in> {b. used (layout (given demo_files)) \<le> unat b \<and> unat b < FSSIZE}" using demo_files_ok(4) by (simp add: FSSIZE_def)
  let ?dt = "\<lambda>_. \<lparr>dev_read = None, dev_write = None\<rparr>"
  from mkfs_kernel_reads [OF demo_files_ok(1-3), where 'a = unit and dt = ?dt] s(1) m
  have k: "free_blocks (boot_fs 2 s) = {b. used (layout (given demo_files)) \<le> unat b \<and> unat b < FSSIZE}"
    "\<And>ip j c. fresh_slot (boot_fs 2 s) ip (j + 2) \<and> j < length demo_files \<and> c = concat (the (snd (demo_files ! j))) \<Longrightarrow>
         \<exists>t u. ilock ip (boot_fs 2 s) = Ret () t \<and> readi ?dt ip 0 (word_of_nat (length c)) t = Ret (word_of_nat (length c), c) u"
    by auto
  have "free_blocks (boot_fs 2 s) \<noteq> {}" unfolding k(1) using fr by blast
  then show ?thesis using s(1) k(2) [of 0 0 "[1, 2, 3]"] sl c by auto
qed

subsection \<open>A full root directory\<close>

text \<open>C38. When the entries of the root directory fill its last block exactly, \<open>mkfs\<close> still rounds its size up to the next
  multiple of the block size: the directory it leaves is one block longer than the blocks it has, and the address of that
  last block is zero.\<close>

theorem mkfs_root_hole:
  assumes f: "files_ok files" and r: "(length files + 2) mod 32 = 0"
  shows "\<exists>s. mkfs files = Ret () s \<and> unat (d_size (dino s ROOT)) = 16 * (length files + 2) + BSIZE \<and>
    d_addrs (dino s ROOT) ! ((length files + 2) div 32) = 0"
proof -
  let ?n = "length files + 2" and ?F = "layout (given files)"
  obtain d where d: "mkfs files = andthen (fix_root ROOTINO d) (\<lambda>_ s. balloc_mkfs (unat (freeblock s)) s)"
    "fs_image ?F (types (length files)) d" "ROOT < unat (freeinode d)" by (rule mkfs_files_done [OF f])
  have i: "ROOT < NI" "ROOTINO = word_of_nat ROOT" by (simp_all add: ROOT_def NI_208 ROOTINO_def)
  note o = imageD(2) [OF d(2)]
  let ?o = "(d_size (dino d ROOT) div word_of_nat BSIZE + 1) * word_of_nat BSIZE"
  let ?d = "(dino d ROOT)\<lparr>d_size := ?o\<rparr>"
  have n: "?n \<le> 200" using f by (simp add: files_ok_def NINODES_def)
  obtain m where m: "?n = 32 * m" using r by (auto elim: dvdE)
  have sz: "unat (d_size (dino d ROOT)) = 512 * m" using imageD(3) [OF d(2) i(1)] m unfolding given_root_length by simp
  have "unat (d_size (dino d ROOT) div word_of_nat BSIZE) = m" unfolding unat_div_distrib sz by (simp add: BSIZE_def)
  then have ro: "unat ?o = 512 * m + 512" using n m unfolding unat_word_ariths by (simp add: BSIZE_def)
  have len: "length (d_addrs ?d) = NDIRECT + 1" using ownedD(7) [OF o i(1)] by simp
  obtain e where e: "winode (word_of_nat ROOT) ?d d = Ret () e" "isb e = isb d" "freeblock e = freeblock d" "freeinode e = freeinode d"
    "\<And>b. unat b < FSSIZE \<Longrightarrow> \<exists>x. sectors e b = Some x \<and> length x = BSIZE" "\<And>c. unat c < 32 \<or> 58 \<le> unat c \<Longrightarrow> sec e c = sec d c"
    "\<And>j. j < NI \<Longrightarrow> dino e j = (if j = ROOT then ?d else dino d j)" by (rule winode_ok [OF o i(1) len]) (rule that)
  have fx: "fix_root ROOTINO d = Ret () e" using e(1) by (simp add: fix_root_def i(2) rinode_ok [OF o i(1)] Let_def)
  let ?b = "fold (\<lambda>i buf. buf[i div 8 := or (buf ! (i div 8)) (bit_mask i)]) [0..<unat (freeblock e)] (replicate BSIZE 0)"
  have "unat (freeblock e) < BSIZE * 8" "isb e = mkfs_sb" using ownedD(1,5) [OF o] e(2,3) by (simp_all add: FSSIZE_def BSIZE_def)
  then have mk: "mkfs files = Ret () (wsect 58 ?b e)" unfolding d(1) fx by (simp add: balloc_mkfs_def mkfs_sb_fields Let_def)
  have "ib ROOT \<noteq> 58" using ib_sector(2) [OF i(1)] by auto
  then have di: "dino (wsect 58 ?b e) ROOT = ?d" using e(7) [OF i(1)] by (simp add: dino_def)
  have "\<not> sizes ?F ROOT m" using m n by (simp add: sizes_def needs_def given_root_length NDIRECT_LE BSIZE_def)
  moreover have "m < NDIRECT" "m \<le> MAXFILE" using m n by (simp_all add: NDIRECT_LE)
  ultimately have "d_addrs (dino d ROOT) ! m = 0" using ownedD(8) [OF o i(1), of m] by (simp add: ia_def)
  moreover have "?n div 32 = m" "16 * ?n = 512 * m" using m by simp_all
  ultimately show ?thesis using mk di ro by (intro exI [of _ "wsect 58 ?b e"]) (simp add: BSIZE_def)
qed

theorem mkfs_root_hole_witness:
  "\<exists>s. mkfs (replicate 30 ([97], Some [])) = Ret () s \<and> unat (d_size (dino s ROOT)) = 1024 \<and> d_addrs (dino s ROOT) ! 1 = 0"
proof -
  let ?f = "replicate 30 ([97], Some []) :: (u8 list \<times> u8 list list option) list"
  have g: "given ?f = replicate 30 ([97], [])" by (simp add: given_def stored_def chr_at_def UNDERSCORE_def map_replicate)
  have "length (layout (given ?f) i) \<le> BSIZE" for i
    using layout_root_length [of "given ?f"] unfolding g by (cases "i = ROOT") (auto simp: layout_def BSIZE_def)
  then have "used (layout (given ?f)) \<le> FSSIZE" using small_files_fit [of "layout (given ?f)"] by (simp add: FSSIZE_def)
  then have "files_ok ?f" by (simp add: files_ok_def SLASH_def NINODES_def)
  from mkfs_root_hole [OF this] show ?thesis by (simp add: BSIZE_def)
qed

end
