(* ===== verification/Umalloc.thy ===== *)
theory Umalloc
  imports Memory
begin

text \<open>
  The memory allocator of user programs (src/umalloc.c).  Headers and free list live in the bytes of the
  process, as in the source; a pointer to a header counts in units of eight bytes.  \<open>base\<close> is the address of
  the static variable of that name.  \<open>sbrk\<close> is the system call (sys_sbrk and growproc of the kernel); whether
  the kernel has the pages for a larger memory is the argument \<open>grant\<close>.
\<close>

record umem =
  ubytes :: mem
  base :: u32
  freep :: u32
  brk :: u32

definition hptr :: "umem \<Rightarrow> u32 \<Rightarrow> u32" where "hptr s p = load32 (ubytes s) p"
definition hsize :: "umem \<Rightarrow> u32 \<Rightarrow> u32" where "hsize s p = load32 (ubytes s) (p + 4)"
definition set_hptr :: "u32 \<Rightarrow> u32 \<Rightarrow> umem \<Rightarrow> umem" where "set_hptr p v s = s\<lparr>ubytes := store32 p v (ubytes s)\<rparr>"
definition set_hsize :: "u32 \<Rightarrow> u32 \<Rightarrow> umem \<Rightarrow> umem" where "set_hsize p v s = s\<lparr>ubytes := store32 (p + 4) v (ubytes s)\<rparr>"

text \<open>The loop of \<open>free\<close>: the node after which the block belongs.  The result \<open>None\<close> means that it never ends.\<close>

partial_function (option) free_loop :: "u32 \<Rightarrow> u32 \<Rightarrow> umem \<Rightarrow> u32 option" where
  "free_loop bp p s =
     (let q = hptr s p in
      if p < bp \<and> bp < q then Some p
      else if q \<le> p \<and> (p < bp \<or> bp < q) then Some p
      else free_loop bp q s)"

definition join_next :: "u32 \<Rightarrow> u32 \<Rightarrow> umem \<Rightarrow> umem" where
  "join_next bp p s =
     (if bp + 8 * hsize s bp = hptr s p then
        let s = set_hsize bp (hsize s bp + hsize s (hptr s p)) s in
        set_hptr bp (hptr s (hptr s p)) s
      else set_hptr bp (hptr s p) s)"

definition join_prev :: "u32 \<Rightarrow> u32 \<Rightarrow> umem \<Rightarrow> umem" where
  "join_prev bp p s =
     (if p + 8 * hsize s p = bp then
        let s = set_hsize p (hsize s p + hsize s bp) s in
        set_hptr p (hptr s bp) s
      else set_hptr p bp s)"

definition free :: "u32 \<Rightarrow> umem \<Rightarrow> umem option" where
  "free ap s =
     (let bp = ap - 8 in
      case free_loop bp (freep s) s of
        None \<Rightarrow> None
      | Some p \<Rightarrow> Some ((join_prev bp p (join_next bp p s))\<lparr>freep := p\<rparr>))"

text \<open>The memory of a process ends below \<open>KERNBASE\<close>.  A request that wraps around leaves it as it is, a
  negative one gives memory back.  The pages of a larger memory are new ones, and the kernel clears them.\<close>

definition USERTOP :: u32 where "USERTOP = 0x80000000"

definition fresh_pages :: "u32 \<Rightarrow> u32 \<Rightarrow> mem \<Rightarrow> mem" where
  "fresh_pages oldsz newsz m =
     (\<lambda>a. if (unat oldsz + 4095) div 4096 \<le> unat a div 4096 \<and> unat a div 4096 < (unat newsz + 4095) div 4096 then 0 else m a)"

definition sbrk :: "(u32 \<Rightarrow> umem \<Rightarrow> bool) \<Rightarrow> i32 \<Rightarrow> umem \<Rightarrow> u32 \<times> umem" where
  "sbrk grant n s =
     (let newsz = brk s + n in
      if 0 <s n then
        if USERTOP \<le> newsz then (-1, s)
        else if newsz < brk s then (brk s, s)
        else if grant n s then (brk s, s\<lparr>ubytes := fresh_pages (brk s) newsz (ubytes s), brk := newsz\<rparr>)
        else (-1, s)
      else if n <s 0 then
        let sz = (if brk s \<le> newsz then brk s else newsz) in
        if sz = 0 then (-1, s) else (brk s, s\<lparr>brk := sz\<rparr>)
      else (brk s, s))"

definition morecore :: "(u32 \<Rightarrow> umem \<Rightarrow> bool) \<Rightarrow> u32 \<Rightarrow> umem \<Rightarrow> (u32 \<times> umem) option" where
  "morecore grant nu s =
     (let nu = (if nu < 4096 then 4096 else nu) in
      case sbrk grant (nu * 8) s of (p, s) \<Rightarrow>
        if p = -1 then Some (0, s)
        else
          let s = set_hsize p nu s in
          case free (p + 8) s of None \<Rightarrow> None | Some s \<Rightarrow> Some (freep s, s))"

text \<open>A block that is large enough: all of it, or its tail.\<close>

definition take_units :: "u32 \<Rightarrow> u32 \<Rightarrow> u32 \<Rightarrow> umem \<Rightarrow> u32 \<times> umem" where
  "take_units nunits prevp p s =
     (if hsize s p = nunits then (p + 8, (set_hptr prevp (hptr s p) s)\<lparr>freep := prevp\<rparr>)
      else
        let s = set_hsize p (hsize s p - nunits) s; p = p + 8 * hsize s p; s = set_hsize p nunits s in
        (p + 8, s\<lparr>freep := prevp\<rparr>))"

partial_function (option) malloc_loop :: "(u32 \<Rightarrow> umem \<Rightarrow> bool) \<Rightarrow> u32 \<Rightarrow> u32 \<Rightarrow> u32 \<Rightarrow> umem \<Rightarrow> (u32 \<times> umem) option" where
  "malloc_loop grant nunits prevp p s =
     (if nunits \<le> hsize s p then Some (take_units nunits prevp p s)
      else if p = freep s then
        case morecore grant nunits s of
          None \<Rightarrow> None
        | Some (r, s) \<Rightarrow> if r = 0 then Some (0, s) else malloc_loop grant nunits r (hptr s r) s
      else malloc_loop grant nunits p (hptr s p) s)"

definition malloc_init :: "umem \<Rightarrow> umem" where
  "malloc_init s = (if freep s = 0 then set_hsize (base s) 0 ((set_hptr (base s) (base s) s)\<lparr>freep := base s\<rparr>) else s)"

definition malloc :: "(u32 \<Rightarrow> umem \<Rightarrow> bool) \<Rightarrow> u32 \<Rightarrow> umem \<Rightarrow> (u32 \<times> umem) option" where
  "malloc grant nbytes s =
     (let nunits = (nbytes + 8 - 1) div 8 + 1; s = malloc_init s in
      malloc_loop grant nunits (freep s) (hptr s (freep s)) s)"

end
