(* ===== verification/Umalloc_Props.thy ===== *)
theory Umalloc_Props
  imports Umalloc
begin

text \<open>
  The allocator keeps a ring of disjoint free blocks in ascending order of addresses, never adjacent to each
  other; \<open>malloc\<close> and \<open>free\<close> move blocks between the ring and the set of allocated blocks and do not touch the
  bytes of any other allocated block.
\<close>

subsection \<open>Headers\<close>

text \<open>Two headers that do not overlap.\<close>

definition apart8 :: "u32 \<Rightarrow> u32 \<Rightarrow> bool" where
  "apart8 x y \<longleftrightarrow> unat x + 8 \<le> unat y \<or> unat y + 8 \<le> unat x"

lemma apart8_sym: "apart8 x y \<Longrightarrow> apart8 y x"
  by (auto simp: apart8_def)

lemma apart8_neq: "apart8 x y \<Longrightarrow> x \<noteq> y"
  by (auto simp: apart8_def)

lemma byte_far:
  assumes "unat a + 4 \<le> unat x \<or> unat x < unat a" "unat a + 4 \<le> 2 ^ 32"
  shows "4 \<le> unat (x - a :: u32)"
proof (cases "unat a \<le> unat x")
  case True
  then show ?thesis using assms by (simp add: unat_sub word_le_nat_alt)
next
  case False
  have "unat (x - a) = 2 ^ 32 + unat x - unat a" using False unsigned_less [of a] by (simp add: unat_sub_if_size word_size)
  then show ?thesis using assms(2) False by simp
qed

lemma store32_outside: "unat a + 4 \<le> 2 ^ 32 \<Longrightarrow> unat x < unat a \<or> unat a + 4 \<le> unat x \<Longrightarrow> store32 a v m x = m x"
  using byte_far [of a x] by (intro store32_other) auto

lemma load32_outside:
  assumes "unat a + 4 \<le> 2 ^ 32" "unat x + 4 \<le> 2 ^ 32" "unat x + 4 \<le> unat a \<or> unat a + 4 \<le> unat x"
  shows "load32 (store32 a v m) x = load32 m x"
proof -
  have u: "unat (x + 1) = unat x + 1" "unat (x + 2) = unat x + 2" "unat (x + 3) = unat x + 3"
    using assms(2) by (simp_all add: unat_word_ariths)
  show ?thesis using assms by (intro load32_cong store32_outside) (auto simp: u)
qed

text \<open>Addresses of headers lie below the top of the user memory.\<close>

lemma below_top: "unat (x :: u32) + 8 \<le> 2 ^ 31 \<Longrightarrow> unat (x + 4) = unat x + 4"
  by (simp add: unat_word_ariths)

lemma hdr_simps:
  assumes "unat x + 8 \<le> 2 ^ 31"
  shows "hptr (set_hptr x v s) x = v" "hsize (set_hptr x v s) x = hsize s x"
    "hsize (set_hsize x v s) x = v" "hptr (set_hsize x v s) x = hptr s x"
    "unat y + 8 \<le> 2 ^ 31 \<Longrightarrow> apart8 x y \<Longrightarrow> hptr (set_hptr x v s) y = hptr s y"
    "unat y + 8 \<le> 2 ^ 31 \<Longrightarrow> apart8 x y \<Longrightarrow> hsize (set_hptr x v s) y = hsize s y"
    "unat y + 8 \<le> 2 ^ 31 \<Longrightarrow> apart8 x y \<Longrightarrow> hptr (set_hsize x v s) y = hptr s y"
    "unat y + 8 \<le> 2 ^ 31 \<Longrightarrow> apart8 x y \<Longrightarrow> hsize (set_hsize x v s) y = hsize s y"
  using assms below_top [of x] below_top [of y]
  by (auto simp: hptr_def hsize_def set_hptr_def set_hsize_def apart8_def intro!: load32_outside)

lemma hdr_bytes:
  assumes "unat x + 8 \<le> 2 ^ 31" "unat y < unat x \<or> unat x + 8 \<le> unat y"
  shows "ubytes (set_hptr x v s) y = ubytes s y" "ubytes (set_hsize x v s) y = ubytes s y"
  using assms below_top [of x] by (auto simp: set_hptr_def set_hsize_def intro!: store32_outside)

lemma hdr_fields [simp]:
  "base (set_hptr x v s) = base s" "freep (set_hptr x v s) = freep s" "brk (set_hptr x v s) = brk s"
  "base (set_hsize x v s) = base s" "freep (set_hsize x v s) = freep s" "brk (set_hsize x v s) = brk s"
  by (simp_all add: set_hptr_def set_hsize_def)

lemma hdr_updates [simp]:
  "hptr (s\<lparr>freep := f\<rparr>) = hptr s" "hsize (s\<lparr>freep := f\<rparr>) = hsize s" "hptr (s\<lparr>brk := b\<rparr>) = hptr s" "hsize (s\<lparr>brk := b\<rparr>) = hsize s"
  by (simp_all add: hptr_def hsize_def fun_eq_iff)

subsection \<open>Chains of free blocks\<close>

type_synonym ublock = "u32 \<times> u32"

abbreviation addr :: "ublock \<Rightarrow> nat" where "addr x \<equiv> unat (fst x)"
abbreviation fin :: "ublock \<Rightarrow> nat" where "fin x \<equiv> unat (fst x) + 8 * unat (snd x)"

fun chain :: "umem \<Rightarrow> u32 \<Rightarrow> ublock list \<Rightarrow> u32 \<Rightarrow> bool" where
  "chain s p [] q \<longleftrightarrow> hptr s p = q"
| "chain s p ((a, n) # xs) q \<longleftrightarrow> hptr s p = a \<and> hsize s a = n \<and> chain s a xs q"

definition tail_node :: "u32 \<Rightarrow> ublock list \<Rightarrow> u32" where
  "tail_node p xs = (if xs = [] then p else fst (last xs))"

lemma tail_node_simps [simp]: "tail_node p [] = p" "tail_node p (x # xs) = tail_node (fst x) xs" "tail_node p (xs @ [x]) = fst x"
  by (simp_all add: tail_node_def)

lemma chain_append: "chain s p (xs @ ys) q \<longleftrightarrow> chain s p xs (hptr s (tail_node p xs)) \<and> chain s (tail_node p xs) ys q"
proof (induction xs arbitrary: p)
  case (Cons x xs)
  then show ?case by (cases x) (simp only: append_Cons chain.simps tail_node_simps fst_conv conj_assoc)
qed simp

lemma chain_split:
  "chain s p (xs @ (a, n) # ys) q \<longleftrightarrow> chain s p xs a \<and> hsize s a = n \<and> chain s a ys q"
  by (induction xs arbitrary: p) auto

lemma chain_tail: "chain s p xs q \<Longrightarrow> hptr s (tail_node p xs) = q"
  using chain_append [of s p xs "[]" q] by simp

lemma chain_cong:
  assumes "chain s p xs q" "\<And>x. x \<in> insert p (fst ` set xs) \<Longrightarrow> hptr t x = hptr s x" "\<And>x. x \<in> fst ` set xs \<Longrightarrow> hsize t x = hsize s x"
  shows "chain t p xs q"
  using assms by (induction xs arbitrary: p) auto

text \<open>The end of a chain can be set to another node.\<close>

lemma chain_retarget:
  assumes "chain s p xs q" "hptr t (tail_node p xs) = r" "\<And>x. x \<in> insert p (fst ` set xs) \<Longrightarrow> x \<noteq> tail_node p xs \<Longrightarrow> hptr t x = hptr s x"
    "\<And>x. x \<in> fst ` set xs \<Longrightarrow> hsize t x = hsize s x" "distinct (p # map fst xs)"
  shows "chain t p xs r"
  using assms
proof (induction xs arbitrary: p)
  case (Cons x xs)
  obtain a n where x: "x = (a, n)" by (cases x)
  have "p \<noteq> tail_node a xs" using Cons.prems(5) unfolding tail_node_def x by (auto simp: image_iff dest: last_in_set)
  then show ?case using Cons.prems Cons.IH [of a] by (auto simp: x)
qed simp

subsection \<open>The heap\<close>

definition cov :: "ublock \<Rightarrow> nat set" where
  "cov x = {addr x..<fin x}"

definition covers :: "ublock list \<Rightarrow> nat set" where
  "covers xs = (\<Union>x \<in> set xs. cov x)"

lemma covers_simps [simp]: "covers [] = {}" "covers (x # xs) = cov x \<union> covers xs" "covers (xs @ ys) = covers xs \<union> covers ys"
  by (auto simp: covers_def)

text \<open>Free blocks in ascending order, no two of them adjacent.\<close>

definition ascending :: "ublock list \<Rightarrow> bool" where
  "ascending xs \<longleftrightarrow> sorted_wrt (\<lambda>x y. fin x < addr y) xs \<and> (\<forall>x \<in> set xs. 0 < snd x)"

definition heap :: "ublock list \<Rightarrow> ublock set \<Rightarrow> umem \<Rightarrow> bool" where
  "heap F A s \<longleftrightarrow> 0 < base s \<and> unat (base s) + 8 \<le> unat (brk s) \<and> unat (brk s) \<le> 2 ^ 31 \<and>
     ascending F \<and> covers F \<subseteq> {unat (base s) + 8..<unat (brk s)} \<and>
     (\<forall>x \<in> A. 0 < snd x \<and> cov x \<subseteq> {unat (base s) + 8..<unat (brk s)} \<and> cov x \<inter> covers F = {} \<and> hsize s (fst x) = snd x) \<and>
     (\<forall>x \<in> A. \<forall>y \<in> A. x \<noteq> y \<longrightarrow> cov x \<inter> cov y = {}) \<and>
     chain s (base s) F (base s) \<and> hsize s (base s) = 0 \<and> freep s \<in> insert (base s) (fst ` set F)"

lemma cov_within:
  assumes "cov x \<subseteq> {l..<h}" "0 < snd x"
  shows "l \<le> addr x" "fin x \<le> h" "addr x + 8 \<le> fin x"
proof -
  have p: "0 < unat (snd x)" using assms(2) by (simp add: word_gt_0 unat_gt_0)
  then have "addr x \<in> cov x" "fin x - 1 \<in> cov x" by (auto simp: cov_def)
  then have "l \<le> addr x" "fin x - 1 < h" using assms(1) by (meson atLeastLessThan_iff subset_iff)+
  then show "l \<le> addr x" "fin x \<le> h" using p by simp_all
  show "addr x + 8 \<le> fin x" using p by simp
qed

lemma cov_apart:
  assumes "cov x \<inter> cov y = {}" "0 < snd x" "0 < snd y"
  shows "apart8 (fst x) (fst y)" "fin x \<le> addr y \<or> fin y \<le> addr x"
proof -
  have p: "0 < unat (snd x)" "0 < unat (snd y)" using assms(2,3) by (simp_all add: word_gt_0 unat_gt_0)
  have "\<not> (addr x \<in> cov y)" "\<not> (addr y \<in> cov x)" using assms(1) p by (auto simp: cov_def)
  then show "fin x \<le> addr y \<or> fin y \<le> addr x" using p by (auto simp: cov_def)
  then show "apart8 (fst x) (fst y)" using p by (auto simp: apart8_def)
qed

lemma ascendingD:
  assumes "ascending (xs @ ys)" "x \<in> set xs" "y \<in> set ys"
  shows "fin x < addr y"
  using assms by (auto simp: ascending_def sorted_wrt_append)

lemma ascending_sub: "ascending (xs @ ys) \<Longrightarrow> ascending xs" "ascending (xs @ ys) \<Longrightarrow> ascending ys"
  by (auto simp: ascending_def sorted_wrt_append)

lemma ascending_addrs: "ascending xs \<Longrightarrow> sorted_wrt (<) (map addr xs)"
proof (induction xs)
  case (Cons x xs)
  have "addr x < addr y" if "y \<in> set xs" for y using ascendingD [of "[x]" xs x y] Cons.prems that by simp
  then show ?case using Cons ascending_sub(2) [of "[x]" xs] by auto
qed simp

subsection \<open>The place of a block\<close>

lemma free_loop_climb:
  assumes "chain s p xs q" "sorted_wrt (<) (unat p # map addr xs)" "\<forall>x \<in> set xs. addr x < unat bp" "unat p < unat bp" "bp < q \<or> q \<le> tail_node p xs"
  shows "free_loop bp p s = Some (tail_node p xs)"
  using assms
proof (induction xs arbitrary: p)
  case Nil
  then show ?case by (subst free_loop.simps) (auto simp: Let_def word_less_nat_alt word_le_nat_alt)
next
  case (Cons x xs)
  obtain a n where x: "x = (a, n)" by (cases x)
  have "free_loop bp p s = free_loop bp a s"
    using Cons.prems by (subst free_loop.simps) (auto simp: x Let_def word_less_nat_alt word_le_nat_alt)
  also have "\<dots> = Some (tail_node a xs)" using Cons.prems by (intro Cons.IH) (auto simp: x)
  finally show ?case by (simp add: x)
qed

lemma free_loop_wrap:
  assumes "chain s p xs q" "sorted_wrt (<) (unat p # map addr xs)" "\<forall>x \<in> set xs. unat bp < addr x" "unat bp < unat p" "q < bp"
  shows "free_loop bp p s = free_loop bp q s"
  using assms
proof (induction xs arbitrary: p)
  case Nil
  then show ?case by (subst free_loop.simps) (auto simp: Let_def word_less_nat_alt word_le_nat_alt)
next
  case (Cons x xs)
  obtain a n where x: "x = (a, n)" by (cases x)
  have "free_loop bp p s = free_loop bp a s"
    using Cons.prems by (subst free_loop.simps) (auto simp: x Let_def word_less_nat_alt word_le_nat_alt)
  also have "\<dots> = free_loop bp q s" using Cons.prems by (intro Cons.IH) (auto simp: x)
  finally show ?case .
qed

lemma heapD:
  assumes "heap F A s"
  shows "0 < base s" "unat (base s) + 8 \<le> unat (brk s)" "unat (brk s) \<le> 2 ^ 31" "ascending F" "covers F \<subseteq> {unat (base s) + 8..<unat (brk s)}"
    "x \<in> A \<Longrightarrow> 0 < snd x" "x \<in> A \<Longrightarrow> cov x \<subseteq> {unat (base s) + 8..<unat (brk s)}" "x \<in> A \<Longrightarrow> cov x \<inter> covers F = {}" "x \<in> A \<Longrightarrow> hsize s (fst x) = snd x"
    "x \<in> A \<Longrightarrow> y \<in> A \<Longrightarrow> x \<noteq> y \<Longrightarrow> cov x \<inter> cov y = {}" "chain s (base s) F (base s)" "hsize s (base s) = 0" "freep s \<in> insert (base s) (fst ` set F)"
    "y \<in> set F \<Longrightarrow> 0 < snd y" "y \<in> set F \<Longrightarrow> cov y \<subseteq> {unat (base s) + 8..<unat (brk s)}" "x \<in> A \<Longrightarrow> y \<in> set F \<Longrightarrow> cov x \<inter> cov y = {}"
proof -
  show d: "x \<in> A \<Longrightarrow> cov x \<inter> covers F = {}" using assms by (simp add: heap_def)
  have c: "cov y \<subseteq> covers F" if "y \<in> set F" using that by (auto simp: covers_def)
  then show "x \<in> A \<Longrightarrow> y \<in> set F \<Longrightarrow> cov x \<inter> cov y = {}" using d by blast
  show "y \<in> set F \<Longrightarrow> cov y \<subseteq> {unat (base s) + 8..<unat (brk s)}" using c assms unfolding heap_def by blast
qed (use assms in \<open>simp_all add: heap_def ascending_def\<close>)

lemma free_place:
  assumes h: "heap F A s" and F: "F = F1 @ F2" "\<forall>y \<in> set F1. addr y < unat bp" "\<forall>y \<in> set F2. unat bp < addr y" and bp: "base s < bp"
  shows "free_loop bp (freep s) s = Some (tail_node (base s) F1)"
proof -
  let ?b = "base s" and ?t = "tail_node (base s) F1"
  have b: "unat ?b < unat bp" using bp by (simp add: word_less_nat_alt)
  have lt: "unat ?b < addr y" if "y \<in> set F" for y using cov_within(1) [OF heapD(15,14) [OF h that]] by simp
  have so: "sorted_wrt (<) (unat ?b # map addr F)" using ascending_addrs [OF heapD(4) [OF h]] lt by simp
  have ch: "chain s ?b F1 (hptr s ?t)" "chain s ?t F2 ?b" using heapD(11) [OF h] unfolding F(1) chain_append by simp_all
  have bt: "unat ?b \<le> unat (tail_node ?b F1)" using lt [of "last F1"] F(1) by (cases "F1 = []") (simp_all add: tail_node_def)
  have q: "bp < hptr s ?t \<or> hptr s ?t = ?b \<and> F2 = []"
    using ch(2) F(3) by (cases F2) (auto simp: word_less_nat_alt)
  have from_base: "free_loop bp ?b s = Some ?t"
    using so F(2) b q bt unfolding F(1) by (intro free_loop_climb [OF ch(1)]) (auto simp: word_le_nat_alt sorted_wrt_append)
  consider "freep s = ?b" | y where "y \<in> set F1" "freep s = fst y" | y where "y \<in> set F2" "freep s = fst y"
    using heapD(13) [OF h] unfolding F(1) by auto
  then show ?thesis
  proof cases
    case 1
    then show ?thesis using from_base by simp
  next
    case 2
    obtain a n where y: "y = (a, n)" by (cases y)
    obtain G1 G2 where G: "F1 = G1 @ (a, n) # G2" using split_list [OF 2(1)] y by auto
    have "chain s a (G2 @ F2) ?b" using heapD(11) [OF h] unfolding F(1) G append.assoc append_Cons chain_split by simp
    then have c: "chain s a G2 (hptr s (tail_node a G2))" by (simp add: chain_append)
    have t: "?t = tail_node a G2" by (simp add: G tail_node_def)
    have "free_loop bp a s = Some (tail_node a G2)"
    proof (rule free_loop_climb [OF c])
      show "sorted_wrt (<) (unat a # map addr G2)" using so unfolding F(1) G by (auto simp: sorted_wrt_append)
      have "unat ?b \<le> unat (tail_node a G2)" using bt t by simp
      then show "bp < hptr s (tail_node a G2) \<or> hptr s (tail_node a G2) \<le> tail_node a G2" using q unfolding t by (auto simp: word_le_nat_alt)
    qed (use F(2) G in auto)
    then show ?thesis using 2(2) y t by simp
  next
    case 3
    obtain a n where y: "y = (a, n)" by (cases y)
    obtain G1 G2 where G: "F2 = G1 @ (a, n) # G2" using split_list [OF 3(1)] y by auto
    have c: "chain s a G2 ?b" using heapD(11) [OF h] unfolding F(1) G append.assoc [symmetric] chain_split by simp
    have "free_loop bp a s = free_loop bp ?b s"
    proof (rule free_loop_wrap [OF c])
      show "sorted_wrt (<) (unat a # map addr G2)" using so unfolding F(1) G by (auto simp: sorted_wrt_append)
    qed (use F(3) G bp in auto)
    then show ?thesis using 3(2) y from_base by simp
  qed
qed

subsection \<open>Joining\<close>

fun join :: "ublock \<Rightarrow> ublock list \<Rightarrow> ublock list" where
  "join x [] = [x]"
| "join x (y # ys) = (if fin x = addr y then (fst x, snd x + snd y) # ys else x # y # ys)"

definition glue :: "ublock list \<Rightarrow> ublock list \<Rightarrow> ublock list" where
  "glue xs ys = (if xs = [] then ys else butlast xs @ join (last xs) ys)"

lemma add_units:
  assumes "fin x = addr y" "fin y \<le> 2 ^ 31"
  shows "unat (snd x + snd y) = unat (snd x) + unat (snd y)"
  using assms by (simp add: unat_word_ariths)

lemma join_hd: "\<exists>n G. join x ys = (fst x, n) # G \<and> (G = ys \<or> G = tl ys)"
  by (cases ys) (auto simp: prod_eq_iff)

lemma join_hd_sub: "\<exists>n G. join x ys = (fst x, n) # G \<and> set G \<subseteq> set ys"
  using join_hd [of x ys] by (cases ys) auto

lemma join_ok:
  assumes x: "0 < snd x" and y: "ascending ys" "\<forall>y \<in> set ys. fin x \<le> addr y \<and> fin y \<le> 2 ^ 31"
  shows "ascending (join x ys)" "covers (join x ys) = cov x \<union> covers ys"
proof -
  have "ascending (join x ys) \<and> covers (join x ys) = cov x \<union> covers ys"
  proof (cases ys)
    case Nil
    then show ?thesis using x by (simp add: ascending_def)
  next
    case (Cons y zs)
    have p: "0 < unat (snd x)" using x by (simp add: word_gt_0 unat_gt_0)
    have lt: "fin y < addr z" if "z \<in> set zs" for z using ascendingD [of "[y]" zs y z] y(1) that Cons by simp
    show ?thesis
    proof (cases "fin x = addr y")
      case True
      have u: "unat (snd x + snd y) = unat (snd x) + unat (snd y)" using add_units [OF True] y(2) Cons by simp
      then have f: "fin (fst x, snd x + snd y) = fin y" using True by simp
      have "0 < snd x + snd y" using u p by (simp add: word_less_nat_alt)
      then have "ascending (join x ys)" using y(1) lt f True by (simp add: Cons ascending_def)
      moreover have "cov (fst x, snd x + snd y) = cov x \<union> cov y" using True u by (auto simp: cov_def)
      ultimately show ?thesis using True by (auto simp: Cons)
    next
      case False
      then have "fin x < addr y" using y(2) Cons by force
      then have "fin x < addr z" if "z \<in> set ys" for z using that lt Cons by fastforce
      then show ?thesis using False y(1) x by (auto simp: Cons ascending_def)
    qed
  qed
  then show "ascending (join x ys)" "covers (join x ys) = cov x \<union> covers ys" by auto
qed

text \<open>Only the headers at the addresses \<open>X\<close> may have changed.\<close>

definition keeps :: "u32 set \<Rightarrow> umem \<Rightarrow> umem \<Rightarrow> bool" where
  "keeps X s t \<longleftrightarrow> base t = base s \<and> brk t = brk s \<and>
     (\<forall>y. (\<forall>x \<in> X. unat y < unat x \<or> unat x + 8 \<le> unat y) \<longrightarrow> ubytes t y = ubytes s y)"

lemma keeps_refl: "keeps X s s"
  by (simp add: keeps_def)

lemma keeps_trans: "keeps X s t \<Longrightarrow> keeps Y t u \<Longrightarrow> keeps (X \<union> Y) s u"
  by (auto simp: keeps_def)

lemma keeps_mono: "keeps X s t \<Longrightarrow> X \<subseteq> Y \<Longrightarrow> keeps Y s t"
  by (auto simp: keeps_def)

lemma keeps_set: "unat x + 8 \<le> 2 ^ 31 \<Longrightarrow> keeps {x} s (set_hptr x v s)" "unat x + 8 \<le> 2 ^ 31 \<Longrightarrow> keeps {x} s (set_hsize x v s)"
  by (auto simp: keeps_def hdr_bytes)

lemma keeps_hdr:
  assumes k: "keeps X s t" and y: "unat y + 8 \<le> 2 ^ 31" "\<forall>x \<in> X. apart8 x y"
  shows "hptr t y = hptr s y" "hsize t y = hsize s y"
proof -
  have e: "ubytes t z = ubytes s z" if "unat y \<le> unat z" "unat z < unat y + 8" for z
  proof -
    have "\<forall>x \<in> X. unat z < unat x \<or> unat x + 8 \<le> unat z" using y(2) that by (auto simp: apart8_def)
    then show ?thesis using k by (simp add: keeps_def)
  qed
  have u: "unat (y + 1) = unat y + 1" "unat (y + 2) = unat y + 2" "unat (y + 3) = unat y + 3" "unat (y + 4) = unat y + 4"
    "unat (y + 5) = unat y + 5" "unat (y + 6) = unat y + 6" "unat (y + 7) = unat y + 7" using y(1) by (simp_all add: unat_word_ariths)
  show "hptr t y = hptr s y" unfolding hptr_def by (intro load32_cong e) (simp_all add: u)
  show "hsize t y = hsize s y" unfolding hsize_def by (intro load32_cong e) (simp_all add: u add.assoc)
qed

lemma chain_start:
  assumes "chain s c xs q" "hptr t b = hptr s c" "\<And>x. x \<in> fst ` set xs \<Longrightarrow> hptr t x = hptr s x" "\<And>x. x \<in> fst ` set xs \<Longrightarrow> hsize t x = hsize s x"
  shows "chain t b xs q"
proof (cases xs)
  case (Cons x ys)
  then show ?thesis using assms by (cases x) (auto intro: chain_cong)
qed (use assms in simp)

lemma fin_word: "fin (a, n) \<le> 2 ^ 31 \<Longrightarrow> unat (a + 8 * n) = fin (a, n)"
  by (simp add: unat_word_ariths)

lemma join_next_ok:
  assumes c: "chain s p ys q" and bp: "hsize s bp = n" "0 < n" "fin (bp, n) \<le> 2 ^ 31" "unat q < unat bp"
    and p: "apart8 bp p" "unat p + 8 \<le> 2 ^ 31" and y: "\<forall>y \<in> set ys. apart8 bp (fst y) \<and> addr y + 8 \<le> 2 ^ 31"
    and j: "join (bp, n) ys = (bp, n') # G"
  shows "hsize (join_next bp p s) bp = n'" "chain (join_next bp p s) bp G q" "keeps {bp} s (join_next bp p s)"
proof -
  have "0 < unat n" using bp(2) by (simp add: word_gt_0 unat_gt_0)
  then have b: "unat bp + 8 \<le> 2 ^ 31" using bp(3) by simp
  have e: "unat (bp + 8 * n) = fin (bp, n)" by (rule fin_word [OF bp(3)])
  note st = hdr_simps [OF b]
  have cc: "chain t bp xs q" if "chain s z xs q" "set xs \<subseteq> set ys" "hptr t bp = hptr s z" "keeps {bp} s t" for t z xs
  proof (rule chain_start [OF that(1,3)])
    fix x assume "x \<in> fst ` set xs"
    then have "unat x + 8 \<le> 2 ^ 31" "\<forall>b \<in> {bp}. apart8 b x" using that(2) y by auto
    then show "hptr t x = hptr s x" "hsize t x = hsize s x" by (rule keeps_hdr [OF that(4)])+
  qed
  have "hsize (join_next bp p s) bp = n' \<and> chain (join_next bp p s) bp G q \<and> keeps {bp} s (join_next bp p s)"
  proof (cases "bp + 8 * hsize s bp = hptr s p")
    case False
    have "join (bp, n) ys = (bp, n) # ys"
      using False c e bp(1) by (cases ys) (auto simp: word_unat_eq_iff)
    then have n': "n' = n" "G = ys" using j by simp_all
    have "join_next bp p s = set_hptr bp (hptr s p) s" using False by (simp add: join_next_def)
    then show ?thesis using st(1,2) bp(1) cc [OF c] keeps_set(1) [OF b] n' by simp
  next
    case True
    obtain m z zs where z: "ys = (z, m) # zs"
    proof (cases ys)
      case Nil
      then show ?thesis using True c e bp(1,4) by (simp add: word_unat_eq_iff)
    qed (use that in auto)
    have hz: "hptr s p = z" "hsize s z = m" "chain s z zs q" using c z by simp_all
    then have n': "n' = n + m" "G = zs" using True j e bp(1) z by (auto simp: word_unat_eq_iff)
    have az: "apart8 bp z" "unat z + 8 \<le> 2 ^ 31" using y z by simp_all
    let ?s = "set_hsize bp (n + m) s"
    have "join_next bp p s = set_hptr bp (hptr s z) ?s"
      using True hz bp(1) st(7) [OF p(2,1)] st(7) [OF az(2,1)] by (simp add: join_next_def Let_def)
    moreover have k: "keeps {bp} s (set_hptr bp (hptr s z) ?s)"
      using keeps_trans [OF keeps_set(2) [OF b] keeps_set(1) [OF b]] by simp
    moreover have "set zs \<subseteq> set ys" using z by auto
    note cc [OF hz(3) this st(1) k]
    ultimately show ?thesis using st(2,3) n' by simp
  qed
  then show "hsize (join_next bp p s) bp = n'" "chain (join_next bp p s) bp G q" "keeps {bp} s (join_next bp p s)" by auto
qed

lemma join_prev_ok:
  fixes F1 :: "ublock list" and b :: u32
  defines "p \<equiv> tail_node b F1"
  assumes c: "chain s b F1 r" "chain s bp G q" and bp: "hsize s bp = n" and b: "hsize s b = 0"
    and ap: "\<forall>x \<in> insert b (fst ` set (F1 @ (bp, n) # G)). unat x + 8 \<le> 2 ^ 31 \<and> (x = p \<or> apart8 p x)"
    and d: "distinct (b # map fst (F1 @ (bp, n) # G))" and f: "\<forall>x \<in> set F1. fin x \<le> 2 ^ 31"
  shows "chain (join_prev bp p s) b (glue F1 ((bp, n) # G)) q" "keeps {p} s (join_prev bp p s)" "hsize (join_prev bp p s) b = 0"
proof -
  let ?t = "join_prev bp p s"
  have pn: "p \<in> insert b (fst ` set F1)" by (auto simp: p_def tail_node_def intro: imageI)
  then have p8: "unat p + 8 \<le> 2 ^ 31" and pbp: "p \<noteq> bp" "p \<notin> fst ` set G" using ap d by auto
  note st = hdr_simps [OF p8]
  have k2: "keeps {p} s (set_hptr p v (set_hsize p w s))" for v w using keeps_trans [OF keeps_set(2) [OF p8] keeps_set(1) [OF p8]] by simp
  have abp: "apart8 p bp" "unat bp + 8 \<le> 2 ^ 31" using ap pbp(1) by auto
  have t: "?t = (if p + 8 * hsize s p = bp then set_hptr p (hptr s bp) (set_hsize p (hsize s p + n) s) else set_hptr p bp s)"
    using bp st(7) [OF abp(2,1)] by (simp add: join_prev_def Let_def)
  show k: "keeps {p} s ?t" unfolding t using k2 keeps_set(1) [OF p8] by auto
  have same: "hptr ?t x = hptr s x" "hsize ?t x = hsize s x" if "x \<in> insert b (fst ` set (F1 @ (bp, n) # G))" "x \<noteq> p" for x
    using keeps_hdr [OF k, of x] ap that by auto
  have G: "chain ?t z G q" if "hptr ?t z = hptr s bp" for z
    using pbp(2) by (intro chain_start [OF c(2) that] same) auto
  show "hsize ?t b = 0"
  proof (cases "p = b")
    case True
    then have "?t = set_hptr p bp s" using t b pbp(1) by simp
    then show ?thesis using st(2) b True by simp
  qed (use same(2) [of b] b in auto)
  show "chain ?t b (glue F1 ((bp, n) # G)) q"
  proof (cases F1 rule: rev_cases)
    case Nil
    then have pb: "p = b" by (simp add: p_def)
    have "hptr ?t b = bp" using t b pbp(1) st(1) pb by simp
    then show ?thesis using G [of bp] same [of bp] bp pbp(1) Nil by (simp add: glue_def)
  next
    case (snoc H x)
    obtain l where x: "x = (p, l)" using snoc by (cases x) (simp add: p_def)
    have cH: "chain s b H p" "hsize s p = l" using c(1) unfolding snoc x chain_split by simp_all
    have nH: "p \<notin> insert b (fst ` set H)" using d by (auto simp: snoc x)
    have cH': "chain ?t b H p" using nH by (intro chain_cong [OF cH(1)] same) (auto simp: snoc)
    have "fin (p, l) \<le> 2 ^ 31" using f snoc x by simp
    then have eq: "p + 8 * l = bp \<longleftrightarrow> fin (p, l) = unat bp" using fin_word [of p l] by (auto simp: word_unat_eq_iff)
    have g: "glue F1 ((bp, n) # G) = H @ (if fin (p, l) = unat bp then (p, l + n) # G else (p, l) # (bp, n) # G)"
      by (simp add: glue_def snoc x)
    show ?thesis
    proof (cases "fin (p, l) = unat bp")
      case True
      then have tt: "?t = set_hptr p (hptr s bp) (set_hsize p (l + n) s)" using eq cH(2) t by simp
      have "hsize ?t p = l + n" "hptr ?t p = hptr s bp" unfolding tt using st by simp_all
      then show ?thesis using True cH' G [of p] unfolding g by (simp add: chain_split)
    next
      case False
      then have tt: "?t = set_hptr p bp s" using eq cH(2) t by simp
      have "hsize ?t p = l" "hptr ?t p = bp" unfolding tt using st cH(2) by simp_all
      then show ?thesis using False cH' G [of bp] same [of bp] bp pbp(1) unfolding g by (simp add: chain_split)
    qed
  qed
qed

lemma glue_ok:
  assumes "ascending xs" "ascending ys" "\<forall>x \<in> set xs. \<forall>y \<in> set ys. fin x \<le> addr y" "\<forall>y \<in> set ys. fin y \<le> 2 ^ 31"
  shows "ascending (glue xs ys)" "covers (glue xs ys) = covers xs \<union> covers ys" "tail_node b xs \<in> insert b (fst ` set (glue xs ys))"
proof -
  have "ascending (glue xs ys) \<and> covers (glue xs ys) = covers xs \<union> covers ys \<and> tail_node b xs \<in> insert b (fst ` set (glue xs ys))"
  proof (cases xs rule: rev_cases)
    case Nil
    then show ?thesis using assms(2) by (simp add: glue_def)
  next
    case (snoc H l)
    have l: "0 < snd l" using assms(1) by (simp add: snoc ascending_def)
    obtain n G where G: "join l ys = (fst l, n) # G" "set G \<subseteq> set ys" using join_hd_sub [of l ys] by blast
    have "\<forall>y \<in> set ys. fin l \<le> addr y \<and> fin y \<le> 2 ^ 31" using assms(3,4) by (simp add: snoc)
    note j = join_ok [OF l assms(2) this]
    have hl: "fin h < addr l" if "h \<in> set H" for h using ascendingD [of H "[l]" h l] assms(1) that by (simp add: snoc)
    have hz: "fin h < addr z" if "h \<in> set H" "z \<in> set (join l ys)" for h z
    proof -
      have "addr l \<le> addr z" using that(2) G assms(3) by (force simp: snoc)
      then show ?thesis using hl [OF that(1)] by simp
    qed
    have "ascending H" using assms(1) ascending_sub(1) snoc by blast
    then have "ascending (H @ join l ys)" using j(1) hz by (auto simp: ascending_def sorted_wrt_append)
    then show ?thesis using j(2) G(1) by (auto simp: glue_def snoc)
  qed
  then show "ascending (glue xs ys)" "covers (glue xs ys) = covers xs \<union> covers ys" "tail_node b xs \<in> insert b (fst ` set (glue xs ys))" by auto
qed

lemma split_at: "sorted_wrt (<) (map addr F) \<Longrightarrow> \<exists>F1 F2. F = F1 @ F2 \<and> (\<forall>y \<in> set F1. addr y < b) \<and> (\<forall>y \<in> set F2. b \<le> addr y)"
proof (induction F)
  case (Cons x F)
  show ?case
  proof (cases "addr x < b")
    case True
    obtain F1 F2 where F: "F = F1 @ F2" "\<forall>y \<in> set F1. addr y < b" "\<forall>y \<in> set F2. b \<le> addr y" using Cons by auto
    then show ?thesis using True by (intro exI [of _ "x # F1"] exI [of _ F2]) auto
  next
    case False
    then show ?thesis using Cons.prems by (intro exI [of _ "[]"] exI [of _ "x # F"]) force
  qed
qed simp

text \<open>Bytes and headers of the allocated blocks are outside the headers of the ring.\<close>

lemma keeps_allocated:
  assumes k: "keeps X s t" and X: "\<forall>h \<in> X. h = base s \<or> {unat h..<unat h + 8} \<inter> cov y = {}" and y: "cov y \<subseteq> {unat (base s) + 8..<2 ^ 31}" "0 < snd y"
  shows "a \<in> cov y \<Longrightarrow> unat b = a \<Longrightarrow> ubytes t b = ubytes s b" "hsize t (fst y) = hsize s (fst y)"
proof -
  have d: "{unat h..<unat h + 8} \<inter> cov y = {}" if "h \<in> X" for h using X that y(1) by fastforce
  show "ubytes t b = ubytes s b" if "a \<in> cov y" "unat b = a"
  proof -
    have "unat b \<notin> {unat h..<unat h + 8}" if "h \<in> X" for h using d [OF that] \<open>a \<in> cov y\<close> \<open>unat b = a\<close> by blast
    then have "unat b < unat h \<or> unat h + 8 \<le> unat b" if "h \<in> X" for h using that by fastforce
    then show ?thesis using k by (simp add: keeps_def)
  qed
  have w: "addr y + 8 \<le> fin y" "fin y \<le> 2 ^ 31" using cov_within [OF y] by simp_all
  have "apart8 h (fst y)" if "h \<in> X" for h
  proof -
    have "addr y \<in> cov y" "addr y + 7 \<in> cov y" using w by (simp_all add: cov_def)
    then have "addr y \<notin> {unat h..<unat h + 8}" "addr y + 7 \<notin> {unat h..<unat h + 8}" using d [OF that] by blast+
    then show ?thesis by (auto simp: apart8_def)
  qed
  then show "hsize t (fst y) = hsize s (fst y)" using w by (intro keeps_hdr(2) [OF k]) auto
qed

subsection \<open>free\<close>

text \<open>A block that belongs neither to the ring nor to the allocated blocks.\<close>

definition loose :: "ublock \<Rightarrow> ublock list \<Rightarrow> ublock set \<Rightarrow> umem \<Rightarrow> bool" where
  "loose x F A s \<longleftrightarrow> 0 < snd x \<and> cov x \<subseteq> {unat (base s) + 8..<unat (brk s)} \<and> cov x \<inter> covers F = {} \<and>
     (\<forall>y \<in> A. cov x \<inter> cov y = {}) \<and> hsize s (fst x) = snd x"

lemma loose_allocated: "heap F A s \<Longrightarrow> x \<in> A \<Longrightarrow> heap F (A - {x}) s \<and> loose x F (A - {x}) s"
proof
  assume h: "heap F A s" "x \<in> A"
  show "heap F (A - {x}) s" using h(1) by (simp add: heap_def)
  have "cov x \<inter> cov y = {}" if "y \<in> A - {x}" for y using heapD(10) [OF h, of y] that by blast
  then show "loose x F (A - {x}) s" using heapD(6-9) [OF h] unfolding loose_def by blast
qed

lemma block_hdr: "0 < snd x \<Longrightarrow> {addr x..<addr x + 8} \<subseteq> cov x"
proof -
  assume "0 < snd x"
  then have "0 < unat (snd x)" by (simp add: word_gt_0 unat_gt_0)
  then show ?thesis by (auto simp: cov_def)
qed

lemma heap_bytes:
  assumes h: "heap F A s" and k: "keeps X s t" "\<forall>h \<in> X. h = base s \<or> (\<exists>z. fst z = h \<and> 0 < snd z \<and> (\<forall>y \<in> A. cov z \<inter> cov y = {}))" and y: "y \<in> A"
  shows "unat b \<in> cov y \<Longrightarrow> ubytes t b = ubytes s b" "hsize t (fst y) = snd y"
proof -
  have w: "cov y \<subseteq> {unat (base s) + 8..<2 ^ 31}" using heapD(7) [OF h y] heapD(3) [OF h] by fastforce
  have "\<forall>g \<in> X. g = base s \<or> {unat g..<unat g + 8} \<inter> cov y = {}"
    using k(2) block_hdr y by fastforce
  note ka = keeps_allocated [OF k(1) this w heapD(6) [OF h y]]
  show "unat b \<in> cov y \<Longrightarrow> ubytes t b = ubytes s b" using ka(1) by blast
  show "hsize t (fst y) = snd y" using ka(2) heapD(9) [OF h y] by simp
qed

lemma ring_nodes:
  assumes h: "heap F A s"
  shows "z \<in> insert (base s) (fst ` set F) \<Longrightarrow> unat z + 8 \<le> 2 ^ 31" "distinct (base s # map fst F)"
    "z \<in> insert (base s) (fst ` set F) \<Longrightarrow> z' \<in> insert (base s) (fst ` set F) \<Longrightarrow> z \<noteq> z' \<Longrightarrow> apart8 z z'"
proof -
  have w: "unat (base s) + 8 \<le> addr y" "addr y + 8 \<le> fin y" "fin y \<le> 2 ^ 31" if "y \<in> set F" for y
    using cov_within [OF heapD(15,14) [OF h that]] heapD(3) [OF h] by simp_all
  show "unat z + 8 \<le> 2 ^ 31" if "z \<in> insert (base s) (fst ` set F)" using that w heapD(2,3) [OF h] by fastforce
  have "distinct (map addr F)" using ascending_addrs [OF heapD(4) [OF h]] strict_sorted_iff by blast
  then have "distinct (map fst F)" using distinct_map [of unat "map fst F"] by (simp add: comp_def)
  then show "distinct (base s # map fst F)" using w(1) by fastforce
  have "apart8 (fst y) (fst y')" if y: "y \<in> set F" "y' \<in> set F" "fst y \<noteq> fst y'" for y y'
  proof -
    obtain i j where ij: "i < length F" "F ! i = y" "j < length F" "F ! j = y'" using y by (auto simp: in_set_conv_nth)
    then have "i < j \<or> j < i" using y(3) by (cases i j rule: linorder_cases) auto
    then have "fin y < addr y' \<or> fin y' < addr y"
      using heapD(4) [OF h] ij sorted_wrt_nth_less [of "\<lambda>x y. fin x < addr y" F i j] sorted_wrt_nth_less [of "\<lambda>x y. fin x < addr y" F j i]
      by (auto simp: ascending_def)
    then show ?thesis using w(2) [OF y(1)] w(2) [OF y(2)] by (auto simp: apart8_def)
  qed
  moreover have "apart8 (base s) (fst y)" if "y \<in> set F" for y using w(1) [OF that] by (simp add: apart8_def)
  moreover have "apart8 (fst y) (base s)" if "y \<in> set F" for y using w(1) [OF that] by (simp add: apart8_def)
  ultimately show "z \<in> insert (base s) (fst ` set F) \<Longrightarrow> z' \<in> insert (base s) (fst ` set F) \<Longrightarrow> z \<noteq> z' \<Longrightarrow> apart8 z z'"
    by auto
qed

lemma loose_apart:
  assumes h: "heap F A s" and x: "loose (bp, n) F A s"
  shows "unat (base s) + 8 \<le> unat bp" "fin (bp, n) \<le> 2 ^ 31" "unat bp + 8 \<le> 2 ^ 31" "z \<in> insert (base s) (fst ` set F) \<Longrightarrow> apart8 bp z"
    "y \<in> set F \<Longrightarrow> fin (bp, n) \<le> addr y \<or> fin y \<le> unat bp"
proof -
  note X = x [unfolded loose_def, simplified]
  have n: "0 < n" and cx: "cov (bp, n) \<subseteq> {unat (base s) + 8..<unat (brk s)}" using X by auto
  show wx: "unat (base s) + 8 \<le> unat bp" "fin (bp, n) \<le> 2 ^ 31" "unat bp + 8 \<le> 2 ^ 31"
    using cov_within [OF cx] n heapD(3) [OF h] by simp_all
  have ax: "apart8 bp (fst y)" "fin (bp, n) \<le> addr y \<or> fin y \<le> unat bp" if "y \<in> set F" for y
  proof -
    have "cov y \<subseteq> covers F" using that by (auto simp: covers_def)
    then have "cov (bp, n) \<inter> cov y = {}" using X by blast
    then show "apart8 bp (fst y)" "fin (bp, n) \<le> addr y \<or> fin y \<le> unat bp" using cov_apart [OF _ _ heapD(14) [OF h that]] n by fastforce+
  qed
  then show "y \<in> set F \<Longrightarrow> fin (bp, n) \<le> addr y \<or> fin y \<le> unat bp" by blast
  show "apart8 bp z" if "z \<in> insert (base s) (fst ` set F)" using that ax wx(1) by (auto simp: apart8_def)
qed

text \<open>What \<open>free\<close> leaves in memory.\<close>

lemma free_memory:
  assumes h: "heap F A s" and x: "loose (bp, n) F A s" and F: "F = F1 @ F2" "\<forall>y \<in> set F1. addr y < unat bp" "\<forall>y \<in> set F2. unat bp < addr y"
  defines "p \<equiv> tail_node (base s) F1"
  obtains s' where "free (bp + 8) s = Some s'" "chain s' (base s) (glue F1 (join (bp, n) F2)) (base s)" "freep s' = p" "keeps {bp, p} s s'" "hsize s' (base s) = 0"
proof -
  have n: "0 < n" "hsize s bp = n" using x by (simp_all add: loose_def)
  note lo = loose_apart [OF h x] and ring = ring_nodes [OF h]
  have b: "base s < bp" "unat (base s) < unat bp" using lo(1) by (simp_all add: word_less_nat_alt)
  note place = free_place [OF h F b(1)]
  have pn: "p \<in> insert (base s) (fst ` set F)" by (auto simp: p_def F(1) tail_node_def intro: imageI)
  have c: "chain s (base s) F1 (hptr s p)" "chain s p F2 (base s)" using heapD(11) [OF h] unfolding F(1) chain_append p_def by simp_all
  obtain n' G where G: "join (bp, n) F2 = (bp, n') # G" "G = F2 \<or> G = tl F2" using join_hd [of "(bp, n)" F2] by auto
  have GF: "set G \<subseteq> set F2" using G(2) by (cases F2) auto
  have ay: "\<forall>y \<in> set F2. apart8 bp (fst y) \<and> addr y + 8 \<le> 2 ^ 31" using lo(4) ring(1) F(1) by auto
  let ?s = "join_next bp p s"
  note j = join_next_ok [OF c(2) n(2,1) lo(2) b(2) lo(4) [OF pn] ring(1) [OF pn] ay G(1)]
  have same: "hptr ?s z = hptr s z" "hsize ?s z = hsize s z" if "z \<in> insert (base s) (fst ` set F)" for z
    using lo(4) [OF that] ring(1) [OF that] by (auto intro!: keeps_hdr [OF j(3)])
  have c1: "chain ?s (base s) F1 (hptr s p)" by (rule chain_cong [OF c(1)]) (use same F(1) in auto)
  have b1: "hsize ?s (base s) = 0" using same(2) [of "base s"] heapD(12) [OF h] by simp
  have bF: "bp \<notin> insert (base s) (fst ` set F)" using lo(4) apart8_neq by blast
  have ap: "\<forall>z \<in> insert (base s) (fst ` set (F1 @ (bp, n') # G)). unat z + 8 \<le> 2 ^ 31 \<and> (z = p \<or> apart8 p z)"
  proof
    fix z assume "z \<in> insert (base s) (fst ` set (F1 @ (bp, n') # G))"
    then consider "z = bp" | "z \<in> insert (base s) (fst ` set F)" using GF F(1) by auto
    then show "unat z + 8 \<le> 2 ^ 31 \<and> (z = p \<or> apart8 p z)"
      by cases (use lo(3) apart8_sym [OF lo(4) [OF pn]] ring(1) ring(3) [OF pn] in blast)+
  qed
  have "distinct (map fst F2)" "distinct (map fst G)" using ring(2) G(2) unfolding F(1) by (auto simp: map_tl distinct_tl)
  moreover have g: "fst ` set G \<subseteq> fst ` set F2" using GF by blast
  moreover have "fst ` set F1 \<inter> fst ` set F2 = {}" using ring(2) unfolding F(1) by simp
  then have "fst ` set F1 \<inter> fst ` set G = {}" using g by blast
  ultimately have d: "distinct (base s # map fst (F1 @ (bp, n') # G))" using ring(2) bF unfolding F(1) by (simp add: subset_iff image_Un) blast
  have f: "\<forall>y \<in> set F1. fin y \<le> 2 ^ 31" using cov_within(2) [OF heapD(15,14) [OF h]] heapD(3) [OF h] F(1) by fastforce
  note q = join_prev_ok [OF c1 j(2,1) b1 ap [unfolded p_def] d f, folded p_def]
  have k: "keeps {bp, p} s (join_prev bp p ?s)" using keeps_trans [OF j(3) q(2)] by (simp add: insert_commute)
  show ?thesis
  proof (rule that)
    show "free (bp + 8) s = Some ((join_prev bp p ?s)\<lparr>freep := p\<rparr>)" using place by (simp add: free_def p_def)
    show "chain ((join_prev bp p ?s)\<lparr>freep := p\<rparr>) (base s) (glue F1 (join (bp, n) F2)) (base s)"
      unfolding G(1) by (rule chain_cong [OF q(1)]) simp_all
    show "keeps {bp, p} s ((join_prev bp p ?s)\<lparr>freep := p\<rparr>)" using k by (simp add: keeps_def)
    show "hsize ((join_prev bp p ?s)\<lparr>freep := p\<rparr>) (base s) = 0" using q(3) by simp
  qed simp
qed

text \<open>The ring with the block in it.\<close>

lemma glue_join_ok:
  assumes h: "heap F A s" and x: "loose (bp, n) F A s" and F: "F = F1 @ F2" "\<forall>y \<in> set F1. addr y < unat bp" "\<forall>y \<in> set F2. unat bp < addr y"
  shows "ascending (glue F1 (join (bp, n) F2))" "covers (glue F1 (join (bp, n) F2)) = covers F \<union> cov (bp, n)"
    "tail_node b F1 \<in> insert b (fst ` set (glue F1 (join (bp, n) F2)))"
proof -
  let ?J = "join (bp, n) F2"
  note lo = loose_apart [OF h x]
  have n: "0 < snd (bp, n)" using x by (simp add: loose_def)
  have f: "fin y \<le> 2 ^ 31" "addr y + 8 \<le> fin y" if "y \<in> set F" for y using cov_within(2,3) [OF heapD(15,14) [OF h that]] heapD(3) [OF h] by simp_all
  have asc: "ascending F1" "ascending F2" using heapD(4) [OF h] ascending_sub F(1) by blast+
  have xy: "\<forall>y \<in> set F2. fin (bp, n) \<le> addr y \<and> fin y \<le> 2 ^ 31"
  proof
    fix y assume y: "y \<in> set F2"
    then have "y \<in> set F" using F(1) by simp
    then show "fin (bp, n) \<le> addr y \<and> fin y \<le> 2 ^ 31" using lo(5) [of y] f [of y] F(3) y by auto
  qed
  note J = join_ok [OF n asc(2) xy]
  have cJ: "covers ?J \<subseteq> {unat bp..<2 ^ 31}"
    unfolding J(2) using xy lo(2) by (fastforce simp: cov_def covers_def)
  have fJ: "unat bp \<le> addr z" "fin z \<le> 2 ^ 31" if "z \<in> set ?J" for z
  proof -
    have "cov z \<subseteq> {unat bp..<2 ^ 31}" "0 < snd z" using that cJ J(1) by (auto simp: covers_def ascending_def)
    then show "unat bp \<le> addr z" "fin z \<le> 2 ^ 31" using cov_within by blast+
  qed
  have F1J: "\<forall>y \<in> set F1. \<forall>z \<in> set ?J. fin y \<le> addr z"
  proof (intro ballI)
    fix y z assume yz: "y \<in> set F1" "z \<in> set ?J"
    then have "fin y \<le> unat bp" using lo(5) [of y] F(1,2) by fastforce
    then show "fin y \<le> addr z" using fJ(1) [OF yz(2)] by simp
  qed
  have "\<forall>z \<in> set ?J. fin z \<le> 2 ^ 31" using fJ(2) by blast
  note g = glue_ok [OF asc(1) J(1) F1J this]
  show "ascending (glue F1 ?J)" "tail_node b F1 \<in> insert b (fst ` set (glue F1 ?J))" by (rule g(1), rule g(3))
  show "covers (glue F1 ?J) = covers F \<union> cov (bp, n)" unfolding g(2) J(2) F(1) by auto
qed

lemma free_ok:
  assumes h: "heap F A s" and x: "loose (bp, n) F A s"
  obtains F' s' where "free (bp + 8) s = Some s'" "heap F' A s'" "covers F' = covers F \<union> cov (bp, n)" "base s' = base s" "brk s' = brk s"
    "\<forall>y \<in> A. \<forall>b. unat b \<in> cov y \<longrightarrow> ubytes s' b = ubytes s b"
proof -
  note lo = loose_apart [OF h x]
  obtain F1 F2 where F: "F = F1 @ F2" "\<forall>y \<in> set F1. addr y < unat bp" "\<forall>y \<in> set F2. unat bp \<le> addr y"
    using split_at [OF ascending_addrs [OF heapD(4) [OF h]]] by metis
  have F2: "\<forall>y \<in> set F2. unat bp < addr y"
  proof
    fix y assume y: "y \<in> set F2"
    then have "apart8 bp (fst y)" using lo(4) F(1) by auto
    then show "unat bp < addr y" using F(3) y by (auto simp: apart8_def)
  qed
  let ?G = "glue F1 (join (bp, n) F2)" and ?p = "tail_node (base s) F1"
  obtain s' where s': "free (bp + 8) s = Some s'" "chain s' (base s) ?G (base s)" "freep s' = ?p" "keeps {bp, ?p} s s'" "hsize s' (base s) = 0"
    by (rule free_memory [OF h x F(1,2) F2])
  note g = glue_join_ok [OF h x F(1,2) F2]
  have X: "\<forall>g \<in> {bp, ?p}. g = base s \<or> (\<exists>z. fst z = g \<and> 0 < snd z \<and> (\<forall>y \<in> A. cov z \<inter> cov y = {}))"
  proof -
    have "\<exists>z. fst z = bp \<and> 0 < snd z \<and> (\<forall>y \<in> A. cov z \<inter> cov y = {})" using x unfolding loose_def by (intro exI [of _ "(bp, n)"]) simp
    moreover have "?p = base s \<or> (\<exists>z. fst z = ?p \<and> 0 < snd z \<and> (\<forall>y \<in> A. cov z \<inter> cov y = {}))"
    proof (cases F1 rule: rev_cases)
      case (snoc H l)
      then have "l \<in> set F" using F(1) by simp
      then have "0 < snd l" "\<forall>y \<in> A. cov l \<inter> cov y = {}" using heapD(14,16) [OF h] by blast+
      moreover have "?p = fst l" using snoc by simp
      ultimately show ?thesis by metis
    qed simp
    ultimately show ?thesis by blast
  qed
  note b = heap_bytes [OF h s'(4) X]
  have bb: "base s' = base s" "brk s' = brk s" using s'(4) by (simp_all add: keeps_def)
  have "heap ?G A s'"
    unfolding heap_def bb g(2)
  proof (intro conjI ballI impI)
    show "covers F \<union> cov (bp, n) \<subseteq> {unat (base s) + 8..<unat (brk s)}" using heapD(5) [OF h] x by (simp add: loose_def)
    show "cov y \<inter> (covers F \<union> cov (bp, n)) = {}" if "y \<in> A" for y using heapD(8) [OF h that] x that unfolding loose_def by blast
    show "hsize s' (fst y) = snd y" if "y \<in> A" for y by (rule b(2) [OF that])
  qed (use heapD(1-3,6,7,10) [OF h] g(1,3) s'(2,3,5) in simp_all)
  then show ?thesis using that [OF s'(1) _ g(2) bb] b(1) by blast
qed

end
