(* ===== verification/Umalloc_Safe.thy ===== *)
theory Umalloc_Safe
  imports Umalloc_Props
begin

text \<open>
  \<open>malloc\<close>: the search through the ring, the two ways to take a block, and growing the memory when no block is
  large enough.
\<close>

subsection \<open>Taking a block\<close>

lemma chain_next: "chain s p xs q \<Longrightarrow> x \<in> insert p (fst ` set xs) \<Longrightarrow> hptr s x \<in> insert q (fst ` set xs)"
proof (induction xs arbitrary: p)
  case (Cons y xs)
  obtain b m where y: "y = (b, m)" by (cases y)
  then show ?case using Cons.prems Cons.IH [of b] by (cases "x = p") auto
qed simp

lemma chain_pred:
  assumes "chain s p xs q" "distinct (map fst xs)" "q \<notin> fst ` set xs" "x \<in> insert p (fst ` set xs)" "hptr s x = a" "a \<in> fst ` set xs"
  shows "\<exists>ys n zs. xs = ys @ (a, n) # zs \<and> x = tail_node p ys"
  using assms
proof (induction xs arbitrary: p)
  case (Cons y xs)
  obtain b m where y: "y = (b, m)" by (cases y)
  show ?case
  proof (cases "x = p")
    case True
    then show ?thesis using Cons.prems y by (intro exI [of _ "[]"]) simp
  next
    case False
    then have xb: "x \<in> insert b (fst ` set xs)" and c: "chain s b xs q" using Cons.prems y by auto
    then have "a \<in> insert q (fst ` set xs)" using chain_next [OF c] Cons.prems(5) by auto
    then have a: "a \<in> fst ` set xs" using Cons.prems(2,3,6) y by auto
    have d: "distinct (map fst xs)" "q \<notin> fst ` set xs" using Cons.prems(2,3) by simp_all
    from Cons.IH [OF c d xb Cons.prems(5) a] obtain ys n zs where "xs = ys @ (a, n) # zs" "x = tail_node b ys" by blast
    then show ?thesis using y by (intro exI [of _ "y # ys"] exI [of _ n] exI [of _ zs]) simp
  qed
qed simp

lemma ring_pred:
  assumes h: "heap F A s" and a: "(a, n) \<in> set F" "hptr s p = a" "p \<in> insert (base s) (fst ` set F)"
  obtains F1 F2 where "F = F1 @ (a, n) # F2" "p = tail_node (base s) F1"
proof -
  have "a \<in> fst ` set F" using a(1) by force
  then obtain F1 m F2 where F: "F = F1 @ (a, m) # F2" "p = tail_node (base s) F1"
    using chain_pred [OF heapD(11) [OF h] _ _ a(3,2)] ring_nodes(2) [OF h] by auto
  moreover have "m = n" using ring_nodes(2) [OF h] a(1) F(1) by (force simp: image_iff)
  ultimately show ?thesis using that by blast
qed

definition same_bytes :: "ublock set \<Rightarrow> umem \<Rightarrow> umem \<Rightarrow> bool" where
  "same_bytes A s t \<longleftrightarrow> (\<forall>y \<in> A. \<forall>b. unat b \<in> cov y \<longrightarrow> ubytes t b = ubytes s b)"

lemma same_bytes_trans: "same_bytes A s t \<Longrightarrow> same_bytes A t u \<Longrightarrow> same_bytes A s u"
  by (auto simp: same_bytes_def)

text \<open>The header of a node of the ring.\<close>

lemma node_hdr:
  assumes h: "heap F A s" and p: "p \<in> insert (base s) (fst ` set F)"
  shows "p = base s \<or> (\<exists>z. fst z = p \<and> 0 < snd z \<and> (\<forall>y \<in> A. cov z \<inter> cov y = {}))"
proof (cases "p = base s")
  case False
  then obtain z where z: "z \<in> set F" "fst z = p" using p by auto
  then have "0 < snd z" "\<forall>y \<in> A. cov z \<inter> cov y = {}" using heapD(14,16) [OF h] by blast+
  then show ?thesis using z(2) by blast
qed simp

lemma heap_take:
  assumes h: "heap F A s" and t: "base t = base s" "brk t = brk s" "chain t (base s) F' (base s)" "hsize t (base s) = 0" "freep t \<in> insert (base s) (fst ` set F')"
    and F': "ascending F'" "covers F = covers F' \<union> cov x" "covers F' \<inter> cov x = {}" and x: "0 < snd x" "hsize t (fst x) = snd x" "\<forall>y \<in> A. hsize t (fst y) = snd y"
  shows "heap F' (insert x A) t"
proof -
  have d: "cov x \<inter> cov y = {}" if "y \<in> A" for y using heapD(8) [OF h that] F'(2) by blast
  have c: "cov x \<subseteq> {unat (base s) + 8..<unat (brk s)}" "covers F' \<subseteq> {unat (base s) + 8..<unat (brk s)}" using heapD(5) [OF h] F'(2) by blast+
  show ?thesis
    unfolding heap_def t(1,2)
  proof (intro conjI ballI impI)
    fix y assume yA: "y \<in> insert x A"
    then consider "y = x" | "y \<in> A" by blast
    note yc = this
    show "0 < snd y" "cov y \<subseteq> {unat (base s) + 8..<unat (brk s)}" "hsize t (fst y) = snd y"
      by (cases rule: yc; use x c heapD(6,7) [OF h] in blast)+
    show "cov y \<inter> covers F' = {}" by (cases rule: yc) (use F' heapD(8) [OF h] in blast)+
    show "cov y \<inter> cov z = {}" if z: "z \<in> insert x A" "y \<noteq> z" for z
    proof (cases "y = x")
      case True
      then have "z \<in> A" using z by blast
      then show ?thesis using d True by blast
    next
      case False
      then have y: "y \<in> A" using yA by blast
      show ?thesis using z d [OF y] heapD(10) [OF h y, of z] by (cases "z = x") auto
    qed
  qed (use heapD(1-3) [OF h] F'(1) t(3-5) c(2) in simp_all)
qed

text \<open>Blocks of an ascending list are disjoint.\<close>

lemma ascending_disjoint:
  assumes "ascending (F1 @ x # F2)"
  shows "cov x \<inter> covers (F1 @ F2) = {}"
proof -
  have "fin y < addr x" if "y \<in> set F1" for y using ascendingD [OF assms that] by simp
  moreover have "fin x < addr y" if "y \<in> set F2" for y using ascendingD [of "F1 @ [x]" F2 x y] assms that by simp
  ultimately show ?thesis by (fastforce simp: cov_def covers_def)
qed

lemma take_all:
  assumes h: "heap F A s" and a: "(a, n) \<in> set F" "hptr s p = a" "p \<in> insert (base s) (fst ` set F)"
  obtains F' s' where "take_units n p a s = (a + 8, s')" "heap F' (insert (a, n) A) s'" "same_bytes A s s'"
proof -
  obtain F1 F2 where F: "F = F1 @ (a, n) # F2" "p = tail_node (base s) F1" by (rule ring_pred [OF h a])
  note ring = ring_nodes [OF h]
  have an: "a \<in> insert (base s) (fst ` set F)" using a(1) by force
  have pn: "p \<in> insert (base s) (fst ` set (F1 @ F2))" by (auto simp: F(2) tail_node_def intro: imageI)
  have c: "chain s (base s) F1 a" "hsize s a = n" "chain s a F2 (base s)" using heapD(11) [OF h] unfolding F(1) chain_split by simp_all
  have pa: "p \<noteq> a" using ring(2) pn unfolding F(1) by auto
  let ?t = "set_hptr p (hptr s a) s"
  have p8: "unat p + 8 \<le> 2 ^ 31" by (rule ring(1) [OF a(3)])
  have k: "keeps {p} s ?t" by (rule keeps_set(1) [OF p8])
  have hp: "hptr ?t p = hptr s a" by (rule hdr_simps(1) [OF p8])
  have same: "hptr ?t z = hptr s z" "hsize ?t z = hsize s z" if "z \<in> insert (base s) (fst ` set F)" "z \<noteq> p" for z
    using keeps_hdr [OF k ring(1) [OF that(1)]] ring(3) [OF a(3) that(1)] that(2) by auto
  have hs: "hsize ?t z = hsize s z" if "z \<in> insert (base s) (fst ` set F)" for z
    using same(2) [OF that] hdr_simps(2) [OF p8] by (cases "z = p") auto
  have "chain ?t (base s) F1 (hptr s a)"
    by (rule chain_retarget [OF c(1)]) (use hp same(1) hs ring(2) in \<open>auto simp: F\<close>)
  moreover have "chain ?t p F2 (base s)"
  proof (rule chain_start [OF c(3) hp])
    fix z assume "z \<in> fst ` set F2"
    moreover have "p \<in> insert (base s) (fst ` set F1)" by (auto simp: F(2) tail_node_def intro: imageI)
    moreover have "insert (base s) (fst ` set F1) \<inter> fst ` set F2 = {}" using ring(2) unfolding F(1) by simp
    ultimately have "z \<noteq> p" "z \<in> fst ` set F" by (blast, simp add: F(1) image_Un)
    then have "z \<in> insert (base s) (fst ` set F)" "z \<noteq> p" by blast+
    then show "hptr ?t z = hptr s z" "hsize ?t z = hsize s z" by (rule same)+
  qed
  ultimately have ch: "chain ?t (base s) (F1 @ F2) (base s)" unfolding chain_append using hp F(2) by simp
  have X: "\<forall>g \<in> {p}. g = base s \<or> (\<exists>z. fst z = g \<and> 0 < snd z \<and> (\<forall>y \<in> A. cov z \<inter> cov y = {}))" using node_hdr [OF h a(3)] by simp
  have k': "keeps {p} s (?t\<lparr>freep := p\<rparr>)" using k by (simp add: keeps_def)
  note b = heap_bytes [OF h k' X]
  have "ascending (F1 @ (a, n) # F2)" using heapD(4) [OF h] F(1) by simp
  note d = ascending_disjoint [OF this]
  show ?thesis
  proof (rule that)
    show "take_units n p a s = (a + 8, ?t\<lparr>freep := p\<rparr>)" using c(2) by (simp add: take_units_def)
    show "same_bytes A s (?t\<lparr>freep := p\<rparr>)" using b(1) by (auto simp: same_bytes_def)
    show "heap (F1 @ F2) (insert (a, n) A) (?t\<lparr>freep := p\<rparr>)"
    proof (rule heap_take [OF h])
      show "chain (?t\<lparr>freep := p\<rparr>) (base s) (F1 @ F2) (base s)" by (rule chain_cong [OF ch]) simp_all
      show "ascending (F1 @ F2)" using heapD(4) [OF h] by (auto simp: F(1) ascending_def sorted_wrt_append)
      show "0 < snd (a, n)" by (rule heapD(14) [OF h a(1)])
      show "covers (F1 @ F2) \<inter> cov (a, n) = {}" using d by blast
      show "hsize (?t\<lparr>freep := p\<rparr>) (fst (a, n)) = snd (a, n)" using hs [OF an] c(2) by simp
    qed (use pn b(2) hs heapD(12) [OF h] in \<open>auto simp: F(1)\<close>)
  qed
qed

lemma unat_pos: "0 < n \<Longrightarrow> 0 < unat (n :: u32)"
  by (simp add: word_gt_0 unat_gt_0)

lemma cut_block:
  assumes nu: "0 < nu" "nu < n" and f: "fin (a, n) \<le> 2 ^ 31"
  defines "r \<equiv> a + 8 * (n - nu)"
  shows "unat (n - nu) = unat n - unat nu" "unat r = fin (a, n - nu)" "fin (r, nu) = fin (a, n)"
    "cov (a, n) = cov (a, n - nu) \<union> cov (r, nu)" "cov (a, n - nu) \<inter> cov (r, nu) = {}" "0 < n - nu" "apart8 r a"
proof -
  have u: "unat nu < unat n" "0 < unat nu" using nu unat_pos by (simp_all add: word_less_nat_alt)
  show m: "unat (n - nu) = unat n - unat nu" using u(1) by (simp add: unat_sub word_le_nat_alt)
  show r: "unat r = fin (a, n - nu)" unfolding r_def using f m by (intro fin_word) simp
  then show fr: "fin (r, nu) = fin (a, n)" using m u(1) by simp
  show "cov (a, n) = cov (a, n - nu) \<union> cov (r, nu)" "cov (a, n - nu) \<inter> cov (r, nu) = {}"
    using r fr m u by (auto simp: cov_def)
  show "0 < n - nu" using m u by (simp add: word_less_nat_alt)
  show "apart8 r a" using r m u by (simp add: apart8_def)
qed

lemma take_tail:
  assumes h: "heap F A s" and a: "(a, n) \<in> set F" "p \<in> insert (base s) (fst ` set F)" and nu: "0 < nu" "nu < n"
  obtains F' r s' where "take_units nu p a s = (r + 8, s')" "heap F' (insert (r, nu) A) s'" "same_bytes A s s'" "cov (r, nu) \<subseteq> covers F"
proof -
  obtain F1 F2 where F: "F = F1 @ (a, n) # F2" using split_list [OF a(1)] by blast
  note ring = ring_nodes [OF h]
  have c: "chain s (base s) F1 a" "hsize s a = n" "chain s a F2 (base s)" using heapD(11) [OF h] unfolding F(1) chain_split by simp_all
  have an: "a \<in> insert (base s) (fst ` set F)" using a(1) by force
  have fa: "fin (a, n) \<le> 2 ^ 31" using cov_within(2) [OF heapD(15,14) [OF h a(1)]] heapD(3) [OF h] by simp
  define r where "r = a + 8 * (n - nu)"
  note cb = cut_block [OF nu fa, folded r_def]
  have rb: "unat (base s) + 8 \<le> unat r" "unat r + 8 \<le> 2 ^ 31"
    using cb(2,3) cov_within(1) [OF heapD(15,14) [OF h a(1)]] fa unat_pos [OF nu(1)] by simp_all
  have asc: "ascending (F1 @ (a, n) # F2)" using heapD(4) [OF h] F by simp
  note d = ascending_disjoint [OF asc]
  have ar: "apart8 r z" if zF: "z \<in> insert (base s) (fst ` set F)" for z
  proof -
    consider "z = base s" | "z = a" | y where "y \<in> set F1 \<union> set F2" "z = fst y" using zF unfolding F by auto
    then show ?thesis
    proof cases
      case 3
      have "cov y \<subseteq> covers (F1 @ F2)" "0 < snd y" using 3(1) heapD(14) [OF h, of y] by (auto simp: covers_def F)
      then have "cov (r, nu) \<inter> cov y = {}" using d cb(4) by blast
      from cov_apart(1) [OF this] show ?thesis using nu(1) \<open>0 < snd y\<close> 3(2) by simp
    qed (use rb(1) cb(7) in \<open>auto simp: apart8_def\<close>)
  qed
  have a8: "unat a + 8 \<le> 2 ^ 31" by (rule ring(1) [OF an])
  let ?s1 = "set_hsize a (n - nu) s"
  let ?t = "(set_hsize r nu ?s1)\<lparr>freep := p\<rparr>"
  have k: "keeps {a, r} s ?t" using keeps_trans [OF keeps_set(2) [OF a8] keeps_set(2) [OF rb(2)]] by (simp add: keeps_def)
  have ha: "hsize ?t a = n - nu" "hptr ?t a = hptr s a" using hdr_simps [OF a8] hdr_simps(7,8) [OF rb(2) a8 cb(7)] by simp_all
  have hr: "hsize ?t r = nu" using hdr_simps(3) [OF rb(2)] by simp
  have same: "hptr ?t z = hptr s z" "z \<noteq> a \<Longrightarrow> hsize ?t z = hsize s z" if "z \<in> insert (base s) (fst ` set F)" for z
    using keeps_hdr [OF k ring(1) [OF that]] ar [OF that] ring(3) [OF an that] ha(2) by (cases "z = a"; auto)+
  have ba: "base s \<noteq> a" "a \<notin> fst ` set F1" "a \<notin> fst ` set F2" using ring(2) by (auto simp: F)
  have "chain ?t (base s) F1 a" by (rule chain_cong [OF c(1)]) (use same ba in \<open>auto simp: F image_Un\<close>)
  moreover have "chain ?t a F2 (base s)" by (rule chain_cong [OF c(3)]) (use same ba in \<open>auto simp: F image_Un\<close>)
  ultimately have ch: "chain ?t (base s) (F1 @ (a, n - nu) # F2) (base s)" unfolding chain_split using ha(1) by simp
  have cF: "cov (r, nu) \<subseteq> covers F" unfolding F covers_simps cb(4) by blast
  have "\<exists>z. fst z = r \<and> 0 < snd z \<and> (\<forall>y \<in> A. cov z \<inter> cov y = {})"
    using cF heapD(8) [OF h] nu(1) by (intro exI [of _ "(r, nu)"]) auto
  then have X: "\<forall>g \<in> {a, r}. g = base s \<or> (\<exists>z. fst z = g \<and> 0 < snd z \<and> (\<forall>y \<in> A. cov z \<inter> cov y = {}))" using node_hdr [OF h an] by blast
  note b = heap_bytes [OF h k X]
  have "unat n - unat nu \<le> unat n" by simp
  then have asc': "ascending (F1 @ (a, n - nu) # F2)" using asc cb(1,6) by (force simp: ascending_def sorted_wrt_append)
  show ?thesis
  proof (rule that)
    show "take_units nu p a s = (r + 8, ?t)" using nu(2) c(2) hdr_simps(3) [OF a8] by (auto simp: take_units_def Let_def r_def)
    show "same_bytes A s ?t" using b(1) by (auto simp: same_bytes_def)
    show "heap (F1 @ (a, n - nu) # F2) (insert (r, nu) A) ?t"
    proof (rule heap_take [OF h _ _ ch])
      show "freep ?t \<in> insert (base s) (fst ` set (F1 @ (a, n - nu) # F2))" using a(2) by (simp add: F)
      show "covers F = covers (F1 @ (a, n - nu) # F2) \<union> cov (r, nu)" unfolding F covers_simps cb(4) by blast
      show "covers (F1 @ (a, n - nu) # F2) \<inter> cov (r, nu) = {}" using d cb(4,5) by auto
      show "hsize ?t (base s) = 0" using same(2) [of "base s"] ba(1) heapD(12) [OF h] by simp
    qed (use asc' nu(1) hr b(2) in auto)
  qed (rule cF)
qed

lemma take_ok:
  assumes h: "heap F A s" and a: "(a, n) \<in> set F" "hptr s p = a" "p \<in> insert (base s) (fst ` set F)" and nu: "0 < nu" "nu \<le> n"
  obtains F' r s' where "take_units nu p a s = (r + 8, s')" "heap F' (insert (r, nu) A) s'" "same_bytes A s s'" "cov (r, nu) \<subseteq> covers F"
proof (cases "nu = n")
  case True
  obtain F' s' where "take_units n p a s = (a + 8, s')" "heap F' (insert (a, n) A) s'" "same_bytes A s s'" by (rule take_all [OF h a])
  moreover have "cov (a, n) \<subseteq> covers F" using a(1) by (auto simp: covers_def)
  ultimately show ?thesis using that True by blast
next
  case False
  then have "nu < n" using nu(2) by simp
  from take_tail [OF h a(1,3) nu(1) this] that show ?thesis by metis
qed

subsection \<open>The search\<close>

lemma malloc_loop_skip:
  assumes "chain s p ys r" "\<forall>y \<in> set ys. snd y < nu \<and> fst y \<noteq> freep s"
  shows "malloc_loop g nu p (hptr s p) s = malloc_loop g nu (tail_node p ys) r s"
  using assms
proof (induction ys arbitrary: p)
  case (Cons y ys)
  obtain a n where y: "y = (a, n)" by (cases y)
  have "malloc_loop g nu p (hptr s p) s = malloc_loop g nu a (hptr s a) s"
    using Cons.prems by (subst malloc_loop.simps) (auto simp: y)
  then show ?case using Cons by (simp add: y)
qed simp

text \<open>The ring from \<open>freep\<close> on, the static header among the nodes.\<close>

lemma ring_from:
  assumes h: "heap F A s"
  obtains R where "chain s (freep s) R (freep s)" "insert (freep s, hsize s (freep s)) (set R) = insert (base s, 0) (set F)" "freep s \<notin> fst ` set R"
proof (cases "freep s = base s")
  case True
  then show ?thesis using that [of F] heapD(11,12) [OF h] ring_nodes(2) [OF h] by simp
next
  case False
  then obtain m where "(freep s, m) \<in> set F" using heapD(13) [OF h] by auto
  then obtain F1 F2 where F: "F = F1 @ (freep s, m) # F2" using split_list by metis
  have c: "chain s (base s) F1 (freep s)" "hsize s (freep s) = m" "chain s (freep s) F2 (base s)" using heapD(11) [OF h] unfolding F chain_split by simp_all
  show ?thesis
  proof (rule that)
    show "chain s (freep s) (F2 @ (base s, 0) # F1) (freep s)" unfolding chain_split using c heapD(12) [OF h] by simp
    show "insert (freep s, hsize s (freep s)) (set (F2 @ (base s, 0) # F1)) = insert (base s, 0) (set F)" using c(2) F by auto
    show "freep s \<notin> fst ` set (F2 @ (base s, 0) # F1)" using ring_nodes(2) [OF h] False unfolding F by (simp add: image_Un)
  qed
qed

lemma malloc_loop_found:
  assumes h: "heap F A s" and nu: "0 < nu" and ex: "\<exists>x \<in> set F. nu \<le> snd x"
  obtains F' r s' where "malloc_loop g nu (freep s) (hptr s (freep s)) s = Some (r + 8, s')" "heap F' (insert (r, nu) A) s'" "same_bytes A s s'" "cov (r, nu) \<subseteq> covers F"
proof -
  obtain R where R: "chain s (freep s) R (freep s)" "insert (freep s, hsize s (freep s)) (set R) = insert (base s, 0) (set F)" "freep s \<notin> fst ` set R"
    by (rule ring_from [OF h])
  have nodes: "z \<in> insert (base s) (fst ` set F)" if "z \<in> insert (freep s) (fst ` set R)" for z
    using that arg_cong [OF R(2), of "image fst"] by (metis fst_conv image_insert)
  note result = that
  have found: thesis if t: "malloc_loop g nu (freep s) (hptr s (freep s)) s = malloc_loop g nu p a s" "hptr s p = a" "p \<in> insert (freep s) (fst ` set R)"
    "(a, n) \<in> insert (freep s, hsize s (freep s)) (set R)" "hsize s a = n" "nu \<le> n" for p a n
  proof -
    have "(a, n) \<in> set F" using t(4,6) nu R(2) by auto
    from take_ok [OF h this t(2) nodes [OF t(3)] nu t(6)] obtain F' r s' where
      "take_units nu p a s = (r + 8, s')" "heap F' (insert (r, nu) A) s'" "same_bytes A s s'" "cov (r, nu) \<subseteq> covers F" by metis
    then show thesis using result t(1,5,6) malloc_loop.simps [of g nu p a s] by simp
  qed
  have tn: "tail_node p ys \<in> insert p (fst ` set ys)" for p ys by (auto simp: tail_node_def intro: imageI)
  show thesis
  proof (cases "\<exists>y \<in> set R. nu \<le> snd y")
    case True
    obtain ys y zs where s: "R = ys @ y # zs" "nu \<le> snd y" "\<forall>x \<in> set ys. \<not> nu \<le> snd x" using split_list_first_prop [OF True] by metis
    obtain a n where y: "y = (a, n)" by (cases y)
    have c: "chain s (freep s) ys a" "hsize s a = n" using R(1) unfolding s(1) y chain_split by simp_all
    have "\<forall>x \<in> set ys. snd x < nu \<and> fst x \<noteq> freep s" using s(1,3) R(3) by (force simp: not_le)
    from malloc_loop_skip [OF c(1) this] show thesis
      by (rule found) (use chain_tail [OF c(1)] c(2) s y tn [of "freep s" ys] in \<open>auto simp: image_Un\<close>)
  next
    case False
    have "nu \<le> hsize s (freep s)" using ex False nu R(2) by (metis (no_types, lifting) insertE insertI2 snd_conv)
    moreover have "\<forall>x \<in> set R. snd x < nu \<and> fst x \<noteq> freep s" using False R(3) by (force simp: not_le)
    from malloc_loop_skip [OF R(1) this] show thesis
      by (rule found) (use calculation chain_tail [OF R(1)] tn [of "freep s" R] in auto)
  qed
qed

subsection \<open>More memory\<close>

lemma one_block:
  assumes "ascending F" "{l..<h} \<subseteq> covers F" "l < h"
  shows "\<exists>x \<in> set F. h - l \<le> 8 * unat (snd x)"
proof -
  obtain x where x: "x \<in> set F" "l \<in> cov x" using assms(2,3) by (auto simp: covers_def)
  have "h \<le> fin x"
  proof (rule ccontr)
    assume "\<not> h \<le> fin x"
    then have "fin x \<in> {l..<h}" using x(2) by (auto simp: cov_def)
    then obtain y where y: "y \<in> set F" "fin x \<in> cov y" using assms(2) by (auto simp: covers_def)
    have xy: "x \<noteq> y" using y(2) by (auto simp: cov_def)
    obtain i j where ij: "i < length F" "F ! i = x" "j < length F" "F ! j = y" using x(1) y(1) by (auto simp: in_set_conv_nth)
    then have "i < j \<or> j < i" using xy by (cases i j rule: linorder_cases) auto
    then have "fin x < addr y \<or> fin y < addr x"
      using assms(1) ij sorted_wrt_nth_less [of "\<lambda>x y. fin x < addr y" F i j] sorted_wrt_nth_less [of "\<lambda>x y. fin x < addr y" F j i]
      by (auto simp: ascending_def)
    then show False using y(2) by (auto simp: cov_def)
  qed
  moreover have "addr x \<le> l" using x(2) by (simp add: cov_def)
  ultimately show ?thesis using x(1) by (intro bexI [of _ x]) auto
qed

lemma fresh_pages_below:
  assumes "unat a < unat oldsz"
  shows "fresh_pages oldsz newsz m a = m a"
proof -
  have "unat a div 4096 < (unat oldsz + 4095) div 4096" using assms by simp
  then show ?thesis by (simp add: fresh_pages_def)
qed

lemma heap_fresh:
  fixes newsz :: u32
  assumes h: "heap F A s"
  defines "t \<equiv> s\<lparr>ubytes := fresh_pages (brk s) newsz (ubytes s)\<rparr>"
  shows "heap F A t" "same_bytes A s t"
proof -
  have b: "ubytes t z = ubytes s z" if "unat z < unat (brk s)" for z using fresh_pages_below that by (simp add: t_def)
  have hdr: "hptr t z = hptr s z" "hsize t z = hsize s z" if "unat z + 8 \<le> unat (brk s)" for z
  proof -
    have "unat (z + k) = unat z + unat k" if "unat k < 8" for k
      using that \<open>unat z + 8 \<le> unat (brk s)\<close> heapD(3) [OF h] by (simp add: unat_word_ariths)
    then have "ubytes t (z + k) = ubytes s (z + k)" if "unat k < 8" for k using b that \<open>unat z + 8 \<le> unat (brk s)\<close> by simp
    from this [of 0] this [of 1] this [of 2] this [of 3] this [of 4] this [of 5] this [of 6] this [of 7]
    show "hptr t z = hptr s z" "hsize t z = hsize s z" by (simp_all add: hptr_def hsize_def load32_def add.assoc)
  qed
  have A8: "unat (fst y) + 8 \<le> unat (brk s)" if "y \<in> A" for y using cov_within(2,3) [OF heapD(7,6) [OF h that]] by simp
  have F8: "unat (fst y) + 8 \<le> unat (brk s)" if "y \<in> set F" for y using cov_within(2,3) [OF heapD(15,14) [OF h that]] by simp
  have bt: "base t = base s" "brk t = brk s" "freep t = freep s" by (simp_all add: t_def)
  have "chain t (base s) F (base s)" by (rule chain_cong [OF heapD(11) [OF h]]) (use hdr F8 heapD(2) [OF h] in auto)
  then show "heap F A t"
    unfolding heap_def bt using heapD(1-10,12,13) [OF h] hdr(2) [OF heapD(2) [OF h]] hdr(2) [OF A8] by simp
  show "same_bytes A s t" unfolding same_bytes_def using b heapD(7) [OF h] by fastforce
qed

lemma grow_heap:
  assumes h: "heap F A s" and n: "0 < n" "unat (brk s) + 8 * unat n < 2 ^ 31"
  defines "t \<equiv> set_hsize (brk s) n (s\<lparr>brk := brk s + 8 * n\<rparr>)"
  shows "heap F A t" "loose (brk s, n) F A t" "same_bytes A s t" "brk t = brk s + 8 * n"
proof -
  let ?s = "s\<lparr>brk := brk s + 8 * n\<rparr>"
  have nb: "unat (brk s + 8 * n) = unat (brk s) + 8 * unat n" using n(2) by (simp add: unat_word_ariths)
  have n1: "0 < unat n" by (rule unat_pos [OF n(1)])
  have wide: "X \<subseteq> {unat (base s) + 8..<unat (brk s)} \<Longrightarrow> X \<subseteq> {unat (base s) + 8..<unat (brk s) + 8 * unat n}" for X by fastforce
  have c1: "chain ?s (base s) F (base s)" by (rule chain_cong [OF heapD(11) [OF h]]) simp_all
  have h1: "heap F A ?s"
    unfolding heap_def using heapD(1-10,12,13) [OF h] c1 wide n(2) nb by auto
  have b8: "unat (brk s) + 8 \<le> 2 ^ 31" using n1 n(2) by simp
  have k: "keeps {brk s} ?s t" unfolding t_def by (rule keeps_set(2) [OF b8])
  have below: "cov (brk s, n) \<inter> cov y = {}" if "cov y \<subseteq> {unat (base s) + 8..<unat (brk s)}" for y using that by (fastforce simp: cov_def)
  have "\<exists>z. fst z = brk s \<and> 0 < snd z \<and> (\<forall>y \<in> A. cov z \<inter> cov y = {})" using below heapD(7) [OF h] n(1) by (intro exI [of _ "(brk s, n)"]) simp
  then have X: "\<forall>g \<in> {brk s}. g = base ?s \<or> (\<exists>z. fst z = g \<and> 0 < snd z \<and> (\<forall>y \<in> A. cov z \<inter> cov y = {}))" by blast
  note b = heap_bytes [OF h1 k X]
  have ap: "apart8 (brk s) z" if "z \<in> insert (base s) (fst ` set F)" for z
  proof -
    have "unat (base s) + 8 \<le> unat (brk s)" using heapD(2) [OF h] .
    moreover have "addr y + 8 \<le> unat (brk s)" if "y \<in> set F" for y using cov_within(2,3) [OF heapD(15,14) [OF h that]] by simp
    ultimately show ?thesis using that by (auto simp: apart8_def)
  qed
  have same: "hptr t z = hptr s z" "hsize t z = hsize s z" if "z \<in> insert (base s) (fst ` set F)" for z
    using keeps_hdr [OF k ring_nodes(1) [OF h1]] ap that by simp_all
  have bt: "base t = base s" "brk t = brk s + 8 * n" "freep t = freep s" by (simp_all add: t_def)
  have "chain t (base s) F (base s)" by (rule chain_cong [OF heapD(11) [OF h]]) (use same in auto)
  then show "heap F A t"
    unfolding heap_def bt using heapD(1-8,10) [OF h1] same(2) [of "base s"] heapD(12,13) [OF h] b(2) by simp
  show "brk t = brk s + 8 * n" by (rule bt(2))
  show "same_bytes A s t" using b(1) by (auto simp: same_bytes_def)
  have "cov (brk s, n) = {unat (brk s)..<unat (brk s) + 8 * unat n}" by (simp add: cov_def)
  moreover have "hsize t (brk s) = n" unfolding t_def using hdr_simps(3) [OF b8] by simp
  ultimately show "loose (brk s, n) F A t"
    unfolding loose_def bt nb using heapD(2,5,7) [OF h] n(1) below by (fastforce simp: subset_iff)
qed

lemma freep_nonzero:
  assumes h: "heap F A s"
  shows "freep s \<noteq> 0"
proof -
  have "fst y \<noteq> 0" if "y \<in> set F" for y using cov_within(1) [OF heapD(15,14) [OF h that]] by auto
  then show ?thesis using heapD(1,13) [OF h] by auto
qed

lemma morecore_ok:
  assumes h: "heap F A s" and nu: "unat nu \<le> 2 ^ 27 + 1" "0 < nu"
  obtains (full) "morecore g nu s = Some (0, s)"
  | (grown) F' s' where "morecore g nu s = Some (freep s', s')" "freep s' \<noteq> 0" "heap F' A s'" "same_bytes A s s'" "\<exists>x \<in> set F'. nu \<le> snd x"
proof -
  define n where "n = (if nu < 4096 then 4096 else nu)"
  have n: "unat n \<le> 2 ^ 27 + 1" "nu \<le> n" "4096 \<le> unat n" "0 < n" using nu by (auto simp: n_def word_less_nat_alt word_le_nat_alt)
  have u8: "unat (n * 8) = 8 * unat n" using n(1) by (simp add: unat_word_ariths)
  have pos: "0 <s n * 8" using n(1,3) u8 by (subst sless_small) simp_all
  have nb: "unat (brk s + n * 8) = unat (brk s) + 8 * unat n" using n(1) heapD(3) [OF h] u8 by (simp add: unat_word_ariths)
  then have nw: "\<not> brk s + n * 8 < brk s" by (simp add: word_less_nat_alt)
  show thesis
  proof (cases "USERTOP \<le> brk s + n * 8 \<or> \<not> g (n * 8) s")
    case True
    then have "sbrk g (n * 8) s = (-1, s)" using pos nw by (auto simp: sbrk_def Let_def)
    then show thesis using full by (simp add: morecore_def Let_def n_def)
  next
    case False
    define s0 where "s0 = s\<lparr>ubytes := fresh_pages (brk s) (brk s + 8 * n) (ubytes s)\<rparr>"
    let ?t = "set_hsize (brk s0) n (s0\<lparr>brk := brk s0 + 8 * n\<rparr>)"
    have s0: "heap F A s0" "same_bytes A s s0" "brk s0 = brk s" unfolding s0_def using heap_fresh [OF h] by simp_all
    have lt: "unat (brk s) + 8 * unat n < 2 ^ 31" using False nb by (simp add: USERTOP_def word_le_nat_alt)
    have sb: "sbrk g (n * 8) s = (brk s0, s0\<lparr>brk := brk s0 + 8 * n\<rparr>)" using False pos nw by (auto simp: sbrk_def Let_def mult.commute s0_def)
    have "unat (- 1 :: u32) = 2 ^ 32 - 1" by (simp add: unsigned_minus_1_eq_mask mask_eq_exp_minus_1)
    then have nm: "brk s \<noteq> -1" using heapD(3) [OF h] by auto
    note g = grow_heap [OF s0(1) n(4) lt [folded s0(3)]]
    obtain F' s' where f: "free (brk s0 + 8) ?t = Some s'" "heap F' A s'" "covers F' = covers F \<union> cov (brk s0, n)" "base s' = base ?t" "brk s' = brk ?t"
      "\<forall>y \<in> A. \<forall>b. unat b \<in> cov y \<longrightarrow> ubytes s' b = ubytes ?t b" by (rule free_ok [OF g(1,2)])
    have "{unat (brk s0)..<unat (brk s0) + 8 * unat n} \<subseteq> covers F'" using f(3) by (auto simp: cov_def)
    from one_block [OF heapD(4) [OF f(2)] this] n(3) obtain x where x: "x \<in> set F'" "8 * unat n \<le> 8 * unat (snd x)" by auto
    then have "nu \<le> snd x" using n(2) by (simp add: word_le_nat_alt)
    moreover have "freep s' \<noteq> 0" by (rule freep_nonzero [OF f(2)])
    moreover have "same_bytes A s s'" using s0(2) g(3) f(6) by (auto simp: same_bytes_def)
    moreover have "morecore g nu s = Some (freep s', s')" using sb nm [folded s0(3)] f(1) by (simp add: morecore_def Let_def n_def)
    ultimately show thesis using grown f(2) x(1) by blast
  qed
qed

subsection \<open>malloc and free\<close>

lemma units:
  fixes nbytes :: u32
  assumes "unat nbytes \<le> 2 ^ 30"
  defines "nu \<equiv> (nbytes + 8 - 1) div 8 + 1"
  shows "unat nu \<le> 2 ^ 27 + 1" "0 < nu" "unat nbytes + 8 \<le> 8 * unat nu"
proof -
  have "unat (nbytes + 8 - 1) = unat nbytes + 7"
    using assms(1) by (simp add: unat_word_ariths unat_sub_if_size word_size)
  then have "unat ((nbytes + 8 - 1) div 8) = (unat nbytes + 7) div 8" by (simp only: unat_div_distrib) simp
  then have u: "unat nu = (unat nbytes + 7) div 8 + 1" unfolding nu_def using assms(1) by (simp add: unat_word_ariths)
  then show "unat nu \<le> 2 ^ 27 + 1" "0 < nu" using assms(1) by (auto simp: word_less_nat_alt)
  show "unat nbytes + 8 \<le> 8 * unat nu" unfolding u by presburger
qed

lemma malloc_found:
  assumes h: "heap F A s" and nu: "0 < nu" and ex: "\<exists>x \<in> set F. nu \<le> snd x"
  shows "\<exists>r F' s'. malloc_loop g nu (freep s) (hptr s (freep s)) s = Some (r, s') \<and> r \<noteq> 0 \<and> same_bytes A s s' \<and> heap F' (insert (r - 8, nu) A) s' \<and> (r - 8, nu) \<notin> A"
proof -
  obtain F' r s' where m: "malloc_loop g nu (freep s) (hptr s (freep s)) s = Some (r + 8, s')" "heap F' (insert (r, nu) A) s'" "same_bytes A s s'" "cov (r, nu) \<subseteq> covers F"
    by (rule malloc_loop_found [OF h nu ex])
  have "(r, nu) \<notin> A"
  proof
    assume "(r, nu) \<in> A"
    then have "cov (r, nu) \<inter> covers F = {}" using heapD(8) [OF h] by blast
    then have "cov (r, nu) = {}" using m(4) by blast
    then show False using unat_pos [OF nu] by (simp add: cov_def)
  qed
  moreover have "fin (r, nu) \<le> 2 ^ 31" "unat r + 8 \<le> fin (r, nu)"
    using cov_within(2,3) [OF heapD(7,6) [OF m(2)], of "(r, nu)"] heapD(3) [OF m(2)] by simp_all
  then have "unat (r + 8) = unat r + 8" by (simp add: unat_word_ariths)
  then have "r + 8 \<noteq> 0" by auto
  ultimately show ?thesis using m(1-3) by (intro exI [of _ "r + 8"] exI [of _ F'] exI [of _ s']) simp
qed

lemma malloc_grows:
  assumes h: "heap F A s" and nu: "0 < nu" and no: "\<not> (\<exists>x \<in> set F. nu \<le> snd x)"
  shows "malloc_loop g nu (freep s) (hptr s (freep s)) s =
    (case morecore g nu s of None \<Rightarrow> None | Some (r, s) \<Rightarrow> if r = 0 then Some (0, s) else malloc_loop g nu r (hptr s r) s)"
proof -
  obtain R where R: "chain s (freep s) R (freep s)" "insert (freep s, hsize s (freep s)) (set R) = insert (base s, 0) (set F)" "freep s \<notin> fst ` set R"
    by (rule ring_from [OF h])
  have small: "snd x < nu" if "x \<in> insert (freep s, hsize s (freep s)) (set R)" for x using that no nu unfolding R(2) by (auto simp: not_le)
  have "\<forall>x \<in> set R. snd x < nu \<and> fst x \<noteq> freep s" using small R(3) by force
  from malloc_loop_skip [OF R(1) this] show ?thesis
    using small [of "(freep s, hsize s (freep s))"] malloc_loop.simps [of g nu "tail_node (freep s) R" "freep s" s] by (simp add: not_le [symmetric])
qed

lemma malloc_ok:
  assumes h: "heap F A s" and n: "unat nbytes \<le> 2 ^ 30"
  shows "\<exists>r s'. malloc g nbytes s = Some (r, s') \<and> same_bytes A s s' \<and>
    (r = 0 \<and> (\<exists>F'. heap F' A s') \<or> r \<noteq> 0 \<and> (\<exists>F' k. heap F' (insert (r - 8, k) A) s' \<and> (r - 8, k) \<notin> A \<and> unat nbytes + 8 \<le> 8 * unat k))"
proof -
  define nu where "nu = (nbytes + 8 - 1) div 8 + 1"
  note u = units [OF n, folded nu_def]
  have m: "malloc g nbytes s = malloc_loop g nu (freep s) (hptr s (freep s)) s"
    using freep_nonzero [OF h] by (simp add: malloc_def malloc_init_def Let_def nu_def)
  show ?thesis
  proof (cases "\<exists>x \<in> set F. nu \<le> snd x")
    case True
    show ?thesis unfolding m using malloc_found [OF h u(2) True, of g] u(3) by blast
  next
    case False
    note g = malloc_grows [OF h u(2) False, of g]
    show ?thesis
    proof (rule morecore_ok [OF h u(1,2), of g])
      assume "morecore g nu s = Some (0, s)"
      then show ?thesis unfolding m g using h by (auto simp: same_bytes_def)
    next
      fix F' s'
      assume a: "morecore g nu s = Some (freep s', s')" "freep s' \<noteq> 0" "heap F' A s'" "same_bytes A s s'" "\<exists>x \<in> set F'. nu \<le> snd x"
      show ?thesis unfolding m g using malloc_found [OF a(3) u(2) a(5), of g] a(1,2) u(3) same_bytes_trans [OF a(4)] by auto
    qed
  qed
qed

text \<open>C10. \<open>malloc\<close> and \<open>free\<close> always return and keep the heap well formed: free and allocated blocks are disjoint, the free ones are in
  a ring in the order of their addresses and no two of them are adjacent.  \<open>malloc\<close> returns null or a new block with room for the bytes
  asked for; \<open>free\<close> gives back exactly the block it is given; and neither changes a byte of any other allocated block.\<close>

theorem malloc_free_safe:
  assumes "heap F A s"
  shows "(unat nbytes \<le> 2 ^ 30 \<longrightarrow> (\<exists>r s'. malloc g nbytes s = Some (r, s') \<and> same_bytes A s s' \<and>
      (r = 0 \<and> (\<exists>F'. heap F' A s') \<or> r \<noteq> 0 \<and> (\<exists>F' k. heap F' (insert (r - 8, k) A) s' \<and> (r - 8, k) \<notin> A \<and> unat nbytes + 8 \<le> 8 * unat k)))) \<and>
    ((a, n) \<in> A \<longrightarrow> (\<exists>F' s'. free (a + 8) s = Some s' \<and> heap F' (A - {(a, n)}) s' \<and> covers F' = covers F \<union> cov (a, n) \<and> same_bytes (A - {(a, n)}) s s'))"
proof (intro conjI impI)
  assume a: "(a, n) \<in> A"
  have l: "heap F (A - {(a, n)}) s" "loose (a, n) F (A - {(a, n)}) s" using loose_allocated [OF assms a] by simp_all
  obtain F' s' where "free (a + 8) s = Some s'" "heap F' (A - {(a, n)}) s'" "covers F' = covers F \<union> cov (a, n)" "base s' = base s" "brk s' = brk s"
    "\<forall>y \<in> A - {(a, n)}. \<forall>b. unat b \<in> cov y \<longrightarrow> ubytes s' b = ubytes s b" by (rule free_ok [OF l])
  then show "\<exists>F' s'. free (a + 8) s = Some s' \<and> heap F' (A - {(a, n)}) s' \<and> covers F' = covers F \<union> cov (a, n) \<and> same_bytes (A - {(a, n)}) s s'"
    unfolding same_bytes_def by blast
qed (rule malloc_ok [OF assms])

lemma fresh_heap:
  assumes "freep s = 0" "0 < base s" "unat (base s) + 8 \<le> unat (brk s)" "unat (brk s) \<le> 2 ^ 31"
  shows "heap [] {} (malloc_init s)"
proof -
  have b: "unat (base s) + 8 \<le> 2 ^ 31" using assms by simp
  show ?thesis using assms hdr_simps [OF b] by (simp add: malloc_init_def heap_def ascending_def)
qed

text \<open>The first call on a fresh program: no free list yet.\<close>

lemma malloc_fresh: "freep s = 0 \<Longrightarrow> 0 < base s \<Longrightarrow> malloc g n s = malloc g n (malloc_init s)"
  by (auto simp: malloc_def malloc_init_def word_gt_0)

definition demo_heap :: umem where
  "demo_heap = set_hsize 0x1800 2 (malloc_init \<lparr>ubytes = (\<lambda>_. 0), base = 0x1000, freep = 0, brk = 0x2000\<rparr>)"

lemma demo_heap_ok: "heap [] {(0x1800, 2)} demo_heap"
proof -
  let ?s = "malloc_init \<lparr>ubytes = (\<lambda>_. 0), base = 0x1000, freep = 0, brk = 0x2000\<rparr>"
  have h: "heap [] {} ?s" by (rule fresh_heap) simp_all
  have b: "base ?s = 0x1000" "brk ?s = 0x2000" by (simp_all add: malloc_init_def)
  have "hptr demo_heap 0x1000 = hptr ?s 0x1000" "hsize demo_heap 0x1000 = hsize ?s 0x1000" "hsize demo_heap 0x1800 = 2"
    unfolding demo_heap_def by (simp_all add: hdr_simps(3,7,8) apart8_def)
  then show ?thesis using h b unfolding heap_def demo_heap_def by (simp add: cov_def)
qed

theorem malloc_free_safe_witness:
  "heap [] {(0x1800, 2)} demo_heap \<and> (\<exists>F' s'. free 0x1808 demo_heap = Some s' \<and> heap F' {} s') \<and>
   (\<exists>r s'. malloc (\<lambda>_ _. True) 100 demo_heap = Some (r, s') \<and> same_bytes {(0x1800, 2)} demo_heap s')"
  using malloc_free_safe [OF demo_heap_ok, where nbytes = 100 and g = "\<lambda>_ _. True" and a = "0x1800" and n = 2] demo_heap_ok by auto

subsection \<open>Requests that wrap around\<close>

text \<open>A request within seven bytes of the largest number is served like one for no bytes at all.\<close>

lemma malloc_wraps:
  assumes "2 ^ 32 - 7 \<le> unat nbytes"
  shows "malloc g nbytes s = malloc g 0 s"
proof -
  define x where "x = unat nbytes"
  have x: "x < 2 ^ 32" "2 ^ 32 \<le> x + 7" using assms unsigned_less [of nbytes, where 'a = nat] by (simp_all add: x_def)
  have "unat (nbytes + 7) = (x + 7) mod 2 ^ 32" by (simp add: x_def unat_word_ariths)
  also have "\<dots> = (x + 7 - 2 ^ 32) mod 2 ^ 32" by (rule le_mod_geq [OF x(2)])
  also have "\<dots> = x + 7 - 2 ^ 32" using x(1) by (intro mod_less) simp
  finally have "unat (nbytes + 7) < 8" using x(1) by simp
  then have "unat ((nbytes + 7) div 8) = 0" by (simp only: unat_div_distrib) simp
  moreover have "nbytes + 8 - 1 = nbytes + 7" by simp
  ultimately have "unat ((nbytes + 8 - 1) div 8) = 0" by (simp add: add.commute)
  then have "(nbytes + 8 - 1) div 8 = 0" by (simp only: unat_eq_0)
  then show ?thesis by (simp add: malloc_def)
qed

end
