(* ===== verification/Spec2Isabelle.thy ===== *)
theory Spec2Isabelle
  imports Scheduler_Props Texttools Sh_Print Fds Mkfs_Read Umalloc_Safe
begin

text \<open>
  A verification development for the xv6 kernel for x86 with the project's schedulers, its file system and
  some of its user programs (src/).

  \<^bold>\<open>The program.\<close>  Processors share one kernel.  Spin locks (spinlock.c) guard its tables; pages come from a
  free list kept in the free pages (kalloc.c), and address spaces are built of them (vm.c).  The process
  table (proc.c) has allocation, sleep and wakeup, exit and wait, the scheduler in a round-robin and a
  lottery build (random.c), and the performance records the project adds.  Below the file-system calls
  (sysfile.c, file.c, pipe.c) are inodes and directories (fs.c), a write-ahead log (log.c), a buffer cache
  (bio.c, sleeplock.c) and the disk.  mkfs.c builds the image that the kernel mounts.  User programs reach the
  kernel through checked arguments (syscall.c) and the console (console.c), and have a library (ulib.c,
  printf.c, umalloc.c), a shell (sh.c) and text tools (grep.c, wc.c, uniq.c).

  \<^bold>\<open>Outcomes.\<close>  An operation takes the state and returns a value with the new state (\<open>Ret\<close>), or it panics, spins
  on a lock, gives up the processor or never ends (\<open>Prelude\<close>).  C's \<open>int\<close> and \<open>uint\<close> are 32-bit words.  There are
  two record chains of states.  Processors, memory and processes are \<open>mach\<close>, \<open>kmem\<close>, \<open>pst\<close>; disk, log, file
  system, open files and console are \<open>dstate\<close>, \<open>lstate\<close>, \<open>fs_st\<close>, \<open>file_st\<close>, \<open>cons_st\<close>.  Each extends the one before, as
  each component of the kernel calls those below it.

  \<^bold>\<open>Kernel core.\<close>
  \<^item> \<open>Spinlock\<close> (spinlock.c): the functions, and an interleaving of atomic steps of many processors; mutual
    exclusion, and that the functions are runs of the steps.
  \<^item> \<open>Memory\<close> (string.c), \<open>Kalloc\<close> (kalloc.c): the allocator refines a list of free pages.
  \<^item> \<open>VM\<close>, \<open>VM_Frame\<close> (vm.c): page tables as words of memory, and what the code leaves alone.
  \<^item> \<open>Proc\<close>, \<open>Proc_Atomic\<close>, \<open>Proc_Wait\<close>, \<open>Proc_Props\<close> (proc.c): each operation, that from a state without locks
    it equals an atomic change, every branch of allocation, kill, exit and wait, no lost wakeup, and the lock
    order of \<open>allocproc\<close> against the timer interrupt.
  \<^item> \<open>LCG\<close>, \<open>Scheduler\<close>, \<open>Scheduler_Props\<close> (random.c, proc.c): one turn runs every ready process; a process wins
    the lottery for as many draws as it has tickets, up to the 32768 values the generator has.

  \<^bold>\<open>Storage.\<close>
  \<^item> \<open>Bytes\<close>, \<open>Bio\<close> (bio.c, memide.c, sleeplock.c): the cache refines a store of blocks.
  \<^item> \<open>Log\<close>, \<open>Log_Props\<close>, \<open>Log_Crash\<close> (log.c): a crash at any write of a commit leaves all of it or nothing, and
    recovery may itself be interrupted.
  \<^item> \<open>FS\<close>, \<open>FS_Tx\<close>, \<open>FS_Alloc\<close>, \<open>FS_Inode\<close>, \<open>FS_File\<close>, \<open>FS_RW\<close>, \<open>FS_Props\<close>, \<open>FS_Icache\<close>, \<open>FS_Dir\<close> (fs.c): the block
    allocator, reading and writing as operations on one list of bytes, the table of inodes, directories as
    tables of names, path elements.
  \<^item> \<open>Ring\<close>, \<open>Pipe\<close> (pipe.c): readers get the bytes of the writers in order, for any interleaving.
  \<^item> \<open>Syscall\<close> (syscall.c): addresses from the user stay inside the process.
  \<^item> \<open>File\<close>, \<open>Sysfile\<close> (file.c, sysfile.c): open files and the calls.
  \<^item> \<open>File_Frame\<close>, \<open>File_Refs\<close>, \<open>Fds\<close>: what the file system leaves alone, and the composition of the process table,
    \<open>fork\<close> and \<open>exit\<close> with the calls; the count of every open file is exact in every reachable state.
  \<^item> \<open>Console\<close> (console.c): line editing as a queue of finished lines and a line being edited.
  \<^item> \<open>Mkfs\<close>, \<open>Mkfs_Image\<close>, \<open>Mkfs_Files\<close>, \<open>Mkfs_Props\<close>, \<open>Mkfs_Boot\<close>, \<open>Mkfs_Read\<close> (mkfs.c): what mkfs stores the
    kernel's own lookup and read functions give back.

  \<^bold>\<open>User programs.\<close>
  \<^item> \<open>Ulib\<close> (ulib.c, printf.c, generate_report.c): printed numbers read back.
  \<^item> \<open>Umalloc\<close>, \<open>Umalloc_Props\<close>, \<open>Umalloc_Safe\<close> (umalloc.c): the ring of free blocks in user memory.
  \<^item> \<open>Sh\<close>, \<open>Sh_Print\<close> (sh.c): the parser ends, and inverts the printing of command trees.
  \<^item> \<open>Grep\<close>, \<open>Texttools\<close> (grep.c, wc.c, uniq.c): the matcher against its declarative meaning, the line loops.

  \<^bold>\<open>Interfaces.\<close>  Lock (\<open>lock_protocol\<close>), page allocator, block store and ring buffer are locales, interpreted on the definitions of the
  components that provide them.

  \<^bold>\<open>Loops and bounds.\<close>  Most loops end by structural recursion or a measure.  The mutually recursive parser of
  the shell has fuel; \<open>enough_fuel\<close>, four units for each character of the input and four more, is proved to be
  enough, since every round of the four functions consumes a character.  The loops of \<open>malloc\<close>, \<open>free\<close> and \<open>strlen\<close>
  may run for ever on arbitrary memory and are partial functions; that they return is proved for well-formed
  heaps and terminated strings.  A loop whose address would wrap around has the outcome \<open>Diverge\<close>, as has an
  output after a panic and a log header that claims more blocks than there are.  The bound 2000 in \<open>refs\<close> is
  above the 1024 descriptors that 64 processes of 16 can have, and far below the range of the 32-bit count.

  \<^bold>\<open>Granularity.\<close>  The storage part describes the process that executes: a section under a spin lock is one step
  and a call that must wait has the outcome \<open>Sleep\<close>.  \<open>Pipe\<close>, \<open>Fds\<close>, \<open>Spinlock\<close> and \<open>Log_Crash\<close> consider more than
  one process, processor or run.  In \<open>Fds\<close> a call that returns is one step, and calls that sleep half-way are
  not interleaved with others; the process functions that do not concern files are one rule that states
  what they leave alone.

  \<^bold>\<open>Not modelled.\<close>  Device registers: ide.c, kbd.c, uart.c, lapic.c, ioapic.c, picirq.c and mp.c; characters from
  the keyboard are an argument and the disk is the one of memide.c.  Assembly and boot code: bootasm.S,
  bootmain.c, entry.S, entryother.S, swtch.S, trapasm.S, initcode.S, usys.S, main.c.  \<open>exec\<close>, \<open>loaduvm\<close>, the memory
  part of \<open>fork\<close>, \<open>userinit\<close>, and the dispatch in trap.c and sysproc.c, which would join the two record chains into
  one state.  \<open>procdump\<close>, \<open>getcallerpcs\<close> and the text of messages, which only print.  The FIFO build of the
  scheduler, which cannot be compiled.  \<open>runcmd\<close> of the shell, the small user programs, and the test programs,
  which only make system calls.
\<close>

end
